(* ===== verification/Nut_Prelude.thy ===== *)
theory Nut_Prelude
  imports Main "HOL-Library.Word"
begin

text \<open>
  Shared vocabulary of the Nut/OS development: the collections of rewrite rules the
  component theories extend, unsigned 32-bit arithmetic on natural numbers with the
  wrap-around of C written out, and the alignment macros of \<^verbatim>\<open>include/sys/types.h\<close>.
\<close>

named_theorems wrap_simps \<open>unsigned arithmetic that stays in range\<close>
named_theorems kernel_defs \<open>definitions of the kernel that proofs unfold together\<close>
named_theorems frame_simps \<open>what an operation leaves unchanged\<close>

type_synonym u8 = "8 word"
type_synonym u16 = "16 word"
type_synonym u32 = "32 word"

text \<open>Addresses and pointer values are natural numbers; 0 is the null pointer.\<close>

type_synonym addr = nat

abbreviation (input) NULL :: addr where
  "NULL \<equiv> 0"

section \<open>Unsigned arithmetic with wrap-around\<close>

definition uadd :: "nat \<Rightarrow> nat \<Rightarrow> nat" where
  "uadd a b = (a + b) mod 2 ^ 32"

definition usub :: "nat \<Rightarrow> nat \<Rightarrow> nat" where
  "usub a b = (a + (2 ^ 32 - b mod 2 ^ 32)) mod 2 ^ 32"

lemma uadd_exact [wrap_simps]: "a + b < 4294967296 \<Longrightarrow> uadd a b = a + b"
  by (simp add: uadd_def)

lemma uadd_zero [simp]: "a < 4294967296 \<Longrightarrow> uadd a 0 = a"
  by (simp add: uadd_def)

lemma uadd_bound: "uadd a b < 4294967296"
  by (simp add: uadd_def)

lemma usub_exact [wrap_simps]:
  assumes "b \<le> a" and "a < 4294967296"
  shows "usub a b = a - b"
proof -
  have "a + (4294967296 - b) = (a - b) + 4294967296"
    using assms by simp
  then have "(a + (4294967296 - b)) mod 4294967296 = (a - b) mod 4294967296"
    by (metis mod_add_self2)
  with assms show ?thesis
    by (simp add: usub_def)
qed

section \<open>Alignment\<close>

text \<open>
  \<^verbatim>\<open>NUTMEM_BOTTOM_ALIGN\<close> and \<^verbatim>\<open>NUTMEM_TOP_ALIGN\<close> for an alignment of four bytes, as the
  32-bit targets configure it: masking the two low bits subtracts the remainder.
\<close>

definition NUTMEM_BOTTOM_ALIGN :: "nat \<Rightarrow> nat" where
  "NUTMEM_BOTTOM_ALIGN s = s - s mod 4"

definition NUTMEM_TOP_ALIGN :: "nat \<Rightarrow> nat" where
  "NUTMEM_TOP_ALIGN s = NUTMEM_BOTTOM_ALIGN (uadd s 3)"

lemma bottom_align_mod [simp]: "NUTMEM_BOTTOM_ALIGN s mod 4 = 0"
  by (simp add: NUTMEM_BOTTOM_ALIGN_def minus_mod_eq_mult_div)

lemma top_align_mod [simp]: "NUTMEM_TOP_ALIGN s mod 4 = 0"
  by (simp add: NUTMEM_TOP_ALIGN_def)

lemma bottom_align_le: "NUTMEM_BOTTOM_ALIGN s \<le> s"
  by (simp add: NUTMEM_BOTTOM_ALIGN_def)

lemma bottom_align_ge: "s < NUTMEM_BOTTOM_ALIGN s + 4"
proof -
  have "s mod 4 < 4" by simp
  then show ?thesis unfolding NUTMEM_BOTTOM_ALIGN_def by linarith
qed

lemma top_align_ge: "s + 3 < 4294967296 \<Longrightarrow> s \<le> NUTMEM_TOP_ALIGN s"
  using bottom_align_ge [of "s + 3"] by (simp add: NUTMEM_TOP_ALIGN_def wrap_simps)

lemma top_align_le: "s + 3 < 4294967296 \<Longrightarrow> NUTMEM_TOP_ALIGN s \<le> s + 3"
  using bottom_align_le [of "s + 3"] by (simp add: NUTMEM_TOP_ALIGN_def wrap_simps)

lemma top_align_bound: "NUTMEM_TOP_ALIGN s < 4294967296"
  using bottom_align_le [of "uadd s 3"] uadd_bound [of s 3]
  by (simp add: NUTMEM_TOP_ALIGN_def)

lemma top_align_fixed: "s mod 4 = 0 \<Longrightarrow> s + 3 < 4294967296 \<Longrightarrow> NUTMEM_TOP_ALIGN s = s"
proof -
  assume s: "s mod 4 = 0" "s + 3 < 4294967296"
  then have "(s + 3) mod 4 = 3" by presburger
  with s show ?thesis
    by (simp add: NUTMEM_TOP_ALIGN_def NUTMEM_BOTTOM_ALIGN_def wrap_simps)
qed

section \<open>Lists and options\<close>

text \<open>
  An address that is aligned and below an aligned bound leaves a whole cell below it.
\<close>

lemma aligned_gap:
  "(a::nat) mod 4 = 0 \<Longrightarrow> b mod 4 = 0 \<Longrightarrow> a < b \<Longrightarrow> a + 4 \<le> b"
  by presburger

lemma aligned_neq_gap:
  "(a::nat) mod 4 = 0 \<Longrightarrow> b mod 4 = 0 \<Longrightarrow> a \<noteq> b \<Longrightarrow> a + 4 \<le> b \<or> b + 4 \<le> a"
  by presburger

end
