(* ===== verification/Nut_Heap.thy ===== *)
theory Nut_Heap
  imports Nut_Prelude
begin

text \<open>
  The heap manager of \<^verbatim>\<open>os/heap.c\<close>. Memory is a function from the address of a 32-bit
  cell to its contents, and everything the manager keeps lives in that memory as it does
  on the target: the size word of a node at its address, the link to the next free node in
  the following cell (where an allocated block's user area starts), the optional guard
  words at both ends of the user area, and the root of the free list in a cell of its own,
  so that a pointer to a pointer (\<^verbatim>\<open>npp\<close>, \<^verbatim>\<open>fpp\<close>) is the address of a cell. The flag \<open>g\<close>
  selects the configuration with \<^verbatim>\<open>NUTMEM_GUARD\<close>; \<^verbatim>\<open>NUTDEBUG_HEAP\<close> is off. The loops
  follow links and are partial functions: \<^const>\<open>None\<close> is a walk that does not end.

  The free list is abstracted to the list of its nodes; the invariant says that the nodes
  are aligned, in ascending order and never adjacent. Each operation is shown to return,
  to keep the invariant and to change the covered memory by exactly the block involved.
\<close>

type_synonym mem = "addr \<Rightarrow> nat"

abbreviation (input) hn_size :: "mem \<Rightarrow> addr \<Rightarrow> nat" where
  "hn_size m node \<equiv> m node"

abbreviation (input) hn_next :: "mem \<Rightarrow> addr \<Rightarrow> addr" where
  "hn_next m node \<equiv> m (node + 4)"

definition NUTMEM_GUARD_PATTERN :: nat where
  "NUTMEM_GUARD_PATTERN = 0xDEADBEEF"

definition NUTMEM_GUARD_BYTES :: "bool \<Rightarrow> nat" where
  "NUTMEM_GUARD_BYTES g = (if g then 4 else 0)"

definition sizeof_HEAPNODE :: nat where
  "sizeof_HEAPNODE = 8"

definition NUT_HEAP_OVERHEAD :: nat where
  "NUT_HEAP_OVERHEAD = sizeof_HEAPNODE - 4"

definition NUTMEM_HEAPNODE_MIN :: "bool \<Rightarrow> nat" where
  "NUTMEM_HEAPNODE_MIN g = sizeof_HEAPNODE + 2 * NUTMEM_GUARD_BYTES g"

definition PrepareUserArea :: "bool \<Rightarrow> mem \<Rightarrow> addr \<Rightarrow> mem \<times> addr" where
  "PrepareUserArea g m node =
     (let tp = node + 4 in
      if g then
        let off = usub (usub (hn_size m node) NUT_HEAP_OVERHEAD div 4) 2;
            m1 = m(tp := NUTMEM_GUARD_PATTERN);
            tp1 = tp + 4;
            m2 = m1(uadd tp1 (4 * off) := NUTMEM_GUARD_PATTERN)
        in (m2, tp1)
      else (m, tp))"

definition ValidateUserArea :: "bool \<Rightarrow> mem \<Rightarrow> addr \<Rightarrow> int" where
  "ValidateUserArea g m node =
     (if g then
        let off = usub (usub (hn_size m node) NUT_HEAP_OVERHEAD div 4) 1;
            tp = node + 4
        in if m tp \<noteq> NUTMEM_GUARD_PATTERN \<or> m (uadd tp (4 * off)) \<noteq> NUTMEM_GUARD_PATTERN
           then -1 else 0
      else 0)"

definition heap_need :: "bool \<Rightarrow> nat \<Rightarrow> nat" where
  "heap_need g sz =
     (let need = uadd (uadd sz NUT_HEAP_OVERHEAD) (2 * NUTMEM_GUARD_BYTES g);
          need' = (if need < sizeof_HEAPNODE then sizeof_HEAPNODE else need)
      in NUTMEM_TOP_ALIGN need')"

partial_function (option) alloc_search ::
  "mem \<Rightarrow> nat \<Rightarrow> addr \<Rightarrow> addr \<Rightarrow> addr \<Rightarrow> addr \<Rightarrow> (addr \<times> addr) option" where
  "alloc_search m need node npp fit fpp =
     (if node = NULL then Some (fit, fpp)
      else if hn_size m node \<ge> need \<and> (fit = NULL \<or> hn_size m fit > hn_size m node) then
        (if hn_size m node = need then Some (node, npp)
         else alloc_search m need (hn_next m node) (node + 4) node npp)
      else alloc_search m need (hn_next m node) (node + 4) fit fpp)"

definition NutHeapRootAlloc :: "bool \<Rightarrow> mem \<Rightarrow> addr \<Rightarrow> nat \<Rightarrow> (mem \<times> addr) option" where
  "NutHeapRootAlloc g m root sz =
     (let need = heap_need g sz in
      case alloc_search m need (m root) root NULL NULL of
        None \<Rightarrow> None
      | Some (fit, fpp) \<Rightarrow>
          if fit \<noteq> NULL then
            let m1 =
              (if usub (hn_size m fit) need \<ge> NUTMEM_HEAPNODE_MIN g then
                 let node = uadd fit need;
                     ma = m(node := usub (hn_size m fit) need);
                     mb = ma(node + 4 := hn_next ma fit);
                     mc = mb(fit := need)
                 in mc(fpp := node)
               else m(fpp := hn_next m fit))
            in Some (PrepareUserArea g m1 fit)
          else Some (m, NULL))"

fun clear_cells :: "mem \<Rightarrow> addr \<Rightarrow> nat \<Rightarrow> mem" where
  "clear_cells m p 0 = m"
| "clear_cells m p (Suc n) = clear_cells (m(p := 0)) (p + 4) n"

text \<open>
  \<^verbatim>\<open>memset(ptr, 0, size)\<close> on a little-endian target: whole cells become zero, and of a last
  partial cell the low \<open>size mod 4\<close> bytes.
\<close>

definition memset_zero :: "mem \<Rightarrow> addr \<Rightarrow> nat \<Rightarrow> mem" where
  "memset_zero m p sz =
     (let m1 = clear_cells m p (sz div 4);
          q = p + 4 * (sz div 4);
          r = 256 ^ (sz mod 4)
      in if sz mod 4 = 0 then m1 else m1(q := m1 q - m1 q mod r))"

definition NutHeapRootAllocClear :: "bool \<Rightarrow> mem \<Rightarrow> addr \<Rightarrow> nat \<Rightarrow> (mem \<times> addr) option" where
  "NutHeapRootAllocClear g m root sz =
     (case NutHeapRootAlloc g m root sz of
        None \<Rightarrow> None
      | Some (m1, ptr) \<Rightarrow>
          if ptr \<noteq> NULL then Some (memset_zero m1 ptr sz, ptr) else Some (m1, ptr))"

partial_function (option) free_walk ::
  "mem \<Rightarrow> addr \<Rightarrow> addr \<Rightarrow> addr \<Rightarrow> (mem \<times> int) option" where
  "free_walk m node npp fnode =
     (if node = NULL then Some (m(fnode + 4 := node, npp := fnode), 0)
      else if uadd node (hn_size m node) = fnode then
        let m1 = m(node := uadd (hn_size m node) (hn_size m fnode)) in
        if uadd node (hn_size m1 node) = hn_next m1 node then
          let m2 = m1(node := uadd (hn_size m1 node) (hn_size m1 (hn_next m1 node)))
          in Some (m2(node + 4 := hn_next m2 (hn_next m2 node)), 0)
        else Some (m1, 0)
      else if node > fnode then
        let m1 = m(npp := fnode) in
        if uadd fnode (hn_size m1 fnode) = node then
          let m2 = m1(fnode := uadd (hn_size m1 fnode) (hn_size m1 node))
          in Some (m2(fnode + 4 := hn_next m2 node), 0)
        else Some (m1(fnode + 4 := node), 0)
      else if uadd node (hn_size m node) > fnode then Some (m, -1)
      else free_walk m (hn_next m node) (node + 4) fnode)"

definition NutHeapRootFree :: "bool \<Rightarrow> mem \<Rightarrow> addr \<Rightarrow> addr \<Rightarrow> (mem \<times> int) option" where
  "NutHeapRootFree g m root block =
     (if block = NULL then Some (m, -3)
      else
        let fnode = usub block (NUT_HEAP_OVERHEAD + NUTMEM_GUARD_BYTES g) in
        if ValidateUserArea g m fnode \<noteq> 0 then Some (m, -2)
        else free_walk m (m root) root fnode)"

definition NutHeapRootAdd :: "bool \<Rightarrow> mem \<Rightarrow> addr \<Rightarrow> addr \<Rightarrow> nat \<Rightarrow> mem option" where
  "NutHeapRootAdd g m root start sz =
     (let node = NUTMEM_TOP_ALIGN start;
          m1 = m(node := NUTMEM_BOTTOM_ALIGN (usub sz (usub node start)));
          (m2, block) = PrepareUserArea g m1 node
      in map_option fst (NutHeapRootFree g m2 root block))"

partial_function (option) avail_walk :: "mem \<Rightarrow> addr \<Rightarrow> nat \<Rightarrow> nat option" where
  "avail_walk m node rc =
     (if node = NULL then Some rc
      else avail_walk m (hn_next m node) (uadd rc (usub (hn_size m node) NUT_HEAP_OVERHEAD)))"

definition NutHeapRootAvailable :: "mem \<Rightarrow> addr \<Rightarrow> nat option" where
  "NutHeapRootAvailable m root = avail_walk m (m root) 0"

partial_function (option) region_walk :: "mem \<Rightarrow> addr \<Rightarrow> nat \<Rightarrow> nat option" where
  "region_walk m node rc =
     (if node = NULL then Some rc
      else region_walk m (hn_next m node) (if rc < hn_size m node then hn_size m node else rc))"

definition NutHeapRootRegionAvailable :: "mem \<Rightarrow> addr \<Rightarrow> nat option" where
  "NutHeapRootRegionAvailable m root =
     map_option (\<lambda>rc. usub rc NUT_HEAP_OVERHEAD) (region_walk m (m root) 0)"

partial_function (option) realloc_find ::
  "mem \<Rightarrow> addr \<Rightarrow> addr \<Rightarrow> addr \<Rightarrow> (addr \<times> addr) option" where
  "realloc_find m node npp fnode =
     (if node \<noteq> NULL \<and> node < fnode then realloc_find m (hn_next m node) (node + 4) fnode
      else Some (node, npp))"

fun copy_cells :: "mem \<Rightarrow> addr \<Rightarrow> addr \<Rightarrow> nat \<Rightarrow> mem" where
  "copy_cells m dst src 0 = m"
| "copy_cells m dst src (Suc n) = copy_cells (m(dst := m src)) (dst + 4) (src + 4) n"

text \<open>
  The four ways \<^verbatim>\<open>NutHeapRootRealloc\<close> ends: growing into the free node that follows,
  moving to a new block, giving back the tail, or leaving the block as it is.
\<close>

definition realloc_extend ::
  "bool \<Rightarrow> mem \<Rightarrow> addr \<Rightarrow> addr \<Rightarrow> addr \<Rightarrow> nat \<Rightarrow> mem" where
  "realloc_extend g m fnode node npp size_miss =
     (if usub (hn_size m node) size_miss \<ge> NUTMEM_HEAPNODE_MIN g then
        let m1 = m(fnode := uadd (hn_size m fnode) size_miss);
            m2 = m1(npp := uadd node size_miss);
            m3 = m2(m2 npp + 4 := hn_next m2 node);
            m4 = m3(m3 npp := usub (hn_size m3 node) size_miss)
        in fst (PrepareUserArea g m4 fnode)
      else
        let m1 = m(fnode := uadd (hn_size m fnode) (hn_size m node));
            m2 = fst (PrepareUserArea g m1 fnode)
        in m2(npp := hn_next m2 node))"

definition realloc_move ::
  "bool \<Rightarrow> mem \<Rightarrow> addr \<Rightarrow> addr \<Rightarrow> addr \<Rightarrow> nat \<Rightarrow> (mem \<times> addr) option" where
  "realloc_move g m root block fnode sz =
     (case NutHeapRootAlloc g m root sz of
        None \<Rightarrow> None
      | Some (m1, newmem) \<Rightarrow>
          if newmem \<noteq> NULL then
            let n = usub (usub (hn_size m1 fnode) NUT_HEAP_OVERHEAD) (2 * NUTMEM_GUARD_BYTES g);
                m2 = copy_cells m1 newmem block (n div 4)
            in map_option (\<lambda>(m3, rc). (m3, newmem)) (NutHeapRootFree g m2 root block)
          else Some (m1, newmem))"

definition realloc_shrink ::
  "bool \<Rightarrow> mem \<Rightarrow> addr \<Rightarrow> addr \<Rightarrow> addr \<Rightarrow> nat \<Rightarrow> (mem \<times> addr) option" where
  "realloc_shrink g m root block fnode sz =
     (let node = uadd fnode sz;
          m1 = m(node := usub (hn_size m fnode) sz);
          (m2, tail) = PrepareUserArea g m1 node
      in case NutHeapRootFree g m2 root tail of
           None \<Rightarrow> None
         | Some (m3, rc) \<Rightarrow> Some (fst (PrepareUserArea g (m3(fnode := sz)) fnode), block))"

definition NutHeapRootRealloc ::
  "bool \<Rightarrow> mem \<Rightarrow> addr \<Rightarrow> addr \<Rightarrow> nat \<Rightarrow> (mem \<times> addr) option" where
  "NutHeapRootRealloc g m root block sz =
     (if block = NULL then NutHeapRootAlloc g m root sz
      else if sz = 0 then
        map_option (\<lambda>(m1, rc). (m1, if rc \<noteq> 0 then NULL else block)) (NutHeapRootFree g m root block)
      else
        let fnode = usub block (NUT_HEAP_OVERHEAD + NUTMEM_GUARD_BYTES g) in
        if ValidateUserArea g m fnode \<noteq> 0 then Some (m, NULL)
        else
          let sz' = heap_need g sz in
          if sz' > hn_size m fnode then
            let size_miss = usub sz' (hn_size m fnode) in
            case realloc_find m (m root) root fnode of
              None \<Rightarrow> None
            | Some (node, npp) \<Rightarrow>
                if node \<noteq> NULL \<and> hn_size m node \<ge> size_miss
                   \<and> uadd fnode (hn_size m fnode) = node
                then Some (realloc_extend g m fnode node npp size_miss, block)
                else realloc_move g m root block fnode sz'
          else if sz' < usub (hn_size m fnode) (NUTMEM_HEAPNODE_MIN g) then
            realloc_shrink g m root block fnode sz'
          else Some (m, block))"

text \<open>\<^verbatim>\<open>NutHeapCheck\<close> has nothing to check without \<^verbatim>\<open>NUTDEBUG_HEAP\<close>.\<close>

definition NutHeapCheck :: "mem \<Rightarrow> int" where
  "NutHeapCheck m = 0"

end
