(* ===== verification/Nut_Heap_Alloc.thy ===== *)
theory Nut_Heap_Alloc
  imports Nut_Heap
begin

text \<open>
  The abstraction of the heap's free list to a list of nodes, and the allocation side of
  \<^verbatim>\<open>os/heap.c\<close>: the search loop finds the best fit of that list, and cutting the block out
  of the chosen node keeps the invariant \<open>heap_inv\<close>. The predicate \<open>live_block\<close> describes a
  block that has been handed out.
\<close>

section \<open>The free list as a list of nodes\<close>

fun chain :: "mem \<Rightarrow> addr \<Rightarrow> (addr \<times> nat) list \<Rightarrow> bool" where
  "chain m p [] \<longleftrightarrow> p = NULL"
| "chain m p ((a, s) # ns) \<longleftrightarrow> p = a \<and> a \<noteq> NULL \<and> hn_size m a = s \<and> chain m (hn_next m a) ns"

definition node_ok :: "addr \<Rightarrow> nat \<Rightarrow> bool" where
  "node_ok a s \<longleftrightarrow> 0 < a \<and> a mod 4 = 0 \<and> s mod 4 = 0 \<and> 8 \<le> s \<and> a + s < 4294967296"

fun wf_free :: "(addr \<times> nat) list \<Rightarrow> bool" where
  "wf_free [] \<longleftrightarrow> True"
| "wf_free ((a, s) # ns) \<longleftrightarrow> node_ok a s \<and> (\<forall>(b, t) \<in> set ns. a + s < b) \<and> wf_free ns"

definition cells :: "(addr \<times> nat) list \<Rightarrow> addr set" where
  "cells ns = (\<Union>(a, s) \<in> set ns. {a, a + 4})"

definition cover :: "(addr \<times> nat) list \<Rightarrow> addr set" where
  "cover ns = (\<Union>(a, s) \<in> set ns. {a..<a + s})"

fun link_cell :: "addr \<Rightarrow> (addr \<times> nat) list \<Rightarrow> addr" where
  "link_cell r [] = r"
| "link_cell r ((a, s) # ns) = link_cell (a + 4) ns"

definition heap_inv :: "mem \<Rightarrow> addr \<Rightarrow> (addr \<times> nat) list \<Rightarrow> bool" where
  "heap_inv m root ns \<longleftrightarrow> chain m (m root) ns \<and> wf_free ns \<and> root \<notin> cover ns \<and> root \<noteq> NULL"

fun ins_free :: "addr \<Rightarrow> nat \<Rightarrow> (addr \<times> nat) list \<Rightarrow> (addr \<times> nat) list" where
  "ins_free a s [] = [(a, s)]"
| "ins_free a s ((b, t) # ns) =
     (if b + t = a then
        (case ns of
           (c, u) # ns' \<Rightarrow> if a + s = c then (b, t + s + u) # ns' else (b, t + s) # ns
         | [] \<Rightarrow> [(b, t + s)])
      else if b > a then
        (if a + s = b then (a, s + t) # ns else (a, s) # (b, t) # ns)
      else (b, t) # ins_free a s ns)"

lemma cover_simps [simp]:
  "cover [] = {}" "cover ((a, s) # ns) = {a..<a + s} \<union> cover ns"
  "cover (xs @ ys) = cover xs \<union> cover ys"
  by (auto simp: cover_def)

lemma cells_simps [simp]:
  "cells [] = {}" "cells ((a, s) # ns) = {a, a + 4} \<union> cells ns"
  "cells (xs @ ys) = cells xs \<union> cells ys"
  by (auto simp: cells_def)

lemma node_okD:
  "node_ok a s \<Longrightarrow> 0 < a \<and> a mod 4 = 0 \<and> s mod 4 = 0 \<and> 8 \<le> s \<and> a + s < 4294967296"
  by (simp add: node_ok_def)

lemma wf_free_append:
  "wf_free (xs @ ys) \<longleftrightarrow>
     wf_free xs \<and> wf_free ys \<and> (\<forall>(a, s) \<in> set xs. \<forall>(b, t) \<in> set ys. a + s < b)"
  by (induction xs) (force simp: ball_Un)+

lemma wf_free_node: "wf_free ns \<Longrightarrow> (a, s) \<in> set ns \<Longrightarrow> node_ok a s"
  by (induction ns) auto

lemma cells_cover: "wf_free ns \<Longrightarrow> cells ns \<subseteq> cover ns"
  by (induction ns) (auto simp: node_ok_def)

lemma wf_free_after:
  "\<forall>(b, t) \<in> set ns. e < b \<Longrightarrow> x \<in> cover ns \<Longrightarrow> e < x"
  by (induction ns) auto

lemma chain_frame:
  "(\<And>x. x \<in> cells ns \<Longrightarrow> m' x = m x) \<Longrightarrow> chain m' p ns = chain m p ns"
  by (induction ns arbitrary: p) auto

lemma chain_link: "chain m (m root) (as @ bs) \<Longrightarrow> chain m (m (link_cell root as)) bs"
  by (induction as arbitrary: root) auto

lemma chain_nodes: "chain m p ns \<Longrightarrow> (a, s) \<in> set ns \<Longrightarrow> m a = s \<and> a \<noteq> NULL"
  by (induction ns arbitrary: p) auto

lemma link_cell_in: "link_cell r as = r \<or> link_cell r as \<in> cells as"
proof (induction as arbitrary: r)
  case Nil
  show ?case by simp
next
  case (Cons n as)
  obtain a s where n: "n = (a, s)" by force
  show ?case using Cons.IH [of "a + 4"] n by auto
qed

lemma chain_relink:
  assumes "chain m (m root) (as @ bs)" and "wf_free as" and "root \<notin> cover as"
    and "\<And>x. x \<in> insert root (cells as) \<Longrightarrow> x \<noteq> link_cell root as \<Longrightarrow> m' x = m x"
    and "chain m' (m' (link_cell root as)) cs"
  shows "chain m' (m' root) (as @ cs)"
  using assms
proof (induction as arbitrary: root)
  case Nil
  then show ?case by simp
next
  case (Cons n as)
  obtain a s where n: "n = (a, s)" by force
  have ok: "node_ok a s" and gap: "\<forall>(b, t) \<in> set as. a + s < b" and wf: "wf_free as"
    using Cons.prems(2) n by auto
  have out: "x \<notin> cover as" if "x \<le> a + s" for x
    using wf_free_after [OF gap, of x] that by auto
  have a4: "a + 4 \<notin> cover as" and a0: "a \<notin> cover as"
    using node_okD [OF ok] out [of "a + 4"] out [of a] by auto
  have lnk: "link_cell (a + 4) as = a + 4 \<or> link_cell (a + 4) as \<in> cover as"
    using link_cell_in [of "a + 4" as] cells_cover [OF wf] by auto
  have ra: "root \<noteq> link_cell (a + 4) as" and aa: "a \<noteq> link_cell (a + 4) as"
    using lnk Cons.prems(3) a0 node_okD [OF ok] n by auto
  have mr: "m' root = m root" and ma: "m' a = m a"
    using Cons.prems(4) ra aa n by auto
  have "chain m' (m' (a + 4)) (as @ cs)"
  proof (rule Cons.IH [OF _ wf a4])
    show "chain m (m (a + 4)) (as @ bs)" using Cons.prems(1) n by simp
    show "chain m' (m' (link_cell (a + 4) as)) cs" using Cons.prems(5) n by simp
    show "m' x = m x" if "x \<in> insert (a + 4) (cells as)" and "x \<noteq> link_cell (a + 4) as" for x
      using Cons.prems(4) [of x] that n by auto
  qed
  then show ?case using mr ma Cons.prems(1) n by simp
qed

section \<open>Allocation\<close>

text \<open>The search on the abstract list: the best node so far, its size and its link cell.\<close>

fun best_fit :: "nat \<Rightarrow> addr \<Rightarrow> (addr \<times> nat) list \<Rightarrow> (addr \<times> nat \<times> addr) option \<Rightarrow>
    (addr \<times> nat \<times> addr) option" where
  "best_fit need npp [] c = c"
| "best_fit need npp ((a, s) # ns) c =
     (if need \<le> s \<and> (case c of None \<Rightarrow> True | Some (f, t, fp) \<Rightarrow> s < t) then
        (if s = need then Some (a, s, npp) else best_fit need (a + 4) ns (Some (a, s, npp)))
      else best_fit need (a + 4) ns c)"

definition fit_of :: "(addr \<times> nat \<times> addr) option \<Rightarrow> addr \<times> addr" where
  "fit_of c = (case c of None \<Rightarrow> (NULL, NULL) | Some (f, t, fp) \<Rightarrow> (f, fp))"

lemma alloc_search_best_fit:
  assumes "chain m node ns"
    and "\<And>f t fp. c = Some (f, t, fp) \<Longrightarrow> f \<noteq> NULL \<and> m f = t"
  shows "alloc_search m need node npp (fst (fit_of c)) (snd (fit_of c)) =
     Some (fit_of (best_fit need npp ns c))"
  using assms
proof (induction ns arbitrary: node npp c)
  case Nil
  then show ?case by (simp add: alloc_search.simps)
next
  case (Cons n ns)
  obtain a s where n: "n = (a, s)" by force
  have na: "node = a" "a \<noteq> NULL" "m a = s" and ch: "chain m (m (a + 4)) ns"
    using Cons.prems(1) n by auto
  have old: "alloc_search m need (m (a + 4)) (a + 4) (fst (fit_of c)) (snd (fit_of c)) =
      Some (fit_of (best_fit need (a + 4) ns c))"
    by (rule Cons.IH [OF ch Cons.prems(2)])
  have new: "alloc_search m need (m (a + 4)) (a + 4) a npp =
      Some (fit_of (best_fit need (a + 4) ns (Some (a, s, npp))))"
    using Cons.IH [OF ch, of "Some (a, s, npp)"] na by (simp add: fit_of_def)
  show ?case
    using old new na n Cons.prems(2)
    by (subst alloc_search.simps) (auto simp: fit_of_def split: option.splits)
qed

lemma best_fit_None:
  "best_fit need npp ns c = None \<longleftrightarrow> c = None \<and> (\<forall>(a, t) \<in> set ns. t < need)"
  by (induction need npp ns c rule: best_fit.induct) (auto split: option.splits)

lemma best_fit_Some:
  assumes "best_fit need npp ns c = Some (f, s, fp)"
    and "\<And>f t fp. c = Some (f, t, fp) \<Longrightarrow> need \<le> t"
  shows "(\<forall>(a, t) \<in> set ns. need \<le> t \<longrightarrow> s \<le> t) \<and> need \<le> s \<and>
    (\<forall>f t fp. c = Some (f, t, fp) \<longrightarrow> s \<le> t) \<and>
    (c = Some (f, s, fp) \<or> (\<exists>as bs. ns = as @ (f, s) # bs \<and> fp = link_cell npp as))"
  using assms
proof (induction ns arbitrary: npp c)
  case Nil
  then show ?case by auto
next
  case (Cons n ns)
  obtain a t where n: "n = (a, t)" by force
  have lift: "\<exists>as bs. n # ns = as @ (f, s) # bs \<and> fp = link_cell npp as"
    if "ns = as @ (f, s) # bs" "fp = link_cell (a + 4) as" for as bs
    using that n by (intro exI [of _ "n # as"] exI [of _ bs]) auto
  have here: "\<exists>as bs. n # ns = as @ (a, t) # bs \<and> npp = link_cell npp as"
    using n by (intro exI [of _ "[]"] exI [of _ ns]) simp
  consider (exact) "need = t" "s = t" "f = a" "fp = npp" "\<And>f u fp. c = Some (f, u, fp) \<Longrightarrow> t < u"
    | (better) "need < t" "best_fit need (a + 4) ns (Some (a, t, npp)) = Some (f, s, fp)"
        "\<And>f u fp. c = Some (f, u, fp) \<Longrightarrow> t < u"
    | (worse) "\<not> (need \<le> t \<and> (case c of None \<Rightarrow> True | Some (f, u, fp) \<Rightarrow> t < u))"
        "best_fit need (a + 4) ns c = Some (f, s, fp)"
    using Cons.prems(1) n by (auto split: if_splits option.splits)
  then show ?case
  proof cases
    case exact
    then show ?thesis using n here by (auto simp: less_imp_le)
  next
    case better
    have h: "\<forall>(a, t) \<in> set ns. need \<le> t \<longrightarrow> s \<le> t" "need \<le> s" "s \<le> t"
      "(a, t, npp) = (f, s, fp) \<or> (\<exists>as bs. ns = as @ (f, s) # bs \<and> fp = link_cell (a + 4) as)"
      using Cons.IH [OF better(2)] better(1) by auto
    have "\<exists>as bs. n # ns = as @ (f, s) # bs \<and> fp = link_cell npp as"
      using h(4) here lift by blast
    moreover have "s \<le> u" if "c = Some (f', u, fp')" for f' u fp'
      using better(3) [OF that] h(3) by simp
    ultimately show ?thesis using h n by auto
  next
    case worse
    have h: "\<forall>(a, t) \<in> set ns. need \<le> t \<longrightarrow> s \<le> t" "need \<le> s"
      "\<forall>f t fp. c = Some (f, t, fp) \<longrightarrow> s \<le> t"
      "c = Some (f, s, fp) \<or> (\<exists>as bs. ns = as @ (f, s) # bs \<and> fp = link_cell (a + 4) as)"
      using Cons.IH [OF worse(2)] Cons.prems(2) by blast+
    have "need \<le> t \<longrightarrow> s \<le> t"
      using worse(1) h(3) by (auto split: option.splits)
    moreover have "c = Some (f, s, fp) \<or> (\<exists>as bs. n # ns = as @ (f, s) # bs \<and> fp = link_cell npp as)"
      using h(4) lift by blast
    ultimately show ?thesis using h(1-3) n by auto
  qed
qed

lemmas heap_consts = NUT_HEAP_OVERHEAD_def sizeof_HEAPNODE_def NUTMEM_GUARD_BYTES_def
  NUTMEM_HEAPNODE_MIN_def

lemma heap_need_props:
  assumes "sz + 15 < 4294967296"
  shows "heap_need g sz mod 4 = 0" and "8 \<le> heap_need g sz" and "heap_need g sz < 4294967296"
    and "sz + 4 + 2 * NUTMEM_GUARD_BYTES g \<le> heap_need g sz"
proof -
  let ?n = "if sz + 4 + 2 * NUTMEM_GUARD_BYTES g < 8 then 8 else sz + 4 + 2 * NUTMEM_GUARD_BYTES g"
  have eq: "heap_need g sz = NUTMEM_TOP_ALIGN ?n"
    using assms by (simp add: heap_need_def heap_consts wrap_simps Let_def)
  have "?n + 3 < 4294967296" using assms by (simp add: heap_consts)
  then have "?n \<le> heap_need g sz" using top_align_ge eq by simp
  then show "8 \<le> heap_need g sz" and "sz + 4 + 2 * NUTMEM_GUARD_BYTES g \<le> heap_need g sz"
    by (auto split: if_splits)
  show "heap_need g sz mod 4 = 0" and "heap_need g sz < 4294967296"
    using top_align_mod top_align_bound eq by simp_all
qed

definition guard_area :: "bool \<Rightarrow> mem \<Rightarrow> addr \<Rightarrow> nat \<Rightarrow> mem" where
  "guard_area g m a s =
     (if g then m(a + 4 := NUTMEM_GUARD_PATTERN, a + s - 4 := NUTMEM_GUARD_PATTERN) else m)"

lemma PrepareUserArea_eq:
  assumes "node_ok a (m a)" and "8 + NUTMEM_GUARD_BYTES g \<le> m a"
  shows "PrepareUserArea g m a = (guard_area g m a (m a), a + 4 + NUTMEM_GUARD_BYTES g)"
proof -
  have b: "m a mod 4 = 0" "a + m a < 4294967296" using assms(1) by (simp_all add: node_ok_def)
  then obtain k where k: "m a = 4 * k" by auto
  show ?thesis
  proof (cases g)
    case True
    have "3 \<le> k" and "a + 4 * k < 4294967296"
      using assms(2) True k b by (simp_all add: NUTMEM_GUARD_BYTES_def)
    moreover have "(4 * k - 4) div 4 = k - 1" by simp
    ultimately show ?thesis
      using True k by (simp add: PrepareUserArea_def guard_area_def heap_consts wrap_simps Let_def algebra_simps)
  next
    case False
    then show ?thesis by (simp add: PrepareUserArea_def guard_area_def NUTMEM_GUARD_BYTES_def)
  qed
qed

lemma ValidateUserArea_guarded:
  assumes "node_ok a (m a)" and "8 + NUTMEM_GUARD_BYTES g \<le> m a"
  shows "ValidateUserArea g m a =
    (if g \<longrightarrow> m (a + 4) = NUTMEM_GUARD_PATTERN \<and> m (a + m a - 4) = NUTMEM_GUARD_PATTERN then 0 else -1)"
proof -
  have b: "m a mod 4 = 0" "a + m a < 4294967296" using assms(1) by (simp_all add: node_ok_def)
  then obtain k where k: "m a = 4 * k" by auto
  have "g \<Longrightarrow> 3 \<le> k" and "a + 4 * k < 4294967296"
    using assms(2) k b by (simp_all add: NUTMEM_GUARD_BYTES_def)
  moreover have "(4 * k - 4) div 4 = k - 1" by simp
  ultimately show ?thesis
    using k by (auto simp: ValidateUserArea_def heap_consts wrap_simps Let_def algebra_simps)
qed

lemma guard_area_frame:
  "x \<notin> {a..<a + s} \<Longrightarrow> 8 \<le> s \<Longrightarrow> guard_area g m a s x = m x"
  "8 + NUTMEM_GUARD_BYTES g \<le> s \<Longrightarrow> guard_area g m a s a = m a"
  by (auto simp: guard_area_def NUTMEM_GUARD_BYTES_def)

text \<open>What unlinking the chosen node, split or whole, does to memory.\<close>

definition carve :: "mem \<Rightarrow> addr \<Rightarrow> addr \<Rightarrow> nat \<Rightarrow> nat \<Rightarrow> mem" where
  "carve m f fp need lim =
     (if m f - need \<ge> lim then
        m(f + need := m f - need, f + need + 4 := m (f + 4), f := need, fp := f + need)
      else m(fp := m (f + 4)))"

definition carved :: "addr \<Rightarrow> nat \<Rightarrow> nat \<Rightarrow> nat \<Rightarrow> (addr \<times> nat) list \<Rightarrow> (addr \<times> nat) list" where
  "carved f s need lim bs = (if s - need \<ge> lim then (f + need, s - need) # bs else bs)"

definition taken :: "nat \<Rightarrow> nat \<Rightarrow> nat \<Rightarrow> nat" where
  "taken s need lim = (if s - need \<ge> lim then need else s)"

lemma link_cell_outside:
  assumes "wf_free (as @ bs)" and "root \<notin> cover (as @ bs)"
  shows "link_cell root as \<notin> cover bs"
proof -
  have "x \<notin> cover bs" if "x \<in> cover as" for x
  proof -
    from that obtain a s where as: "(a, s) \<in> set as" "x < a + s" by (auto simp: cover_def)
    then have "\<forall>(b, t) \<in> set bs. a + s < b" using assms(1) by (auto simp: wf_free_append)
    then show ?thesis using wf_free_after [of bs "a + s" x] as(2) by auto
  qed
  then show ?thesis
    using link_cell_in [of root as] cells_cover [of as] assms by (auto simp: wf_free_append)
qed

lemma carve_frame:
  "x \<notin> {f..<f + m f} \<Longrightarrow> x \<noteq> fp \<Longrightarrow> 8 \<le> m f \<Longrightarrow> need \<le> m f \<Longrightarrow> 8 \<le> lim \<Longrightarrow>
    carve m f fp need lim x = m x"
  by (auto simp: carve_def)

lemma carve_heap_inv:
  assumes inv: "heap_inv m root (as @ (f, s) # bs)"
    and need: "need \<le> s" "need mod 4 = 0" "0 < need" and lim: "8 \<le> lim"
  shows "heap_inv (carve m f (link_cell root as) need lim) root (as @ carved f s need lim bs)"
    and "carve m f (link_cell root as) need lim f = taken s need lim"
    and "x \<notin> cover (as @ (f, s) # bs) \<Longrightarrow> x \<noteq> root \<Longrightarrow> carve m f (link_cell root as) need lim x = m x"
proof -
  let ?l = "link_cell root as" and ?m = "carve m f (link_cell root as) need lim"
  have ch: "chain m (m root) (as @ (f, s) # bs)" and wf: "wf_free (as @ (f, s) # bs)"
    and ro: "root \<notin> cover (as @ (f, s) # bs)" and r0: "root \<noteq> NULL"
    using inv by (auto simp: heap_inv_def)
  have ok: "node_ok f s" and gap: "\<forall>(b, t) \<in> set bs. f + s < b" and wfs: "wf_free as" "wf_free bs"
    using wf by (auto simp: wf_free_append)
  have lo: "?l \<notin> {f..<f + s}" "?l \<notin> cover bs"
    using link_cell_outside [OF wf ro] by auto
  have before: "x \<notin> {f..<f + s}" if x: "x \<in> cells as" for x
  proof -
    obtain a t where at: "(a, t) \<in> set as" "x \<in> {a, a + 4}"
      using x by (auto simp: cells_def)
    then have "node_ok a t" and "a + t < f"
      using wf wf_free_node [OF wfs(1)] by (auto simp: wf_free_append)
    with at(2) show ?thesis by (auto simp: node_ok_def)
  qed
  have after: "x \<notin> {f..<f + s}" if "x \<in> cover bs" for x
    using wf_free_after [OF gap that] by auto
  have tail: "chain m (m (f + 4)) bs" and ms: "m f = s"
    using chain_link [OF ch] by auto
  have sub: "{f, f + 4, f + need, f + need + 4} \<subseteq> {f..<f + s}" if "s - need \<ge> lim"
    using that need lim node_okD [OF ok] by auto
  have fr: "?m x = m x" if "x \<notin> {f..<f + s}" "x \<noteq> ?l" for x
    using that carve_frame [of x f m ?l need lim] need lim node_okD [OF ok] ms by auto
  have bs_eq: "chain ?m p bs = chain m p bs" for p
  proof (rule chain_frame)
    fix x assume "x \<in> cells bs"
    then have "x \<in> cover bs" using cells_cover [OF wfs(2)] by auto
    with lo(2) after [of x] show "?m x = m x" using fr [of x] by auto
  qed
  have "chain ?m (?m ?l) (carved f s need lim bs)"
    using tail sub lo ms need ok bs_eq by (auto simp: carve_def carved_def node_ok_def)
  moreover have "?m x = m x" if "x \<in> insert root (cells as)" "x \<noteq> ?l" for x
    using that before [of x] ro fr [of x] by auto
  ultimately have "chain ?m (?m root) (as @ carved f s need lim bs)"
    using chain_relink [OF ch wfs(1)] ro by simp
  moreover have "wf_free (as @ carved f s need lim bs)"
    using wf need lim by (fastforce simp: carved_def wf_free_append node_ok_def)
  moreover have "root \<notin> cover (as @ carved f s need lim bs)"
    using ro need by (auto simp: carved_def)
  ultimately show "heap_inv ?m root (as @ carved f s need lim bs)"
    using r0 by (simp add: heap_inv_def)
  show "?m f = taken s need lim"
    using lo ms sub node_okD [OF ok] by (auto simp: carve_def taken_def)
  show "?m x = m x" if "x \<notin> cover (as @ (f, s) # bs)" "x \<noteq> root"
    using that fr [of x] link_cell_in [of root as] cells_cover [OF wfs(1)] by auto
qed

text \<open>An allocated block: its size word is sound and its guards, if configured, are intact.\<close>

definition live_block :: "bool \<Rightarrow> mem \<Rightarrow> addr \<Rightarrow> bool" where
  "live_block g m b \<longleftrightarrow> node_ok b (m b) \<and> 8 + NUTMEM_GUARD_BYTES g \<le> m b \<and> ValidateUserArea g m b = 0"

lemma heap_min_ge: "8 \<le> NUTMEM_HEAPNODE_MIN g"
  by (simp add: heap_consts)

lemma best_fit_split:
  assumes "best_fit need root ns None = Some (f, s, fp)"
  obtains as bs where "ns = as @ (f, s) # bs" "fp = link_cell root as" "need \<le> s"
    "\<forall>(a, t) \<in> set ns. need \<le> t \<longrightarrow> s \<le> t"
  using best_fit_Some [OF assms] by auto

lemma NutHeapRootAlloc_eq:
  assumes inv: "heap_inv m root ns" and sz: "sz + 15 < 4294967296"
  shows "NutHeapRootAlloc g m root sz =
    (case best_fit (heap_need g sz) root ns None of
       None \<Rightarrow> Some (m, NULL)
     | Some (f, s, fp) \<Rightarrow>
         let m1 = carve m f fp (heap_need g sz) (NUTMEM_HEAPNODE_MIN g)
         in Some (guard_area g m1 f (taken s (heap_need g sz) (NUTMEM_HEAPNODE_MIN g)),
                  f + 4 + NUTMEM_GUARD_BYTES g))"
proof -
  let ?need = "heap_need g sz" and ?lim = "NUTMEM_HEAPNODE_MIN g"
  have ch: "chain m (m root) ns" and wf: "wf_free ns" using inv by (auto simp: heap_inv_def)
  have srch: "alloc_search m ?need (m root) root NULL NULL = Some (fit_of (best_fit ?need root ns None))"
    using alloc_search_best_fit [OF ch, of None ?need root] by (simp add: fit_of_def)
  show ?thesis
  proof (cases "best_fit ?need root ns None")
    case None
    then show ?thesis using srch by (simp add: NutHeapRootAlloc_def fit_of_def Let_def)
  next
    case (Some c)
    then obtain f s fp where c: "best_fit ?need root ns None = Some (f, s, fp)"
      by (metis prod_cases3)
    obtain as bs where sp: "ns = as @ (f, s) # bs" "fp = link_cell root as" "?need \<le> s"
      by (rule best_fit_split [OF c])
    have ok: "node_ok f s" and ms: "m f = s"
      using wf_free_node [OF wf] chain_nodes [OF ch] sp(1) by auto
    note need = heap_need_props [OF sz, of g]
    have n0: "0 < ?need" using need(2) by simp
    note cv = carve_heap_inv [OF inv [unfolded sp(1)] sp(3) need(1) n0 heap_min_ge]
    let ?m1 = "carve m f fp ?need ?lim"
    have t: "?m1 f = taken s ?need ?lim" using cv(2) [of g] sp(2) by simp
    have "node_ok f (taken s ?need ?lim)" and "8 + NUTMEM_GUARD_BYTES g \<le> taken s ?need ?lim"
      using ok sp(3) need by (auto simp: taken_def node_ok_def NUTMEM_GUARD_BYTES_def)
    then have "PrepareUserArea g ?m1 f = (guard_area g ?m1 f (taken s ?need ?lim), f + 4 + NUTMEM_GUARD_BYTES g)"
      using PrepareUserArea_eq [of f ?m1 g] t by simp
    moreover have "uadd f ?need = f + ?need" and "usub s ?need = s - ?need"
      using ok sp(3) by (auto simp: node_ok_def wrap_simps)
    moreover have "f \<noteq> NULL" using ok by (simp add: node_ok_def)
    ultimately show ?thesis
      using srch c ms sp(3) need(2) heap_min_ge [of g]
      by (simp add: NutHeapRootAlloc_def fit_of_def Let_def carve_def fun_upd_def
          split del: if_split cong: if_cong)
  qed
qed

lemma live_block_guard_area:
  assumes "node_ok b s" and "8 + NUTMEM_GUARD_BYTES g \<le> s" and "m b = s"
  shows "live_block g (guard_area g m b s) b" and "guard_area g m b s b = s"
proof -
  show s: "guard_area g m b s b = s"
    using assms guard_area_frame(2) [of g s m b] by simp
  have guards: "g \<Longrightarrow> guard_area g m b s (b + 4) = NUTMEM_GUARD_PATTERN"
      "g \<Longrightarrow> guard_area g m b s (b + s - 4) = NUTMEM_GUARD_PATTERN"
    by (simp_all add: guard_area_def)
  have "ValidateUserArea g (guard_area g m b s) b = 0"
    using ValidateUserArea_guarded [of b "guard_area g m b s" g] s assms(1,2) guards
    by (cases g) simp_all
  then show "live_block g (guard_area g m b s) b"
    using assms s by (simp add: live_block_def)
qed

lemma heap_inv_frame:
  assumes "heap_inv m root ns" and "\<And>x. x \<in> cells ns \<or> x = root \<Longrightarrow> m' x = m x"
  shows "heap_inv m' root ns"
proof -
  have "chain m' (m' root) ns = chain m (m root) ns"
    using assms(2) chain_frame [of ns m' m] by auto
  then show ?thesis using assms(1) by (simp add: heap_inv_def)
qed

lemma carved_cover:
  assumes "wf_free (as @ (f, s) # bs)" and "need \<le> s"
  shows "cover (as @ (f, s) # bs) = cover (as @ carved f s need lim bs) \<union> {f..<f + taken s need lim}"
    and "cover (as @ carved f s need lim bs) \<inter> {f..<f + taken s need lim} = {}"
proof -
  show "cover (as @ (f, s) # bs) = cover (as @ carved f s need lim bs) \<union> {f..<f + taken s need lim}"
    using assms(2) by (auto simp: carved_def taken_def)
  have "x \<notin> {f..<f + s}" if "x \<in> cover as" for x
    using that assms(1) by (fastforce simp: wf_free_append cover_def)
  moreover have "x \<notin> {f..<f + s}" if "x \<in> cover bs" for x
    using that assms(1) wf_free_after [of bs "f + s" x] by (auto simp: wf_free_append)
  ultimately show "cover (as @ carved f s need lim bs) \<inter> {f..<f + taken s need lim} = {}"
    using assms(2) by (fastforce simp: carved_def taken_def split: if_splits)
qed

text \<open>With guards configured, no node is too small to hold them.\<close>

definition roomy :: "bool \<Rightarrow> (addr \<times> nat) list \<Rightarrow> bool" where
  "roomy g ns \<longleftrightarrow> (\<forall>(a, s) \<in> set ns. 8 + NUTMEM_GUARD_BYTES g \<le> s)"

lemma roomy_carved:
  "roomy g (as @ (f, s) # bs) \<Longrightarrow> roomy g (as @ carved f s need (NUTMEM_HEAPNODE_MIN g) bs)"
  by (auto simp: roomy_def carved_def heap_consts)

lemma NutHeapRootAlloc_spec:
  assumes inv: "heap_inv m root ns" and sz: "sz + 15 < 4294967296"
    and fits: "\<not> (\<forall>(a, s) \<in> set ns. s < heap_need g sz)"
  obtains m' b s ns' where
    "NutHeapRootAlloc g m root sz = Some (m', b + 4 + NUTMEM_GUARD_BYTES g)"
    "(b, s) \<in> set ns" "\<forall>(a, t) \<in> set ns. heap_need g sz \<le> t \<longrightarrow> s \<le> t"
    "heap_inv m' root ns'" "live_block g m' b" "heap_need g sz \<le> m' b" "m' b \<le> s"
    "cover ns = cover ns' \<union> {b..<b + m' b}" "cover ns' \<inter> {b..<b + m' b} = {}"
    "\<And>x. x \<notin> cover ns \<Longrightarrow> x \<noteq> root \<Longrightarrow> m' x = m x" "roomy g ns \<Longrightarrow> roomy g ns'"
    "m' b = taken s (heap_need g sz) (NUTMEM_HEAPNODE_MIN g)"
proof -
  let ?need = "heap_need g sz" and ?lim = "NUTMEM_HEAPNODE_MIN g"
  have wf: "wf_free ns" and ro: "root \<notin> cover ns" using inv by (auto simp: heap_inv_def)
  have "best_fit ?need root ns None \<noteq> None"
    using fits best_fit_None [of ?need root ns None] by simp
  then obtain f s fp where c: "best_fit ?need root ns None = Some (f, s, fp)"
    by (metis not_None_eq prod_cases3)
  obtain as bs where sp: "ns = as @ (f, s) # bs" "fp = link_cell root as" "?need \<le> s"
    and best: "\<forall>(a, t) \<in> set ns. ?need \<le> t \<longrightarrow> s \<le> t"
    by (rule best_fit_split [OF c])
  note need = heap_need_props [OF sz, of g]
  have n0: "0 < ?need" using need(2) by simp
  note cv = carve_heap_inv [OF inv [unfolded sp(1)] sp(3) need(1) n0 heap_min_ge [of g]]
  note co = carved_cover [OF wf [unfolded sp(1)] sp(3), of ?lim]
  let ?t = "taken s ?need ?lim" and ?ns = "as @ carved f s ?need ?lim bs"
  let ?m1 = "carve m f fp ?need ?lim" let ?m = "guard_area g ?m1 f ?t"
  have ok: "node_ok f s" using wf_free_node [OF wf] sp(1) by auto
  have tok: "node_ok f ?t" "8 + NUTMEM_GUARD_BYTES g \<le> ?t" "?need \<le> ?t" "?t \<le> s"
    using ok sp(3) need by (auto simp: taken_def node_ok_def NUTMEM_GUARD_BYTES_def)
  have tm: "?m1 f = ?t" using cv(2) sp(2) by simp
  note lb = live_block_guard_area [of f ?t g ?m1, OF tok(1,2) tm]
  have gf: "?m x = ?m1 x" if "x \<notin> {f..<f + ?t}" for x
    using guard_area_frame(1) that tok(2) by simp
  have inv1: "heap_inv ?m1 root ?ns" using cv(1) sp(2) by simp
  then have wf1: "wf_free ?ns" by (simp add: heap_inv_def)
  have inv': "heap_inv ?m root ?ns"
  proof (rule heap_inv_frame [OF inv1])
    fix x assume "x \<in> cells ?ns \<or> x = root"
    then have "x \<notin> {f..<f + ?t}"
      using cells_cover [OF wf1] co ro sp(1) by (auto simp: disjoint_iff)
    then show "?m x = ?m1 x" by (rule gf)
  qed
  have fr: "?m x = m x" if "x \<notin> cover ns" "x \<noteq> root" for x
    using that gf [of x] cv(3) [of x] sp co(1) by auto
  have run: "NutHeapRootAlloc g m root sz = Some (?m, f + 4 + NUTMEM_GUARD_BYTES g)"
    using NutHeapRootAlloc_eq [OF inv sz, of g] c by (simp add: Let_def)
  show thesis
    by (rule that [of ?m f s ?ns]) (use run sp(1) best inv' lb tok co fr roomy_carved in \<open>auto simp: live_block_def\<close>)
qed

lemma NutHeapRootAlloc_none:
  assumes "heap_inv m root ns" and "sz + 15 < 4294967296"
    and "\<forall>(a, s) \<in> set ns. s < heap_need g sz"
  shows "NutHeapRootAlloc g m root sz = Some (m, NULL)"
  using NutHeapRootAlloc_eq [OF assms(1,2)] best_fit_None [of "heap_need g sz" root ns None] assms(3)
  by simp

end
