(* ===== verification/Nut_Heap_Free.thy ===== *)
theory Nut_Heap_Free
  imports Nut_Heap_Alloc
begin

text \<open>
  The release side of \<^verbatim>\<open>os/heap.c\<close>: the walk of \<^verbatim>\<open>NutHeapRootFree\<close> inserts the block into
  the ordered list and joins it with its neighbours, a second release is noticed, and the
  invariant makes the list a function of the memory it covers. Also the two statistics.
\<close>

section \<open>Release\<close>

lemma ins_free_set:
  "(c, u) \<in> set (ins_free a s ns) \<Longrightarrow> c = a \<or> (\<exists>t. (c, t) \<in> set ns)"
  by (induction a s ns rule: ins_free.induct) (auto split: if_splits list.splits)

definition apart :: "addr \<Rightarrow> nat \<Rightarrow> (addr \<times> nat) list \<Rightarrow> bool" where
  "apart a s ns \<longleftrightarrow> (\<forall>(c, u) \<in> set ns. a + s \<le> c \<or> c + u \<le> a)"

lemma apart_simps [simp]:
  "apart a s []" "apart a s ((c, u) # ns) \<longleftrightarrow> (a + s \<le> c \<or> c + u \<le> a) \<and> apart a s ns"
  by (auto simp: apart_def)

lemma intervals_apart:
  "0 < s \<Longrightarrow> 0 < u \<Longrightarrow> {c..<c + u} \<inter> {a..<a + s} = {} \<longleftrightarrow> a + s \<le> c \<or> c + u \<le> (a::nat)"
  by (auto simp: disjoint_iff)

lemma apart_iff:
  assumes "wf_free ns" and "0 < s"
  shows "apart a s ns \<longleftrightarrow> cover ns \<inter> {a..<a + s} = {}"
  using assms
proof (induction ns)
  case Nil
  then show ?case by simp
next
  case (Cons n ns)
  obtain c u where n: "n = (c, u)" by force
  then have "0 < u" using Cons.prems(1) by (simp add: node_ok_def)
  then show ?case
    using Cons intervals_apart [of s u c a] n by (simp add: Int_Un_distrib2)
qed

lemma ins_free_cover: "wf_free ns \<Longrightarrow> apart a s ns \<Longrightarrow> cover (ins_free a s ns) = cover ns \<union> {a..<a + s}"
  by (induction a s ns rule: ins_free.induct) (auto split: if_splits list.splits)

lemma roomy_ins_free: "roomy g ns \<Longrightarrow> 8 + NUTMEM_GUARD_BYTES g \<le> s \<Longrightarrow> roomy g (ins_free a s ns)"
  by (induction a s ns rule: ins_free.induct) (auto simp: roomy_def split: if_splits list.splits)

lemma node_ok_join: "node_ok a s \<Longrightarrow> node_ok (a + s) t \<Longrightarrow> node_ok a (s + t)"
  by (auto simp: node_ok_def)

lemma ins_free_wf:
  "wf_free ns \<Longrightarrow> node_ok a s \<Longrightarrow> apart a s ns \<Longrightarrow> wf_free (ins_free a s ns)"
proof (induction a s ns rule: ins_free.induct)
  case (1 a s)
  then show ?case by simp
next
  case (2 a s b t ns)
  have ok: "node_ok b t" and gap: "\<forall>(c, u) \<in> set ns. b + t < c" and wf: "wf_free ns"
    and ap: "apart a s ns" "a + s \<le> b \<or> b + t \<le> a"
    using "2.prems" by auto
  have sep: "0 < s" "0 < t" using "2.prems"(2) ok by (auto simp: node_ok_def)
  consider (join) "b + t = a" | (before) "b + t \<noteq> a" "a < b" | (after) "b + t \<noteq> a" "\<not> a < b" by blast
  then show ?case
  proof cases
    case join
    then have bt: "node_ok b (t + s)" using node_ok_join ok "2.prems"(2) by blast
    show ?thesis
    proof (cases ns)
      case Nil
      then show ?thesis using join bt by simp
    next
      case (Cons n ms)
      obtain c u where n: "n = (c, u)" by force
      have "node_ok c u" and cg: "\<forall>(d, v) \<in> set ms. c + u < d" and "wf_free ms" and ca: "a + s \<le> c"
        using wf Cons n ap gap join sep by auto
      moreover have "a + s = c \<Longrightarrow> node_ok b (t + s + u)"
        using node_ok_join [OF bt, of u] \<open>node_ok c u\<close> join by (metis add.assoc)
      ultimately show ?thesis using join Cons n bt
        by (fastforce simp: node_ok_def)
    qed
  next
    case before
    then show ?thesis using ap sep ok gap wf "2.prems"(2) node_ok_join [of a s t]
      by (fastforce simp: node_ok_def)
  next
    case after
    then have "wf_free (ins_free a s ns)" using "2.IH" "2.prems" wf ap by simp
    moreover have "b + t < c" if "(c, u) \<in> set (ins_free a s ns)" for c u
      using ins_free_set [OF that] gap after ap(2) sep by auto
    ultimately show ?thesis using after ok by auto
  qed
qed

lemma free_walk_join:
  assumes ch: "chain m b ((b, t) # ns)" and wf: "wf_free ((b, t) # ns)" and "m npp = b"
    and np: "npp \<notin> cover ((b, t) # ns)" and fok: "node_ok f (m f)" and ap: "apart f (m f) ((b, t) # ns)"
    and join: "b + t = f"
  shows "\<exists>m'. free_walk m b npp f = Some (m', 0) \<and> chain m' (m' npp) (ins_free f (m f) ((b, t) # ns))
    \<and> (\<forall>x. x \<notin> {b, b + 4} \<longrightarrow> m' x = m x)"
proof -
  let ?s = "m f" let ?m1 = "m(b := t + m f)"
  have b: "b \<noteq> NULL" "m b = t" and tl: "chain m (m (b + 4)) ns" using ch by auto
  have bok: "node_ok b (t + ?s)" and t8: "8 \<le> t"
    using node_ok_join [of b t ?s] wf fok join by (auto simp: node_ok_def)
  have u: "uadd b t = f" "uadd t ?s = t + ?s" "uadd b (t + ?s) = f + ?s"
    using bok join by (auto simp: node_ok_def wrap_simps)
  have npb: "npp \<noteq> b" "npp \<noteq> b + 4" using np t8 by auto
  show ?thesis
  proof (cases ns)
    case Nil
    then have "free_walk m b npp f = Some (?m1, 0)"
      using b u tl join fok by (subst free_walk.simps) (simp add: node_ok_def)
    then show ?thesis using Nil join b npb tl assms(3) by auto
  next
    case (Cons n ms)
    obtain c v where n: "n = (c, v)" by force
    have c: "m (b + 4) = c" "m c = v" "chain m (m (c + 4)) ms" "node_ok c v" "wf_free ms"
      and cg: "\<forall>(d, w) \<in> set ms. c + v < d" and bc: "b + t < c"
      using tl Cons n wf by auto
    have far: "x \<noteq> b \<and> x \<noteq> b + 4" if "x \<in> cells ms" for x
      using that cells_cover [OF c(5)] wf_free_after [OF cg, of x] bc t8 by auto
    have ms: "chain m' p ms = chain m p ms" if "\<And>x. x \<notin> {b, b + 4} \<Longrightarrow> m' x = m x" for m' p
      using chain_frame [of ms m' m p] far that by blast
    have cb: "c \<noteq> NULL" "c \<noteq> b" "c \<noteq> b + 4" "c + 4 \<noteq> b" "c + 4 \<noteq> b + 4"
      using bc t8 by auto
    show ?thesis
    proof (cases "f + ?s = c")
      case True
      let ?m2 = "m(b := t + ?s + v, b + 4 := m (c + 4))"
      have "uadd (t + ?s) v = t + ?s + v"
        using c(4) True join by (auto simp: node_ok_def wrap_simps)
      then have "free_walk m b npp f = Some (?m2, 0)"
        using b u c cb True by (subst free_walk.simps) (simp add: Let_def)
      then show ?thesis using Cons n join True b npb c cb assms(3) ms [of ?m2] by auto
    next
      case False
      have "free_walk m b npp f = Some (?m1, 0)"
        using b u c cb False by (subst free_walk.simps) (simp add: Let_def)
      then show ?thesis using Cons n join False b npb c cb assms(3) ms [of ?m1] by auto
    qed
  qed
qed

lemma free_walk_before:
  assumes ch: "chain m b ((b, t) # ns)" and wf: "wf_free ((b, t) # ns)" and "m npp = b"
    and fok: "node_ok f (m f)" and ap: "apart f (m f) ((b, t) # ns)"
    and npf: "npp \<notin> {f..<f + m f}" and np: "npp \<notin> cover ((b, t) # ns)" and before: "f < b"
  shows "\<exists>m'. free_walk m b npp f = Some (m', 0) \<and> chain m' (m' npp) (ins_free f (m f) ((b, t) # ns))
    \<and> (\<forall>x. x \<notin> {npp, f, f + 4} \<longrightarrow> m' x = m x)"
proof -
  let ?s = "m f"
  have b: "b \<noteq> NULL" "m b = t" and tl: "chain m (m (b + 4)) ns" using ch by auto
  have bok: "node_ok b t" and wfn: "wf_free ns" and gap: "\<forall>(c, u) \<in> set ns. b + t < c" using wf by auto
  have fb: "f + ?s \<le> b" using ap before by auto
  have u: "uadd b t = b + t" "uadd f ?s = f + ?s" "uadd b t \<noteq> f"
    using bok fok before by (auto simp: node_ok_def wrap_simps)
  have s8: "8 \<le> ?s" "0 < f" "8 \<le> t" using fok bok by (auto simp: node_ok_def)
  have far: "x \<noteq> npp \<and> x \<noteq> f \<and> x \<noteq> f + 4" if "x \<in> cells ns" for x
    using that cells_cover [OF wfn] wf_free_after [OF gap, of x] fb s8 np by auto
  have ns: "chain m' p ns = chain m p ns" if "\<And>x. x \<notin> {npp, f, f + 4} \<Longrightarrow> m' x = m x" for m' p
    using chain_frame [of ns m' m p] far that by blast
  have "npp \<noteq> f" "npp \<noteq> f + 4" using npf s8 by auto
  moreover have "b \<noteq> npp" "b + 4 \<noteq> npp" using np s8 by auto
  moreover have "b \<noteq> f" "b \<noteq> f + 4" "b + 4 \<noteq> f" "b + 4 \<noteq> f + 4" using s8 fb by linarith+
  ultimately have ne: "npp \<noteq> f" "npp \<noteq> f + 4" "b \<noteq> npp" "b + 4 \<noteq> npp" "b \<noteq> f" "b \<noteq> f + 4"
    "b + 4 \<noteq> f" "b + 4 \<noteq> f + 4" by blast+
  show ?thesis
  proof (cases "f + ?s = b")
    case True
    let ?m2 = "m(npp := f, f := ?s + t, f + 4 := m (b + 4))"
    have "uadd ?s t = ?s + t" using bok True by (auto simp: node_ok_def wrap_simps)
    moreover have "uadd f ?s = b" using u(2) True by simp
    ultimately have "free_walk m b npp f = Some (?m2, 0)"
      using b u(3) ne before by (subst free_walk.simps) (simp add: Let_def)
    then show ?thesis using True before b ne s8 tl ns [of ?m2] by auto
  next
    case False
    let ?m2 = "m(npp := f, f + 4 := b)"
    have "uadd f ?s \<noteq> b" using u(2) False by simp
    then have "free_walk m b npp f = Some (?m2, 0)"
      using b u(3) ne before by (subst free_walk.simps) (simp add: Let_def)
    then show ?thesis using False before b ne s8 tl ns [of ?m2] by auto
  qed
qed

lemma free_walk_spec:
  assumes "chain m node ns" and "wf_free ns" and "m npp = node" and "npp \<notin> cover ns"
    and "node_ok f (m f)" and "apart f (m f) ns" and "npp \<notin> {f..<f + m f}"
  shows "\<exists>m'. free_walk m node npp f = Some (m', 0) \<and> chain m' (m' npp) (ins_free f (m f) ns)
    \<and> (\<forall>x. x \<notin> insert npp (cells ns \<union> {f, f + 4}) \<longrightarrow> m' x = m x)"
  using assms
proof (induction ns arbitrary: node npp)
  case Nil
  then show ?case by (auto simp: free_walk.simps node_ok_def)
next
  case (Cons n ns)
  obtain b t where n: "n = (b, t)" by force
  let ?s = "m f"
  have nb: "node = b" "b \<noteq> NULL" "m b = t" and ch: "chain m (m (b + 4)) ns"
    and ok: "node_ok b t" and gap: "\<forall>(c, u) \<in> set ns. b + t < c" and wf: "wf_free ns"
    and np: "npp \<notin> {b..<b + t}" "npp \<notin> cover ns" and ap: "f + ?s \<le> b \<or> b + t \<le> f" "apart f ?s ns"
    using Cons.prems n by auto
  note fok = node_okD [OF Cons.prems(5)] and bok = node_okD [OF ok]
  have b4: "b + 4 \<notin> cover ns" "b \<notin> cover ns"
    using wf_free_after [OF gap] bok by fastforce+
  have bt: "uadd b t = b + t" using bok by (simp add: wrap_simps)
  have cells_ns: "cells ns \<subseteq> cover ns" by (rule cells_cover [OF wf])
  consider (join) "b + t = f" | (before) "f < b" | (after) "b + t < f"
    using ap(1) fok by linarith
  then show ?case
  proof cases
    case join
    then show ?thesis
      using free_walk_join [of m b t ns npp f] Cons.prems(1-6) n nb by auto
  next
    case before
    then show ?thesis
      using free_walk_before [of m b t ns npp f] Cons.prems n nb by auto
  next
    case after
    have step: "free_walk m node npp f = free_walk m (m (b + 4)) (b + 4) f"
      using nb bt after by (subst free_walk.simps) simp
    have "b + 4 \<notin> {f..<f + ?s}" using after bok by auto
    from Cons.IH [OF ch wf refl b4(1) Cons.prems(5) ap(2) this] obtain m' where
      r: "free_walk m (m (b + 4)) (b + 4) f = Some (m', 0)"
      and c: "chain m' (m' (b + 4)) (ins_free f ?s ns)"
      and fr: "\<forall>x. x \<notin> insert (b + 4) (cells ns \<union> {f, f + 4}) \<longrightarrow> m' x = m x" by blast
    have "npp \<notin> insert (b + 4) (cells ns \<union> {f, f + 4})" and "b \<notin> insert (b + 4) (cells ns \<union> {f, f + 4})"
      using np b4 cells_ns Cons.prems(7) fok bok after by auto
    then have "m' npp = m npp" and "m' b = m b" using fr by blast+
    then show ?thesis using step r c fr nb n after Cons.prems(3) by auto
  qed
qed

lemma fnode_of_block:
  assumes "live_block g m b"
  shows "usub (b + 4 + NUTMEM_GUARD_BYTES g) (NUT_HEAP_OVERHEAD + NUTMEM_GUARD_BYTES g) = b"
    and "b + 4 + NUTMEM_GUARD_BYTES g \<noteq> NULL"
  using assms by (auto simp: live_block_def node_ok_def heap_consts wrap_simps)

lemma NutHeapRootFree_spec:
  assumes inv: "heap_inv m root ns" and live: "live_block g m b"
    and dis: "cover ns \<inter> {b..<b + m b} = {}" and ro: "root \<notin> {b..<b + m b}"
  obtains m' where
    "NutHeapRootFree g m root (b + 4 + NUTMEM_GUARD_BYTES g) = Some (m', 0)"
    "heap_inv m' root (ins_free b (m b) ns)"
    "cover (ins_free b (m b) ns) = cover ns \<union> {b..<b + m b}"
    "\<And>x. x \<notin> cover ns \<union> {b..<b + m b} \<Longrightarrow> x \<noteq> root \<Longrightarrow> m' x = m x"
proof -
  have ch: "chain m (m root) ns" and wf: "wf_free ns" and rc: "root \<notin> cover ns" and r0: "root \<noteq> NULL"
    using inv by (auto simp: heap_inv_def)
  have ok: "node_ok b (m b)" using live by (simp add: live_block_def)
  then have b8: "8 \<le> m b" by (simp add: node_ok_def)
  have ap: "apart b (m b) ns" using apart_iff [OF wf] dis b8 by simp
  obtain m' where run: "free_walk m (m root) root b = Some (m', 0)"
    and ch': "chain m' (m' root) (ins_free b (m b) ns)"
    and fr: "\<forall>x. x \<notin> insert root (cells ns \<union> {b, b + 4}) \<longrightarrow> m' x = m x"
    using free_walk_spec [OF ch wf refl rc ok ap ro] by blast
  show thesis
  proof (rule that [of m'])
    show "NutHeapRootFree g m root (b + 4 + NUTMEM_GUARD_BYTES g) = Some (m', 0)"
      using run fnode_of_block [OF live] live by (simp add: NutHeapRootFree_def live_block_def)
    show cov: "cover (ins_free b (m b) ns) = cover ns \<union> {b..<b + m b}"
      by (rule ins_free_cover [OF wf ap])
    show "heap_inv m' root (ins_free b (m b) ns)"
      using ch' ins_free_wf [OF wf ok ap] cov rc ro r0 by (simp add: heap_inv_def)
    show "m' x = m x" if "x \<notin> cover ns \<union> {b..<b + m b}" "x \<noteq> root" for x
      using fr that cells_cover [OF wf] b8 by auto
  qed
qed

lemma free_walk_double:
  assumes "chain m node ns" and "wf_free ns" and "f \<in> cover ns"
  shows "free_walk m node npp f = Some (m, -1)"
  using assms
proof (induction ns arbitrary: node npp)
  case Nil
  then show ?case by simp
next
  case (Cons n ns)
  obtain b t where n: "n = (b, t)" by force
  have b: "node = b" "b \<noteq> NULL" "m b = t" "node_ok b t" and ch: "chain m (m (b + 4)) ns" and wf: "wf_free ns"
    and gap: "\<forall>(c, u) \<in> set ns. b + t < c"
    using Cons.prems n by auto
  have bt: "uadd b t = b + t" using b(4) by (simp add: node_ok_def wrap_simps)
  show ?case
  proof (cases "f \<in> {b..<b + t}")
    case True
    then show ?thesis using b bt by (subst free_walk.simps) auto
  next
    case False
    then have "f \<in> cover ns" using Cons.prems(3) n by auto
    moreover from this have "b + t < f" using wf_free_after [OF gap] by simp
    ultimately show ?thesis using Cons.IH [OF ch wf] b bt by (subst free_walk.simps) auto
  qed
qed

text \<open>The free list is determined by the memory it covers.\<close>

lemma cover_first: "wf_free ((a, s) # ns) \<Longrightarrow> x \<in> cover ((a, s) # ns) \<Longrightarrow> a \<le> x"
  using wf_free_after [of ns "a + s" x] by auto

lemma wf_free_cover_unique:
  "wf_free ns \<Longrightarrow> wf_free ns' \<Longrightarrow> cover ns = cover ns' \<Longrightarrow> ns = ns'"
proof (induction ns arbitrary: ns')
  case Nil
  then show ?case by (cases ns') (auto simp: node_ok_def)
next
  case (Cons n ns)
  obtain a s where n: "n = (a, s)" by force
  obtain b t ms where ns': "ns' = (b, t) # ms"
    using Cons.prems n by (cases ns') (auto simp: node_ok_def)
  have pos: "0 < s" "0 < t" and wf: "wf_free ns" "wf_free ms"
    and gap: "\<forall>(c, u) \<in> set ns. a + s < c" "\<forall>(c, u) \<in> set ms. b + t < c"
    using Cons.prems n ns' by (auto simp: node_ok_def)
  have "a \<in> cover ((a, s) # ns)" "b \<in> cover ((b, t) # ms)" using pos by auto
  then have ab: "a = b"
    using cover_first [of a s ns b] cover_first [of b t ms a] Cons.prems n ns' by (metis order_antisym)
  have out: "a + s \<notin> cover ((a, s) # ns)" "b + t \<notin> cover ((b, t) # ms)"
    using wf_free_after [OF gap(1), of "a + s"] wf_free_after [OF gap(2), of "b + t"] by auto
  have "s = t"
  proof (rule ccontr)
    assume "s \<noteq> t"
    then have "a + s \<in> cover ((b, t) # ms) \<or> b + t \<in> cover ((a, s) # ns)" using ab by auto
    then show False using out Cons.prems(3) unfolding n ns' by blast
  qed
  have split: "cover ns = cover ((a, s) # ns) - {a..<a + s}" "cover ms = cover ((b, t) # ms) - {b..<b + t}"
    using wf_free_after [OF gap(1)] wf_free_after [OF gap(2)] by fastforce+
  then have "cover ns = cover ms" using Cons.prems(3) n ns' ab \<open>s = t\<close> by simp
  then show ?case using Cons.IH [OF wf] n ns' ab \<open>s = t\<close> by simp
qed

section \<open>Statistics\<close>

lemma avail_walk_eq:
  "chain m node ns \<Longrightarrow> wf_free ns \<Longrightarrow> rc + sum_list (map snd ns) < 4294967296 \<Longrightarrow>
    avail_walk m node rc = Some (rc + sum_list (map (\<lambda>n. snd n - 4) ns))"
proof (induction ns arbitrary: node rc)
  case Nil
  then show ?case by (simp add: avail_walk.simps)
next
  case (Cons n ns)
  obtain a s where n: "n = (a, s)" by force
  have "uadd rc (usub s NUT_HEAP_OVERHEAD) = rc + (s - 4)"
    using Cons.prems n by (simp add: heap_consts node_ok_def wrap_simps)
  then show ?case
    using Cons.IH [of "m (a + 4)" "rc + (s - 4)"] Cons.prems n
    by (subst avail_walk.simps) simp
qed

lemma region_walk_eq:
  "chain m node ns \<Longrightarrow> region_walk m node rc = Some (fold max (map snd ns) rc)"
proof (induction ns arbitrary: node rc)
  case Nil
  then show ?case by (simp add: region_walk.simps)
next
  case (Cons n ns)
  obtain a s where n: "n = (a, s)" by force
  have "max s rc = (if rc < s then s else rc)" by (simp add: max_def)
  then show ?case using Cons n by (subst region_walk.simps) simp
qed

lemma wf_free_total:
  "wf_free ns \<Longrightarrow> (\<forall>(a, s) \<in> set ns. lo \<le> a) \<Longrightarrow> lo + sum_list (map snd ns) < 4294967296 \<or> ns = []"
proof (induction ns arbitrary: lo)
  case Nil
  then show ?case by simp
next
  case (Cons n ns)
  obtain a s where n: "n = (a, s)" by force
  have "\<forall>(b, t) \<in> set ns. a + s \<le> b" using Cons.prems(1) n by (auto dest: less_imp_le)
  then have "a + s + sum_list (map snd ns) < 4294967296 \<or> ns = []"
    using Cons.IH [of "a + s"] Cons.prems(1) n by auto
  then show ?case using Cons.prems n by (auto simp: node_ok_def)
qed

end
