(* ===== verification/Nut_Heap_Realloc.thy ===== *)
theory Nut_Heap_Realloc
  imports Nut_Heap_Free
begin

text \<open>
  \<^verbatim>\<open>NutHeapRootRealloc\<close> of \<^verbatim>\<open>os/heap.c\<close>: growing in place, moving and shrinking keep the
  invariant, conserve the covered memory and preserve the contents of the block.
\<close>

section \<open>Changing the size of a block\<close>

lemma copy_cells_frame: "(\<And>i. i < n \<Longrightarrow> x \<noteq> dst + 4 * i) \<Longrightarrow> copy_cells m dst src n x = m x"
proof (induction m dst src n rule: copy_cells.induct)
  case (1 m dst src)
  then show ?case by simp
next
  case (2 m dst src n)
  have "x \<noteq> dst" using "2.prems" [of 0] by simp
  moreover have "x \<noteq> dst + 4 + 4 * i" if "i < n" for i
    using "2.prems" [of "Suc i"] that by simp
  ultimately show ?case using "2.IH" by (simp add: fun_upd_def)
qed

lemma copy_cells_copies:
  assumes "i < n" and "{dst..<dst + 4 * n} \<inter> {src..<src + 4 * n} = {}"
  shows "copy_cells m dst src n (dst + 4 * i) = m (src + 4 * i)"
  using assms
proof (induction m dst src n arbitrary: i rule: copy_cells.induct)
  case (1 m dst src)
  then show ?case by simp
next
  case (2 m dst src n)
  have dis: "{dst + 4..<dst + 4 + 4 * n} \<inter> {src + 4..<src + 4 + 4 * n} = {}"
    using "2.prems"(2) by fastforce
  show ?case
  proof (cases i)
    case 0
    have "copy_cells (m(dst := m src)) (dst + 4) (src + 4) n dst = (m(dst := m src)) dst"
      by (rule copy_cells_frame) simp
    then show ?thesis using 0 by simp
  next
    case (Suc k)
    then have "k < n" using "2.prems"(1) by simp
    from "2.IH" [OF this dis] have
      "copy_cells (m(dst := m src)) (dst + 4) (src + 4) n (dst + 4 + 4 * k) = (m(dst := m src)) (src + 4 + 4 * k)" .
    moreover have "src + 4 + 4 * k \<noteq> dst"
      using "2.prems" \<open>k < n\<close> by (auto simp: disjoint_iff)
    ultimately show ?thesis using Suc by (simp add: add.assoc)
  qed
qed

lemma realloc_find_spec:
  assumes "chain m node ns" and "wf_free ns"
  shows "\<exists>as bs. ns = as @ bs \<and> (\<forall>(a, s) \<in> set as. a < f) \<and>
    realloc_find m node npp f = Some (if bs = [] then NULL else fst (hd bs), link_cell npp as)"
  using assms
proof (induction ns arbitrary: node npp)
  case Nil
  then show ?case by (simp add: realloc_find.simps)
next
  case (Cons n ns)
  obtain a s where n: "n = (a, s)" by force
  show ?case
  proof (cases "a < f")
    case True
    from Cons.IH [of "m (a + 4)" "a + 4"] Cons.prems n obtain as bs where
      "ns = as @ bs" "\<forall>(a, s) \<in> set as. a < f"
      "realloc_find m (m (a + 4)) (a + 4) f = Some (if bs = [] then NULL else fst (hd bs), link_cell (a + 4) as)"
      by auto
    then show ?thesis using True Cons.prems n
      by (intro exI [of _ "n # as"] exI [of _ bs]) (subst realloc_find.simps, auto)
  next
    case False
    then show ?thesis using Cons.prems n
      by (intro exI [of _ "[]"] exI [of _ "n # ns"]) (subst realloc_find.simps, auto)
  qed
qed

text \<open>What every successful outcome guarantees about the old block and the new one.\<close>

definition resized ::
  "bool \<Rightarrow> mem \<Rightarrow> addr \<Rightarrow> (addr \<times> nat) list \<Rightarrow> addr \<Rightarrow> nat \<Rightarrow> mem \<Rightarrow> (addr \<times> nat) list \<Rightarrow> addr \<Rightarrow> bool" where
  "resized g m root ns b need m' ns' b' \<longleftrightarrow>
     heap_inv m' root ns' \<and> roomy g ns' \<and> live_block g m' b' \<and> need \<le> m' b' \<and>
     cover ns \<union> {b..<b + m b} = cover ns' \<union> {b'..<b' + m' b'} \<and>
     cover ns' \<inter> {b'..<b' + m' b'} = {} \<and>
     (\<forall>i. 4 + NUTMEM_GUARD_BYTES g \<le> i \<and> i + NUTMEM_GUARD_BYTES g < m b \<and> i + NUTMEM_GUARD_BYTES g < m' b' \<and> i mod 4 = 0
        \<longrightarrow> m' (b' + i) = m (b + i)) \<and>
     (\<forall>x. x \<notin> cover ns \<union> {b..<b + m b} \<longrightarrow> x \<noteq> root \<longrightarrow> m' x = m x)"

lemma resizedI:
  assumes "heap_inv m' root ns'" and "roomy g ns'" and "live_block g m' b'" and "need \<le> m' b'"
    and "cover ns \<union> {b..<b + m b} = cover ns' \<union> {b'..<b' + m' b'}"
    and "cover ns' \<inter> {b'..<b' + m' b'} = {}"
    and "\<And>i. 4 + NUTMEM_GUARD_BYTES g \<le> i \<Longrightarrow> i + NUTMEM_GUARD_BYTES g < m b \<Longrightarrow>
      i + NUTMEM_GUARD_BYTES g < m' b' \<Longrightarrow> i mod 4 = 0 \<Longrightarrow> m' (b' + i) = m (b + i)"
    and "\<And>x. x \<notin> cover ns \<union> {b..<b + m b} \<Longrightarrow> x \<noteq> root \<Longrightarrow> m' x = m x"
  shows "resized g m root ns b need m' ns' b'"
  unfolding resized_def by (intro conjI allI impI; (elim conjE)?) (rule assms; assumption)+

lemma guard_area_upd:
  "l \<notin> {b..<b + s} \<Longrightarrow> 8 \<le> s \<Longrightarrow> guard_area g (h(l := v)) b s = (guard_area g h b s)(l := v)"
  by (auto simp: guard_area_def fun_eq_iff)

lemma realloc_extend_eq:
  assumes ok: "node_ok b (m b)" "8 + NUTMEM_GUARD_BYTES g \<le> m b" and adj: "f = b + m b"
    and fok: "node_ok f (m f)" "8 + NUTMEM_GUARD_BYTES g \<le> m f"
    and miss: "0 < miss" "miss mod 4 = 0" "miss \<le> m f"
    and l: "l \<notin> {b..<f + m f}"
  shows "realloc_extend g m b f l miss =
    (let k = taken (m f) miss (NUTMEM_HEAPNODE_MIN g)
     in guard_area g ((carve m f l miss (NUTMEM_HEAPNODE_MIN g))(f := m f, b := m b + k)) b (m b + k))"
proof -
  let ?lim = "NUTMEM_HEAPNODE_MIN g"
  have u: "usub (m f) miss = m f - miss" "uadd (m b) miss = m b + miss" "uadd f miss = f + miss"
    "uadd (m b) (m f) = m b + m f"
    using fok ok miss adj by (auto simp: node_ok_def wrap_simps)
  have bf: "b \<noteq> f" "b + 4 \<noteq> f" "b \<noteq> f + 4" "f + miss \<noteq> b" "f + miss + 4 \<noteq> b" "f + miss \<noteq> f"
    "f + miss + 4 \<noteq> f" "l \<noteq> b" "l \<noteq> f" "l \<noteq> f + 4" "f \<noteq> b"
    using ok adj miss l fok by (auto simp: node_ok_def)
  have prep: "PrepareUserArea g m' b = (guard_area g m' b (m' b), b + 4 + NUTMEM_GUARD_BYTES g)"
    if "m' b = m b + k" "k mod 4 = 0" "k \<le> m f" for m' k
    using PrepareUserArea_eq [of b m' g] that ok fok adj by (auto simp: node_ok_def)
  show ?thesis
  proof (cases "m f - miss \<ge> ?lim")
    case True
    then have in_f: "l \<noteq> f + miss" "l \<noteq> f + miss + 4"
      using l miss adj heap_min_ge [of g] by auto
    let ?m4 = "m(b := m b + miss, l := f + miss, f + miss + 4 := m (f + 4), f + miss := m f - miss)"
    have "?m4 b = m b + miss" using bf by simp
    then have "realloc_extend g m b f l miss = guard_area g ?m4 b (m b + miss)"
      using True u bf in_f prep [of ?m4 miss] miss by (simp add: realloc_extend_def Let_def)
    moreover have "?m4 = (carve m f l miss ?lim)(f := m f, b := m b + miss)"
      using True bf in_f by (auto simp: carve_def)
    ultimately show ?thesis using True by (simp add: taken_def Let_def)
  next
    case False
    let ?m1 = "m(b := m b + m f)"
    have "?m1 b = m b + m f" "m f mod 4 = 0" using fok by (auto simp: node_ok_def)
    then have p: "PrepareUserArea g ?m1 b = (guard_area g ?m1 b (m b + m f), b + 4 + NUTMEM_GUARD_BYTES g)"
      using prep [of ?m1 "m f"] by simp
    have "guard_area g ?m1 b (m b + m f) (f + 4) = m (f + 4)"
      using fok bf ok adj by (auto simp: guard_area_def NUTMEM_GUARD_BYTES_def)
    then have "realloc_extend g m b f l miss = (guard_area g ?m1 b (m b + m f))(l := m (f + 4))"
      using False u p by (simp add: realloc_extend_def Let_def)
    also have "\<dots> = guard_area g ((carve m f l miss ?lim)(f := m f, b := m b + m f)) b (m b + m f)"
    proof -
      have "(carve m f l miss ?lim)(f := m f, b := m b + m f) = ?m1(l := m (f + 4))"
        using False bf by (simp add: carve_def fun_eq_iff)
      then show ?thesis using guard_area_upd [of l b "m b + m f" g ?m1] l adj ok by (simp add: node_ok_def add.assoc)
    qed
    finally show ?thesis using False by (simp add: taken_def Let_def)
  qed
qed

lemma guard_area_payload:
  "NUTMEM_GUARD_BYTES g + 4 \<le> i \<Longrightarrow> i mod 4 = 0 \<Longrightarrow> i + NUTMEM_GUARD_BYTES g < s \<Longrightarrow> s mod 4 = 0 \<Longrightarrow>
    guard_area g m b s (b + i) = m (b + i)"
  by (auto simp: guard_area_def NUTMEM_GUARD_BYTES_def)

lemma realloc_extend_spec:
  assumes inv: "heap_inv m root (as @ (f, t) # bs)" and room: "roomy g (as @ (f, t) # bs)"
    and live: "live_block g m b"
    and dis: "cover (as @ (f, t) # bs) \<inter> {b..<b + m b} = {}" and ro: "root \<notin> {b..<b + m b}"
    and adj: "f = b + m b" and miss: "0 < miss" "miss mod 4 = 0" "miss \<le> t"
  shows "resized g m root (as @ (f, t) # bs) b (m b + miss)
    (realloc_extend g m b f (link_cell root as) miss) (as @ carved f t miss (NUTMEM_HEAPNODE_MIN g) bs) b"
proof -
  let ?lim = "NUTMEM_HEAPNODE_MIN g" and ?l = "link_cell root as" and ?gb = "NUTMEM_GUARD_BYTES g"
  let ?ns = "as @ (f, t) # bs" and ?ns' = "as @ carved f t miss (NUTMEM_HEAPNODE_MIN g) bs"
  let ?k = "taken t miss ?lim" let ?c = "carve m f ?l miss ?lim" let ?m = "realloc_extend g m b f ?l miss"
  let ?d = "?c(f := m f, b := m b + ?k)"
  have wf: "wf_free ?ns" and rc: "root \<notin> cover ?ns" and ch: "chain m (m root) ?ns"
    using inv by (auto simp: heap_inv_def)
  have ok: "node_ok b (m b)" "8 + ?gb \<le> m b" using live by (auto simp: live_block_def)
  have fok: "node_ok f t" "8 + ?gb \<le> t" using wf_free_node [OF wf] room by (auto simp: roomy_def)
  have mf: "m f = t" using chain_nodes [OF ch] by simp
  note cv = carve_heap_inv [OF inv miss(3,2,1) heap_min_ge [of g]]
  note co = carved_cover [OF wf miss(3), of ?lim]
  have wfs: "wf_free as" using wf by (simp add: wf_free_append)
  have l: "?l \<notin> {b..<f + t}"
    using link_cell_outside [OF wf rc] link_cell_in [of root as] cells_cover [OF wfs] ro dis adj by auto
  have k: "?k mod 4 = 0" "miss \<le> ?k" "?k \<le> t"
    using miss fok by (auto simp: taken_def node_ok_def)
  have eq: "?m = guard_area g ?d b (m b + ?k)"
    using realloc_extend_eq [of b m g f miss ?l] ok adj fok mf miss l by (simp add: Let_def)
  have bk: "node_ok b (m b + ?k)" using ok fok k adj by (auto simp: node_ok_def)
  have lb: "live_block g ?m b" "?m b = m b + ?k"
    using live_block_guard_area [of b "m b + ?k" g ?d] bk ok eq by auto
  have blk: "{b..<b + (m b + ?k)} = {b..<b + m b} \<union> {f..<f + ?k}" using adj by auto
  have out: "?m x = ?c x" if "x \<notin> {b..<b + (m b + ?k)}" for x
  proof -
    have "?m x = ?d x" using eq guard_area_frame(1) [OF that, of g ?d] ok by simp
    then show ?thesis using that adj miss(1) k(2) by auto
  qed
  have dis': "cover ?ns' \<inter> {b..<b + (m b + ?k)} = {}"
    using co dis unfolding blk by auto
  show ?thesis
  proof (rule resizedI)
    show "heap_inv ?m root ?ns'"
    proof (rule heap_inv_frame [OF cv(1)])
      fix x assume x: "x \<in> cells ?ns' \<or> x = root"
      have "wf_free ?ns'" using cv(1) by (simp add: heap_inv_def)
      then have "x \<in> cover ?ns' \<or> x = root" using x cells_cover [of ?ns'] by blast
      moreover have "root \<notin> {b..<b + (m b + ?k)}" using rc ro co(1) unfolding blk by blast
      ultimately have "x \<notin> {b..<b + (m b + ?k)}" using dis' by blast
      then show "?m x = ?c x" by (rule out)
    qed
    show "?m (b + i) = m (b + i)"
      if i: "4 + ?gb \<le> i" "i + ?gb < m b" "i mod 4 = 0" for i
    proof -
      have bi: "b + i \<in> {b..<b + m b}" "b + i \<notin> {f..<f + m f}" "b + i \<noteq> b" "b + i \<noteq> f"
        using i adj by auto
      have "?m (b + i) = ?d (b + i)"
        using guard_area_payload [of g i "m b + ?k" ?d b] eq bk i by (simp add: node_ok_def)
      also have "\<dots> = ?c (b + i)" using bi by simp
      also have "\<dots> = m (b + i)"
        using bi l carve_frame [of "b + i" f m ?l miss ?lim] mf fok miss heap_min_ge [of g] adj by auto
      finally show ?thesis .
    qed
    show "?m x = m x" if "x \<notin> cover ?ns \<union> {b..<b + m b}" "x \<noteq> root" for x
    proof -
      have "x \<notin> {b..<b + (m b + ?k)}" and "x \<notin> cover ?ns" using that(1) co(1) unfolding blk by blast+
      then show ?thesis using out [of x] cv(3) [of x] that(2) by simp
    qed
    show "cover ?ns \<union> {b..<b + m b} = cover ?ns' \<union> {b..<b + ?m b}"
      using co(1) unfolding lb(2) blk by blast
    show "cover ?ns' \<inter> {b..<b + ?m b} = {}" unfolding lb(2) by (rule dis')
  qed (use lb k(2) roomy_carved [OF room, of miss] in auto)
qed

lemma prepare_tail:
  assumes ok: "node_ok b s" "b + s = c" and r: "node_ok c t" "8 + NUTMEM_GUARD_BYTES g \<le> t"
  shows "fst (PrepareUserArea g (m(c := t)) c) = guard_area g (m(c := t)) c t"
    and "snd (PrepareUserArea g (m(c := t)) c) = c + 4 + NUTMEM_GUARD_BYTES g"
    and "live_block g (guard_area g (m(c := t)) c t) c"
    and "guard_area g (m(c := t)) c t c = t"
  using PrepareUserArea_eq [of c "m(c := t)" g] live_block_guard_area [of c t g "m(c := t)"] r
  by simp_all

lemma realloc_shrink_spec:
  assumes inv: "heap_inv m root ns" and room: "roomy g ns" and live: "live_block g m b"
    and dis: "cover ns \<inter> {b..<b + m b} = {}" and ro: "root \<notin> {b..<b + m b}"
    and need: "need mod 4 = 0" "8 + NUTMEM_GUARD_BYTES g \<le> need"
      "need + NUTMEM_HEAPNODE_MIN g < m b"
  shows "\<exists>m' ns'. realloc_shrink g m root block b need = Some (m', block) \<and> resized g m root ns b need m' ns' b"
proof -
  let ?gb = "NUTMEM_GUARD_BYTES g" let ?c = "b + need" and ?t = "m b - need"
  have ok: "node_ok b (m b)" using live by (auto simp: live_block_def)
  have t: "node_ok ?c ?t" "8 + ?gb \<le> ?t" "node_ok b need"
    using ok need by (auto simp: node_ok_def heap_consts)
  let ?m1 = "m(?c := ?t)" let ?m2 = "guard_area g ?m1 ?c ?t"
  note tail = prepare_tail [OF t(3) refl t(1,2), of m]
  have blk: "{b..<b + m b} = {b..<b + need} \<union> {?c..<?c + ?t}" and cut: "{b..<b + need} \<inter> {?c..<?c + ?t} = {}"
    using need by auto
  have m2: "?m2 x = m x" if "x \<notin> {?c..<?c + ?t}" for x
    using that guard_area_frame(1) [OF that, of g ?m1] t(2) by auto
  have "heap_inv ?m2 root ns"
  proof (rule heap_inv_frame [OF inv])
    fix x assume "x \<in> cells ns \<or> x = root"
    moreover have "wf_free ns" using inv by (simp add: heap_inv_def)
    ultimately have "x \<notin> {b..<b + m b}" using dis ro cells_cover [of ns] by blast
    then show "?m2 x = m x" using m2 unfolding blk by blast
  qed
  moreover have "cover ns \<inter> {?c..<?c + ?m2 ?c} = {}" "root \<notin> {?c..<?c + ?m2 ?c}"
    using dis ro unfolding tail(4) blk by blast+
  ultimately obtain m3 where fr: "NutHeapRootFree g ?m2 root (?c + 4 + ?gb) = Some (m3, 0)"
    "heap_inv m3 root (ins_free ?c ?t ns)" "cover (ins_free ?c ?t ns) = cover ns \<union> {?c..<?c + ?t}"
    "\<And>x. x \<notin> cover ns \<union> {?c..<?c + ?t} \<Longrightarrow> x \<noteq> root \<Longrightarrow> m3 x = ?m2 x"
    using NutHeapRootFree_spec [OF _ tail(3)] unfolding tail(4) by metis
  have m3: "m3 x = m x" if "x \<notin> cover ns \<union> {?c..<?c + ?t}" "x \<noteq> root" for x
    using fr(4) m2 that by simp
  let ?m4 = "m3(b := need)" let ?m5 = "guard_area g ?m4 b need"
  have prep: "fst (PrepareUserArea g ?m4 b) = ?m5"
    using PrepareUserArea_eq [of b ?m4 g] t(3) need(2) by simp
  note lb = live_block_guard_area [of b need g ?m4, OF t(3) need(2) fun_upd_same]
  have run: "realloc_shrink g m root block b need = Some (?m5, block)"
    using prep fr(1) tail(1,2) ok need
    by (simp add: realloc_shrink_def node_ok_def wrap_simps heap_consts Let_def split_beta)
  have m5: "?m5 x = m3 x" if "x \<notin> {b..<b + need}" for x
    using guard_area_frame(1) [OF that, of g ?m4] that need by auto
  have cov: "cover (ins_free ?c ?t ns) \<inter> {b..<b + need} = {}" using fr(3) cut dis unfolding blk by blast
  have "resized g m root ns b need ?m5 (ins_free ?c ?t ns) b"
  proof (rule resizedI)
    show "heap_inv ?m5 root (ins_free ?c ?t ns)"
    proof (rule heap_inv_frame [OF fr(2)])
      fix x assume "x \<in> cells (ins_free ?c ?t ns) \<or> x = root"
      moreover have "wf_free (ins_free ?c ?t ns)" using fr(2) by (simp add: heap_inv_def)
      ultimately have "x \<notin> {b..<b + need}" using cov ro cells_cover [of "ins_free ?c ?t ns"] unfolding blk by blast
      then show "?m5 x = m3 x" by (rule m5)
    qed
    show "?m5 (b + i) = m (b + i)"
      if i: "4 + ?gb \<le> i" "i + ?gb < m b" "i + ?gb < ?m5 b" "i mod 4 = 0" for i
    proof -
      have "?m5 (b + i) = ?m4 (b + i)"
        using guard_area_payload [of g i need ?m4 b] i need lb by simp
      moreover have "b + i \<in> {b..<b + need}" using i lb by simp
      then have "b + i \<notin> cover ns \<union> {?c..<?c + ?t}" "b + i \<noteq> root"
        using dis ro cut unfolding blk by blast+
      ultimately show ?thesis using m3 [of "b + i"] i by simp
    qed
    show "?m5 x = m x" if "x \<notin> cover ns \<union> {b..<b + m b}" "x \<noteq> root" for x
      using that m5 [of x] m3 [of x] unfolding blk by auto
    show "cover ns \<union> {b..<b + m b} = cover (ins_free ?c ?t ns) \<union> {b..<b + ?m5 b}"
      using fr(3) unfolding lb(2) blk by blast
    show "cover (ins_free ?c ?t ns) \<inter> {b..<b + ?m5 b} = {}" unfolding lb(2) by (rule cov)
  qed (use lb roomy_ins_free [OF room t(2)] in auto)
  then show ?thesis using run by blast
qed

lemma live_block_frame:
  assumes "live_block g m b" and "\<And>x. x = b \<or> g \<and> x \<in> {b + 4, b + m b - 4} \<Longrightarrow> m' x = m x"
  shows "live_block g m' b" and "m' b = m b"
proof -
  show b: "m' b = m b" using assms(2) by simp
  have "ValidateUserArea g m' b = ValidateUserArea g m b"
    using ValidateUserArea_guarded [of b m' g] ValidateUserArea_guarded [of b m g] assms b
    by (simp add: live_block_def)
  then show "live_block g m' b" using assms(1) b by (simp add: live_block_def)
qed

lemma live_block_cells:
  "live_block g m b \<Longrightarrow> {b, b + 4, b + m b - 4} \<subseteq> {b..<b + m b}"
  by (auto simp: live_block_def node_ok_def)

lemma realloc_move_spec:
  assumes inv: "heap_inv m root ns" and room: "roomy g ns" and live: "live_block g m b"
    and dis: "cover ns \<inter> {b..<b + m b} = {}" and ro: "root \<notin> {b..<b + m b}"
    and need: "m b < need" "need + 15 < 4294967296"
  shows "(\<exists>m' ns' b'. realloc_move g m root (b + 4 + NUTMEM_GUARD_BYTES g) b need =
        Some (m', b' + 4 + NUTMEM_GUARD_BYTES g) \<and> resized g m root ns b need m' ns' b')
    \<or> realloc_move g m root (b + 4 + NUTMEM_GUARD_BYTES g) b need = Some (m, NULL)"
proof (cases "\<forall>(a, s) \<in> set ns. s < heap_need g need")
  case True
  then show ?thesis using NutHeapRootAlloc_none [OF inv need(2)] by (simp add: realloc_move_def)
next
  case False
  let ?gb = "NUTMEM_GUARD_BYTES g" let ?n = "(m b - 4 - 2 * ?gb) div 4"
  obtain m1 c s ns1 where al: "NutHeapRootAlloc g m root need = Some (m1, c + 4 + ?gb)"
    and inv1: "heap_inv m1 root ns1" and lc: "live_block g m1 c" and big: "heap_need g need \<le> m1 c"
    and cov: "cover ns = cover ns1 \<union> {c..<c + m1 c}" "cover ns1 \<inter> {c..<c + m1 c} = {}"
    and fr1: "\<And>x. x \<notin> cover ns \<Longrightarrow> x \<noteq> root \<Longrightarrow> m1 x = m x" and room1: "roomy g ns1"
    by (rule NutHeapRootAlloc_spec [OF inv need(2) False]) (use room in blast)
  have ok: "node_ok b (m b)" "8 + ?gb \<le> m b" using live by (auto simp: live_block_def)
  have cok: "node_ok c (m1 c)" using lc by (auto simp: live_block_def)
  have nb: "need + 4 + 2 * ?gb \<le> m1 c" using heap_need_props(4) [OF need(2), of g] big by simp
  have keep: "m1 x = m x" if "x \<in> {b..<b + m b}" for x
    using fr1 [of x] that dis ro by blast
  then have m1b: "m1 b = m b" using ok by simp
  let ?src = "b + 4 + ?gb" and ?dst = "c + 4 + ?gb" let ?m2 = "copy_cells m1 ?dst ?src ?n"
  have n4: "4 * ?n \<le> m b - 4 - 2 * ?gb" by simp
  have m2: "?m2 x = m1 x" if "x \<notin> {c..<c + m1 c} \<or> x = c \<or> g \<and> x \<in> {c + 4, c + m1 c - 4}" for x
    by (rule copy_cells_frame) (use that n4 nb need(1) in \<open>auto simp: NUTMEM_GUARD_BYTES_def split: if_splits\<close>)
  have bc: "{b..<b + m b} \<inter> {c..<c + m1 c} = {}" using dis cov(1) by blast
  have m2b: "?m2 x = m x" if "x \<in> {b..<b + m b}" for x
    using that keep [OF that] m2 [of x] bc by auto
  have lb2: "live_block g ?m2 b" "?m2 b = m b"
    using live_block_frame [OF live, of ?m2] m2b live_block_cells [OF live] by blast+
  have lc2: "live_block g ?m2 c" "?m2 c = m1 c"
    using live_block_frame [OF lc, of ?m2] m2 by blast+
  have inv2: "heap_inv ?m2 root ns1"
  proof (rule heap_inv_frame [OF inv1])
    fix x assume "x \<in> cells ns1 \<or> x = root"
    moreover have "wf_free ns1" "root \<notin> cover ns" using inv1 inv by (auto simp: heap_inv_def)
    ultimately have "x \<notin> {c..<c + m1 c}" using cov cells_cover [of ns1] by blast
    then show "?m2 x = m1 x" using m2 by simp
  qed
  have "cover ns1 \<inter> {b..<b + ?m2 b} = {}" "root \<notin> {b..<b + ?m2 b}"
    using dis ro cov(1) unfolding lb2(2) by blast+
  then obtain m3 where fr: "NutHeapRootFree g ?m2 root ?src = Some (m3, 0)"
    "heap_inv m3 root (ins_free b (m b) ns1)" "cover (ins_free b (m b) ns1) = cover ns1 \<union> {b..<b + m b}"
    "\<And>x. x \<notin> cover ns1 \<union> {b..<b + m b} \<Longrightarrow> x \<noteq> root \<Longrightarrow> m3 x = ?m2 x"
    using NutHeapRootFree_spec [OF inv2 lb2(1)] unfolding lb2(2) by metis
  have rc: "root \<notin> {c..<c + m1 c}" using inv cov(1) by (auto simp: heap_inv_def)
  have m3c: "m3 x = ?m2 x" if "x \<in> {c..<c + m1 c}" for x
    using that fr(4) [of x] cov(2) bc rc by blast
  have lc3: "live_block g m3 c" "m3 c = m1 c"
    using live_block_frame [OF lc2(1), of m3] m3c live_block_cells [OF lc2(1)] unfolding lc2(2) by blast+
  have "usub (usub (m b) NUT_HEAP_OVERHEAD) (2 * ?gb) = m b - 4 - 2 * ?gb"
    using ok by (cases g) (auto simp: node_ok_def heap_consts wrap_simps)
  then have run: "realloc_move g m root ?src b need = Some (m3, ?dst)"
    using al fr(1) m1b by (simp add: realloc_move_def Let_def)
  have "resized g m root ns b need m3 (ins_free b (m b) ns1) c"
  proof (rule resizedI)
    show "need \<le> m3 c" using lc3 nb by simp
    show "cover ns \<union> {b..<b + m b} = cover (ins_free b (m b) ns1) \<union> {c..<c + m3 c}"
      using cov(1) fr(3) unfolding lc3(2) by blast
    show "cover (ins_free b (m b) ns1) \<inter> {c..<c + m3 c} = {}"
      using cov(2) bc fr(3) unfolding lc3(2) by blast
    show "m3 x = m x" if "x \<notin> cover ns \<union> {b..<b + m b}" "x \<noteq> root" for x
      using that fr(4) [of x] m2 [of x] fr1 [of x] cov(1) by auto
    show "m3 (c + i) = m (b + i)"
      if i: "4 + ?gb \<le> i" "i + ?gb < m b" "i mod 4 = 0" for i
    proof -
      define k where "k = (i - 4 - ?gb) div 4"
      have k: "i = 4 + ?gb + 4 * k" using i(1,3) by (auto simp: k_def NUTMEM_GUARD_BYTES_def split: if_splits; presburger)
      obtain q where q: "m b = 4 * q" using ok by (auto simp: node_ok_def)
      have kn: "k < ?n" using i(2) k unfolding q by (cases g; simp add: NUTMEM_GUARD_BYTES_def; presburger)
      have "{?dst..<?dst + 4 * ?n} \<subseteq> {c..<c + m1 c}" "{?src..<?src + 4 * ?n} \<subseteq> {b..<b + m b}"
        using n4 nb need(1) ok by auto
      then have "{?dst..<?dst + 4 * ?n} \<inter> {?src..<?src + 4 * ?n} = {}" using bc by blast
      from copy_cells_copies [OF kn this] have "?m2 (?dst + 4 * k) = m1 (?src + 4 * k)" .
      moreover have "c + i \<in> {c..<c + m1 c}" "b + i \<in> {b..<b + m b}" using i nb need(1) by auto
      ultimately show ?thesis using m3c [of "c + i"] keep [of "b + i"] k by (simp add: add.assoc)
    qed
  qed (use fr(2) roomy_ins_free [OF room1 ok(2)] lc3 in auto)
  then show ?thesis using run by blast
qed

lemma heap_need_le:
  assumes "sz + 15 < 4294967296"
  shows "heap_need g sz \<le> sz + 15"
proof -
  let ?n = "if sz + 4 + 2 * NUTMEM_GUARD_BYTES g < 8 then 8 else sz + 4 + 2 * NUTMEM_GUARD_BYTES g"
  have eq: "heap_need g sz = NUTMEM_TOP_ALIGN ?n"
    using assms by (simp add: heap_need_def heap_consts wrap_simps Let_def)
  have "?n + 3 < 4294967296" "?n + 3 \<le> sz + 15" using assms by (simp_all add: heap_consts)
  then show ?thesis using top_align_le [of ?n] eq by simp
qed

lemma mod_diff_eq_0: "(a::nat) mod 4 = 0 \<Longrightarrow> b mod 4 = 0 \<Longrightarrow> (a - b) mod 4 = 0"
  by presburger

lemma NutHeapRootRealloc_spec:
  assumes inv: "heap_inv m root ns" and room: "roomy g ns" and live: "live_block g m b"
    and dis: "cover ns \<inter> {b..<b + m b} = {}" and ro: "root \<notin> {b..<b + m b}"
    and sz: "0 < sz" "sz + 40 < 4294967296"
  shows "(\<exists>m' ns' b'. NutHeapRootRealloc g m root (b + 4 + NUTMEM_GUARD_BYTES g) sz =
        Some (m', b' + 4 + NUTMEM_GUARD_BYTES g) \<and> resized g m root ns b (heap_need g sz) m' ns' b')
    \<or> NutHeapRootRealloc g m root (b + 4 + NUTMEM_GUARD_BYTES g) sz = Some (m, NULL)"
    (is "?moved \<or> ?failed")
proof -
  let ?gb = "NUTMEM_GUARD_BYTES g" let ?need = "heap_need g sz" and ?block = "b + 4 + NUTMEM_GUARD_BYTES g"
  have "sz + 15 < 4294967296" using sz by simp
  note need = heap_need_props [OF this, of g]
  have nb: "?need + 15 < 4294967296" using heap_need_le [of sz g] sz by simp
  have ok: "node_ok b (m b)" "8 + ?gb \<le> m b" "ValidateUserArea g m b = 0"
    using live by (auto simp: live_block_def)
  have wf: "wf_free ns" and ch: "chain m (m root) ns" using inv by (auto simp: heap_inv_def)
  note fn = fnode_of_block [OF live]
  consider (grow) "m b < ?need" | (shrink) "?need + NUTMEM_HEAPNODE_MIN g < m b"
    | (keep) "?need \<le> m b" "\<not> ?need + NUTMEM_HEAPNODE_MIN g < m b" by linarith
  then show ?thesis
  proof cases
    case grow
    obtain as bs where sp: "ns = as @ bs" "\<forall>(a, s) \<in> set as. a < b"
      and fd: "realloc_find m (m root) root b = Some (if bs = [] then NULL else fst (hd bs), link_cell root as)"
      using realloc_find_spec [OF ch wf, of b root] by blast
    let ?node = "if bs = [] then NULL else fst (hd bs)" and ?miss = "?need - m b"
    have miss: "usub ?need (m b) = ?miss" "0 < ?miss" "?miss mod 4 = 0" "uadd b (m b) = b + m b"
      using grow need ok by (auto simp: node_ok_def wrap_simps mod_diff_eq_0)
    have eq: "NutHeapRootRealloc g m root ?block sz =
        (if ?node \<noteq> NULL \<and> m ?node \<ge> ?miss \<and> b + m b = ?node
         then Some (realloc_extend g m b ?node (link_cell root as) ?miss, ?block)
         else realloc_move g m root ?block b ?need)"
      using fn ok(3) sz grow fd miss by (simp add: NutHeapRootRealloc_def Let_def)
    show ?thesis
    proof (cases "?node \<noteq> NULL \<and> m ?node \<ge> ?miss \<and> b + m b = ?node")
      case True
      then obtain t cs where bs: "bs = (b + m b, t) # cs" by (cases bs) (auto split: if_splits)
      have "(b + m b, t) \<in> set ns" unfolding sp(1) bs by simp
      then have "m (b + m b) = t" using chain_nodes [OF ch] by blast
      moreover have "?miss \<le> m (b + m b)" using True bs by (metis)
      ultimately have le: "?miss \<le> t" by simp
      have nd: "?node = b + m b" and nd': "m b + ?miss = ?need" unfolding bs using grow by simp_all
      have res: "resized g m root ns b (m b + ?miss) (realloc_extend g m b (b + m b) (link_cell root as) ?miss)
          (as @ carved (b + m b) t ?miss (NUTMEM_HEAPNODE_MIN g) cs) b"
        using realloc_extend_spec [of m root as "b + m b" t cs g b ?miss]
          inv room live dis ro miss(2,3) le unfolding sp(1) bs by blast
      have run: "NutHeapRootRealloc g m root ?block sz =
          Some (realloc_extend g m b ?node (link_cell root as) ?miss, ?block)"
        using eq by (simp only: True simp_thms if_True)
      show ?thesis
        by (rule disjI1, intro exI conjI, rule run [unfolded nd], rule res [unfolded nd'])
    next
      case False
      then have "NutHeapRootRealloc g m root ?block sz = realloc_move g m root ?block b ?need"
        using eq by presburger
      then show ?thesis using realloc_move_spec [OF inv room live dis ro grow nb] by simp
    qed
  next
    case shrink
    then have "\<not> ?need > m b" "?need < usub (m b) (NUTMEM_HEAPNODE_MIN g)"
      using ok by (auto simp: node_ok_def wrap_simps)
    then have eq: "NutHeapRootRealloc g m root ?block sz = realloc_shrink g m root ?block b ?need"
      using fn ok(3) sz by (simp add: NutHeapRootRealloc_def Let_def)
    have "8 + ?gb \<le> ?need" using need by (auto simp: NUTMEM_GUARD_BYTES_def)
    from realloc_shrink_spec [OF inv room live dis ro need(1) this shrink, of ?block]
    show ?thesis using eq by auto
  next
    case keep
    have "13 \<le> x \<Longrightarrow> x mod 4 = 0 \<Longrightarrow> 16 \<le> x" for x :: nat by presburger
    from this [OF _ need(1)] have "NUTMEM_HEAPNODE_MIN g \<le> m b"
      using need(4) keep(1) sz(1) ok(2) by (cases g) (simp_all add: heap_consts)
    then have "\<not> ?need < usub (m b) (NUTMEM_HEAPNODE_MIN g)"
      using keep(2) ok(1) by (simp add: node_ok_def wrap_simps)
    then have "NutHeapRootRealloc g m root ?block sz = Some (m, ?block)"
      using fn ok(3) sz keep(1) by (simp add: NutHeapRootRealloc_def Let_def)
    moreover have "resized g m root ns b ?need m ns b"
      using inv room live keep(1) dis by (auto simp: resized_def)
    ultimately show ?thesis by blast
  qed
qed

end
