(* ===== verification/Nut_Alloc_Spec.thy ===== *)
theory Nut_Alloc_Spec
  imports Nut_Prelude
begin

text \<open>
  The contract of a heap as its clients use it (timers, message queues, thread stacks,
  network buffers): allocation hands out an extent of the free memory or fails without
  changing anything, and release gives the extent back. The client's view of a history of
  such calls is proved once, from the contract: blocks that are alive at the same time never
  overlap, and no memory is lost.
\<close>

datatype heap_op = Alloc nat | Free addr

text \<open>
  A client runs a list of operations and keeps the pointers it has been given; it releases
  only what it holds, and skips a failed allocation.
\<close>

fun session :: "('h \<Rightarrow> nat \<Rightarrow> ('h \<times> addr) option) \<Rightarrow> ('h \<Rightarrow> addr \<Rightarrow> ('h \<times> int) option) \<Rightarrow>
    'h \<Rightarrow> addr list \<Rightarrow> heap_op list \<Rightarrow> ('h \<times> addr list) option" where
  "session al rel h held [] = Some (h, held)"
| "session al rel h held (Alloc sz # ops) =
     (case al h sz of
        None \<Rightarrow> None
      | Some (h', p) \<Rightarrow> session al rel h' (if p = NULL then held else p # held) ops)"
| "session al rel h held (Free p # ops) =
     (if p \<in> set held then
        (case rel h p of None \<Rightarrow> None | Some (h', rc) \<Rightarrow> session al rel h' (remove1 p held) ops)
      else session al rel h held ops)"

locale allocator =
  fixes alloc :: "'h \<Rightarrow> nat \<Rightarrow> ('h \<times> addr) option"
    and release :: "'h \<Rightarrow> addr \<Rightarrow> ('h \<times> int) option"
    and free_mem :: "'h \<Rightarrow> addr set \<Rightarrow> bool"
    and live :: "'h \<Rightarrow> addr \<Rightarrow> bool"
    and extent :: "'h \<Rightarrow> addr \<Rightarrow> addr set"
    and limit :: nat
  assumes alloc_total: "free_mem h F \<Longrightarrow> sz < limit \<Longrightarrow> \<exists>h' p. alloc h sz = Some (h', p)"
    and alloc_fails: "free_mem h F \<Longrightarrow> sz < limit \<Longrightarrow> alloc h sz = Some (h', NULL) \<Longrightarrow> h' = h"
    and alloc_live: "free_mem h F \<Longrightarrow> sz < limit \<Longrightarrow> alloc h sz = Some (h', p) \<Longrightarrow> p \<noteq> NULL \<Longrightarrow>
      live h' p \<and> {p..<p + sz} \<subseteq> extent h' p \<and> extent h' p \<subseteq> F \<and> free_mem h' (F - extent h' p)"
    and alloc_frame: "free_mem h F \<Longrightarrow> sz < limit \<Longrightarrow> alloc h sz = Some (h', p) \<Longrightarrow>
      live h q \<Longrightarrow> extent h q \<inter> F = {} \<Longrightarrow> live h' q \<and> extent h' q = extent h q"
    and release_live: "free_mem h F \<Longrightarrow> live h p \<Longrightarrow> extent h p \<inter> F = {} \<Longrightarrow>
      \<exists>h'. release h p = Some (h', 0) \<and> free_mem h' (F \<union> extent h p)"
    and release_frame: "free_mem h F \<Longrightarrow> live h p \<Longrightarrow> extent h p \<inter> F = {} \<Longrightarrow>
      release h p = Some (h', rc) \<Longrightarrow>
      live h q \<Longrightarrow> extent h q \<inter> (F \<union> extent h p) = {} \<Longrightarrow> live h' q \<and> extent h' q = extent h q"
    and extent_nonempty: "live h p \<Longrightarrow> extent h p \<noteq> {}"
begin

definition consistent :: "'h \<Rightarrow> addr set \<Rightarrow> addr list \<Rightarrow> addr set \<Rightarrow> bool" where
  "consistent h F held arena \<longleftrightarrow>
     free_mem h F \<and> distinct held \<and> (\<forall>p \<in> set held. live h p \<and> extent h p \<inter> F = {}) \<and>
     (\<forall>p \<in> set held. \<forall>q \<in> set held. p \<noteq> q \<longrightarrow> extent h p \<inter> extent h q = {}) \<and>
     arena = F \<union> (\<Union>p \<in> set held. extent h p)"

lemma alloc_consistent:
  assumes con: "consistent h F held arena" and sz: "sz < limit"
    and run: "alloc h sz = Some (h', p)" and p: "p \<noteq> NULL"
  shows "consistent h' (F - extent h' p) (p # held) arena"
proof -
  have F: "free_mem h F" using con by (simp add: consistent_def)
  note new = alloc_live [OF F sz run p]
  have old: "live h' q \<and> extent h' q = extent h q" if "q \<in> set held" for q
    using alloc_frame [OF F sz run] that con by (simp add: consistent_def)
  have notin: "p \<notin> set held"
  proof
    assume "p \<in> set held"
    then have "extent h' p \<inter> F = {}" using old con by (simp add: consistent_def)
    then show False using new extent_nonempty by blast
  qed
  have dis: "extent h' p \<inter> extent h q = {}" if "q \<in> set held" for q
    using that con new by (auto simp: consistent_def)
  have "arena = (F - extent h' p) \<union> (\<Union>q \<in> set (p # held). extent h' q)"
    using con old new by (auto simp: consistent_def)
  moreover have "\<forall>q \<in> set (p # held). live h' q \<and> extent h' q \<inter> (F - extent h' p) = {}"
    using con old new by (auto simp: consistent_def)
  moreover have "\<forall>q \<in> set (p # held). \<forall>r \<in> set (p # held). q \<noteq> r \<longrightarrow> extent h' q \<inter> extent h' r = {}"
    using con old dis by (auto simp: consistent_def)
  ultimately show ?thesis
    using new notin con by (simp add: consistent_def)
qed

lemma release_consistent:
  assumes con: "consistent h F held arena" and p: "p \<in> set held"
  obtains h' where "release h p = Some (h', 0)"
    "consistent h' (F \<union> extent h p) (remove1 p held) arena"
proof -
  have F: "free_mem h F" and lp: "live h p" "extent h p \<inter> F = {}" and d: "distinct held"
    using con p by (auto simp: consistent_def)
  obtain h' where run: "release h p = Some (h', 0)" and free: "free_mem h' (F \<union> extent h p)"
    using release_live [OF F lp] by blast
  have others: "set (remove1 p held) = set held - {p}" using d by simp
  have old: "live h' q \<and> extent h' q = extent h q" if "q \<in> set held" "q \<noteq> p" for q
  proof -
    have "live h q" and "extent h q \<inter> (F \<union> extent h p) = {}"
      using that con p unfolding consistent_def by blast+
    then show ?thesis by (rule release_frame [OF F lp run])
  qed
  have "arena = (F \<union> extent h p) \<union> (\<Union>q \<in> set held - {p}. extent h' q)"
    using con old p by (auto simp: consistent_def)
  moreover have "\<forall>q \<in> set held - {p}. live h' q \<and> extent h' q \<inter> (F \<union> extent h p) = {}"
  proof
    fix q assume q: "q \<in> set held - {p}"
    then have "extent h q \<inter> (F \<union> extent h p) = {}"
      using con p unfolding consistent_def by blast
    then show "live h' q \<and> extent h' q \<inter> (F \<union> extent h p) = {}" using old [of q] q by simp
  qed
  moreover have "\<forall>q \<in> set held - {p}. \<forall>r \<in> set held - {p}. q \<noteq> r \<longrightarrow> extent h' q \<inter> extent h' r = {}"
    using con old by (auto simp: consistent_def)
  ultimately have "consistent h' (F \<union> extent h p) (remove1 p held) arena"
    using free d others by (simp add: consistent_def distinct_remove1)
  then show thesis using that run by blast
qed

lemma session_consistent:
  assumes "consistent h F held arena" and "\<forall>sz. Alloc sz \<in> set ops \<longrightarrow> sz < limit"
  shows "\<exists>h' held' F'. session alloc release h held ops = Some (h', held') \<and> consistent h' F' held' arena"
  using assms
proof (induction ops arbitrary: h held F)
  case Nil
  then show ?case by auto
next
  case (Cons x ops)
  have F: "free_mem h F" and ops: "\<forall>sz. Alloc sz \<in> set ops \<longrightarrow> sz < limit"
    using Cons.prems by (auto simp: consistent_def)
  show ?case
  proof (cases x)
    case (Alloc sz)
    then have sz: "sz < limit" using Cons.prems(2) by simp
    obtain h' p where run: "alloc h sz = Some (h', p)" using alloc_total [OF F sz] by blast
    show ?thesis
    proof (cases "p = NULL")
      case True
      then have "h' = h" using alloc_fails F sz run by blast
      then show ?thesis using Cons.IH [OF Cons.prems(1) ops] run True Alloc by simp
    next
      case False
      then show ?thesis
        using Cons.IH [OF alloc_consistent [OF Cons.prems(1) sz run False] ops] run Alloc by simp
    qed
  next
    case (Free p)
    show ?thesis
    proof (cases "p \<in> set held")
      case True
      obtain h' where "release h p = Some (h', 0)" "consistent h' (F \<union> extent h p) (remove1 p held) arena"
        using release_consistent [OF Cons.prems(1) True] by blast
      then show ?thesis using Cons.IH [OF _ ops] True Free by simp
    next
      case False
      then show ?thesis using Cons.IH [OF Cons.prems(1) ops] Free by simp
    qed
  qed
qed

end

end
