(* ===== verification/Nut_Heap_Props.thy ===== *)
theory Nut_Heap_Props
  imports Nut_Heap_Realloc Nut_Alloc_Spec
begin

text \<open>
  The properties of the heap manager: the correctness of each operation of \<^verbatim>\<open>os/heap.c\<close>, and
  the interpretation of the allocator contract on the model, which gives the absence of
  overlap for every history of calls.
\<close>

section \<open>The heap manager fulfils the allocator contract\<close>

abbreviation (input) node_of :: "bool \<Rightarrow> addr \<Rightarrow> addr" where
  "node_of g p \<equiv> p - (4 + NUTMEM_GUARD_BYTES g)"

definition heap_live :: "bool \<Rightarrow> addr \<Rightarrow> mem \<Rightarrow> addr \<Rightarrow> bool" where
  "heap_live g root m p \<longleftrightarrow> 4 + NUTMEM_GUARD_BYTES g \<le> p \<and> live_block g m (node_of g p)
     \<and> root \<notin> {node_of g p..<node_of g p + m (node_of g p)}"

definition heap_extent :: "bool \<Rightarrow> mem \<Rightarrow> addr \<Rightarrow> addr set" where
  "heap_extent g m p = {node_of g p..<node_of g p + m (node_of g p)}"

definition heap_free :: "addr \<Rightarrow> mem \<Rightarrow> addr set \<Rightarrow> bool" where
  "heap_free root m F \<longleftrightarrow> (\<exists>ns. heap_inv m root ns \<and> F = cover ns)"

lemma heap_live_frame:
  assumes "heap_live g root m q" and "\<And>x. x \<in> heap_extent g m q \<Longrightarrow> m' x = m x"
  shows "heap_live g root m' q \<and> heap_extent g m' q = heap_extent g m q"
proof -
  let ?b = "node_of g q"
  have l: "live_block g m ?b" using assms(1) by (simp add: heap_live_def)
  have "x = ?b \<or> g \<and> x \<in> {?b + 4, ?b + m ?b - 4} \<Longrightarrow> x \<in> heap_extent g m q" for x
    using live_block_cells [OF l] by (auto simp: heap_extent_def)
  then have "live_block g m' ?b" and "m' ?b = m ?b"
    using live_block_frame [OF l, of m'] assms(2) by blast+
  then show ?thesis using assms(1) unfolding heap_live_def heap_extent_def by metis
qed

lemma heap_alloc_cases:
  assumes inv: "heap_inv m root ns" and sz: "sz + 15 < 4294967296"
  shows "NutHeapRootAlloc g m root sz = Some (m, NULL) \<or>
    (\<exists>m' p ns'. NutHeapRootAlloc g m root sz = Some (m', p) \<and> p \<noteq> NULL \<and> heap_inv m' root ns' \<and>
      heap_live g root m' p \<and> {p..<p + sz} \<subseteq> heap_extent g m' p \<and> heap_extent g m' p \<subseteq> cover ns \<and>
      cover ns' = cover ns - heap_extent g m' p \<and> (\<forall>x. x \<notin> cover ns \<longrightarrow> x \<noteq> root \<longrightarrow> m' x = m x))"
proof (cases "\<forall>(a, s) \<in> set ns. s < heap_need g sz")
  case True
  then show ?thesis using NutHeapRootAlloc_none [OF inv sz] by simp
next
  case False
  let ?gb = "NUTMEM_GUARD_BYTES g"
  obtain m' b s ns' where r: "NutHeapRootAlloc g m root sz = Some (m', b + 4 + ?gb)"
    "heap_inv m' root ns'" "live_block g m' b" "heap_need g sz \<le> m' b"
    "cover ns = cover ns' \<union> {b..<b + m' b}" "cover ns' \<inter> {b..<b + m' b} = {}"
    "\<And>x. x \<notin> cover ns \<Longrightarrow> x \<noteq> root \<Longrightarrow> m' x = m x"
    by (rule NutHeapRootAlloc_spec [OF inv sz False]) blast
  have root: "root \<notin> {b..<b + m' b}" using r(5) inv by (auto simp: heap_inv_def)
  let ?p = "b + 4 + ?gb"
  have ext: "heap_extent g m' ?p = {b..<b + m' b}" by (simp add: heap_extent_def)
  have "heap_live g root m' ?p" using r(3) root by (simp add: heap_live_def)
  moreover have "{?p..<?p + sz} \<subseteq> heap_extent g m' ?p"
    using heap_need_props(4) [OF sz, of g] r(4) unfolding ext by auto
  moreover have "heap_extent g m' ?p \<subseteq> cover ns" "cover ns' = cover ns - heap_extent g m' ?p"
    unfolding ext using r(5,6) by blast+
  moreover have "?p \<noteq> NULL" by simp
  ultimately show ?thesis using r(1,2,7) by blast
qed

lemma heap_release_spec:
  assumes inv: "heap_inv m root ns" and live: "heap_live g root m p" and dis: "heap_extent g m p \<inter> cover ns = {}"
  obtains m' ns' where "NutHeapRootFree g m root p = Some (m', 0)" "heap_inv m' root ns'"
    "cover ns' = cover ns \<union> heap_extent g m p"
    "\<And>x. x \<notin> cover ns \<union> heap_extent g m p \<Longrightarrow> x \<noteq> root \<Longrightarrow> m' x = m x"
proof -
  let ?b = "node_of g p"
  have l: "live_block g m ?b" "root \<notin> {?b..<?b + m ?b}" and p: "?b + 4 + NUTMEM_GUARD_BYTES g = p"
    using live by (auto simp: heap_live_def)
  have d: "cover ns \<inter> {?b..<?b + m ?b} = {}" using dis by (auto simp: heap_extent_def)
  show thesis
    by (rule NutHeapRootFree_spec [OF inv l(1) d l(2)]) (use that in \<open>simp add: p heap_extent_def\<close>)
qed

interpretation nut_heap: allocator "\<lambda>m. NutHeapRootAlloc g m root" "\<lambda>m. NutHeapRootFree g m root"
  "heap_free root" "heap_live g root" "heap_extent g" "4294967296 - 15" for g root
proof unfold_locales
  fix h F sz assume F: "heap_free root h F" and sz: "sz < (4294967296::nat) - 15"
  then obtain ns where inv: "heap_inv h root ns" and F_ns: "F = cover ns" by (auto simp: heap_free_def)
  have sz': "sz + 15 < 4294967296" using sz by simp
  note cs = heap_alloc_cases [OF inv sz', of g]
  show "\<exists>h' p. NutHeapRootAlloc g h root sz = Some (h', p)" using cs by blast
  show "h' = h" if "NutHeapRootAlloc g h root sz = Some (h', NULL)" for h' using cs that by auto
  fix h' p assume run: "NutHeapRootAlloc g h root sz = Some (h', p)"
  show "heap_live g root h' p \<and> {p..<p + sz} \<subseteq> heap_extent g h' p \<and> heap_extent g h' p \<subseteq> F
      \<and> heap_free root h' (F - heap_extent g h' p)" if "p \<noteq> NULL"
    using cs run that F_ns by (auto simp: heap_free_def)
  show "heap_live g root h' q \<and> heap_extent g h' q = heap_extent g h q"
    if "heap_live g root h q" "heap_extent g h q \<inter> F = {}" for q
  proof (rule heap_live_frame [OF that(1)])
    fix x assume x: "x \<in> heap_extent g h q"
    then have "x \<notin> cover ns" "x \<noteq> root" using that F_ns by (auto simp: heap_live_def heap_extent_def)
    then show "h' x = h x" using cs run by auto
  qed
next
  fix h F p assume F: "heap_free root h F" and lp: "heap_live g root h p" "heap_extent g h p \<inter> F = {}"
  then obtain ns where inv: "heap_inv h root ns" and F_ns: "F = cover ns" by (auto simp: heap_free_def)
  obtain m' ns' where r: "NutHeapRootFree g h root p = Some (m', 0)" "heap_inv m' root ns'"
    "cover ns' = cover ns \<union> heap_extent g h p"
    "\<And>x. x \<notin> cover ns \<union> heap_extent g h p \<Longrightarrow> x \<noteq> root \<Longrightarrow> m' x = h x"
    using heap_release_spec [OF inv lp(1)] lp(2) F_ns by blast
  show "\<exists>h'. NutHeapRootFree g h root p = Some (h', 0) \<and> heap_free root h' (F \<union> heap_extent g h p)"
    using r F_ns by (auto simp: heap_free_def)
  fix h' rc q assume run: "NutHeapRootFree g h root p = Some (h', rc)"
    and q: "heap_live g root h q" "heap_extent g h q \<inter> (F \<union> heap_extent g h p) = {}"
  show "heap_live g root h' q \<and> heap_extent g h' q = heap_extent g h q"
  proof (rule heap_live_frame [OF q(1)])
    fix x assume x: "x \<in> heap_extent g h q"
    then have "x \<notin> cover ns \<union> heap_extent g h p" "x \<noteq> root"
      using q F_ns by (auto simp: heap_live_def heap_extent_def)
    then show "h' x = h x" using r(1,4) run by auto
  qed
next
  fix h p assume "heap_live g root h p"
  then show "heap_extent g h p \<noteq> {}"
    by (auto simp: heap_live_def heap_extent_def live_block_def node_ok_def)
qed

section \<open>Properties\<close>

text \<open>An example heap for the witnesses: one free node of 64 bytes at address 16.\<close>

definition demo_mem :: mem where
  "demo_mem = (\<lambda>x. if x = 4 then 16 else if x = 16 then 64 else 0)"

lemma demo_inv: "heap_inv demo_mem 4 [(16, 64)]"
  by (simp add: heap_inv_def demo_mem_def node_ok_def)

text \<open>
  A second state of the example: a block of 16 bytes at 16 is allocated, and the rest of the
  node is free.
\<close>

definition demo_used :: mem where
  "demo_used = (\<lambda>x. if x = 4 then 32 else if x = 16 then 16 else if x = 32 then 48 else 0)"

lemma demo_used_inv: "heap_inv demo_used 4 [(32, 48)]"
  by (simp add: heap_inv_def demo_used_def node_ok_def)

lemma demo_used_live: "live_block False demo_used 16"
  by (simp add: live_block_def demo_used_def node_ok_def NUTMEM_GUARD_BYTES_def ValidateUserArea_def)

text \<open>
  C1: On a well-formed heap, \<^verbatim>\<open>NutHeapRootAlloc\<close> returns. If no free node is large enough it
  returns the null pointer and changes nothing. Otherwise it takes the smallest node that is
  large enough, hands out a block inside it with room for the requested bytes (guards
  intact), keeps the free list well-formed, removes exactly the block from the free memory,
  and touches nothing outside the free memory but the root of the list.
\<close>

theorem heap_alloc_correct:
  assumes "heap_inv m root ns" and "sz + 15 < 4294967296"
  shows "\<exists>m' p. NutHeapRootAlloc g m root sz = Some (m', p) \<and>
    (if \<forall>(a, s) \<in> set ns. s < heap_need g sz then p = NULL \<and> m' = m
     else \<exists>b s ns'. p = b + 4 + NUTMEM_GUARD_BYTES g \<and> (b, s) \<in> set ns
       \<and> (\<forall>(a, t) \<in> set ns. heap_need g sz \<le> t \<longrightarrow> s \<le> t)
       \<and> p + sz + NUTMEM_GUARD_BYTES g \<le> b + m' b \<and> m' b \<le> s \<and> live_block g m' b
       \<and> heap_inv m' root ns' \<and> cover ns' = cover ns - {b..<b + m' b} \<and> {b..<b + m' b} \<subseteq> cover ns
       \<and> (\<forall>x. x \<notin> cover ns \<and> x \<noteq> root \<longrightarrow> m' x = m x))"
proof (cases "\<forall>(a, s) \<in> set ns. s < heap_need g sz")
  case True
  then show ?thesis using NutHeapRootAlloc_none [OF assms True] by simp
next
  case False
  obtain m' b s ns' where r: "NutHeapRootAlloc g m root sz = Some (m', b + 4 + NUTMEM_GUARD_BYTES g)"
    "(b, s) \<in> set ns" "\<forall>(a, t) \<in> set ns. heap_need g sz \<le> t \<longrightarrow> s \<le> t" "heap_inv m' root ns'"
    "live_block g m' b" "heap_need g sz \<le> m' b" "m' b \<le> s"
    "cover ns = cover ns' \<union> {b..<b + m' b}" "cover ns' \<inter> {b..<b + m' b} = {}"
    "\<And>x. x \<notin> cover ns \<Longrightarrow> x \<noteq> root \<Longrightarrow> m' x = m x"
    by (rule NutHeapRootAlloc_spec [OF assms False]) blast
  have fit: "b + 4 + NUTMEM_GUARD_BYTES g + sz + NUTMEM_GUARD_BYTES g \<le> b + m' b"
    using heap_need_props(4) [OF assms(2), of g] r(6) by simp
  have cov: "cover ns' = cover ns - {b..<b + m' b}" "{b..<b + m' b} \<subseteq> cover ns" using r(8,9) by blast+
  show ?thesis
    unfolding if_not_P [OF False]
    by (rule exI [of _ m'], rule exI [of _ "b + 4 + NUTMEM_GUARD_BYTES g"], rule conjI [OF r(1)],
        rule exI [of _ b], rule exI [of _ s], rule exI [of _ ns'],
        intro conjI refl r(2-5,7) fit cov allI impI, elim conjE, rule r(10))
qed

theorem heap_alloc_correct_witness:
  "heap_inv demo_mem 4 [(16, 64)] \<and> (\<exists>m' p. NutHeapRootAlloc False demo_mem 4 10 = Some (m', p) \<and> p = 20)"
proof -
  have n: "heap_need False 10 = 16"
    by (simp add: heap_need_def heap_consts NUTMEM_TOP_ALIGN_def NUTMEM_BOTTOM_ALIGN_def uadd_def)
  show ?thesis
    using heap_alloc_correct [OF demo_inv, of 10 False] demo_inv n by (auto simp: NUTMEM_GUARD_BYTES_def)
qed

text \<open>
  C2: Releasing a live block that does not overlap the free memory returns 0, keeps the free
  list ordered and fully joined, adds exactly the block to the free memory, and leaves
  everything else unchanged.
\<close>

theorem heap_free_correct:
  assumes "heap_inv m root ns" and "live_block g m b"
    and "cover ns \<inter> {b..<b + m b} = {}" and "root \<notin> {b..<b + m b}"
  shows "\<exists>m' ns'. NutHeapRootFree g m root (b + 4 + NUTMEM_GUARD_BYTES g) = Some (m', 0) \<and>
    heap_inv m' root ns' \<and> cover ns' = cover ns \<union> {b..<b + m b} \<and>
    (\<forall>x. x \<notin> cover ns \<union> {b..<b + m b} \<and> x \<noteq> root \<longrightarrow> m' x = m x)"
  by (rule NutHeapRootFree_spec [OF assms]) blast

theorem heap_free_correct_witness:
  "\<exists>m' ns'. NutHeapRootFree False demo_used 4 20 = Some (m', 0) \<and> heap_inv m' 4 ns' \<and> cover ns' = {16..<80}"
proof -
  have s: "demo_used 16 = 16" by (simp add: demo_used_def)
  have "cover [(32, 48)] \<inter> {16..<16 + demo_used 16} = {}" "4 \<notin> {16..<16 + demo_used 16}" unfolding s by auto
  from heap_free_correct [OF demo_used_inv demo_used_live this]
  obtain m' ns' where "NutHeapRootFree False demo_used 4 (16 + 4 + NUTMEM_GUARD_BYTES False) = Some (m', 0)"
    "heap_inv m' 4 ns'" "cover ns' = cover [(32, 48)] \<union> {16..<16 + 16}" unfolding s by blast
  moreover have "cover [(32, 48)] \<union> {16..<16 + 16} = {16..<80}" by auto
  ultimately show ?thesis by (auto simp: NUTMEM_GUARD_BYTES_def)
qed

text \<open>
  C3: Allocating a block and releasing it again restores the free list itself: the nodes
  that were split are joined again, so a heap does not fragment by such pairs of calls.
\<close>

theorem heap_alloc_free_roundtrip:
  assumes "heap_inv m root ns" and "sz + 15 < 4294967296"
    and "NutHeapRootAlloc g m root sz = Some (m1, p)" and "p \<noteq> NULL"
  shows "\<exists>m2. NutHeapRootFree g m1 root p = Some (m2, 0) \<and> heap_inv m2 root ns"
proof -
  obtain ns' where a: "heap_inv m1 root ns'" "heap_live g root m1 p" "heap_extent g m1 p \<subseteq> cover ns"
    "cover ns' = cover ns - heap_extent g m1 p"
  proof -
    from heap_alloc_cases [OF assms(1,2), of g] assms(3,4) obtain m' p' ns' where
      "NutHeapRootAlloc g m root sz = Some (m', p')" "heap_inv m' root ns'" "heap_live g root m' p'"
      "heap_extent g m' p' \<subseteq> cover ns" "cover ns' = cover ns - heap_extent g m' p'" by (metis option.inject prod.inject)
    then show thesis using that assms(3) by simp
  qed
  obtain m2 ns2 where f: "NutHeapRootFree g m1 root p = Some (m2, 0)" "heap_inv m2 root ns2"
    "cover ns2 = cover ns' \<union> heap_extent g m1 p"
    by (rule heap_release_spec [OF a(1,2)]) (use a(4) in blast)
  have "cover ns2 = cover ns" using f(3) a(3,4) by blast
  then have "ns2 = ns" using f(2) assms(1) wf_free_cover_unique by (auto simp: heap_inv_def)
  then show ?thesis using f by blast
qed

theorem heap_alloc_free_roundtrip_witness:
  "\<exists>m1 p m2. NutHeapRootAlloc False demo_mem 4 10 = Some (m1, p) \<and> p \<noteq> NULL \<and>
    NutHeapRootFree False m1 4 p = Some (m2, 0) \<and> heap_inv m2 4 [(16, 64)]"
proof -
  have n: "heap_need False 10 = 16"
    by (simp add: heap_need_def heap_consts NUTMEM_TOP_ALIGN_def NUTMEM_BOTTOM_ALIGN_def uadd_def)
  have fits: "\<not> (\<forall>(a, s) \<in> set [(16, 64)]. s < heap_need False 10)" using n by simp
  have "(10::nat) + 15 < 4294967296" by simp
  note al = NutHeapRootAlloc_spec [OF demo_inv this fits]
  obtain m1 b where run: "NutHeapRootAlloc False demo_mem 4 10 = Some (m1, b + 4 + NUTMEM_GUARD_BYTES False)"
    by (rule al) blast
  have "b + 4 + NUTMEM_GUARD_BYTES False \<noteq> NULL" by simp
  with heap_alloc_free_roundtrip [OF demo_inv _ run this] run show ?thesis by fastforce
qed

text \<open>
  C4: A block whose header lies in free memory (one that has been released before) is
  refused with -1 when guards are not configured, and memory is left as it is.
\<close>

theorem heap_double_free_detected:
  assumes "heap_inv m root ns" and "b \<in> cover ns" and "b + 4 < 4294967296"
  shows "NutHeapRootFree False m root (b + 4) = Some (m, -1)"
proof -
  have "usub (b + 4) 4 = b" using assms(3) by (simp add: wrap_simps)
  then show ?thesis
    using free_walk_double [of m "m root" ns b root] assms
    by (simp add: NutHeapRootFree_def heap_inv_def ValidateUserArea_def heap_consts)
qed

theorem heap_double_free_detected_witness:
  "(16::nat) \<in> cover [(16, 64)] \<and> NutHeapRootFree False demo_mem 4 20 = Some (demo_mem, -1)"
  using heap_double_free_detected [OF demo_inv, of 16] by simp

text \<open>
  C5: For every history of allocations and releases by a client that releases only blocks it
  holds, every call returns, the blocks held at the end are pairwise disjoint, disjoint from
  the free memory and alive, and together with the free memory they make up exactly the
  memory the history started with.
\<close>

theorem heap_session_safe:
  assumes "heap_inv m root ns" and "\<forall>sz. Alloc sz \<in> set ops \<longrightarrow> sz < 4294967296 - 15"
  shows "\<exists>m' held ns'. session (\<lambda>m. NutHeapRootAlloc g m root) (\<lambda>m. NutHeapRootFree g m root) m [] ops = Some (m', held)
    \<and> heap_inv m' root ns' \<and> distinct held
    \<and> (\<forall>p \<in> set held. heap_live g root m' p \<and> heap_extent g m' p \<inter> cover ns' = {})
    \<and> (\<forall>p \<in> set held. \<forall>q \<in> set held. p \<noteq> q \<longrightarrow> heap_extent g m' p \<inter> heap_extent g m' q = {})
    \<and> cover ns = cover ns' \<union> (\<Union>p \<in> set held. heap_extent g m' p)"
proof -
  have "nut_heap.consistent root g m (cover ns) [] (cover ns)"
    using assms(1) by (auto simp: nut_heap.consistent_def heap_free_def)
  from nut_heap.session_consistent [OF this assms(2)] obtain m' held F where
    run: "session (\<lambda>m. NutHeapRootAlloc g m root) (\<lambda>m. NutHeapRootFree g m root) m [] ops = Some (m', held)"
    and con: "nut_heap.consistent root g m' F held (cover ns)" by (elim exE conjE)
  obtain ns' where inv: "heap_inv m' root ns'" and F: "F = cover ns'"
    using con by (auto simp: nut_heap.consistent_def heap_free_def)
  note c = con [unfolded nut_heap.consistent_def F]
  show ?thesis
    by (rule exI [of _ m'], rule exI [of _ held], rule exI [of _ ns'], intro conjI run inv)
      (use c in simp_all)
qed

theorem heap_session_safe_witness:
  "\<exists>m' held ns'. session (\<lambda>m. NutHeapRootAlloc False m 4) (\<lambda>m. NutHeapRootFree False m 4) demo_mem []
      [Alloc 10, Alloc 8, Free 20] = Some (m', held) \<and> heap_inv m' 4 ns' \<and> distinct held"
  using heap_session_safe [OF demo_inv, of "[Alloc 10, Alloc 8, Free 20]" False] by fastforce

text \<open>
  C6: \<^verbatim>\<open>NutHeapRootRealloc\<close> of a live block either fails with a null pointer and leaves memory
  unchanged, or returns a live block large enough for the new size in which the payload cells
  common to the old and the new block have their old contents; free memory and block together
  cover what they covered before, and nothing else changes.
\<close>

theorem heap_realloc_correct:
  assumes "heap_inv m root ns" and "roomy g ns" and "live_block g m b"
    and "cover ns \<inter> {b..<b + m b} = {}" and "root \<notin> {b..<b + m b}"
    and "0 < sz" and "sz + 40 < 4294967296"
  shows "(\<exists>m' ns' b'. NutHeapRootRealloc g m root (b + 4 + NUTMEM_GUARD_BYTES g) sz =
        Some (m', b' + 4 + NUTMEM_GUARD_BYTES g) \<and> resized g m root ns b (heap_need g sz) m' ns' b')
    \<or> NutHeapRootRealloc g m root (b + 4 + NUTMEM_GUARD_BYTES g) sz = Some (m, NULL)"
  by (rule NutHeapRootRealloc_spec [OF assms])

theorem heap_realloc_correct_witness:
  "(\<exists>m' ns' b'. NutHeapRootRealloc False demo_used 4 20 40 = Some (m', b' + 4) \<and>
      resized False demo_used 4 [(32, 48)] 16 (heap_need False 40) m' ns' b')
    \<or> NutHeapRootRealloc False demo_used 4 20 40 = Some (demo_used, NULL)"
proof -
  have s: "demo_used 16 = 16" by (simp add: demo_used_def)
  have "cover [(32, 48)] \<inter> {16..<16 + demo_used 16} = {}" "4 \<notin> {16..<16 + demo_used 16}" unfolding s by auto
  moreover have "roomy False [(32, 48)]" by (simp add: roomy_def NUTMEM_GUARD_BYTES_def)
  ultimately show ?thesis
    using heap_realloc_correct [OF demo_used_inv _ demo_used_live, of 40] by (simp add: NUTMEM_GUARD_BYTES_def)
qed

lemma heap_need_wraps:
  assumes "4294967292 \<le> sz" and "sz < 4294967296"
  shows "heap_need False sz = heap_need False 0"
proof -
  have "(sz + 4) mod 4294967296 = sz + 4 - 4294967296"
    using assms by (simp add: le_mod_geq)
  then have "uadd (uadd sz 4) 0 = sz + 4 - 4294967296" and "sz + 4 - 4294967296 < 8"
    using assms by (simp_all add: uadd_def)
  then show ?thesis
    by (simp add: heap_need_def heap_consts NUTMEM_TOP_ALIGN_def NUTMEM_BOTTOM_ALIGN_def uadd_exact uadd_def)
qed

lemma heap_need_zero: "heap_need False 0 = 8"
  by (simp add: heap_need_def heap_consts NUTMEM_TOP_ALIGN_def NUTMEM_BOTTOM_ALIGN_def uadd_def)

text \<open>
  C7: The size computation of an allocation wraps around. Without guards, \<^verbatim>\<open>NutHeapRootAlloc\<close> does not refuse a request for the
  last four sizes of the 32-bit range: as long as there is any free node, it returns a block that is taken from a smallest
  free node, 8 bytes of it if the rest can be split off. The heap is consistent and the block is alive, but
  the memory that the caller has asked for reaches beyond the block.
\<close>

theorem heap_alloc_size_wraps:
  assumes "heap_inv m root ns" and "ns \<noteq> []" and "4294967292 \<le> sz" and "sz < 4294967296"
  shows "\<exists>m' p s ns'. NutHeapRootAlloc False m root sz = Some (m', p) \<and> p \<noteq> NULL \<and> heap_live False root m' p \<and> heap_inv m' root ns'
    \<and> cover ns' = cover ns - heap_extent False m' p \<and> heap_extent False m' p \<subseteq> cover ns
    \<and> (node_of False p, s) \<in> set ns \<and> (\<forall>(a, t) \<in> set ns. s \<le> t)
    \<and> card (heap_extent False m' p) = (if 8 + NUTMEM_HEAPNODE_MIN False \<le> s then 8 else s) \<and> card (heap_extent False m' p) < sz
    \<and> \<not> {p..<p + sz} \<subseteq> heap_extent False m' p"
proof -
  note need = heap_need_wraps [OF assms(3,4)] heap_need_zero
  have wf: "wf_free ns" using assms(1) by (simp add: heap_inv_def)
  have big: "8 \<le> s" if "(a, s) \<in> set ns" for a s using wf_free_node [OF wf that] by (simp add: node_ok_def)
  have same: "NutHeapRootAlloc False m root sz = NutHeapRootAlloc False m root 0" using need(1) by (simp add: NutHeapRootAlloc_def)
  obtain a0 s0 where "(a0, s0) \<in> set ns" using assms(2) by (metis list.set_intros(1) neq_Nil_conv surj_pair)
  then have fits: "\<not> (\<forall>(a, s) \<in> set ns. s < heap_need False 0)" using big need(2) by force
  obtain m' b s ns' where r: "NutHeapRootAlloc False m root 0 = Some (m', b + 4 + NUTMEM_GUARD_BYTES False)"
    "(b, s) \<in> set ns" "\<forall>(a, t) \<in> set ns. heap_need False 0 \<le> t \<longrightarrow> s \<le> t" "heap_inv m' root ns'" "live_block False m' b"
    "cover ns = cover ns' \<union> {b..<b + m' b}" "cover ns' \<inter> {b..<b + m' b} = {}"
    "m' b = taken s (heap_need False 0) (NUTMEM_HEAPNODE_MIN False)"
    by (rule NutHeapRootAlloc_spec [OF assms(1) _ fits]) (simp, blast)
  have ext: "heap_extent False m' (b + 4) = {b..<b + m' b}" by (simp add: heap_extent_def NUTMEM_GUARD_BYTES_def)
  have tk: "m' b = (if 8 + NUTMEM_HEAPNODE_MIN False \<le> s then 8 else s)" using r(8) need(2) big [OF r(2)] by (auto simp: taken_def)
  have small: "m' b < sz" using r(5) assms(3) by (auto simp: live_block_def node_ok_def)
  have "b + 3 + sz \<notin> {b..<b + m' b}" using small by simp
  moreover have "b + 3 + sz \<in> {b + 4..<b + 4 + sz}" using assms(3) by simp
  ultimately have out: "\<not> {b + 4..<b + 4 + sz} \<subseteq> heap_extent False m' (b + 4)" unfolding ext by blast
  have "root \<notin> {b..<b + m' b}" using r(6) assms(1) by (auto simp: heap_inv_def)
  then have live: "heap_live False root m' (b + 4)" using r(5) by (simp add: heap_live_def NUTMEM_GUARD_BYTES_def)
  have min: "\<forall>(a, t) \<in> set ns. s \<le> t" using r(3) big need(2) by auto
  show ?thesis
    by (rule exI [of _ m'], rule exI [of _ "b + 4"], rule exI [of _ s], rule exI [of _ ns'])
      (use same r(1,2,4,6,7) live out tk small min ext in \<open>auto simp: NUTMEM_GUARD_BYTES_def\<close>)
qed

theorem heap_alloc_size_wraps_witness:
  "\<exists>m' p. NutHeapRootAlloc False demo_mem 4 4294967295 = Some (m', p) \<and> p \<noteq> NULL \<and> card (heap_extent False m' p) = 8"
  using heap_alloc_size_wraps [OF demo_inv, of 4294967295] by (auto simp: heap_consts)

end
