(* ===== verification/Nut_Kernel.thy ===== *)
theory Nut_Kernel
  imports Nut_Heap_Props
begin

text \<open>
  The state of the Nut/OS kernel (\<^verbatim>\<open>include/sys/thread.h\<close>, \<^verbatim>\<open>include/sys/timer.h\<close>,
  \<^verbatim>\<open>include/sys/msg.h\<close>) and the primitive queue operations of \<^verbatim>\<open>os/thread.c\<close>. Thread, timer
  and message structures are records in stores indexed by address, linked by their pointer
  fields as in the source; the roots of the event queues, the run queue among them, are cells
  of their own. A pointer to a link (\<^verbatim>\<open>tqpp\<close>) is either such a root or the \<^verbatim>\<open>td_qnxt\<close> field of a
  thread. A critical section of the source runs with interrupts disabled; an operation is one
  step here, and what an interrupt handler does is a step of its own
  (\<open>NutEventPostFromIrq\<close>, \<open>NutTimerIntr\<close>). Event counters do not wrap in the model.
\<close>

section \<open>State\<close>

definition SIGNALED :: addr where
  "SIGNALED = 0xFFFFFFFF"

datatype tds = TDS_TERM | TDS_RUNNING | TDS_READY | TDS_SLEEP

record NUTTHREADINFO =
  td_next :: addr
  td_qnxt :: addr
  td_qpec :: nat
  td_name :: string
  td_state :: tds
  td_priority :: nat
  td_memory :: addr
  td_timer :: addr
  td_queue :: addr

text \<open>
  The callbacks the kernel itself installs, and those of its clients: message queue timers and
  application functions, identified by a number.
\<close>

datatype tcallback = NoCallback | CbEventTimeout | CbThreadWake | CbMsgQTimer | CbUser nat

record NUTTIMERINFO =
  tn_next :: addr
  tn_prev :: addr
  tn_ticks :: u32
  tn_ticks_left :: u32
  tn_flags :: u32
  tn_callback :: tcallback
  tn_arg :: addr

text \<open>Messages, message queues and message timers (\<^verbatim>\<open>include/sys/msg.h\<close>, \<^verbatim>\<open>os/msg.c\<close>).\<close>

record NUTMSG =
  msg_id :: u8
  msg_param :: int
  msg_data :: addr

record NUTMSGQ =
  mq_timers :: addr
  mq_next :: addr
  mq_read :: u8
  mq_write :: u8
  mq_mask :: u8
  mq_que :: "NUTMSG list"

record NUTMSGTMR =
  mt_que :: addr
  mt_param :: int
  mt_data :: addr
  mt_handle :: addr
  mt_next :: addr
  mt_flags :: u8

text \<open>
  \<open>tv_sec\<close> and \<open>tv_usec\<close> are the fields of \<^verbatim>\<open>system_time\<close>; \<open>mem_guard\<close> tells whether the heap is
  configured with \<^verbatim>\<open>NUTMEM_GUARD\<close>, and \<open>systick_us\<close> is set when the timer is initialised.
\<close>

record kernel =
  thr :: "addr \<Rightarrow> NUTTHREADINFO"
  tmr :: "addr \<Rightarrow> NUTTIMERINFO"
  queue :: "addr \<Rightarrow> addr"
  runningThread :: addr
  killedThread :: addr
  nutThreadList :: addr
  total_pending :: int
  nutTimerList :: addr
  nut_ticks :: u32
  nut_ticks_resume :: u32
  tv_sec :: u32
  tv_usec :: u32
  systick_us :: u32
  hmem :: mem
  mem_guard :: bool
  msgq :: "addr \<Rightarrow> NUTMSGQ"
  msgtmr :: "addr \<Rightarrow> NUTMSGTMR"
  nutMsgQue :: addr
  nutMsgFreeTimers :: addr

text \<open>The cell of the run queue's root, and of the heap's free list.\<close>

definition runQueue :: addr where
  "runQueue = 8"

definition heapFreeList :: addr where
  "heapFreeList = 4"

definition upd_thr :: "addr \<Rightarrow> (NUTTHREADINFO \<Rightarrow> NUTTHREADINFO) \<Rightarrow> kernel \<Rightarrow> kernel" where
  "upd_thr t f k = k\<lparr>thr := (thr k)(t := f (thr k t))\<rparr>"

definition upd_tmr :: "addr \<Rightarrow> (NUTTIMERINFO \<Rightarrow> NUTTIMERINFO) \<Rightarrow> kernel \<Rightarrow> kernel" where
  "upd_tmr t f k = k\<lparr>tmr := (tmr k)(t := f (tmr k t))\<rparr>"

definition set_queue :: "addr \<Rightarrow> addr \<Rightarrow> kernel \<Rightarrow> kernel" where
  "set_queue q v k = k\<lparr>queue := (queue k)(q := v)\<rparr>"

definition upd_msgq :: "addr \<Rightarrow> (NUTMSGQ \<Rightarrow> NUTMSGQ) \<Rightarrow> kernel \<Rightarrow> kernel" where
  "upd_msgq q f k = k\<lparr>msgq := (msgq k)(q := f (msgq k q))\<rparr>"

definition upd_msgtmr :: "addr \<Rightarrow> (NUTMSGTMR \<Rightarrow> NUTMSGTMR) \<Rightarrow> kernel \<Rightarrow> kernel" where
  "upd_msgtmr t f k = k\<lparr>msgtmr := (msgtmr k)(t := f (msgtmr k t))\<rparr>"

text \<open>A link of a queue: its root, or the \<^verbatim>\<open>td_qnxt\<close> field of a thread.\<close>

datatype qlink = Root addr | Qnxt addr

fun get_link :: "kernel \<Rightarrow> qlink \<Rightarrow> addr" where
  "get_link k (Root q) = queue k q"
| "get_link k (Qnxt t) = td_qnxt (thr k t)"

fun set_link :: "qlink \<Rightarrow> addr \<Rightarrow> kernel \<Rightarrow> kernel" where
  "set_link (Root q) v k = set_queue q v k"
| "set_link (Qnxt t) v k = upd_thr t (td_qnxt_update (\<lambda>_. v)) k"

section \<open>Reading an updated state\<close>

lemma upd_thr_simps [simp]:
  "thr (upd_thr t f k) = (thr k)(t := f (thr k t))" "tmr (upd_thr t f k) = tmr k"
  "queue (upd_thr t f k) = queue k" "runningThread (upd_thr t f k) = runningThread k"
  "killedThread (upd_thr t f k) = killedThread k" "nutThreadList (upd_thr t f k) = nutThreadList k"
  "total_pending (upd_thr t f k) = total_pending k" "nutTimerList (upd_thr t f k) = nutTimerList k"
  "nut_ticks (upd_thr t f k) = nut_ticks k" "nut_ticks_resume (upd_thr t f k) = nut_ticks_resume k"
  "tv_sec (upd_thr t f k) = tv_sec k" "tv_usec (upd_thr t f k) = tv_usec k"
  "systick_us (upd_thr t f k) = systick_us k" "hmem (upd_thr t f k) = hmem k"
  "mem_guard (upd_thr t f k) = mem_guard k" "msgq (upd_thr t f k) = msgq k"
  "msgtmr (upd_thr t f k) = msgtmr k" "nutMsgQue (upd_thr t f k) = nutMsgQue k"
  "nutMsgFreeTimers (upd_thr t f k) = nutMsgFreeTimers k"
  by (simp_all add: upd_thr_def)

lemma upd_tmr_simps [simp]:
  "tmr (upd_tmr t f k) = (tmr k)(t := f (tmr k t))" "thr (upd_tmr t f k) = thr k"
  "queue (upd_tmr t f k) = queue k" "runningThread (upd_tmr t f k) = runningThread k"
  "killedThread (upd_tmr t f k) = killedThread k" "nutThreadList (upd_tmr t f k) = nutThreadList k"
  "total_pending (upd_tmr t f k) = total_pending k" "nutTimerList (upd_tmr t f k) = nutTimerList k"
  "nut_ticks (upd_tmr t f k) = nut_ticks k" "nut_ticks_resume (upd_tmr t f k) = nut_ticks_resume k"
  "tv_sec (upd_tmr t f k) = tv_sec k" "tv_usec (upd_tmr t f k) = tv_usec k"
  "systick_us (upd_tmr t f k) = systick_us k" "hmem (upd_tmr t f k) = hmem k"
  "mem_guard (upd_tmr t f k) = mem_guard k" "msgq (upd_tmr t f k) = msgq k"
  "msgtmr (upd_tmr t f k) = msgtmr k" "nutMsgQue (upd_tmr t f k) = nutMsgQue k"
  "nutMsgFreeTimers (upd_tmr t f k) = nutMsgFreeTimers k"
  by (simp_all add: upd_tmr_def)

lemma set_queue_simps [simp]:
  "queue (set_queue q v k) = (queue k)(q := v)" "thr (set_queue q v k) = thr k"
  "tmr (set_queue q v k) = tmr k" "runningThread (set_queue q v k) = runningThread k"
  "killedThread (set_queue q v k) = killedThread k" "nutThreadList (set_queue q v k) = nutThreadList k"
  "total_pending (set_queue q v k) = total_pending k" "nutTimerList (set_queue q v k) = nutTimerList k"
  "nut_ticks (set_queue q v k) = nut_ticks k" "nut_ticks_resume (set_queue q v k) = nut_ticks_resume k"
  "tv_sec (set_queue q v k) = tv_sec k" "tv_usec (set_queue q v k) = tv_usec k"
  "systick_us (set_queue q v k) = systick_us k" "hmem (set_queue q v k) = hmem k"
  "mem_guard (set_queue q v k) = mem_guard k" "msgq (set_queue q v k) = msgq k"
  "msgtmr (set_queue q v k) = msgtmr k" "nutMsgQue (set_queue q v k) = nutMsgQue k"
  "nutMsgFreeTimers (set_queue q v k) = nutMsgFreeTimers k"
  by (simp_all add: set_queue_def)

lemma upd_msgq_simps [simp]:
  "msgq (upd_msgq q f k) = (msgq k)(q := f (msgq k q))" "thr (upd_msgq q f k) = thr k"
  "tmr (upd_msgq q f k) = tmr k" "queue (upd_msgq q f k) = queue k"
  "runningThread (upd_msgq q f k) = runningThread k" "killedThread (upd_msgq q f k) = killedThread k"
  "nutThreadList (upd_msgq q f k) = nutThreadList k" "total_pending (upd_msgq q f k) = total_pending k"
  "nutTimerList (upd_msgq q f k) = nutTimerList k" "nut_ticks (upd_msgq q f k) = nut_ticks k"
  "nut_ticks_resume (upd_msgq q f k) = nut_ticks_resume k" "tv_sec (upd_msgq q f k) = tv_sec k"
  "tv_usec (upd_msgq q f k) = tv_usec k" "systick_us (upd_msgq q f k) = systick_us k"
  "hmem (upd_msgq q f k) = hmem k" "mem_guard (upd_msgq q f k) = mem_guard k"
  "msgtmr (upd_msgq q f k) = msgtmr k" "nutMsgQue (upd_msgq q f k) = nutMsgQue k"
  "nutMsgFreeTimers (upd_msgq q f k) = nutMsgFreeTimers k"
  by (simp_all add: upd_msgq_def)

lemma upd_msgtmr_simps [simp]:
  "msgtmr (upd_msgtmr t f k) = (msgtmr k)(t := f (msgtmr k t))" "thr (upd_msgtmr t f k) = thr k"
  "tmr (upd_msgtmr t f k) = tmr k" "queue (upd_msgtmr t f k) = queue k"
  "runningThread (upd_msgtmr t f k) = runningThread k" "killedThread (upd_msgtmr t f k) = killedThread k"
  "nutThreadList (upd_msgtmr t f k) = nutThreadList k" "total_pending (upd_msgtmr t f k) = total_pending k"
  "nutTimerList (upd_msgtmr t f k) = nutTimerList k" "nut_ticks (upd_msgtmr t f k) = nut_ticks k"
  "nut_ticks_resume (upd_msgtmr t f k) = nut_ticks_resume k" "tv_sec (upd_msgtmr t f k) = tv_sec k"
  "tv_usec (upd_msgtmr t f k) = tv_usec k" "systick_us (upd_msgtmr t f k) = systick_us k"
  "hmem (upd_msgtmr t f k) = hmem k" "mem_guard (upd_msgtmr t f k) = mem_guard k"
  "msgq (upd_msgtmr t f k) = msgq k" "nutMsgQue (upd_msgtmr t f k) = nutMsgQue k"
  "nutMsgFreeTimers (upd_msgtmr t f k) = nutMsgFreeTimers k"
  by (simp_all add: upd_msgtmr_def)

section \<open>Queue operations\<close>

partial_function (option) pri_walk ::
  "kernel \<Rightarrow> nat \<Rightarrow> addr \<Rightarrow> qlink \<Rightarrow> (addr \<times> qlink) option" where
  "pri_walk k prio tqp tqpp =
     (if tqp \<noteq> NULL \<and> td_priority (thr k tqp) \<le> prio
      then pri_walk k prio (td_qnxt (thr k tqp)) (Qnxt tqp)
      else Some (tqp, tqpp))"

definition NutThreadAddPriQueue :: "addr \<Rightarrow> addr \<Rightarrow> kernel \<Rightarrow> kernel option" where
  "NutThreadAddPriQueue td q k =
     (let k0 = upd_thr td (\<lambda>i. i\<lparr>td_queue := q, td_qpec := 0\<rparr>) k;
          tqp = queue k0 q;
          signaled = (tqp = SIGNALED);
          k1 = (if signaled
                then (upd_thr td (\<lambda>i. i\<lparr>td_qpec := td_qpec i + 1\<rparr>) k0)
                       \<lparr>total_pending := total_pending k0 + 1\<rparr>
                else k0)
      in case (if signaled then Some (NULL, Root q)
               else if tqp \<noteq> NULL then pri_walk k1 (td_priority (thr k1 td)) tqp (Root q)
               else Some (tqp, Root q)) of
           None \<Rightarrow> None
         | Some (nxt, tqpp) \<Rightarrow>
             let k2 = upd_thr td (td_qnxt_update (\<lambda>_. nxt)) k1;
                 k3 = set_link tqpp td k2;
                 n = td_qnxt (thr k3 td)
             in Some (if n \<noteq> NULL \<and> td_qpec (thr k3 n) \<noteq> 0
                then upd_thr n (\<lambda>i. i\<lparr>td_qpec := 0\<rparr>)
                       (upd_thr td (\<lambda>i. i\<lparr>td_qpec := td_qpec i + td_qpec (thr k3 n)\<rparr>) k3)
                else k3))"

definition unlink_thread :: "addr \<Rightarrow> qlink \<Rightarrow> kernel \<Rightarrow> kernel" where
  "unlink_thread td tqpp k =
     (let k1 = set_link tqpp (td_qnxt (thr k td)) k in
      if td_qpec (thr k1 td) \<noteq> 0 then
        let n = td_qnxt (thr k1 td);
            k2 = (if n \<noteq> NULL then upd_thr n (\<lambda>i. i\<lparr>td_qpec := td_qpec (thr k1 td)\<rparr>) k1 else k1)
        in upd_thr td (\<lambda>i. i\<lparr>td_qpec := 0\<rparr>) k2
      else k1)"

partial_function (option) remove_walk ::
  "kernel \<Rightarrow> addr \<Rightarrow> addr \<Rightarrow> qlink \<Rightarrow> kernel option" where
  "remove_walk k td tqp tqpp =
     (if tqp = NULL then Some k
      else if tqp = td then
        Some (upd_thr td (\<lambda>i. i\<lparr>td_qnxt := NULL, td_queue := NULL\<rparr>) (unlink_thread td tqpp k))
      else remove_walk k td (td_qnxt (thr k tqp)) (Qnxt tqp))"

definition NutThreadRemoveQueue :: "addr \<Rightarrow> addr \<Rightarrow> kernel \<Rightarrow> kernel option" where
  "NutThreadRemoveQueue td q k =
     (let tqp = queue k q in
      if tqp \<noteq> SIGNALED then remove_walk k td tqp (Root q) else Some k)"

text \<open>What an interrupt handler may do to a queue.\<close>

definition NutEventPostFromIrq :: "addr \<Rightarrow> kernel \<Rightarrow> kernel" where
  "NutEventPostFromIrq q k =
     (if queue k q = NULL then set_queue q SIGNALED k
      else if queue k q \<noteq> SIGNALED then
        (upd_thr (queue k q) (\<lambda>i. i\<lparr>td_qpec := td_qpec i + 1\<rparr>) k)\<lparr>total_pending := total_pending k + 1\<rparr>
      else k)"

end
