(* ===== verification/Nut_Queue.thy ===== *)
theory Nut_Queue
  imports Nut_Kernel
begin

text \<open>
  A thread queue as the list of its threads: \<open>queue_ok\<close> says that the links form the list,
  that it is ordered by priority, that its threads refer back to the queue and that pending
  interrupt events are only counted at the first thread. The two primitive operations of
  \<^verbatim>\<open>os/thread.c\<close> are characterised against this list: \<^verbatim>\<open>NutThreadAddPriQueue\<close> inserts behind the
  threads of the same or a higher priority, \<^verbatim>\<open>NutThreadRemoveQueue\<close> takes a thread out, and
  both keep the events that are pending.
\<close>

section \<open>A queue as a list of threads\<close>

fun qchain :: "kernel \<Rightarrow> addr \<Rightarrow> addr list \<Rightarrow> bool" where
  "qchain k p [] \<longleftrightarrow> p = NULL"
| "qchain k p (t # ts) \<longleftrightarrow> p = t \<and> t \<noteq> NULL \<and> qchain k (td_qnxt (thr k t)) ts"

fun last_link :: "qlink \<Rightarrow> addr list \<Rightarrow> qlink" where
  "last_link l [] = l"
| "last_link l (t # ts) = last_link (Qnxt t) ts"

abbreviation prio :: "kernel \<Rightarrow> addr \<Rightarrow> nat" where
  "prio k t \<equiv> td_priority (thr k t)"

definition queue_ok :: "kernel \<Rightarrow> addr \<Rightarrow> addr list \<Rightarrow> bool" where
  "queue_ok k q ts \<longleftrightarrow>
     (if queue k q = SIGNALED then ts = [] else qchain k (queue k q) ts) \<and>
     distinct ts \<and> NULL \<notin> set ts \<and> SIGNALED \<notin> set ts \<and> sorted (map (prio k) ts) \<and>
     (\<forall>t \<in> set ts. td_queue (thr k t) = q) \<and> (\<forall>t \<in> set (tl ts). td_qpec (thr k t) = 0)"

text \<open>Events that have been posted to a queue and not yet consumed.\<close>

definition pending :: "kernel \<Rightarrow> addr \<Rightarrow> addr list \<Rightarrow> nat" where
  "pending k q ts =
     (if queue k q = SIGNALED then 1 else case ts of [] \<Rightarrow> 0 | t # _ \<Rightarrow> td_qpec (thr k t))"

text \<open>A new thread goes behind the threads of the same or a higher priority.\<close>

definition pri_insert :: "kernel \<Rightarrow> addr \<Rightarrow> addr list \<Rightarrow> addr list" where
  "pri_insert k t ts =
     takeWhile (\<lambda>u. prio k u \<le> prio k t) ts @ t # dropWhile (\<lambda>u. prio k u \<le> prio k t) ts"

lemma get_set_link [simp]: "get_link (set_link l v k) l = v"
  by (cases l) auto

lemma get_set_link_other: "l' \<noteq> l \<Longrightarrow> get_link (set_link l v k) l' = get_link k l'"
  by (cases l; cases l') auto

lemma set_link_thr:
  "thr (set_link l v k) t = (if l = Qnxt t then (thr k t)\<lparr>td_qnxt := v\<rparr> else thr k t)"
  by (cases l) auto

lemma set_link_queue:
  "queue (set_link l v k) q = (if l = Root q then v else queue k q)"
  by (cases l) auto

lemma qchain_frame:
  "(\<And>t. t \<in> set ts \<Longrightarrow> td_qnxt (thr k' t) = td_qnxt (thr k t)) \<Longrightarrow> qchain k' p ts = qchain k p ts"
  by (induction ts arbitrary: p) auto

lemma qchain_null: "qchain k p ts \<Longrightarrow> NULL \<notin> set ts"
  by (induction ts arbitrary: p) auto

lemma qchain_link: "qchain k (get_link k l) (as @ bs) \<Longrightarrow> qchain k (get_link k (last_link l as)) bs"
  by (induction as arbitrary: l) auto

lemma last_link_in: "last_link l as = l \<or> (\<exists>t \<in> set as. last_link l as = Qnxt t)"
  by (induction as arbitrary: l) auto

lemma qchain_relink:
  assumes "qchain k (get_link k l) (as @ bs)" and "distinct as" and "l \<notin> Qnxt ` set as"
    and "\<And>l'. l' \<in> insert l (Qnxt ` set as) \<Longrightarrow> l' \<noteq> last_link l as \<Longrightarrow> get_link k' l' = get_link k l'"
    and "qchain k' (get_link k' (last_link l as)) cs"
  shows "qchain k' (get_link k' l) (as @ cs)"
  using assms
proof (induction as arbitrary: l)
  case Nil
  then show ?case by simp
next
  case (Cons t as)
  have d: "distinct as" "Qnxt t \<notin> Qnxt ` set as" using Cons.prems(2) by auto
  have ne: "l \<noteq> last_link (Qnxt t) as"
    using last_link_in [of "Qnxt t" as] Cons.prems(3) by auto
  have "qchain k' (get_link k' (Qnxt t)) (as @ cs)"
  proof (rule Cons.IH [OF _ d])
    show "qchain k (get_link k (Qnxt t)) (as @ bs)" using Cons.prems(1) by simp
    show "get_link k' l' = get_link k l'"
      if "l' \<in> insert (Qnxt t) (Qnxt ` set as)" "l' \<noteq> last_link (Qnxt t) as" for l'
      using Cons.prems(4) [of l'] that by auto
    show "qchain k' (get_link k' (last_link (Qnxt t) as)) cs" using Cons.prems(5) by simp
  qed
  moreover have "get_link k' l = get_link k l" using Cons.prems(4) [of l] ne by simp
  ultimately show ?case using Cons.prems(1) by simp
qed

lemma pri_walk_spec:
  "qchain k tqp ts \<Longrightarrow> pri_walk k p tqp l =
     Some (case dropWhile (\<lambda>u. prio k u \<le> p) ts of [] \<Rightarrow> NULL | u # _ \<Rightarrow> u,
           last_link l (takeWhile (\<lambda>u. prio k u \<le> p) ts))"
proof (induction ts arbitrary: tqp l)
  case Nil
  then show ?case by (simp add: pri_walk.simps)
next
  case (Cons t ts)
  then show ?case by (subst pri_walk.simps) auto
qed

text \<open>The fields of a thread that queue operations do not touch, and the rest of the kernel.\<close>

definition td_core :: "NUTTHREADINFO \<Rightarrow> NUTTHREADINFO" where
  "td_core i = i\<lparr>td_qnxt := 0, td_qpec := 0, td_queue := 0\<rparr>"

lemma td_core_eqD:
  "td_core i = td_core j \<Longrightarrow> td_next i = td_next j \<and> td_name i = td_name j \<and> td_state i = td_state j
     \<and> td_priority i = td_priority j \<and> td_memory i = td_memory j \<and> td_timer i = td_timer j"
  by (cases i; cases j) (simp add: td_core_def)

lemma td_core_upd [simp]:
  "td_core (i\<lparr>td_qnxt := a\<rparr>) = td_core i" "td_core (i\<lparr>td_qpec := b\<rparr>) = td_core i"
  "td_core (i\<lparr>td_queue := c\<rparr>) = td_core i"
  by (simp_all add: td_core_def)

definition same_rest :: "kernel \<Rightarrow> kernel \<Rightarrow> bool" where
  "same_rest k' k \<longleftrightarrow> tmr k' = tmr k \<and> runningThread k' = runningThread k \<and>
     killedThread k' = killedThread k \<and> nutThreadList k' = nutThreadList k \<and>
     nutTimerList k' = nutTimerList k \<and> nut_ticks k' = nut_ticks k \<and>
     nut_ticks_resume k' = nut_ticks_resume k \<and> tv_sec k' = tv_sec k \<and>
     tv_usec k' = tv_usec k \<and> systick_us k' = systick_us k \<and> hmem k' = hmem k \<and>
     mem_guard k' = mem_guard k \<and> msgq k' = msgq k \<and> msgtmr k' = msgtmr k \<and>
     nutMsgQue k' = nutMsgQue k \<and> nutMsgFreeTimers k' = nutMsgFreeTimers k"

lemma same_rest_refl [simp]: "same_rest k k"
  by (simp add: same_rest_def)

lemma same_rest_trans: "same_rest k'' k' \<Longrightarrow> same_rest k' k \<Longrightarrow> same_rest k'' k"
  by (simp add: same_rest_def)

lemma same_rest_upd [simp]:
  "same_rest (upd_thr t f k') k \<longleftrightarrow> same_rest k' k" "same_rest (set_queue q v k') k \<longleftrightarrow> same_rest k' k"
  "same_rest (k'\<lparr>total_pending := n\<rparr>) k \<longleftrightarrow> same_rest k' k"
  by (simp_all add: same_rest_def)

lemma same_rest_upd_base [simp]: "same_rest k' (upd_thr t f k) \<longleftrightarrow> same_rest k' k"
  by (simp add: same_rest_def)

lemma same_rest_set_link [simp]: "same_rest (set_link l v k') k \<longleftrightarrow> same_rest k' k"
  by (cases l) simp_all

lemma queue_okD:
  assumes "queue_ok k q ts"
  shows "queue k q \<noteq> SIGNALED \<Longrightarrow> qchain k (queue k q) ts" and "queue k q = SIGNALED \<Longrightarrow> ts = []"
    and "distinct ts" and "sorted (map (prio k) ts)" and "NULL \<notin> set ts" and "SIGNALED \<notin> set ts"
    and "\<And>t. t \<in> set ts \<Longrightarrow> td_queue (thr k t) = q" and "\<And>t. t \<in> set (tl ts) \<Longrightarrow> td_qpec (thr k t) = 0"
  using assms by (auto simp: queue_ok_def split: if_splits)

lemma queue_ok_qchain: "queue_ok k q ts \<Longrightarrow> queue k q \<noteq> SIGNALED \<Longrightarrow> qchain k (get_link k (Root q)) ts"
  by (simp add: queue_okD)

lemma pri_insert_split:
  obtains as bs where "ts = as @ bs" "takeWhile (\<lambda>u. prio k u \<le> prio k t) ts = as"
    "dropWhile (\<lambda>u. prio k u \<le> prio k t) ts = bs" "pri_insert k t ts = as @ t # bs"
    "\<forall>u \<in> set as. prio k u \<le> prio k t"
proof (rule that [of "takeWhile (\<lambda>u. prio k u \<le> prio k t) ts" "dropWhile (\<lambda>u. prio k u \<le> prio k t) ts"])
qed (auto simp: pri_insert_def dest: set_takeWhileD)

lemma pri_insert_set [simp]: "set (pri_insert k t ts) = insert t (set ts)"
  by (rule pri_insert_split [of ts k t]) auto

lemma pri_insert_distinct: "distinct ts \<Longrightarrow> t \<notin> set ts \<Longrightarrow> distinct (pri_insert k t ts)"
  by (rule pri_insert_split [of ts k t]) auto

lemma dropWhile_prio_greater:
  assumes "sorted (map f ts)" and "u \<in> set (dropWhile (\<lambda>u. f u \<le> (p::nat)) ts)"
  shows "p < f u"
  using assms by (induction ts) (auto split: if_splits)

lemma pri_insert_sorted:
  assumes "sorted (map (prio k) ts)"
  shows "sorted (map (prio k) (pri_insert k t ts))"
proof -
  obtain as bs where sp: "ts = as @ bs" "dropWhile (\<lambda>u. prio k u \<le> prio k t) ts = bs"
    "pri_insert k t ts = as @ t # bs" "\<forall>u \<in> set as. prio k u \<le> prio k t"
    by (rule pri_insert_split)
  have "\<forall>u \<in> set bs. prio k t \<le> prio k u"
    using dropWhile_prio_greater [OF assms, of _ "prio k t"] sp(2) by (auto intro: less_imp_le)
  then show ?thesis using assms sp(4) unfolding sp(3) unfolding sp(1) by (auto simp: sorted_append)
qed

lemma pri_insert_cong: "(\<And>u. u \<in> insert t (set ts) \<Longrightarrow> prio k u = prio k' u) \<Longrightarrow> pri_insert k t ts = pri_insert k' t ts"
proof -
  assume p: "\<And>u. u \<in> insert t (set ts) \<Longrightarrow> prio k u = prio k' u"
  then have "takeWhile (\<lambda>u. prio k u \<le> prio k t) ts = takeWhile (\<lambda>u. prio k' u \<le> prio k' t) ts"
    and "dropWhile (\<lambda>u. prio k u \<le> prio k t) ts = dropWhile (\<lambda>u. prio k' u \<le> prio k' t) ts"
    by (auto intro: takeWhile_cong dropWhile_cong)
  then show ?thesis by (simp add: pri_insert_def)
qed

lemma tl_pri_insert:
  "u \<in> set (tl (pri_insert k t ts)) \<Longrightarrow>
     u = t \<and> takeWhile (\<lambda>u. prio k u \<le> prio k t) ts \<noteq> [] \<or> u \<in> set (tl ts)
     \<or> takeWhile (\<lambda>u. prio k u \<le> prio k t) ts = [] \<and> ts \<noteq> [] \<and> u = hd ts"
  by (cases ts) (auto simp: pri_insert_def split: if_splits dest: set_takeWhileD set_dropWhileD)

lemma pri_insert_Nil [simp]: "pri_insert k t [] = [t]"
  by (simp add: pri_insert_def)

text \<open>What inserting a thread does to the thread structures, in closed form.\<close>

definition insert_thr :: "kernel \<Rightarrow> addr \<Rightarrow> addr \<Rightarrow> addr list \<Rightarrow> addr \<Rightarrow> NUTTHREADINFO" where
  "insert_thr k t q ts x =
     (let as = takeWhile (\<lambda>u. prio k u \<le> prio k t) ts;
          bs = dropWhile (\<lambda>u. prio k u \<le> prio k t) ts
      in if x = t then (thr k t)\<lparr>td_queue := q, td_qnxt := (case bs of [] \<Rightarrow> NULL | u # _ \<Rightarrow> u),
             td_qpec := (if as = [] then pending k q ts else 0)\<rparr>
         else if as \<noteq> [] \<and> x = last as then (thr k x)\<lparr>td_qnxt := t\<rparr>
         else if bs \<noteq> [] \<and> x = hd bs then (thr k x)\<lparr>td_qpec := 0\<rparr>
         else thr k x)"

lemma last_link_eq: "last_link l as = (if as = [] then l else Qnxt (last as))"
  by (induction as arbitrary: l) auto

lemma add_pri_thr:
  assumes ok: "queue_ok k q ts" and t: "t \<notin> set ts" "t \<noteq> NULL" "t \<noteq> SIGNALED"
  obtains k' where "NutThreadAddPriQueue t q k = Some k'"
    "\<And>x. thr k' x = insert_thr k t q ts x"
    "\<And>x. queue k' x = (if x = q \<and> takeWhile (\<lambda>u. prio k u \<le> prio k t) ts = [] then t else queue k x)"
    "same_rest k' k" "total_pending k' = total_pending k + (if queue k q = SIGNALED then 1 else 0)"
proof (cases "queue k q = SIGNALED")
  case True
  then have "ts = []" by (rule queue_okD(2) [OF ok])
  obtain k' where k': "NutThreadAddPriQueue t q k = Some k'" by (simp add: NutThreadAddPriQueue_def True Let_def)
  then show thesis
    using True \<open>ts = []\<close>
    by (intro that [of k']) (auto simp: NutThreadAddPriQueue_def Let_def insert_thr_def pending_def set_link_queue)
next
  case False
  let ?k0 = "upd_thr t (\<lambda>i. i\<lparr>td_queue := q, td_qpec := 0\<rparr>) k"
  have ch: "qchain ?k0 (queue k q) ts"
    using queue_okD(1) [OF ok False] qchain_frame [of ts ?k0 k] by simp
  obtain as bs where sp: "ts = as @ bs" and tw: "takeWhile (\<lambda>u. prio k u \<le> prio k t) ts = as"
    and dw: "dropWhile (\<lambda>u. prio k u \<le> prio k t) ts = bs"
    by (rule pri_insert_split)
  let ?n = "case bs of [] \<Rightarrow> NULL | u # _ \<Rightarrow> u" and ?l = "last_link (Root q) as"
  have P0: "(\<lambda>u. prio ?k0 u \<le> prio ?k0 t) = (\<lambda>u. prio k u \<le> prio k t)" by auto
  have "pri_walk ?k0 (prio ?k0 t) (queue k q) (Root q) = Some (?n, ?l)"
    using pri_walk_spec [OF ch, of "prio ?k0 t" "Root q"] unfolding P0 tw dw .
  moreover have "queue k q = NULL \<Longrightarrow> ts = []" using ch by (cases ts) auto
  ultimately have walk: "(if queue k q \<noteq> NULL then pri_walk ?k0 (prio k t) (queue k q) (Root q)
      else Some (queue k q, Root q)) = Some (?n, ?l)"
    using sp by auto
  let ?k2 = "upd_thr t (td_qnxt_update (\<lambda>_. ?n)) ?k0" let ?k3 = "set_link ?l t ?k2"
  let ?k4 = "if ?n \<noteq> NULL \<and> td_qpec (thr ?k3 ?n) \<noteq> 0
      then upd_thr ?n (\<lambda>i. i\<lparr>td_qpec := 0\<rparr>) (upd_thr t (\<lambda>i. i\<lparr>td_qpec := td_qpec i + td_qpec (thr ?k3 ?n)\<rparr>) ?k3)
      else ?k3"
  have lt: "as \<noteq> [] \<Longrightarrow> last as \<noteq> t" "as \<noteq> [] \<Longrightarrow> last as \<in> set as" using t(1) sp by (auto dest: last_in_set)
  have n3: "td_qnxt (thr ?k3 t) = ?n" using lt by (simp add: set_link_thr last_link_eq)
  have run: "NutThreadAddPriQueue t q k = Some ?k4"
    using False walk n3 by (simp add: NutThreadAddPriQueue_def Let_def split del: if_split cong: if_cong)
  have nb: "bs \<noteq> [] \<Longrightarrow> ?n = hd bs \<and> hd bs \<noteq> NULL \<and> hd bs \<noteq> t \<and> hd bs \<notin> set as"
    using sp t(1) queue_okD(3,5) [OF ok] by (cases bs) auto
  have zero: "td_qpec (thr k (hd bs)) = 0" if "as \<noteq> []" "bs \<noteq> []"
    using queue_okD(8) [OF ok, of "hd bs"] that sp by (cases as) auto
  have pend: "as = [] \<Longrightarrow> pending k q ts = (if bs = [] then 0 else td_qpec (thr k (hd bs)))"
    using False sp by (auto simp: pending_def split: list.splits)
  show thesis
  proof (rule that [OF run])
    show "thr ?k4 x = insert_thr k t q ts x" for x
    proof (cases bs)
      case Nil
      show ?thesis
        using lt(1) pend unfolding insert_thr_def tw dw Nil Let_def
        by (cases "as = []") (simp_all add: set_link_thr last_link_eq)
    next
      case (Cons u us)
      have u: "u \<noteq> NULL" "u \<noteq> t" "u \<notin> set as" using nb Cons by auto
      show ?thesis
      proof (cases "as = []")
        case True
        then show ?thesis
          using u pend unfolding insert_thr_def tw dw Cons Let_def by (simp add: last_link_eq)
      next
        case False
        have "u \<noteq> last as" "td_qpec (thr k u) = 0" using u lt(2) False zero Cons by auto
        then show ?thesis
          using u False lt(1) unfolding insert_thr_def tw dw Cons Let_def
          by (simp add: set_link_thr last_link_eq)
      qed
    qed
    show "queue ?k4 x = (if x = q \<and> takeWhile (\<lambda>u. prio k u \<le> prio k t) ts = [] then t else queue k x)" for x
      unfolding tw by (auto simp: set_link_queue last_link_eq)
    show "same_rest ?k4 k" by simp
    have "total_pending (set_link l v k'') = total_pending k''" for l v k'' by (cases l) simp_all
    then show "total_pending ?k4 = total_pending k + (if queue k q = SIGNALED then 1 else 0)"
      using False by simp
  qed
qed

lemma insert_thr_core [simp]: "td_core (insert_thr k t q ts x) = td_core (thr k x)"
  by (simp add: insert_thr_def Let_def)

lemma insert_thr_other: "x \<notin> insert t (set ts) \<Longrightarrow> insert_thr k t q ts x = thr k x"
  by (rule pri_insert_split [of ts k t]) (auto simp: insert_thr_def Let_def dest: last_in_set hd_in_set)

lemma insert_thr_prio [simp]: "td_priority (insert_thr k t q ts x) = prio k x"
  using td_core_eqD [OF insert_thr_core] by blast

lemma insert_thr_queue: "td_queue (insert_thr k t q ts x) = (if x = t then q else td_queue (thr k x))"
  by (simp add: insert_thr_def Let_def)

lemma insert_thr_qpec:
  "td_qpec (insert_thr k t q ts x) =
     (let as = takeWhile (\<lambda>u. prio k u \<le> prio k t) ts; bs = dropWhile (\<lambda>u. prio k u \<le> prio k t) ts
      in if x = t then (if as = [] then pending k q ts else 0)
         else if (as = [] \<or> x \<noteq> last as) \<and> bs \<noteq> [] \<and> x = hd bs then 0 else td_qpec (thr k x))"
  by (auto simp: insert_thr_def Let_def)

lemma insert_thr_qnxt:
  "td_qnxt (insert_thr k t q ts x) =
     (let as = takeWhile (\<lambda>u. prio k u \<le> prio k t) ts; bs = dropWhile (\<lambda>u. prio k u \<le> prio k t) ts
      in if x = t then (case bs of [] \<Rightarrow> NULL | u # _ \<Rightarrow> u)
         else if as \<noteq> [] \<and> x = last as then t else td_qnxt (thr k x))"
  by (auto simp: insert_thr_def Let_def)

lemma add_pri_qchain:
  assumes ok: "queue_ok k q ts" and t: "t \<notin> set ts" "t \<noteq> NULL"
    and thr: "\<And>x. thr k' x = insert_thr k t q ts x"
    and que: "queue k' q = (if takeWhile (\<lambda>u. prio k u \<le> prio k t) ts = [] then t else queue k q)"
  shows "qchain k' (queue k' q) (pri_insert k t ts)"
proof -
  obtain as bs where sp: "ts = as @ bs" and tw: "takeWhile (\<lambda>u. prio k u \<le> prio k t) ts = as"
    and dw: "dropWhile (\<lambda>u. prio k u \<le> prio k t) ts = bs" and ins: "pri_insert k t ts = as @ t # bs"
    by (rule pri_insert_split)
  note nx = insert_thr_qnxt [of k t q ts, unfolded tw dw Let_def]
  have d: "distinct (as @ bs)" "t \<notin> set as" "t \<notin> set bs" using queue_okD(3) [OF ok] t sp by auto
  show ?thesis
  proof (cases "queue k q = SIGNALED")
    case True
    then have "ts = []" by (rule queue_okD(2) [OF ok])
    then show ?thesis using que thr t(2) by (simp add: insert_thr_def)
  next
    case False
    have ch: "qchain k (get_link k (Root q)) (as @ bs)" using queue_okD(1) [OF ok False] sp by simp
    have "qchain k' (get_link k' (Root q)) (as @ (t # bs))"
    proof (rule qchain_relink [OF ch])
      show "distinct as" using d by simp
      show "get_link k' l' = get_link k l'"
        if "l' \<in> insert (Root q) (Qnxt ` set as)" "l' \<noteq> last_link (Root q) as" for l'
        using that que d(2) by (auto simp: thr nx tw last_link_eq split: if_splits)
      have "qchain k' p bs = qchain k p bs" for p
        by (rule qchain_frame) (use d in \<open>auto simp: thr nx dest: last_in_set\<close>)
      moreover have "qchain k (case bs of [] \<Rightarrow> NULL | u # _ \<Rightarrow> u) bs"
        using qchain_link [OF ch] by (cases bs) auto
      ultimately have "qchain k' t (t # bs)" using t(2) by (simp add: thr nx)
      moreover have "get_link k' (last_link (Root q) as) = t"
        using que d(2) by (auto simp: thr nx tw last_link_eq dest: last_in_set)
      ultimately show "qchain k' (get_link k' (last_link (Root q) as)) (t # bs)" by simp
    qed auto
    then show ?thesis unfolding ins by simp
  qed
qed

lemma queue_okI:
  assumes "queue k q \<noteq> SIGNALED" and "qchain k (queue k q) ts" and "distinct ts" and "SIGNALED \<notin> set ts"
    and "sorted (map (prio k) ts)" and "\<And>t. t \<in> set ts \<Longrightarrow> td_queue (thr k t) = q"
    and "\<And>t. t \<in> set (tl ts) \<Longrightarrow> td_qpec (thr k t) = 0"
  shows "queue_ok k q ts"
  using assms qchain_null [OF assms(2)] by (simp add: queue_ok_def)

lemma add_pri_spec:
  assumes ok: "queue_ok k q ts" and t: "t \<notin> set ts" "t \<noteq> NULL" "t \<noteq> SIGNALED"
  obtains k' where "NutThreadAddPriQueue t q k = Some k'"
    "queue_ok k' q (pri_insert k t ts)" "queue k' q \<noteq> SIGNALED"
    "pending k' q (pri_insert k t ts) = pending k q ts"
    "\<And>x. td_core (thr k' x) = td_core (thr k x)"
    "\<And>x. x \<notin> insert t (set ts) \<Longrightarrow> thr k' x = thr k x"
    "\<And>x. x \<noteq> q \<Longrightarrow> queue k' x = queue k x"
    "same_rest k' k" "total_pending k' = total_pending k + (if queue k q = SIGNALED then 1 else 0)"
proof -
  obtain k' where run: "NutThreadAddPriQueue t q k = Some k'" and thr: "\<And>x. thr k' x = insert_thr k t q ts x"
    and que: "\<And>x. queue k' x = (if x = q \<and> takeWhile (\<lambda>u. prio k u \<le> prio k t) ts = [] then t else queue k x)"
    and rest: "same_rest k' k" "total_pending k' = total_pending k + (if queue k q = SIGNALED then 1 else 0)"
    by (rule add_pri_thr [OF ok t]) blast
  obtain as bs where sp: "ts = as @ bs" and tw: "takeWhile (\<lambda>u. prio k u \<le> prio k t) ts = as"
    and dw: "dropWhile (\<lambda>u. prio k u \<le> prio k t) ts = bs" and ins: "pri_insert k t ts = as @ t # bs"
    by (rule pri_insert_split)
  note pe = insert_thr_qpec [of k t q ts, unfolded tw dw Let_def]
  have pr: "prio k' = prio k" by (simp add: fun_eq_iff thr)
  have d: "distinct (as @ bs)" "t \<notin> set as" "t \<notin> set bs" using queue_okD(3) [OF ok] t sp by auto
  have sig: "queue k' q \<noteq> SIGNALED"
    using que tw t(3) queue_okD(2) [OF ok] sp by auto
  have zero: "td_qpec (thr k' u) = 0" if "u \<in> set (tl (pri_insert k t ts))" for u
    using that unfolding ins
  proof (cases as)
    case Nil
    then have "u \<in> set bs" using that ins by simp
    moreover have "u \<in> set (tl bs)" if "u \<noteq> hd bs" using \<open>u \<in> set bs\<close> that by (cases bs) auto
    ultimately show ?thesis
      unfolding thr pe using queue_okD(8) [OF ok, of u] Nil sp d(3) by (cases "u = hd bs") auto
  next
    case (Cons a as')
    then have "u = t \<or> u \<in> set (tl ts)" using that ins sp by auto
    then show ?thesis using queue_okD(8) [OF ok, of u] Cons by (auto simp: thr pe)
  qed
  have ok': "queue_ok k' q (pri_insert k t ts)"
  proof (rule queue_okI [OF sig])
    show "qchain k' (queue k' q) (pri_insert k t ts)"
      by (rule add_pri_qchain [OF ok t(1,2) thr]) (simp add: que)
    show "distinct (pri_insert k t ts)" using pri_insert_distinct queue_okD(3) [OF ok] t(1) .
    show "sorted (map (prio k') (pri_insert k t ts))" unfolding pr by (rule pri_insert_sorted [OF queue_okD(4) [OF ok]])
    show "SIGNALED \<notin> set (pri_insert k t ts)" using queue_okD(6) [OF ok] t(3) by auto
    show "td_queue (thr k' u) = q" if "u \<in> set (pri_insert k t ts)" for u
      using that queue_okD(7) [OF ok, of u] by (auto simp: thr insert_thr_queue)
  qed (rule zero)
  have "pending k' q (pri_insert k t ts) = pending k q ts"
  proof (cases as)
    case Nil
    then show ?thesis using sig by (simp add: pending_def ins thr pe)
  next
    case (Cons a as')
    have "a \<noteq> t" "bs \<noteq> [] \<Longrightarrow> a \<noteq> hd bs" using d Cons by (auto dest: hd_in_set)
    moreover have "queue k q \<noteq> SIGNALED" using queue_okD(2) [OF ok] Cons sp by auto
    moreover have "ts = a # as' @ bs" using Cons sp by simp
    then have "pending k q ts = (if queue k q = SIGNALED then 1 else td_qpec (thr k a))" by (simp add: pending_def)
    moreover have "pending k' q (pri_insert k t ts) = td_qpec (insert_thr k t q ts a)"
      using sig Cons unfolding pending_def ins thr by simp
    ultimately show ?thesis unfolding pe by auto
  qed
  then show thesis
    using that [OF run ok' sig] thr insert_thr_other que rest by simp
qed

lemma queue_ok_frame:
  assumes "queue_ok k q ts" and "\<And>x. x \<in> set ts \<Longrightarrow> thr k' x = thr k x" and "queue k' q = queue k q"
  shows "queue_ok k' q ts" and "pending k' q ts = pending k q ts"
proof -
  have "qchain k' (queue k q) ts = qchain k (queue k q) ts" by (rule qchain_frame) (simp add: assms(2))
  moreover have "map (prio k') ts = map (prio k) ts" using assms(2) by simp
  then have "sorted (map (prio k') ts) = sorted (map (prio k) ts)" by (simp only:)
  moreover have "\<forall>t \<in> set (tl ts). td_qpec (thr k' t) = td_qpec (thr k t)"
    using assms(2) list.set_sel(2) by (cases ts) auto
  ultimately show "queue_ok k' q ts" using assms unfolding queue_ok_def by auto
  show "pending k' q ts = pending k q ts"
    using assms by (auto simp: pending_def split: list.splits)
qed

lemma remove_walk_absent:
  "qchain k p ts \<Longrightarrow> t \<notin> set ts \<Longrightarrow> remove_walk k t p l = Some k"
  by (induction ts arbitrary: p l) (simp_all add: remove_walk.simps)

lemma remove_walk_found:
  "qchain k p (as @ t # bs) \<Longrightarrow> t \<notin> set as \<Longrightarrow>
     remove_walk k t p l = Some (upd_thr t (\<lambda>i. i\<lparr>td_qnxt := NULL, td_queue := NULL\<rparr>)
       (unlink_thread t (last_link l as) k))"
proof (induction as arbitrary: p l)
  case Nil
  then show ?case by (subst remove_walk.simps) simp
next
  case (Cons a as)
  then show ?case by (subst remove_walk.simps) auto
qed

text \<open>What removing a thread does to the thread structures, in closed form.\<close>

definition remove_thr :: "kernel \<Rightarrow> addr \<Rightarrow> addr list \<Rightarrow> addr list \<Rightarrow> addr \<Rightarrow> NUTTHREADINFO" where
  "remove_thr k t as bs x =
     (if x = t then (thr k t)\<lparr>td_qnxt := NULL, td_queue := NULL, td_qpec := 0\<rparr>
      else if as \<noteq> [] \<and> x = last as then (thr k x)\<lparr>td_qnxt := (case bs of [] \<Rightarrow> NULL | u # _ \<Rightarrow> u)\<rparr>
      else if as = [] \<and> bs \<noteq> [] \<and> x = hd bs then (thr k x)\<lparr>td_qpec := td_qpec (thr k t)\<rparr>
      else thr k x)"

lemma qpec_idem: "td_qpec i = n \<Longrightarrow> i\<lparr>td_qpec := n\<rparr> = i"
  by (cases i) simp

lemma remove_thr_eq:
  assumes ok: "queue_ok k q (as @ t # bs)"
  obtains k' where "NutThreadRemoveQueue t q k = Some k'" "\<And>x. thr k' x = remove_thr k t as bs x"
    "\<And>x. queue k' x = (if x = q \<and> as = [] then (case bs of [] \<Rightarrow> NULL | u # _ \<Rightarrow> u) else queue k x)"
    "same_rest k' k" "total_pending k' = total_pending k"
proof -
  have sig: "queue k q \<noteq> SIGNALED" using queue_okD(2) [OF ok] by auto
  have ch: "qchain k (get_link k (Root q)) (as @ t # bs)" using queue_okD(1) [OF ok sig] by simp
  have d: "distinct (as @ t # bs)" by (rule queue_okD(3) [OF ok])
  have nx: "td_qnxt (thr k t) = (case bs of [] \<Rightarrow> NULL | u # _ \<Rightarrow> u)"
    using qchain_link [OF ch] by (cases bs) auto
  let ?n = "case bs of [] \<Rightarrow> NULL | u # _ \<Rightarrow> u" and ?l = "last_link (Root q) as"
  let ?k' = "upd_thr t (\<lambda>i. i\<lparr>td_qnxt := NULL, td_queue := NULL\<rparr>) (unlink_thread t ?l k)"
  have run: "NutThreadRemoveQueue t q k = Some ?k'"
    using sig remove_walk_found [of k "queue k q" as t bs "Root q"] ch d by (simp add: NutThreadRemoveQueue_def)
  have la: "as \<noteq> [] \<Longrightarrow> last as \<noteq> t \<and> last as \<notin> set bs" using d by (auto dest: last_in_set)
  have nb: "bs \<noteq> [] \<Longrightarrow> ?n = hd bs \<and> hd bs \<noteq> NULL \<and> hd bs \<noteq> t \<and> hd bs \<in> set bs"
    using d queue_okD(5) [OF ok] by (cases bs) auto
  have z: "as \<noteq> [] \<Longrightarrow> td_qpec (thr k t) = 0" "as = [] \<Longrightarrow> bs \<noteq> [] \<Longrightarrow> td_qpec (thr k (hd bs)) = 0"
    using queue_okD(8) [OF ok, of t] queue_okD(8) [OF ok, of "hd bs"] by (cases as; auto)+
  have tp: "total_pending (set_link l v k'') = total_pending k''" for l v k'' by (cases l) simp_all
  show thesis
  proof (rule that [OF run])
    show "thr ?k' x = remove_thr k t as bs x" for x
    proof (cases "as = []")
      case True
      then show ?thesis
        using nb z(2) nx by (cases "bs = []") (auto simp: unlink_thread_def Let_def remove_thr_def qpec_idem)
    next
      case False
      then show ?thesis
        using la z(1) nx by (auto simp: unlink_thread_def Let_def remove_thr_def set_link_thr last_link_eq qpec_idem)
    qed
    show "queue ?k' x = (if x = q \<and> as = [] then ?n else queue k x)" for x
      using nx by (auto simp: unlink_thread_def Let_def set_link_queue last_link_eq)
    show "same_rest ?k' k" by (simp add: unlink_thread_def Let_def)
    show "total_pending ?k' = total_pending k" by (simp add: unlink_thread_def Let_def tp)
  qed
qed

lemma remove_thr_core [simp]: "td_core (remove_thr k t as bs x) = td_core (thr k x)"
  by (simp add: remove_thr_def)

lemma remove_thr_prio [simp]: "td_priority (remove_thr k t as bs x) = prio k x"
  using td_core_eqD [OF remove_thr_core] by blast

lemma remove_qchain:
  assumes ok: "queue_ok k q (as @ t # bs)" and thr: "\<And>x. thr k' x = remove_thr k t as bs x"
    and que: "queue k' q = (if as = [] then (case bs of [] \<Rightarrow> NULL | u # _ \<Rightarrow> u) else queue k q)"
  shows "qchain k' (queue k' q) (as @ bs)"
proof -
  have sig: "queue k q \<noteq> SIGNALED" using queue_okD(2) [OF ok] by auto
  have ch: "qchain k (get_link k (Root q)) (as @ t # bs)" using queue_okD(1) [OF ok sig] by simp
  have d: "distinct (as @ t # bs)" by (rule queue_okD(3) [OF ok])
  have dab: "t \<notin> set as" "\<And>x. x \<in> set as \<Longrightarrow> x \<notin> set bs" using d by auto
  have las: "as \<noteq> [] \<Longrightarrow> last as \<noteq> t \<and> last as \<notin> set bs" using d by (auto dest: last_in_set)
  have "qchain k' (get_link k' (Root q)) (as @ bs)"
  proof (rule qchain_relink [OF ch])
    show "distinct as" using d by simp
    show "get_link k' l' = get_link k l'"
      if "l' \<in> insert (Root q) (Qnxt ` set as)" "l' \<noteq> last_link (Root q) as" for l'
      using that que dab by (auto simp: thr remove_thr_def last_link_eq split: if_splits)
    have "qchain k' p bs = qchain k p bs" for p
      by (rule qchain_frame) (use d las in \<open>auto simp: thr remove_thr_def\<close>)
    moreover have "qchain k (case bs of [] \<Rightarrow> NULL | u # _ \<Rightarrow> u) bs"
      using qchain_link [OF ch] by (cases bs) auto
    moreover have "get_link k' (last_link (Root q) as) = (case bs of [] \<Rightarrow> NULL | u # _ \<Rightarrow> u)"
      using que las by (auto simp: thr remove_thr_def last_link_eq)
    ultimately show "qchain k' (get_link k' (last_link (Root q) as)) bs" by simp
  qed auto
  then show ?thesis by simp
qed

lemma remove_queue_spec:
  assumes ok: "queue_ok k q ts" and t: "t \<in> set ts"
  obtains k' where "NutThreadRemoveQueue t q k = Some k'"
    "queue_ok k' q (remove1 t ts)" "queue k' q \<noteq> SIGNALED"
    "pending k' q (remove1 t ts) = (if ts = [t] then 0 else pending k q ts)"
    "td_qnxt (thr k' t) = NULL" "td_queue (thr k' t) = NULL" "td_qpec (thr k' t) = 0"
    "\<And>x. td_core (thr k' x) = td_core (thr k x)" "\<And>x. x \<notin> set ts \<Longrightarrow> thr k' x = thr k x"
    "\<And>x. x \<noteq> q \<Longrightarrow> queue k' x = queue k x" "same_rest k' k" "total_pending k' = total_pending k"
proof -
  obtain as bs where sp: "ts = as @ t # bs" and na: "t \<notin> set as" using split_list_first [OF t] by blast
  then have rm: "remove1 t ts = as @ bs" by (simp add: remove1_append)
  note ok = ok [unfolded sp]
  obtain k' where run: "NutThreadRemoveQueue t q k = Some k'" and thr: "\<And>x. thr k' x = remove_thr k t as bs x"
    and que: "\<And>x. queue k' x = (if x = q \<and> as = [] then (case bs of [] \<Rightarrow> NULL | u # _ \<Rightarrow> u) else queue k x)"
    and rest: "same_rest k' k" "total_pending k' = total_pending k"
    by (rule remove_thr_eq [OF ok]) blast
  have sigk: "queue k q \<noteq> SIGNALED" using queue_okD(2) [OF ok] by auto
  have d: "distinct (as @ t # bs)" "SIGNALED \<notin> set (as @ t # bs)" using queue_okD(3,6) [OF ok] by simp_all
  have sig: "queue k' q \<noteq> SIGNALED"
    using sigk d(2) by (cases bs) (auto simp: que SIGNALED_def)
  have pr: "prio k' = prio k" by (simp add: fun_eq_iff thr)
  have z: "td_qpec (thr k u) = 0" if "u \<in> set (tl (as @ t # bs))" for u using queue_okD(8) [OF ok that] .
  have tn: "u \<noteq> t" if "u \<in> set (as @ bs)" for u using that d by auto
  have ok': "queue_ok k' q (as @ bs)"
  proof (rule queue_okI [OF sig])
    show "qchain k' (queue k' q) (as @ bs)" by (rule remove_qchain [OF ok thr]) (simp add: que)
    show "sorted (map (prio k') (as @ bs))" using queue_okD(4) [OF ok] unfolding pr by (auto simp: sorted_append)
    show "td_queue (thr k' u) = q" if "u \<in> set (as @ bs)" for u
      using tn [OF that] queue_okD(7) [OF ok, of u] that by (auto simp: thr remove_thr_def)
    show "td_qpec (thr k' u) = 0" if "u \<in> set (tl (as @ bs))" for u
    proof (cases as)
      case Nil
      then have u: "u \<in> set (tl bs)" using that by simp
      then have "u \<noteq> hd bs" "u \<in> set bs" using d(1) by (cases bs; auto)+
      then show ?thesis using z [of u] tn [of u] Nil by (simp add: thr remove_thr_def)
    next
      case (Cons a as')
      then have "u \<in> set (tl (as @ t # bs))" "u \<in> set (as @ bs)" using that by auto
      then have "td_qpec (thr k u) = 0" "u \<noteq> t" using z [of u] tn [of u] by blast+
      then show ?thesis using Cons by (auto simp: thr remove_thr_def simp del: last.simps)
    qed
  qed (use d in auto)
  have pe: "pending k' q (as @ bs) = (if ts = [t] then 0 else pending k q ts)"
  proof (cases as)
    case Nil
    then show ?thesis using sig sigk d(1) sp by (cases bs) (auto simp: pending_def thr remove_thr_def)
  next
    case (Cons a as')
    then show ?thesis using sig sigk tn [of a] sp by (simp add: pending_def thr remove_thr_def)
  qed
  have oth: "thr k' x = thr k x" if "x \<notin> set ts" for x
    using that sp by (auto simp: thr remove_thr_def dest: last_in_set hd_in_set)
  show thesis
    by (rule that [OF run ok' [folded rm] sig pe [folded rm] _ _ _ _ oth _ rest])
      (simp_all add: thr que remove_thr_def)
qed

lemma remove_queue_absent:
  "queue_ok k q ts \<Longrightarrow> t \<notin> set ts \<Longrightarrow> NutThreadRemoveQueue t q k = Some k"
  using queue_okD(1) [of k q ts] remove_walk_absent [of k "queue k q" ts t "Root q"]
  by (simp add: NutThreadRemoveQueue_def Let_def)

end
