(* ===== verification/Nut_Queue_Spec.thy ===== *)
theory Nut_Queue_Spec
  imports Nut_Queue
begin

text \<open>
  The contract of the thread queues, as their clients use it: a family of queues, each a list
  ordered by priority, a thread in at most one of them; adding a thread puts it behind those
  of the same or a higher priority, removing it leaves the others in order. The clients of
  the contract move a thread from one queue to another (waiting, waking up) or to the end of
  its priority class (yielding). \<open>kernel_queues\<close> below shows that \<^verbatim>\<open>NutThreadAddPriQueue\<close> and
  \<^verbatim>\<open>NutThreadRemoveQueue\<close> satisfy it.
\<close>

section \<open>The contract\<close>

definition rank_insert :: "('t \<Rightarrow> nat) \<Rightarrow> 't \<Rightarrow> 't list \<Rightarrow> 't list" where
  "rank_insert r t ts = takeWhile (\<lambda>u. r u \<le> r t) ts @ t # dropWhile (\<lambda>u. r u \<le> r t) ts"

lemma rank_insert_set [simp]: "set (rank_insert r t ts) = insert t (set ts)"
proof -
  have "set ts = set (takeWhile (\<lambda>u. r u \<le> r t) ts) \<union> set (dropWhile (\<lambda>u. r u \<le> r t) ts)"
    by (metis set_append takeWhile_dropWhile_id)
  then show ?thesis by (simp add: rank_insert_def)
qed

lemma rank_insert_length [simp]: "length (rank_insert r t ts) = Suc (length ts)"
proof -
  have "length ts = length (takeWhile (\<lambda>u. r u \<le> r t) ts) + length (dropWhile (\<lambda>u. r u \<le> r t) ts)"
    by (metis length_append takeWhile_dropWhile_id)
  then show ?thesis by (simp add: rank_insert_def)
qed

text \<open>In an ordered queue the new thread is served after exactly the threads that are not of a lower priority.\<close>

lemma rank_insert_sorted_split:
  assumes "sorted (map r ts)"
  shows "rank_insert r t ts = filter (\<lambda>u. r u \<le> r t) ts @ t # filter (\<lambda>u. \<not> r u \<le> r t) ts"
  using assms
proof (induction ts)
  case Nil
  then show ?case by (simp add: rank_insert_def)
next
  case (Cons a ts)
  then have "\<And>u. u \<in> set ts \<Longrightarrow> r a \<le> r u" and s: "sorted (map r ts)" by auto
  then have "\<not> r a \<le> r t \<Longrightarrow> filter (\<lambda>u. r u \<le> r t) ts = [] \<and> filter (\<lambda>u. \<not> r u \<le> r t) ts = ts"
    by (fastforce simp: filter_empty_conv filter_id_conv)
  then show ?case using Cons.IH [OF s] by (auto simp: rank_insert_def)
qed

locale prio_queues =
  fixes add rem :: "'t \<Rightarrow> 'q \<Rightarrow> 's \<Rightarrow> 's option"
    and holds :: "'s \<Rightarrow> 'q \<Rightarrow> 't list \<Rightarrow> bool" and rank :: "'s \<Rightarrow> 't \<Rightarrow> nat" and valid :: "'t \<Rightarrow> bool"
  assumes holds_order: "holds s q ts \<Longrightarrow> sorted (map (rank s) ts) \<and> distinct ts"
    and exclusive: "holds s q ts \<Longrightarrow> holds s p us \<Longrightarrow> t \<in> set ts \<Longrightarrow> t \<in> set us \<Longrightarrow> q = p"
    and add_law: "holds s q ts \<Longrightarrow> t \<notin> set ts \<Longrightarrow> valid t \<Longrightarrow>
      \<exists>s'. add t q s = Some s' \<and> holds s' q (rank_insert (rank s) t ts) \<and> rank s' = rank s
        \<and> (\<forall>p us. p \<noteq> q \<and> t \<notin> set us \<and> holds s p us \<longrightarrow> holds s' p us)"
    and rem_law: "holds s q ts \<Longrightarrow> t \<in> set ts \<Longrightarrow>
      \<exists>s'. rem t q s = Some s' \<and> holds s' q (remove1 t ts) \<and> rank s' = rank s
        \<and> (\<forall>p us. p \<noteq> q \<and> holds s p us \<longrightarrow> holds s' p us)"
begin

definition system :: "'s \<Rightarrow> ('q \<Rightarrow> 't list) \<Rightarrow> bool" where
  "system s Q \<longleftrightarrow> (\<forall>q. holds s q (Q q))"

definition move :: "'t \<Rightarrow> 'q \<Rightarrow> 'q \<Rightarrow> 's \<Rightarrow> 's option" where
  "move t q p s = (case rem t q s of None \<Rightarrow> None | Some s' \<Rightarrow> add t p s')"

lemma head_best: "holds s q (t # ts) \<Longrightarrow> u \<in> set ts \<Longrightarrow> rank s t \<le> rank s u"
  using holds_order [of s q "t # ts"] by auto

lemma move_system:
  assumes sys: "system s Q" and t: "t \<in> set (Q q)" "valid t"
  shows "\<exists>s'. move t q p s = Some s' \<and> rank s' = rank s \<and>
    system s' ((Q(q := remove1 t (Q q)))(p := rank_insert (rank s) t ((Q(q := remove1 t (Q q))) p)))"
proof -
  have h: "holds s x (Q x)" for x using sys by (simp add: system_def)
  have d: "distinct (Q x)" for x using holds_order [OF h] by blast
  obtain s1 where r: "rem t q s = Some s1" "holds s1 q (remove1 t (Q q))" "rank s1 = rank s"
    "\<And>x us. x \<noteq> q \<Longrightarrow> holds s x us \<Longrightarrow> holds s1 x us" using rem_law [OF h t(1)] by blast
  let ?R = "Q(q := remove1 t (Q q))"
  have R: "holds s1 x (?R x)" "t \<notin> set (?R x)" for x
  proof -
    show "holds s1 x (?R x)" using r(2) r(4) [OF _ h, of x] by (cases "x = q") simp_all
    have "x \<noteq> q \<Longrightarrow> t \<notin> set (Q x)" using exclusive [OF h h t(1), of x] by blast
    then show "t \<notin> set (?R x)" using d [of q] by (cases "x = q") simp_all
  qed
  obtain s2 where a: "add t p s1 = Some s2" "holds s2 p (rank_insert (rank s) t (?R p))" "rank s2 = rank s"
    "\<And>x us. x \<noteq> p \<Longrightarrow> t \<notin> set us \<Longrightarrow> holds s1 x us \<Longrightarrow> holds s2 x us"
    using add_law [OF R(1) R(2) t(2), of p] r(3) by auto
  have "holds s2 x ((?R(p := rank_insert (rank s) t (?R p))) x)" for x
  proof (cases "x = p")
    case True
    then show ?thesis using a(2) by simp
  next
    case False
    then show ?thesis using a(4) [OF False R(2) R(1)] by simp
  qed
  then have "system s2 (?R(p := rank_insert (rank s) t (?R p)))" unfolding system_def ..
  then show ?thesis using r(1) a(1,3) by (auto simp: move_def)
qed

lemma move_conserves:
  assumes "system s Q" and "t \<in> set (Q q)" and "valid t" and "move t q p s = Some s'" and "system s' Q'"
    and "Q' = (Q(q := remove1 t (Q q)))(p := rank_insert (rank s) t ((Q(q := remove1 t (Q q))) p))"
  shows "(\<Union>x. set (Q' x)) = (\<Union>x. set (Q x))"
proof -
  have d: "distinct (Q q)" using assms(1) holds_order by (auto simp: system_def)
  have "set (Q' x) = (if x = p then insert t (set (Q x)) else if x = q then set (Q x) - {t} else set (Q x))" for x
    using d assms(2) by (auto simp: assms(6))
  note setQ = this
  have "y \<in> (\<Union>x. set (Q' x)) \<longleftrightarrow> y \<in> (\<Union>x. set (Q x))" for y
  proof (cases "y = t")
    case True
    have "y \<in> set (Q' p)" using True setQ by simp
    then show ?thesis using True assms(2) by blast
  next
    case False
    then have "y \<in> set (Q' x) \<longleftrightarrow> y \<in> set (Q x)" for x using setQ [of x] by auto
    then show ?thesis by blast
  qed
  then show ?thesis by blast
qed

end

section \<open>The queues of the kernel\<close>

definition queues :: "kernel \<Rightarrow> (addr \<Rightarrow> addr list) \<Rightarrow> bool" where
  "queues k Q \<longleftrightarrow> (\<forall>q. queue_ok k q (Q q))"

lemma pri_insert_rank: "pri_insert k t ts = rank_insert (prio k) t ts"
  by (simp add: pri_insert_def rank_insert_def)

lemma queue_ok_exclusive:
  "queue_ok k q ts \<Longrightarrow> queue_ok k p us \<Longrightarrow> t \<in> set ts \<Longrightarrow> t \<in> set us \<Longrightarrow> q = p"
  using queue_okD(7) [of k q ts t] queue_okD(7) [of k p us t] by simp

lemma core_prio: "(\<And>x. td_core (thr k' x) = td_core (thr k x)) \<Longrightarrow> prio k' = prio k"
  by (rule ext) (use td_core_eqD in blast)

interpretation kernel_queues: prio_queues NutThreadAddPriQueue NutThreadRemoveQueue queue_ok prio
  "\<lambda>t. t \<noteq> NULL \<and> t \<noteq> SIGNALED"
proof (unfold_locales, goal_cases)
  case (1 s q ts)
  then show ?case using queue_okD(3,4) by blast
next
  case (2 s q ts p us t)
  then show ?case by (rule queue_ok_exclusive)
next
  case (3 s q ts t)
  then obtain k' where k': "NutThreadAddPriQueue t q s = Some k'" "queue_ok k' q (pri_insert s t ts)"
    "\<And>x. td_core (thr k' x) = td_core (thr s x)" "\<And>x. x \<notin> insert t (set ts) \<Longrightarrow> thr k' x = thr s x"
    "\<And>x. x \<noteq> q \<Longrightarrow> queue k' x = queue s x"
    by (metis add_pri_spec)
  have "queue_ok k' p us" if "p \<noteq> q" "t \<notin> set us" "queue_ok s p us" for p us
  proof (rule queue_ok_frame(1) [OF that(3)])
    show "thr k' x = thr s x" if "x \<in> set us" for x
      using k'(4) [of x] queue_ok_exclusive [OF 3(1) \<open>queue_ok s p us\<close>, of x] that \<open>p \<noteq> q\<close> \<open>t \<notin> set us\<close> by auto
  qed (use k'(5) that(1) in simp)
  then show ?case using k'(1,2) core_prio [OF k'(3)] by (auto simp: pri_insert_rank)
next
  case (4 s q ts t)
  then obtain k' where k': "NutThreadRemoveQueue t q s = Some k'" "queue_ok k' q (remove1 t ts)"
    "\<And>x. td_core (thr k' x) = td_core (thr s x)" "\<And>x. x \<notin> set ts \<Longrightarrow> thr k' x = thr s x"
    "\<And>x. x \<noteq> q \<Longrightarrow> queue k' x = queue s x"
    by (metis remove_queue_spec)
  have "queue_ok k' p us" if "p \<noteq> q" "queue_ok s p us" for p us
  proof (rule queue_ok_frame(1) [OF that(2)])
    show "thr k' x = thr s x" if "x \<in> set us" for x
      using k'(4) [of x] queue_ok_exclusive [OF 4(1) \<open>queue_ok s p us\<close>, of x] that \<open>p \<noteq> q\<close> by auto
  qed (use k'(5) that(1) in simp)
  then show ?case using k'(1,2) core_prio [OF k'(3)] by auto
qed

end
