(* ===== verification/Nut_Timer.thy ===== *)
theory Nut_Timer
  imports Nut_Queue_Spec
begin

text \<open>
  The timer list of \<^verbatim>\<open>os/timer.c\<close>: a doubly linked list of timers in which \<^verbatim>\<open>tn_ticks_left\<close> of an
  entry counts from the entry before it. Ticks are 32-bit words. Timers that the kernel
  creates live in the heap. The loop that expires timers runs callbacks and is in
  \<open>Nut_Sched\<close>.
\<close>

section \<open>Model\<close>

unbundle bit_operations_syntax

definition NutHeapAlloc :: "nat \<Rightarrow> kernel \<Rightarrow> (kernel \<times> addr) option" where
  "NutHeapAlloc sz k =
     (case NutHeapRootAlloc (mem_guard k) (hmem k) heapFreeList sz of
        None \<Rightarrow> None
      | Some (m, p) \<Rightarrow> Some (k\<lparr>hmem := m\<rparr>, p))"

definition NutHeapFree :: "addr \<Rightarrow> kernel \<Rightarrow> (kernel \<times> int) option" where
  "NutHeapFree p k =
     (case NutHeapRootFree (mem_guard k) (hmem k) heapFreeList p of
        None \<Rightarrow> None
      | Some (m, rc) \<Rightarrow> Some (k\<lparr>hmem := m\<rparr>, rc))"

definition TM_HAS_OWN_STRUCT :: u32 where
  "TM_HAS_OWN_STRUCT = 0x80000000"

definition TM_ONESHOT :: u8 where
  "TM_ONESHOT = 1"

definition sizeof_NUTTIMERINFO :: nat where
  "sizeof_NUTTIMERINFO = 28"

definition NUT_TICK_FREQ :: u32 where
  "NUT_TICK_FREQ = 1000"

definition NutGetTickClock :: u32 where
  "NutGetTickClock = NUT_TICK_FREQ"

text \<open>The conversion is written for any tick frequency; the source selects the branch at compile time.\<close>

definition millis_to_ticks :: "u32 \<Rightarrow> u32 \<Rightarrow> u32" where
  "millis_to_ticks freq ms =
     (if freq mod 1000 \<noteq> 0 then
        (if ms \<ge> 0x3E8000 then (ms div 1000) * freq else (ms * freq + 999) div 1000)
      else ms * (freq div 1000))"

definition NutTimerMillisToTicks :: "u32 \<Rightarrow> u32" where
  "NutTimerMillisToTicks ms = millis_to_ticks NUT_TICK_FREQ ms"

definition NutTimerIntr :: "kernel \<Rightarrow> kernel" where
  "NutTimerIntr k =
     (let us = tv_usec k + systick_us k;
          k1 = k\<lparr>nut_ticks := nut_ticks k + 1, tv_usec := us\<rparr>
      in if us \<ge> 1000000 then k1\<lparr>tv_sec := tv_sec k + 1, tv_usec := us - 1000000\<rparr> else k1)"

definition NutGetTickCount :: "kernel \<Rightarrow> u32" where
  "NutGetTickCount k = nut_ticks k"

definition NutGetSeconds :: "kernel \<Rightarrow> u32" where
  "NutGetSeconds k = tv_sec k"

definition NutGetMillis :: "kernel \<Rightarrow> u32" where
  "NutGetMillis k = tv_sec k * 1000 + tv_usec k div 1000"

text \<open>The loop of \<^verbatim>\<open>NutTimerInsert\<close>, which works on the new entry's own fields.\<close>

partial_function (option) insert_walk :: "addr \<Rightarrow> addr \<Rightarrow> kernel \<Rightarrow> (kernel \<times> addr) option" where
  "insert_walk tn tnp k =
     (if tnp = NULL then Some (k, tnp)
      else if tn_ticks_left (tmr k tn) < tn_ticks_left (tmr k tnp) then
        Some (upd_tmr tnp (\<lambda>i. i\<lparr>tn_ticks_left := tn_ticks_left i - tn_ticks_left (tmr k tn)\<rparr>) k, tnp)
      else
        insert_walk tn
          (tn_next (tmr (upd_tmr tn (\<lambda>i. i\<lparr>tn_ticks_left := tn_ticks_left i - tn_ticks_left (tmr k tnp), tn_prev := tnp\<rparr>) k) tnp))
          (upd_tmr tn (\<lambda>i. i\<lparr>tn_ticks_left := tn_ticks_left i - tn_ticks_left (tmr k tnp), tn_prev := tnp\<rparr>) k))"

definition NutTimerInsert :: "addr \<Rightarrow> kernel \<Rightarrow> kernel option" where
  "NutTimerInsert tn k =
     (let k0 = upd_tmr tn (\<lambda>i. i\<lparr>tn_prev := NULL\<rparr>) k in
      case insert_walk tn (nutTimerList k0) k0 of
        None \<Rightarrow> None
      | Some (k1, tnp) \<Rightarrow>
          let k2 = upd_tmr tn (\<lambda>i. i\<lparr>tn_next := tnp\<rparr>) k1;
              nx = tn_next (tmr k2 tn);
              k3 = (if nx \<noteq> NULL then upd_tmr nx (\<lambda>i. i\<lparr>tn_prev := tn\<rparr>) k2 else k2);
              pv = tn_prev (tmr k3 tn)
          in Some (if pv \<noteq> NULL then upd_tmr pv (\<lambda>i. i\<lparr>tn_next := tn\<rparr>) k3
                   else k3\<lparr>nutTimerList := tn\<rparr>))"

definition NutTimerCreate :: "u32 \<Rightarrow> tcallback \<Rightarrow> addr \<Rightarrow> u8 \<Rightarrow> kernel \<Rightarrow> (kernel \<times> addr) option" where
  "NutTimerCreate ticks callback arg flags k =
     (case NutHeapAlloc sizeof_NUTTIMERINFO k of
        None \<Rightarrow> None
      | Some (k1, tn) \<Rightarrow>
          Some (if tn \<noteq> NULL then
                  upd_tmr tn (\<lambda>i. i\<lparr>tn_ticks_left := ticks + NutGetTickCount k1 - nut_ticks_resume k1,
                    tn_ticks := (if flags AND TM_ONESHOT \<noteq> 0 then 0 else ticks),
                    tn_callback := callback, tn_flags := 0, tn_arg := arg\<rparr>) k1
                else k1, tn))"

definition NutTimerStartTicks :: "u32 \<Rightarrow> tcallback \<Rightarrow> addr \<Rightarrow> u8 \<Rightarrow> kernel \<Rightarrow> (kernel \<times> addr) option" where
  "NutTimerStartTicks ticks callback arg flags k =
     (case NutTimerCreate ticks callback arg flags k of
        None \<Rightarrow> None
      | Some (k1, tn) \<Rightarrow>
          (if tn \<noteq> NULL then
             (case NutTimerInsert tn k1 of None \<Rightarrow> None | Some k2 \<Rightarrow> Some (k2, tn))
           else Some (k1, tn)))"

definition NutTimerStart :: "u32 \<Rightarrow> tcallback \<Rightarrow> addr \<Rightarrow> u8 \<Rightarrow> kernel \<Rightarrow> (kernel \<times> addr) option" where
  "NutTimerStart ms callback arg flags k =
     NutTimerStartTicks (NutTimerMillisToTicks ms) callback arg flags k"

text \<open>Taking an entry out of the list, as \<^verbatim>\<open>NutTimerHandleStart\<close> and \<^verbatim>\<open>NutTimerStop\<close> do.\<close>

definition timer_unlink :: "addr \<Rightarrow> kernel \<Rightarrow> kernel" where
  "timer_unlink tn k =
     (let pv = tn_prev (tmr k tn); nx = tn_next (tmr k tn);
          k1 = (if pv \<noteq> NULL then upd_tmr pv (\<lambda>i. i\<lparr>tn_next := nx\<rparr>) k else k\<lparr>nutTimerList := nx\<rparr>)
      in if nx \<noteq> NULL
         then upd_tmr nx (\<lambda>i. i\<lparr>tn_prev := pv, tn_ticks_left := tn_ticks_left i + tn_ticks_left (tmr k1 tn)\<rparr>) k1
         else k1)"

partial_function (option) timer_listed :: "addr \<Rightarrow> addr \<Rightarrow> kernel \<Rightarrow> bool option" where
  "timer_listed tn tnp k =
     (if tnp = NULL then Some False
      else if tnp = tn then Some True
      else timer_listed tn (tn_next (tmr k tnp)) k)"

definition NutTimerHandleStart :: "addr \<Rightarrow> u32 \<Rightarrow> tcallback \<Rightarrow> addr \<Rightarrow> u8 \<Rightarrow> kernel \<Rightarrow> kernel option" where
  "NutTimerHandleStart tn ms callback arg flags k =
     (if tn \<noteq> NULL \<and> callback \<noteq> NoCallback then
        (case timer_listed tn (nutTimerList k) k of
           None \<Rightarrow> None
         | Some listed \<Rightarrow>
             let ticks = NutTimerMillisToTicks ms;
                 k1 = (if listed then timer_unlink tn k else k)
             in NutTimerInsert tn
                  (upd_tmr tn (\<lambda>i. i\<lparr>tn_ticks_left := ticks + NutGetTickCount k1 - nut_ticks_resume k1,
                     tn_ticks := (if flags AND TM_ONESHOT \<noteq> 0 then 0 else ticks),
                     tn_callback := callback, tn_arg := arg,
                     tn_flags := tn_flags i OR TM_HAS_OWN_STRUCT\<rparr>) k1))
      else Some k)"

definition NutTimerStop :: "addr \<Rightarrow> kernel \<Rightarrow> kernel option" where
  "NutTimerStop tn k =
     (let k1 = upd_tmr tn (\<lambda>i. i\<lparr>tn_ticks := 0, tn_callback := NoCallback\<rparr>) k in
      if tn_ticks_left (tmr k1 tn) \<noteq> 0 then
        NutTimerInsert tn (upd_tmr tn (\<lambda>i. i\<lparr>tn_ticks_left := 0\<rparr>) (timer_unlink tn k1))
      else Some k1)"

end
