(* ===== verification/Nut_Timer_List.thy ===== *)
theory Nut_Timer_List
  imports Nut_Timer
begin

text \<open>
  The timer list as a list of pairs of a timer and its difference to the entry before it
  (\<open>timers\<close>), and the differences read as expiry times (\<open>expiry\<close>). Inserting a timer puts it
  behind the timers that expire no later; removing one leaves the expiry of the others as it
  was, because the sum of the differences stays below \<open>2 ^ 32\<close>. The blocks that the kernel
  holds in its heap are tracked by \<open>kheap\<close>, through the contract of the allocator.
\<close>

unbundle bit_operations_syntax

section \<open>The list of timers\<close>

abbreviation hdp :: "(addr \<times> u32) list \<Rightarrow> addr" where
  "hdp ts \<equiv> (case ts of [] \<Rightarrow> NULL | x # _ \<Rightarrow> fst x)"

fun lastp :: "addr \<Rightarrow> (addr \<times> u32) list \<Rightarrow> addr" where
  "lastp pr [] = pr"
| "lastp pr ((t, d) # ts) = lastp t ts"

text \<open>A segment of the list: the entry before it, its first pointer, and where its end points to.\<close>

fun tseg :: "kernel \<Rightarrow> addr \<Rightarrow> addr \<Rightarrow> (addr \<times> u32) list \<Rightarrow> addr \<Rightarrow> bool" where
  "tseg k pr p [] nx \<longleftrightarrow> p = nx"
| "tseg k pr p ((t, d) # ts) nx \<longleftrightarrow> p = t \<and> t \<noteq> NULL \<and> tn_prev (tmr k t) = pr \<and>
     tn_ticks_left (tmr k t) = d \<and> tseg k t (tn_next (tmr k t)) ts nx"

fun expiry :: "nat \<Rightarrow> (addr \<times> u32) list \<Rightarrow> (addr \<times> nat) list" where
  "expiry n [] = []"
| "expiry n ((t, d) # ts) = (t, n + unat d) # expiry (n + unat d) ts"

definition timers :: "kernel \<Rightarrow> (addr \<times> u32) list \<Rightarrow> bool" where
  "timers k ts \<longleftrightarrow> tseg k NULL (nutTimerList k) ts NULL \<and> distinct (map fst ts) \<and>
     (\<forall>(t, e) \<in> set (expiry 0 ts). e < 4294967296)"

text \<open>A state that differs from another only in its timers.\<close>

definition only_timers :: "kernel \<Rightarrow> kernel \<Rightarrow> bool" where
  "only_timers k' k \<longleftrightarrow> k' = k\<lparr>tmr := tmr k', nutTimerList := nutTimerList k'\<rparr>"

lemma only_timers_upd [simp]:
  "only_timers k k" "only_timers (upd_tmr t f k') k \<longleftrightarrow> only_timers k' k"
  "only_timers (k'\<lparr>nutTimerList := p\<rparr>) k \<longleftrightarrow> only_timers k' k"
  by (cases k'; cases k; simp add: only_timers_def upd_tmr_def)+

lemma only_timers_trans: "only_timers k'' k' \<Longrightarrow> only_timers k' k \<Longrightarrow> only_timers k'' k"
  by (cases k''; cases k'; cases k; simp add: only_timers_def)

lemma only_timersD:
  assumes "only_timers k' k"
  shows "thr k' = thr k" "queue k' = queue k" "runningThread k' = runningThread k"
    "killedThread k' = killedThread k" "nutThreadList k' = nutThreadList k"
    "total_pending k' = total_pending k" "nut_ticks k' = nut_ticks k"
    "nut_ticks_resume k' = nut_ticks_resume k" "tv_sec k' = tv_sec k" "tv_usec k' = tv_usec k"
    "systick_us k' = systick_us k" "hmem k' = hmem k" "mem_guard k' = mem_guard k" "msgq k' = msgq k"
    "msgtmr k' = msgtmr k" "nutMsgQue k' = nutMsgQue k" "nutMsgFreeTimers k' = nutMsgFreeTimers k"
  by (subst assms [unfolded only_timers_def], simp)+

lemma tseg_append:
  "tseg k pr p (as @ bs) nx \<longleftrightarrow> (\<exists>m. tseg k pr p as m \<and> tseg k (lastp pr as) m bs nx)"
  by (induction as arbitrary: pr p) auto

lemma tseg_hdp: "tseg k pr p ts NULL \<Longrightarrow> p = hdp ts"
  by (cases ts) auto

lemma tseg_split:
  "tseg k pr p (as @ bs) NULL \<longleftrightarrow> tseg k pr p as (hdp bs) \<and> tseg k (lastp pr as) (hdp bs) bs NULL"
  using tseg_append [of k pr p as bs NULL] tseg_hdp by metis

lemma tseg_null: "tseg k pr p ts nx \<Longrightarrow> NULL \<notin> fst ` set ts"
proof (induction ts arbitrary: pr p)
  case (Cons a ts)
  then show ?case using Cons.IH [of "fst a" "tn_next (tmr k (fst a))"] by (cases a) auto
qed simp

lemma tseg_left: "tseg k pr p ts nx \<Longrightarrow> (t, d) \<in> set ts \<Longrightarrow> tn_ticks_left (tmr k t) = d"
  by (induction ts arbitrary: pr p) auto

lemma tseg_frame:
  "(\<And>x. x \<in> fst ` set ts \<Longrightarrow> tn_prev (tmr k' x) = tn_prev (tmr k x) \<and> tn_next (tmr k' x) = tn_next (tmr k x)
      \<and> tn_ticks_left (tmr k' x) = tn_ticks_left (tmr k x))
   \<Longrightarrow> tseg k' pr p ts nx = tseg k pr p ts nx"
  by (induction ts arbitrary: pr p) auto

lemma tseg_upd_other [simp]: "t \<notin> fst ` set ts \<Longrightarrow> tseg (upd_tmr t f k) pr p ts nx = tseg k pr p ts nx"
  by (rule tseg_frame) auto

lemma lastp_eq: "lastp pr as = (if as = [] then pr else fst (last as))"
  by (induction as arbitrary: pr) auto

lemma tseg_relink:
  assumes "tseg k pr p as m" and "distinct (map fst as)"
    and "\<And>x. x \<in> fst ` set as \<Longrightarrow> tn_prev (tmr k' x) = tn_prev (tmr k x) \<and> tn_ticks_left (tmr k' x) = tn_ticks_left (tmr k x)
      \<and> tn_next (tmr k' x) = (if x = lastp pr as then m' else tn_next (tmr k x))"
  shows "tseg k' pr (if as = [] then m' else p) as m'"
  using assms
proof (induction as arbitrary: pr p)
  case Nil
  then show ?case by simp
next
  case (Cons a as)
  obtain t d where a: "a = (t, d)" by (cases a)
  have IH: "tseg k' t (if as = [] then m' else tn_next (tmr k t)) as m'"
  proof (rule Cons.IH)
    show "tseg k t (tn_next (tmr k t)) as m" "distinct (map fst as)" using Cons.prems(1,2) a by auto
    show "tn_prev (tmr k' x) = tn_prev (tmr k x) \<and> tn_ticks_left (tmr k' x) = tn_ticks_left (tmr k x)
        \<and> tn_next (tmr k' x) = (if x = lastp t as then m' else tn_next (tmr k x))" if "x \<in> fst ` set as" for x
      using Cons.prems(3) [of x] that a by auto
  qed
  have l: "lastp t as = t \<longleftrightarrow> as = []"
    using Cons.prems(2) a by (auto simp: lastp_eq dest: last_in_set intro!: rev_image_eqI)
  have "tn_next (tmr k' t) = (if as = [] then m' else tn_next (tmr k t))"
    using Cons.prems(3) [of t] a l by auto
  then show ?case using IH Cons.prems(1) Cons.prems(3) [of t] a by auto
qed

text \<open>The differences at which a new entry is inserted.\<close>

fun delta_split :: "u32 \<Rightarrow> (addr \<times> u32) list \<Rightarrow> (addr \<times> u32) list \<times> u32 \<times> (addr \<times> u32) list" where
  "delta_split d [] = ([], d, [])"
| "delta_split d ((u, e) # ts) =
     (if d < e then ([], d, (u, e) # ts)
      else case delta_split (d - e) ts of (as, d', bs) \<Rightarrow> ((u, e) # as, d', bs))"

definition shorten :: "u32 \<Rightarrow> (addr \<times> u32) list \<Rightarrow> (addr \<times> u32) list" where
  "shorten d bs = (case bs of [] \<Rightarrow> [] | (u, e) # r \<Rightarrow> (u, e - d) # r)"

definition delta_insert :: "addr \<Rightarrow> u32 \<Rightarrow> (addr \<times> u32) list \<Rightarrow> (addr \<times> u32) list" where
  "delta_insert t d ts = (case delta_split d ts of (as, d', bs) \<Rightarrow> as @ (t, d') # shorten d' bs)"

lemma delta_split_append: "delta_split d ts = (as, d', bs) \<Longrightarrow> ts = as @ bs"
  by (induction d ts arbitrary: as rule: delta_split.induct) (auto split: if_splits prod.splits)

lemma insert_walk_spec:
  assumes "tseg k pr p ts NULL" and "tn \<notin> fst ` set ts" and "tn_ticks_left (tmr k tn) = d"
    and "delta_split d ts = (as, d', bs)"
  obtains k' where "insert_walk tn p k = Some (k', hdp bs)" "\<And>x. tmr k' x =
     (if x = tn then (tmr k tn)\<lparr>tn_prev := lastp (tn_prev (tmr k tn)) as, tn_ticks_left := d'\<rparr>
      else if bs \<noteq> [] \<and> x = hdp bs then (tmr k x)\<lparr>tn_ticks_left := tn_ticks_left (tmr k x) - d'\<rparr>
      else tmr k x)" "only_timers k' k" "nutTimerList k' = nutTimerList k"
  using assms
proof (induction ts arbitrary: k pr p d as thesis)
  case Nil
  then show ?case by (auto simp: insert_walk.simps intro!: Nil(1) [of k])
next
  case (Cons a ts)
  obtain u e where a: "a = (u, e)" by (cases a)
  have p: "p = u" "u \<noteq> NULL" "tn_ticks_left (tmr k u) = e" "u \<noteq> tn" "tn \<notin> fst ` set ts"
    "tseg k u (tn_next (tmr k u)) ts NULL"
    using Cons.prems(2,3) a by auto
  show ?case
  proof (cases "d < e")
    case True
    then have "as = []" "d' = d" "bs = a # ts" using Cons.prems(5) a by auto
    moreover have "insert_walk tn p k = Some (upd_tmr u (\<lambda>i. i\<lparr>tn_ticks_left := tn_ticks_left i - d\<rparr>) k, u)"
      using p True Cons.prems(4) by (subst insert_walk.simps) simp
    ultimately show ?thesis
      using p a Cons.prems(4) by (intro Cons.prems(1)) (assumption | simp)+
  next
    case False
    obtain as' where sp: "delta_split (d - e) ts = (as', d', bs)" "as = (u, e) # as'"
      using Cons.prems(5) a False by (auto split: prod.splits)
    let ?k = "upd_tmr tn (\<lambda>i. i\<lparr>tn_ticks_left := tn_ticks_left i - e, tn_prev := u\<rparr>) k"
    have w: "insert_walk tn p k = insert_walk tn (tn_next (tmr k u)) ?k"
      using p False Cons.prems(4) by (subst insert_walk.simps) simp
    have seg: "tseg ?k u (tn_next (tmr k u)) ts NULL"
      using p(5,6) by simp
    have lft: "tn_ticks_left (tmr ?k tn) = d - e" using Cons.prems(4) by simp
    obtain k' where k': "insert_walk tn (tn_next (tmr k u)) ?k = Some (k', hdp bs)"
      "\<And>x. tmr k' x =
        (if x = tn then (tmr ?k tn)\<lparr>tn_prev := lastp (tn_prev (tmr ?k tn)) as', tn_ticks_left := d'\<rparr>
         else if bs \<noteq> [] \<and> x = hdp bs then (tmr ?k x)\<lparr>tn_ticks_left := tn_ticks_left (tmr ?k x) - d'\<rparr>
         else tmr ?k x)" "only_timers k' ?k" "nutTimerList k' = nutTimerList ?k"
      by (rule Cons.IH [OF _ seg p(5) lft sp(1)]) blast
    show ?thesis
    proof (rule Cons.prems(1))
      show "insert_walk tn p k = Some (k', hdp bs)" using w k'(1) by simp
      show "tmr k' x = (if x = tn then (tmr k tn)\<lparr>tn_prev := lastp (tn_prev (tmr k tn)) as, tn_ticks_left := d'\<rparr>
          else if bs \<noteq> [] \<and> x = hdp bs then (tmr k x)\<lparr>tn_ticks_left := tn_ticks_left (tmr k x) - d'\<rparr>
          else tmr k x)" for x
        using k'(2) [of x] sp(2) by simp
      show "only_timers k' k" using only_timers_trans [OF k'(3), of k] by simp
      show "nutTimerList k' = nutTimerList k" using k'(4) by simp
    qed
  qed
qed

lemma unat_diff_le: "(d::u32) \<le> e \<Longrightarrow> unat (e - d) = unat e - unat d"
  by (rule unat_sub)

lemma expiry_append: "expiry n (as @ bs) = expiry n as @ expiry (n + sum_list (map (unat \<circ> snd) as)) bs"
  by (induction as arbitrary: n) (auto simp: add.assoc)

lemma expiry_fst [simp]: "map fst (expiry n ts) = map fst ts"
  by (induction n ts rule: expiry.induct) auto

lemma expiry_fst_set [simp]: "fst ` set (expiry n ts) = fst ` set ts"
  by (simp only: set_map [symmetric] expiry_fst)

lemma expiry_ge: "(t, e) \<in> set (expiry n ts) \<Longrightarrow> n \<le> e"
  by (induction n ts rule: expiry.induct) (auto dest: order.trans)

lemma expiry_sorted: "sorted (map snd (expiry n ts))"
  by (induction n ts rule: expiry.induct) (auto dest: expiry_ge)

lemma delta_insert_Nil [simp]: "delta_insert t d [] = [(t, d)]"
  by (simp add: delta_insert_def shorten_def)

lemma delta_insert_Cons:
  "delta_insert t d ((u, e) # ts) = (if d < e then (t, d) # (u, e - d) # ts else (u, e) # delta_insert t (d - e) ts)"
  by (simp add: delta_insert_def shorten_def split: prod.splits)

lemma expiry_insert: "expiry n (delta_insert t d ts) = rank_insert snd (t, n + unat d) (expiry n ts)"
proof (induction ts arbitrary: n d)
  case Nil
  then show ?case by (simp add: rank_insert_def)
next
  case (Cons a ts)
  obtain u e where a: "a = (u, e)" by (cases a)
  show ?case
  proof (cases "d < e")
    case True
    then have "unat (e - d) = unat e - unat d" "unat d < unat e" using unat_diff_le [of d e] by (simp_all add: word_less_nat_alt word_le_nat_alt)
    then show ?thesis using True a by (simp add: delta_insert_Cons rank_insert_def)
  next
    case False
    then have "unat (d - e) = unat d - unat e" "unat e \<le> unat d"
      using unat_diff_le [of e d] by (simp_all add: word_less_nat_alt word_le_nat_alt)
    then show ?thesis using False a Cons.IH [of "n + unat e" "d - e"] by (simp add: delta_insert_Cons rank_insert_def)
  qed
qed

lemma delta_insert_fst [simp]: "fst ` set (delta_insert t d ts) = insert t (fst ` set ts)"
proof -
  have "fst ` set ys = set (map fst ys)" for ys :: "(addr \<times> u32) list" by simp
  moreover have "set (map fst (expiry 0 (delta_insert t d ts))) = insert t (set (map fst (expiry 0 ts)))"
    unfolding expiry_insert by auto
  ultimately show ?thesis by simp
qed

lemma rank_insert_distinct_fst:
  "fst x \<notin> fst ` set ys \<Longrightarrow> distinct (map fst ys) \<Longrightarrow> distinct (map fst (rank_insert r x ys))"
proof -
  assume d: "fst x \<notin> fst ` set ys" "distinct (map fst ys)"
  have sp: "takeWhile (\<lambda>u. r u \<le> r x) ys @ dropWhile (\<lambda>u. r u \<le> r x) ys = ys" by simp
  have "distinct (map fst (takeWhile (\<lambda>u. r u \<le> r x) ys @ dropWhile (\<lambda>u. r u \<le> r x) ys))"
    and "fst x \<notin> fst ` set (takeWhile (\<lambda>u. r u \<le> r x) ys @ dropWhile (\<lambda>u. r u \<le> r x) ys)"
    using d unfolding sp by simp_all
  then show ?thesis unfolding rank_insert_def by (auto simp del: takeWhile_dropWhile_id)
qed

lemma delta_insert_distinct:
  "t \<notin> fst ` set ts \<Longrightarrow> distinct (map fst ts) \<Longrightarrow> distinct (map fst (delta_insert t d ts))"
proof -
  assume d: "t \<notin> fst ` set ts" "distinct (map fst ts)"
  have "fst (t, 0 + unat d) \<notin> set (map fst (expiry 0 ts))" using d(1) by simp
  then have "distinct (map fst (expiry 0 (delta_insert t d ts)))"
    unfolding expiry_insert using d(2) by (intro rank_insert_distinct_fst) simp_all
  then show ?thesis by simp
qed

lemma delta_insert_bound:
  "\<forall>(t, e) \<in> set (expiry 0 ts). e < 4294967296 \<Longrightarrow> \<forall>(t, e) \<in> set (expiry 0 (delta_insert tn d ts)). e < 4294967296"
  using unsigned_less [of d] unfolding expiry_insert by auto

text \<open>The fields of a timer that list operations leave alone.\<close>

definition tn_core :: "NUTTIMERINFO \<Rightarrow> NUTTIMERINFO" where
  "tn_core i = i\<lparr>tn_next := 0, tn_prev := 0, tn_ticks_left := 0\<rparr>"

lemma tn_core_upd [simp]:
  "tn_core (i\<lparr>tn_next := a\<rparr>) = tn_core i" "tn_core (i\<lparr>tn_prev := a\<rparr>) = tn_core i"
  "tn_core (i\<lparr>tn_ticks_left := d\<rparr>) = tn_core i"
  by (simp_all add: tn_core_def)

lemma tn_core_eqD:
  "tn_core i = tn_core j \<Longrightarrow> tn_ticks i = tn_ticks j \<and> tn_flags i = tn_flags j \<and> tn_callback i = tn_callback j
     \<and> tn_arg i = tn_arg j"
  by (cases i; cases j) (simp add: tn_core_def)

definition insert_tmr :: "kernel \<Rightarrow> addr \<Rightarrow> (addr \<times> u32) list \<Rightarrow> u32 \<Rightarrow> (addr \<times> u32) list \<Rightarrow> addr \<Rightarrow> NUTTIMERINFO" where
  "insert_tmr k tn as d' bs x =
     (if x = tn then (tmr k tn)\<lparr>tn_prev := lastp NULL as, tn_ticks_left := d', tn_next := hdp bs\<rparr>
      else if bs \<noteq> [] \<and> x = hdp bs
        then (tmr k x)\<lparr>tn_ticks_left := tn_ticks_left (tmr k x) - d', tn_prev := tn\<rparr>
      else if as \<noteq> [] \<and> x = lastp NULL as then (tmr k x)\<lparr>tn_next := tn\<rparr>
      else tmr k x)"

lemma timer_insert_tmr:
  assumes seg: "tseg k NULL (nutTimerList k) ts NULL" and d: "distinct (map fst ts)"
    and tn: "tn \<notin> fst ` set ts" "tn \<noteq> NULL" and sp: "delta_split (tn_ticks_left (tmr k tn)) ts = (as, d', bs)"
  obtains k' where "NutTimerInsert tn k = Some k'" "\<And>x. tmr k' x = insert_tmr k tn as d' bs x"
    "nutTimerList k' = (if as = [] then tn else nutTimerList k)"
    "only_timers k' k"
proof -
  let ?k0 = "upd_tmr tn (\<lambda>i. i\<lparr>tn_prev := NULL\<rparr>) k"
  have ts: "ts = as @ bs" using delta_split_append [OF sp] .
  have seg0: "tseg ?k0 NULL (nutTimerList ?k0) ts NULL" using seg tn(1) by simp
  have left0: "tn_ticks_left (tmr ?k0 tn) = tn_ticks_left (tmr k tn)" by simp
  obtain k1 where w: "insert_walk tn (nutTimerList ?k0) ?k0 = Some (k1, hdp bs)"
    and t1: "\<And>x. tmr k1 x = (if x = tn then (tmr ?k0 tn)\<lparr>tn_prev := lastp (tn_prev (tmr ?k0 tn)) as, tn_ticks_left := d'\<rparr>
      else if bs \<noteq> [] \<and> x = hdp bs then (tmr ?k0 x)\<lparr>tn_ticks_left := tn_ticks_left (tmr ?k0 x) - d'\<rparr>
      else tmr ?k0 x)" and r1: "only_timers k1 ?k0" "nutTimerList k1 = nutTimerList ?k0"
    by (rule insert_walk_spec [OF seg0 tn(1) left0 sp]) blast
  have L1: "nutTimerList k1 = nutTimerList k" and O1: "only_timers k1 k"
    using r1(2) only_timers_trans [OF r1(1), of k] by simp_all
  have bs: "bs \<noteq> [] \<Longrightarrow> hdp bs \<noteq> tn \<and> hdp bs \<noteq> NULL" "bs = [] \<longleftrightarrow> hdp bs = NULL"
    using tn tseg_null [OF seg] ts by (cases bs; auto)+
  have as: "as \<noteq> [] \<Longrightarrow> lastp NULL as \<noteq> tn \<and> lastp NULL as \<noteq> NULL \<and> (bs \<noteq> [] \<longrightarrow> lastp NULL as \<noteq> hdp bs)"
  proof -
    assume "as \<noteq> []"
    then have l: "lastp NULL as \<in> fst ` set as" by (auto simp: lastp_eq)
    moreover have "bs \<noteq> [] \<Longrightarrow> hdp bs \<in> fst ` set bs" by (cases bs) auto
    moreover have "tn \<notin> fst ` set as" "NULL \<notin> fst ` set as" "fst ` set as \<inter> fst ` set bs = {}"
      using tn tseg_null [OF seg] d ts by auto
    ultimately show ?thesis by (metis disjoint_iff)
  qed
  let ?k2 = "upd_tmr tn (\<lambda>i. i\<lparr>tn_next := hdp bs\<rparr>) k1"
  let ?k3 = "if hdp bs \<noteq> NULL then upd_tmr (hdp bs) (\<lambda>i. i\<lparr>tn_prev := tn\<rparr>) ?k2 else ?k2"
  let ?k4 = "if as \<noteq> [] then upd_tmr (lastp NULL as) (\<lambda>i. i\<lparr>tn_next := tn\<rparr>) ?k3 else ?k3\<lparr>nutTimerList := tn\<rparr>"
  have nx: "tn_next (tmr ?k2 tn) = hdp bs" by simp
  have pv: "tn_prev (tmr ?k3 tn) = lastp NULL as" using bs t1 by auto
  have c: "(lastp NULL as \<noteq> NULL) = (as \<noteq> [])" using as by (cases as) auto
  have run: "NutTimerInsert tn k = Some ?k4"
    using w unfolding NutTimerInsert_def Let_def by (simp only: option.case prod.case nx pv c)
  show thesis
  proof (rule that [OF run])
    show "tmr ?k4 x = insert_tmr k tn as d' bs x" for x
      using as bs by (cases "as = []"; cases "bs = []") (simp_all add: t1 insert_tmr_def)
    show "nutTimerList ?k4 = (if as = [] then tn else nutTimerList k)" using L1 by simp
    show "only_timers ?k4 k" using O1 by simp
  qed
qed

lemma timersD:
  assumes "timers k ts"
  shows "tseg k NULL (nutTimerList k) ts NULL" "distinct (map fst ts)" "NULL \<notin> fst ` set ts"
    "\<forall>(t, e) \<in> set (expiry 0 ts). e < 4294967296" "\<And>t d. (t, d) \<in> set ts \<Longrightarrow> tn_ticks_left (tmr k t) = d"
  using assms tseg_null [of k NULL "nutTimerList k" ts NULL] tseg_left [of k NULL "nutTimerList k" ts NULL]
  by (auto simp: timers_def)

lemma timers_frame:
  assumes "timers k ts" and "nutTimerList k' = nutTimerList k"
    and "\<And>x. x \<in> fst ` set ts \<Longrightarrow> tn_prev (tmr k' x) = tn_prev (tmr k x) \<and> tn_next (tmr k' x) = tn_next (tmr k x)
      \<and> tn_ticks_left (tmr k' x) = tn_ticks_left (tmr k x)"
  shows "timers k' ts"
  using assms tseg_frame [OF assms(3), of ts] by (simp add: timers_def)

lemma timer_insert_spec:
  assumes T: "timers k ts" and tn: "tn \<notin> fst ` set ts" "tn \<noteq> NULL"
  obtains k' where "NutTimerInsert tn k = Some k'" "timers k' (delta_insert tn (tn_ticks_left (tmr k tn)) ts)"
    "only_timers k' k" "\<And>x. tn_core (tmr k' x) = tn_core (tmr k x)"
    "\<And>x. x \<notin> insert tn (fst ` set ts) \<Longrightarrow> tmr k' x = tmr k x"
proof -
  note seg = timersD(1) [OF T]
  obtain as d' bs where sp: "delta_split (tn_ticks_left (tmr k tn)) ts = (as, d', bs)" by (metis prod_cases3)
  have ts: "ts = as @ bs" using delta_split_append [OF sp] .
  obtain k' where run: "NutTimerInsert tn k = Some k'" and tm: "\<And>x. tmr k' x = insert_tmr k tn as d' bs x"
    and L: "nutTimerList k' = (if as = [] then tn else nutTimerList k)" and O: "only_timers k' k"
    by (rule timer_insert_tmr [OF seg timersD(2) [OF T] tn sp]) blast
  have d: "distinct (map fst as)" "distinct (map fst bs)" "fst ` set as \<inter> fst ` set bs = {}"
    "tn \<notin> fst ` set as" "tn \<notin> fst ` set bs"
    using timersD(2) [OF T] tn ts by auto
  have s: "tseg k NULL (nutTimerList k) as (hdp bs)" "tseg k (lastp NULL as) (hdp bs) bs NULL"
    using seg ts tseg_split by auto
  have hb: "bs \<noteq> [] \<Longrightarrow> hdp bs \<in> fst ` set bs" by (cases bs) auto
  have sa: "tseg k' NULL (if as = [] then tn else nutTimerList k) as tn"
  proof (rule tseg_relink [OF s(1) d(1)])
    show "tn_prev (tmr k' x) = tn_prev (tmr k x) \<and> tn_ticks_left (tmr k' x) = tn_ticks_left (tmr k x) \<and>
      tn_next (tmr k' x) = (if x = lastp NULL as then tn else tn_next (tmr k x))" if "x \<in> fst ` set as" for x
    proof -
      have "x \<noteq> tn" "as \<noteq> []" using that d(4) by auto
      moreover have "bs \<noteq> [] \<Longrightarrow> x \<noteq> hdp bs" using that d(3) hb by blast
      ultimately show ?thesis by (auto simp: tm insert_tmr_def)
    qed
  qed
  have sb: "tseg k' tn (hdp bs) (shorten d' bs) NULL"
  proof (cases bs)
    case Nil
    then show ?thesis by (simp add: shorten_def)
  next
    case (Cons b r)
    obtain u e where b: "b = (u, e)" by (cases b)
    have u: "u \<noteq> tn" "u \<notin> fst ` set r" "u \<notin> fst ` set as" "tn_ticks_left (tmr k u) = e" "u \<noteq> NULL"
      "tseg k u (tn_next (tmr k u)) r NULL" using d s(2) Cons b by auto
    have ru: "tmr k' x = tmr k x" if "x \<in> fst ` set r" for x
    proof -
      have "as \<noteq> [] \<Longrightarrow> lastp NULL as \<in> fst ` set as" by (auto simp: lastp_eq)
      moreover have xb: "x \<in> fst ` set bs" using that Cons by auto
      ultimately have "as \<noteq> [] \<Longrightarrow> x \<noteq> lastp NULL as" using d(3) by blast
      moreover have "x \<noteq> tn" "x \<noteq> u" using that d(5) u(2) xb by blast+
      ultimately show ?thesis using Cons b by (auto simp: tm insert_tmr_def)
    qed
    have "tseg k' u (tn_next (tmr k u)) r NULL = tseg k u (tn_next (tmr k u)) r NULL"
      by (rule tseg_frame) (simp add: ru)
    moreover have "tmr k' u = (tmr k u)\<lparr>tn_ticks_left := e - d', tn_prev := tn\<rparr>"
      using u Cons b by (simp add: tm insert_tmr_def)
    ultimately show ?thesis using u Cons b by (simp add: shorten_def)
  qed
  have "tmr k' tn = (tmr k tn)\<lparr>tn_prev := lastp NULL as, tn_ticks_left := d', tn_next := hdp bs\<rparr>"
    by (simp add: tm insert_tmr_def)
  then have "tseg k' (lastp NULL as) tn ((tn, d') # shorten d' bs) NULL" using sb tn(2) by simp
  then have "tseg k' NULL (nutTimerList k') (delta_insert tn (tn_ticks_left (tmr k tn)) ts) NULL"
    using sa L sp by (auto simp: delta_insert_def tseg_append)
  then have "timers k' (delta_insert tn (tn_ticks_left (tmr k tn)) ts)"
    using delta_insert_distinct [OF tn(1) timersD(2) [OF T]] delta_insert_bound [OF timersD(4) [OF T]]
    by (simp only: timers_def simp_thms)
  moreover have "tn_core (tmr k' x) = tn_core (tmr k x)" for x by (simp add: tm insert_tmr_def)
  moreover have "tmr k' x = tmr k x" if "x \<notin> insert tn (fst ` set ts)" for x
  proof -
    have "as \<noteq> [] \<Longrightarrow> lastp NULL as \<in> fst ` set ts" "bs \<noteq> [] \<Longrightarrow> hdp bs \<in> fst ` set ts"
      using hb ts by (auto simp: lastp_eq)
    then show ?thesis using that by (auto simp: tm insert_tmr_def)
  qed
  ultimately show thesis using that [OF run _ O] by blast
qed

text \<open>Removing an entry adds its difference to the next one.\<close>

definition lengthen :: "u32 \<Rightarrow> (addr \<times> u32) list \<Rightarrow> (addr \<times> u32) list" where
  "lengthen d bs = (case bs of [] \<Rightarrow> [] | (u, e) # r \<Rightarrow> (u, e + d) # r)"

fun delta_remove :: "addr \<Rightarrow> (addr \<times> u32) list \<Rightarrow> (addr \<times> u32) list" where
  "delta_remove t [] = []"
| "delta_remove t ((u, d) # ts) = (if u = t then lengthen d ts else (u, d) # delta_remove t ts)"

lemma delta_remove_split: "t \<notin> fst ` set as \<Longrightarrow> delta_remove t (as @ (t, d) # bs) = as @ lengthen d bs"
  by (induction as) auto

lemma lengthen_fst [simp]: "map fst (lengthen d bs) = map fst bs"
  by (simp add: lengthen_def split: list.splits prod.splits)

lemma lengthen_hdp [simp]: "hdp (lengthen d bs) = hdp bs"
  by (simp add: lengthen_def split: list.splits prod.splits)

lemma unat_add_exact: "unat (a::u32) + unat b < 4294967296 \<Longrightarrow> unat (a + b) = unat a + unat b"
  using unat_add_lem [of a b] by simp

lemma expiry_lengthen:
  assumes "\<forall>(t, e) \<in> set (expiry (n + unat d) bs). e < 4294967296"
  shows "expiry n (lengthen d bs) = expiry (n + unat d) bs"
proof (cases bs)
  case (Cons b r)
  obtain u e where b: "b = (u, e)" by (cases b)
  have "unat e + unat d < 4294967296" using assms Cons b by auto
  then show ?thesis using Cons b unat_add_exact [of e d] by (simp add: lengthen_def ac_simps)
qed (simp add: lengthen_def)

lemma filter_expiry_id: "t \<notin> fst ` set ts \<Longrightarrow> filter (\<lambda>p. fst p \<noteq> t) (expiry n ts) = expiry n ts"
proof -
  assume "t \<notin> fst ` set ts"
  then have "t \<notin> fst ` set (expiry n ts)" by simp
  then have "\<forall>p \<in> set (expiry n ts). fst p \<noteq> t" by (metis imageI)
  then show ?thesis by (simp only: filter_id_conv)
qed

lemma expiry_remove:
  assumes "t \<in> fst ` set ts" and "distinct (map fst ts)" and "\<forall>(t, e) \<in> set (expiry n ts). e < 4294967296"
  shows "expiry n (delta_remove t ts) = filter (\<lambda>p. fst p \<noteq> t) (expiry n ts)"
  using assms
proof (induction ts arbitrary: n)
  case (Cons a ts)
  obtain u d where a: "a = (u, d)" by (cases a)
  show ?case
  proof (cases "u = t")
    case True
    then show ?thesis using Cons.prems a expiry_lengthen [of n d ts] filter_expiry_id [of t ts] by simp
  next
    case False
    then show ?thesis using Cons.IH [of "n + unat d"] Cons.prems a by auto
  qed
qed simp

lemma timer_unlink_spec:
  assumes T: "timers k ts" and tn: "tn \<in> fst ` set ts"
  shows "timers (timer_unlink tn k) (delta_remove tn ts)" and "only_timers (timer_unlink tn k) k"
    and "tn_core (tmr (timer_unlink tn k) x) = tn_core (tmr k x)"
    and "x \<notin> fst ` set ts - {tn} \<Longrightarrow> tmr (timer_unlink tn k) x = tmr k x"
proof -
  obtain as d bs where ts: "ts = as @ (tn, d) # bs" and na: "tn \<notin> fst ` set as"
  proof -
    obtain d where "(tn, d) \<in> set ts" using tn by auto
    then obtain as bs where ts: "ts = as @ (tn, d) # bs" by (meson split_list)
    then have "tn \<notin> fst ` set as" using timersD(2) [OF T] by auto
    then show thesis using that ts by blast
  qed
  have dis: "distinct (map fst as)" "fst ` set as \<inter> fst ` set bs = {}" "tn \<notin> fst ` set bs" "distinct (map fst bs)"
    using timersD(2) [OF T] ts by auto
  have s: "tseg k NULL (nutTimerList k) as tn" "tseg k (lastp NULL as) tn ((tn, d) # bs) NULL"
    using timersD(1) [OF T] unfolding ts tseg_split by simp_all
  have pv: "tn_prev (tmr k tn) = lastp NULL as" and nx: "tn_next (tmr k tn) = hdp bs"
    and dl: "tn_ticks_left (tmr k tn) = d" and sb: "tseg k tn (hdp bs) bs NULL"
    using s(2) tseg_hdp by auto
  have la: "as \<noteq> [] \<Longrightarrow> lastp NULL as \<in> fst ` set as" by (auto simp: lastp_eq)
  have hb: "bs \<noteq> [] \<Longrightarrow> hdp bs \<in> fst ` set bs" by (cases bs) auto
  have nn: "NULL \<notin> fst ` set as" "NULL \<notin> fst ` set bs" "tn \<noteq> NULL" using timersD(3) [OF T] ts by auto
  have c: "lastp NULL as \<noteq> NULL \<longleftrightarrow> as \<noteq> []" "hdp bs \<noteq> NULL \<longleftrightarrow> bs \<noteq> []"
    using la nn(1) hb nn(2) by (metis lastp.simps(1)) (use hb nn(2) in \<open>cases bs; auto\<close>)
  let ?k = "timer_unlink tn k"
  have tm: "tmr ?k x = (if bs \<noteq> [] \<and> x = hdp bs then (tmr k x)\<lparr>tn_prev := lastp NULL as, tn_ticks_left := tn_ticks_left (tmr k x) + d\<rparr>
      else if as \<noteq> [] \<and> x = lastp NULL as then (tmr k x)\<lparr>tn_next := hdp bs\<rparr> else tmr k x)" for x
  proof -
    have "as \<noteq> [] \<Longrightarrow> bs \<noteq> [] \<Longrightarrow> hdp bs \<noteq> lastp NULL as" "as \<noteq> [] \<Longrightarrow> lastp NULL as \<noteq> tn"
      using la hb dis(2) na by (metis disjoint_iff)+
    then show ?thesis
      using dl c unfolding timer_unlink_def Let_def pv nx by (cases "as = []"; cases "bs = []") simp_all
  qed
  have L: "nutTimerList ?k = (if as = [] then hdp bs else nutTimerList k)"
    using c unfolding timer_unlink_def Let_def pv nx by auto
  have sa: "tseg ?k NULL (if as = [] then hdp bs else nutTimerList k) as (hdp bs)"
  proof (rule tseg_relink [OF s(1) dis(1)])
    show "tn_prev (tmr ?k x) = tn_prev (tmr k x) \<and> tn_ticks_left (tmr ?k x) = tn_ticks_left (tmr k x) \<and>
      tn_next (tmr ?k x) = (if x = lastp NULL as then hdp bs else tn_next (tmr k x))" if "x \<in> fst ` set as" for x
    proof -
      have "bs \<noteq> [] \<Longrightarrow> x \<noteq> hdp bs" "as \<noteq> []" using that dis(2) hb by (blast, auto)
      then show ?thesis by (auto simp: tm)
    qed
  qed
  have sl: "tseg ?k (lastp NULL as) (hdp bs) (lengthen d bs) NULL"
  proof (cases bs)
    case Nil
    then show ?thesis by (simp add: lengthen_def)
  next
    case (Cons b r)
    obtain u e where b: "b = (u, e)" by (cases b)
    have u: "u \<notin> fst ` set r" "tn_ticks_left (tmr k u) = e" "u \<noteq> NULL" "tseg k u (tn_next (tmr k u)) r NULL"
      using dis sb Cons b by auto
    have ru: "tmr ?k x = tmr k x" if "x \<in> fst ` set r" for x
    proof -
      have "x \<in> fst ` set bs" using that Cons by auto
      then have "as \<noteq> [] \<Longrightarrow> x \<noteq> lastp NULL as" "x \<noteq> u" using that dis(2) la u(1) by blast+
      then show ?thesis using Cons b by (auto simp: tm)
    qed
    have "tseg ?k u (tn_next (tmr k u)) r NULL = tseg k u (tn_next (tmr k u)) r NULL"
      by (rule tseg_frame) (simp add: ru)
    moreover have "tmr ?k u = (tmr k u)\<lparr>tn_prev := lastp NULL as, tn_ticks_left := e + d\<rparr>"
      using u Cons b by (simp add: tm)
    ultimately show ?thesis using u Cons b by (simp add: lengthen_def)
  qed
  have rm: "delta_remove tn ts = as @ lengthen d bs" using ts delta_remove_split na by simp
  have seg: "tseg ?k NULL (nutTimerList ?k) (as @ lengthen d bs) NULL" using sa sl L by (auto simp: tseg_append)
  have "distinct (map fst (as @ lengthen d bs))" using timersD(2) [OF T] ts by simp
  moreover have "\<forall>(t, e) \<in> set (expiry 0 (delta_remove tn ts)). e < 4294967296"
    unfolding expiry_remove [OF tn timersD(2,4) [OF T]] using timersD(4) [OF T] by auto
  ultimately show "timers ?k (delta_remove tn ts)"
    using seg unfolding rm timers_def by blast
  show "only_timers ?k k" by (simp add: timer_unlink_def Let_def)
  show "tn_core (tmr ?k x) = tn_core (tmr k x)" by (simp add: tm)
  show "tmr ?k x = tmr k x" if "x \<notin> fst ` set ts - {tn}"
    using that la hb ts na dis(3) by (auto simp: tm)
qed

section \<open>Heap blocks of the kernel\<close>

text \<open>The blocks \<open>hs\<close> are allocated from the kernel's heap, which covers the addresses \<open>A\<close>.\<close>

definition kheap :: "kernel \<Rightarrow> addr list \<Rightarrow> addr set \<Rightarrow> bool" where
  "kheap k hs A \<longleftrightarrow> (\<exists>F. nut_heap.consistent heapFreeList (mem_guard k) (hmem k) F hs A)"

lemma kheap_frame: "hmem k' = hmem k \<Longrightarrow> mem_guard k' = mem_guard k \<Longrightarrow> kheap k' hs A = kheap k hs A"
  by (simp add: kheap_def)

lemma heap_live_not_signaled: "heap_live g root m p \<Longrightarrow> p \<noteq> SIGNALED"
proof
  assume l: "heap_live g root m p" and "p = SIGNALED"
  then have "node_of g p + 4 + NUTMEM_GUARD_BYTES g = SIGNALED" "node_of g p mod 4 = 0"
    by (auto simp: heap_live_def live_block_def node_ok_def)
  moreover have "NUTMEM_GUARD_BYTES g mod 4 = 0" by (simp add: NUTMEM_GUARD_BYTES_def)
  ultimately have "SIGNALED mod 4 = 0" by presburger
  then show False by (simp add: SIGNALED_def)
qed

lemma kheap_alloc:
  assumes "kheap k hs A" and "sz < 4294967296 - 15"
  obtains "NutHeapAlloc sz k = Some (k, NULL)"
  | m p where "NutHeapAlloc sz k = Some (k\<lparr>hmem := m\<rparr>, p)" "p \<noteq> NULL" "p \<noteq> SIGNALED" "p \<notin> set hs" "p \<in> A"
    "kheap (k\<lparr>hmem := m\<rparr>) (p # hs) A"
proof -
  let ?g = "mem_guard k"
  obtain F where con: "nut_heap.consistent heapFreeList ?g (hmem k) F hs A" using assms(1) by (auto simp: kheap_def)
  then have F: "heap_free heapFreeList (hmem k) F" by (simp add: nut_heap.consistent_def)
  obtain m p where run: "NutHeapRootAlloc ?g (hmem k) heapFreeList sz = Some (m, p)"
    using nut_heap.alloc_total [OF F assms(2)] by blast
  show thesis
  proof (cases "p = NULL")
    case True
    then have "m = hmem k" using nut_heap.alloc_fails [OF F assms(2)] run by blast
    then show thesis using that(1) run True by (simp add: NutHeapAlloc_def)
  next
    case False
    note con' = nut_heap.alloc_consistent [OF con assms(2) run False]
    have lv: "heap_live ?g heapFreeList m p" and d: "p \<notin> set hs"
      using con' by (auto simp: nut_heap.consistent_def)
    have "{p..<p + sz} \<subseteq> heap_extent ?g m p" "heap_extent ?g m p \<subseteq> F"
      using nut_heap.alloc_live [OF F assms(2) run False] by blast+
    have inA: "p \<in> A"
    proof -
      have "p \<in> heap_extent ?g m p"
        using lv by (auto simp: heap_live_def heap_extent_def live_block_def node_ok_def NUTMEM_GUARD_BYTES_def split: if_splits)
      then show ?thesis using con' by (auto simp: nut_heap.consistent_def)
    qed
    have "kheap (k\<lparr>hmem := m\<rparr>) (p # hs) A" using con' by (auto simp: kheap_def)
    then show thesis
      using that(2) [of m p] run False d inA heap_live_not_signaled [OF lv] by (simp add: NutHeapAlloc_def)
  qed
qed

lemma kheap_free:
  assumes "kheap k hs A" and "p \<in> set hs"
  obtains m where "NutHeapFree p k = Some (k\<lparr>hmem := m\<rparr>, 0)" "kheap (k\<lparr>hmem := m\<rparr>) (remove1 p hs) A"
proof -
  obtain F where con: "nut_heap.consistent heapFreeList (mem_guard k) (hmem k) F hs A"
    using assms(1) by (auto simp: kheap_def)
  show thesis
  proof (rule nut_heap.release_consistent [OF con assms(2)])
    fix m assume "NutHeapRootFree (mem_guard k) (hmem k) heapFreeList p = Some (m, 0)"
      and "nut_heap.consistent heapFreeList (mem_guard k) m (F \<union> heap_extent (mem_guard k) (hmem k) p) (remove1 p hs) A"
    then show thesis using that [of m] by (auto simp: NutHeapFree_def kheap_def)
  qed
qed

section \<open>Starting and stopping a timer\<close>

text \<open>Listed timers that are not heap blocks lie outside the heap.\<close>

definition timer_mem :: "(addr \<times> u32) list \<Rightarrow> addr list \<Rightarrow> addr set \<Rightarrow> bool" where
  "timer_mem ts hs A \<longleftrightarrow> (\<forall>t \<in> fst ` set ts. t \<in> set hs \<or> t \<notin> A)"

lemma timer_start_spec:
  assumes T: "timers k ts" and H: "kheap k hs A" and M: "timer_mem ts hs A"
  obtains "NutTimerStartTicks n cb arg fl k = Some (k, NULL)"
  | k' tn where "NutTimerStartTicks n cb arg fl k = Some (k', tn)" "tn \<noteq> NULL" "tn \<noteq> SIGNALED" "tn \<notin> fst ` set ts" "tn \<notin> set hs"
    "timers k' (delta_insert tn (n + nut_ticks k - nut_ticks_resume k) ts)" "kheap k' (tn # hs) A"
    "timer_mem (delta_insert tn (n + nut_ticks k - nut_ticks_resume k) ts) (tn # hs) A"
    "only_timers k' (k\<lparr>hmem := hmem k'\<rparr>)"
    "tn_callback (tmr k' tn) = cb" "tn_arg (tmr k' tn) = arg" "tn_flags (tmr k' tn) = 0"
    "tn_ticks (tmr k' tn) = (if fl AND TM_ONESHOT \<noteq> 0 then 0 else n)"
    "\<And>x. x \<noteq> tn \<Longrightarrow> tn_core (tmr k' x) = tn_core (tmr k x)"
proof -
  have sz: "sizeof_NUTTIMERINFO < 4294967296 - 15" by (simp add: sizeof_NUTTIMERINFO_def)
  show thesis
  proof (rule kheap_alloc [OF H sz])
    assume "NutHeapAlloc sizeof_NUTTIMERINFO k = Some (k, NULL)"
    then show thesis using that(1) by (simp add: NutTimerStartTicks_def NutTimerCreate_def)
  next
    fix m tn assume al: "NutHeapAlloc sizeof_NUTTIMERINFO k = Some (k\<lparr>hmem := m\<rparr>, tn)"
      and tn: "tn \<noteq> NULL" "tn \<noteq> SIGNALED" "tn \<notin> set hs" "tn \<in> A" and H': "kheap (k\<lparr>hmem := m\<rparr>) (tn # hs) A"
    let ?d = "n + nut_ticks k - nut_ticks_resume k"
    let ?f = "\<lambda>i. i\<lparr>tn_ticks_left := ?d, tn_ticks := (if fl AND TM_ONESHOT \<noteq> 0 then 0 else n),
      tn_callback := cb, tn_flags := 0, tn_arg := arg\<rparr>"
    let ?k = "upd_tmr tn ?f (k\<lparr>hmem := m\<rparr>)"
    have new: "tn \<notin> fst ` set ts" using M tn(3,4) by (auto simp: timer_mem_def)
    have cr: "NutTimerCreate n cb arg fl k = Some (?k, tn)"
      using al tn(1) by (simp add: NutTimerCreate_def NutGetTickCount_def)
    have T1: "timers ?k ts" by (rule timers_frame [OF T]) (use new in auto)
    have left: "tn_ticks_left (tmr ?k tn) = ?d" by simp
    obtain k' where ins: "NutTimerInsert tn ?k = Some k'" "timers k' (delta_insert tn ?d ts)" "only_timers k' ?k"
      "\<And>x. tn_core (tmr k' x) = tn_core (tmr ?k x)"
      "\<And>x. x \<notin> insert tn (fst ` set ts) \<Longrightarrow> tmr k' x = tmr ?k x"
      by (rule timer_insert_spec [OF T1 new tn(1), unfolded left]) (rule that)
    have hm: "hmem k' = m" "mem_guard k' = mem_guard k" using only_timersD [OF ins(3)] by simp_all
    have "kheap k' (tn # hs) A" using H' hm kheap_frame [of k' "k\<lparr>hmem := m\<rparr>"] by simp
    moreover have "timer_mem (delta_insert tn ?d ts) (tn # hs) A" using M tn(4) by (simp add: timer_mem_def)
    moreover have "only_timers k' (k\<lparr>hmem := hmem k'\<rparr>)" using only_timers_trans [OF ins(3)] hm(1) by simp
    moreover have "tn_core (tmr k' x) = tn_core (tmr k x)" if "x \<noteq> tn" for x using ins(4) [of x] that by simp
    moreover have "NutTimerStartTicks n cb arg fl k = Some (k', tn)"
      using cr ins(1) tn(1) by (simp add: NutTimerStartTicks_def)
    moreover note tn_core_eqD [OF ins(4) [of tn]]
    ultimately show thesis using tn new ins(2) by - (rule that(2) [of k' tn], simp_all)
  qed
qed

lemma delta_remove_fst: "distinct (map fst ts) \<Longrightarrow> map fst (delta_remove t ts) = remove1 t (map fst ts)"
  by (induction ts) auto

lemma rank_insert_filter: "\<not> P x \<Longrightarrow> filter P (rank_insert r x ys) = filter P ys"
proof -
  have "filter P ys = filter P (takeWhile (\<lambda>u. r u \<le> r x) ys) @ filter P (dropWhile (\<lambda>u. r u \<le> r x) ys)"
    by (metis filter_append takeWhile_dropWhile_id)
  then show "\<not> P x \<Longrightarrow> ?thesis" by (simp add: rank_insert_def)
qed

lemma timer_stop_spec:
  assumes T: "timers k ts" and tn: "tn \<in> fst ` set ts"
  obtains k' ts' where "NutTimerStop tn k = Some k'" "timers k' ts'" "only_timers k' k"
    "fst ` set ts' = fst ` set ts"
    "filter (\<lambda>p. fst p \<noteq> tn) (expiry 0 ts') = filter (\<lambda>p. fst p \<noteq> tn) (expiry 0 ts)"
    "ts' = (if tn_ticks_left (tmr k tn) = 0 then ts else delta_insert tn 0 (delta_remove tn ts))"
    "tn_callback (tmr k' tn) = NoCallback" "tn_ticks (tmr k' tn) = 0" "tn_flags (tmr k' tn) = tn_flags (tmr k tn)"
    "\<And>x. x \<noteq> tn \<Longrightarrow> tn_core (tmr k' x) = tn_core (tmr k x)"
    "\<And>x. x \<notin> fst ` set ts \<Longrightarrow> tmr k' x = tmr k x"
proof -
  let ?k1 = "upd_tmr tn (\<lambda>i. i\<lparr>tn_ticks := 0, tn_callback := NoCallback\<rparr>) k"
  have T1: "timers ?k1 ts" by (rule timers_frame [OF T]) auto
  show thesis
  proof (cases "tn_ticks_left (tmr k tn) = 0")
    case True
    then have "NutTimerStop tn k = Some ?k1" by (simp add: NutTimerStop_def)
    then show thesis using T1 True tn by (intro that [of ?k1 ts]) auto
  next
    case False
    let ?u = "timer_unlink tn ?k1"
    let ?k2 = "upd_tmr tn (\<lambda>i. i\<lparr>tn_ticks_left := 0\<rparr>) ?u"
    have fs: "fst ` set (delta_remove tn ts) = fst ` set ts - {tn}"
      using delta_remove_fst [OF timersD(2) [OF T], of tn] timersD(2) [OF T]
      by (metis list.set_map set_remove1_eq)
    have tn0: "tn \<noteq> NULL" using timersD(3) [OF T] tn by metis
    have U: "timers ?u (delta_remove tn ts)" by (rule timer_unlink_spec(1) [OF T1 tn])
    have U2: "timers ?k2 (delta_remove tn ts)"
      by (rule timers_frame [OF U]) (use fs in auto)
    have left: "tn_ticks_left (tmr ?k2 tn) = 0" by simp
    have nn: "tn \<notin> fst ` set (delta_remove tn ts)" using fs by simp
    obtain k' where ins: "NutTimerInsert tn ?k2 = Some k'" "timers k' (delta_insert tn 0 (delta_remove tn ts))"
      "only_timers k' ?k2" "\<And>x. tn_core (tmr k' x) = tn_core (tmr ?k2 x)"
      "\<And>x. x \<notin> insert tn (fst ` set (delta_remove tn ts)) \<Longrightarrow> tmr k' x = tmr ?k2 x"
      by (rule timer_insert_spec [OF U2 nn tn0, unfolded left]) (rule that)
    have core: "tn_core (tmr k' x) = tn_core (tmr ?k1 x)" for x
      using ins(4) [of x] timer_unlink_spec(3) [OF T1 tn, of x] by (cases "x = tn") simp_all
    have tnc: "tn_ticks (tmr k' tn) = 0 \<and> tn_flags (tmr k' tn) = tn_flags (tmr k tn) \<and> tn_callback (tmr k' tn) = NoCallback"
      using tn_core_eqD [OF core [of tn]] by simp
    have run: "NutTimerStop tn k = Some k'" using False ins(1) by (simp add: NutTimerStop_def)
    have O: "only_timers k' k"
      using only_timers_trans [OF ins(3)] timer_unlink_spec(2) [OF T1 tn] only_timers_trans [of ?u ?k1 k] by simp
    have ex: "filter (\<lambda>p. fst p \<noteq> tn) (expiry 0 (delta_insert tn 0 (delta_remove tn ts)))
        = filter (\<lambda>p. fst p \<noteq> tn) (expiry 0 ts)"
      unfolding expiry_insert expiry_remove [OF tn timersD(2,4) [OF T]] by (simp add: rank_insert_filter)
    have oth: "tmr k' x = tmr k x" if "x \<notin> fst ` set ts" for x
    proof -
      have "x \<notin> insert tn (fst ` set (delta_remove tn ts))" "x \<noteq> tn" using that fs tn by auto
      then show ?thesis using ins(5) [of x] timer_unlink_spec(4) [OF T1 tn, of x] that by simp
    qed
    show thesis
      by (rule that [OF run ins(2) O _ ex]) (use False fs tn tnc core oth in auto)
  qed
qed

end
