(* ===== verification/Nut_Event.thy ===== *)
theory Nut_Event
  imports Nut_Timer_List "HOL-Library.Monad_Syntax"
begin

text \<open>
  Events (\<^verbatim>\<open>os/event.c\<close>): posting and broadcasting without a context switch, and the callbacks
  of the kernel's own timers, \<^verbatim>\<open>NutEventTimeout\<close> and \<^verbatim>\<open>NutThreadWake\<close> (\<^verbatim>\<open>os/thread.c\<close>). Waiting,
  which switches threads, is in \<open>Nut_Sched\<close>.
\<close>

section \<open>Model\<close>

text \<open>Taking a thread out of its queue; pending events go to the next thread or signal the queue.\<close>

definition dequeue_thread :: "addr \<Rightarrow> qlink \<Rightarrow> kernel \<Rightarrow> kernel" where
  "dequeue_thread td tqpp k =
     (let k1 = set_link tqpp (td_qnxt (thr k td)) k in
      if td_qpec (thr k1 td) \<noteq> 0 then
        let n = td_qnxt (thr k1 td);
            k2 = (if n \<noteq> NULL then upd_thr n (\<lambda>i. i\<lparr>td_qpec := td_qpec (thr k1 td)\<rparr>) k1
                  else set_link tqpp SIGNALED k1)
        in upd_thr td (\<lambda>i. i\<lparr>td_qpec := 0\<rparr>) k2
      else k1)"

partial_function (option) timeout_walk ::
  "kernel \<Rightarrow> addr \<Rightarrow> addr \<Rightarrow> qlink \<Rightarrow> kernel option" where
  "timeout_walk k timer tqp tqpp =
     (if tqp = NULL then Some k
      else if td_timer (thr k tqp) = timer then
        do { k2 \<leftarrow> NutThreadAddPriQueue tqp runQueue
                   (upd_thr tqp (\<lambda>i. i\<lparr>td_state := TDS_READY\<rparr>) (dequeue_thread tqp tqpp k));
             Some (upd_thr tqp (\<lambda>i. i\<lparr>td_timer := SIGNALED\<rparr>) k2) }
      else timeout_walk k timer (td_qnxt (thr k tqp)) (Qnxt tqp))"

definition NutEventTimeout :: "addr \<Rightarrow> addr \<Rightarrow> kernel \<Rightarrow> kernel option" where
  "NutEventTimeout timer q k =
     (let tqp = queue k q in
      if tqp \<noteq> SIGNALED then timeout_walk k timer tqp (Root q) else Some k)"

definition NutThreadWake :: "addr \<Rightarrow> addr \<Rightarrow> kernel \<Rightarrow> kernel option" where
  "NutThreadWake timer th k =
     NutThreadAddPriQueue th runQueue (upd_thr th (\<lambda>i. i\<lparr>td_timer := NULL, td_state := TDS_READY\<rparr>) k)"

definition NutEventPostAsync :: "addr \<Rightarrow> kernel \<Rightarrow> (kernel \<times> int) option" where
  "NutEventPostAsync qhp k =
     (let td = queue k qhp in
      if td \<noteq> SIGNALED then
        if td \<noteq> NULL then
          do { let k1 = dequeue_thread td (Root qhp) k;
               k3 \<leftarrow> (if td_timer (thr k1 td) \<noteq> NULL
                      then do { k2 \<leftarrow> NutTimerStop (td_timer (thr k1 td)) k1;
                                Some (upd_thr td (\<lambda>i. i\<lparr>td_timer := NULL\<rparr>) k2) }
                      else Some k1);
               k4 \<leftarrow> NutThreadAddPriQueue td runQueue (upd_thr td (\<lambda>i. i\<lparr>td_state := TDS_READY\<rparr>) k3);
               Some (k4, 1) }
        else Some (set_queue qhp SIGNALED k, 0)
      else Some (k, 0))"

partial_function (option) broadcast_loop :: "addr \<Rightarrow> int \<Rightarrow> kernel \<Rightarrow> (kernel \<times> int) option" where
  "broadcast_loop qhp rc k =
     do { r \<leftarrow> NutEventPostAsync qhp k;
          (if queue (fst r) qhp \<noteq> NULL \<and> queue (fst r) qhp \<noteq> SIGNALED
           then broadcast_loop qhp (rc + snd r) (fst r)
           else Some (fst r, rc + snd r)) }"

definition NutEventBroadcastAsync :: "addr \<Rightarrow> kernel \<Rightarrow> (kernel \<times> int) option" where
  "NutEventBroadcastAsync qhp k =
     (if queue k qhp = SIGNALED then Some (set_queue qhp NULL k, 0)
      else if queue k qhp \<noteq> NULL then broadcast_loop qhp 0 k
      else Some (k, 0))"

end
