(* ===== verification/Nut_Msg.thy ===== *)
theory Nut_Msg
  imports Nut_Event
begin

text \<open>
  Message queues (\<^verbatim>\<open>os/msg.c\<close>): rings of messages with a mask, and the timers that post to them.
  Posting wakes a waiting thread; the operations that switch threads (\<^verbatim>\<open>NutMsgQSend\<close>,
  \<^verbatim>\<open>NutMsgQGetMessage\<close>) are in \<open>Nut_Msg_Ring\<close>.
\<close>

unbundle bit_operations_syntax

section \<open>Model\<close>

definition MSG_TIMER :: u8 where
  "MSG_TIMER = 0xfe"

definition MSG_NULL :: u8 where
  "MSG_NULL = 0xff"

definition sizeof_NUTMSG :: nat where
  "sizeof_NUTMSG = 12"

definition sizeof_NUTMSGQ :: nat where
  "sizeof_NUTMSGQ = 28"

definition sizeof_NUTMSGTMR :: nat where
  "sizeof_NUTMSGTMR = 24"

text \<open>The event queue of a message queue is its first field, so its root is at the queue's address.\<close>

definition mq_wait :: "addr \<Rightarrow> addr" where
  "mq_wait que = que"

text \<open>A message queue whose memory has been cleared; \<^verbatim>\<open>mq_que\<close> has one entry more than allocated.\<close>

definition cleared_msgq :: "nat \<Rightarrow> NUTMSGQ" where
  "cleared_msgq n = \<lparr>mq_timers = NULL, mq_next = NULL, mq_read = 0, mq_write = 0, mq_mask = 0,
     mq_que = replicate (n + 1) \<lparr>msg_id = 0, msg_param = 0, msg_data = 0\<rparr>\<rparr>"

definition NutMsgQCreate :: "u8 \<Rightarrow> kernel \<Rightarrow> (kernel \<times> addr) option" where
  "NutMsgQCreate bits k =
     do { let len = (push_bit (unat bits) 1 :: u8);
          let sz = sizeof_NUTMSGQ + sizeof_NUTMSG * unat len;
          r \<leftarrow> NutHeapRootAllocClear (mem_guard k) (hmem k) heapFreeList sz;
          let que = snd r;
          let k1 = k\<lparr>hmem := fst r\<rparr>;
          Some (if que = NULL then (k1, que)
                else ((set_queue (mq_wait que) NULL
                        (upd_msgq que (\<lambda>_. (cleared_msgq (unat len))\<lparr>mq_mask := len - 1, mq_next := nutMsgQue k1\<rparr>) k1))
                        \<lparr>nutMsgQue := que\<rparr>, que)) }"

definition NutMsgQFull :: "addr \<Rightarrow> kernel \<Rightarrow> int" where
  "NutMsgQFull que k =
     (if (uint (mq_write (msgq k que)) + 1) AND uint (mq_mask (msgq k que)) = uint (mq_read (msgq k que)) then -1 else 0)"

definition NutMsgQPost :: "addr \<Rightarrow> u8 \<Rightarrow> int \<Rightarrow> addr \<Rightarrow> kernel \<Rightarrow> (kernel \<times> int) option" where
  "NutMsgQPost que i param data k =
     (if NutMsgQFull que k \<noteq> 0 then Some (k, -1)
      else do { let w = mq_write (msgq k que);
                r \<leftarrow> NutEventPostAsync (mq_wait que)
                  (upd_msgq que (\<lambda>m. m\<lparr>mq_que := (mq_que m)[unat w := \<lparr>msg_id = i, msg_param = param, msg_data = data\<rparr>],
                     mq_write := (w + 1) AND mq_mask m\<rparr>) k);
                Some (fst r, 0) })"

partial_function (option) broadcast_walk ::
  "addr \<Rightarrow> u8 \<Rightarrow> int \<Rightarrow> addr \<Rightarrow> int \<Rightarrow> kernel \<Rightarrow> (kernel \<times> int) option" where
  "broadcast_walk pCur i param data ret k =
     (if pCur = NULL then Some (k, ret)
      else do { r \<leftarrow> NutMsgQPost pCur i param data k;
                broadcast_walk (mq_next (msgq (fst r) pCur)) i param data (ret - snd r) (fst r) })"

definition NutMsgQBroadcast :: "u8 \<Rightarrow> int \<Rightarrow> addr \<Rightarrow> kernel \<Rightarrow> (kernel \<times> int) option" where
  "NutMsgQBroadcast i param data k = broadcast_walk (nutMsgQue k) i param data 0 k"

text \<open>
  The flags are tested with \<open>&&\<close> in the source, not \<open>&\<close>; as \<^verbatim>\<open>TM_ONESHOT\<close> is not zero, the
  test is whether any flag is set.
\<close>

definition NutMsgQTimerCb :: "addr \<Rightarrow> addr \<Rightarrow> kernel \<Rightarrow> kernel option" where
  "NutMsgQTimerCb hndl timer k =
     do { r \<leftarrow> NutMsgQPost (mt_que (msgtmr k timer)) MSG_TIMER 0 timer k;
          let k1 = fst r;
          let oneshot = (mt_flags (msgtmr k1 timer) \<noteq> 0 \<and> TM_ONESHOT \<noteq> 0);
          (if snd r \<noteq> 0 then
             if oneshot then
               do { s \<leftarrow> NutTimerStartTicks 1 CbMsgQTimer timer TM_ONESHOT k1;
                    Some (upd_msgtmr timer (\<lambda>m. m\<lparr>mt_handle := snd s\<rparr>) (fst s)) }
             else Some k1
           else if oneshot then Some (upd_msgtmr timer (\<lambda>m. m\<lparr>mt_handle := NULL\<rparr>) k1)
           else Some k1) }"

text \<open>Without a free timer one is allocated; the source does not check for a failure.\<close>

definition NutMsgQStartTimer :: "addr \<Rightarrow> u32 \<Rightarrow> int \<Rightarrow> addr \<Rightarrow> u8 \<Rightarrow> kernel \<Rightarrow> (kernel \<times> addr) option" where
  "NutMsgQStartTimer que ms param data flags k =
     do { a \<leftarrow> (if nutMsgFreeTimers k \<noteq> NULL
                then Some (k\<lparr>nutMsgFreeTimers := mt_next (msgtmr k (nutMsgFreeTimers k))\<rparr>, nutMsgFreeTimers k)
                else NutHeapAlloc sizeof_NUTMSGTMR k);
          let timer = snd a;
          s \<leftarrow> NutTimerStart ms CbMsgQTimer timer flags
            (upd_msgtmr timer (\<lambda>m. m\<lparr>mt_que := que, mt_data := data, mt_param := param, mt_flags := flags\<rparr>) (fst a));
          let k2 = upd_msgtmr timer (\<lambda>m. m\<lparr>mt_handle := snd s, mt_next := mq_timers (msgq (fst s) que)\<rparr>) (fst s);
          Some (upd_msgq que (\<lambda>m. m\<lparr>mq_timers := timer\<rparr>) k2, timer) }"

text \<open>The link to a message timer: the queue's list root, or the next field of another timer.\<close>

datatype mlink = MqTimers addr | MtNext addr

fun set_mlink :: "mlink \<Rightarrow> addr \<Rightarrow> kernel \<Rightarrow> kernel" where
  "set_mlink (MqTimers q) v k = upd_msgq q (\<lambda>m. m\<lparr>mq_timers := v\<rparr>) k"
| "set_mlink (MtNext t) v k = upd_msgtmr t (\<lambda>m. m\<lparr>mt_next := v\<rparr>) k"

partial_function (option) free_timer_walk :: "addr \<Rightarrow> addr \<Rightarrow> mlink \<Rightarrow> kernel \<Rightarrow> kernel option" where
  "free_timer_walk handle tnp tnpp k =
     (if tnp = NULL then Some k
      else if tnp = handle then
        Some ((upd_msgtmr tnp (\<lambda>m. m\<lparr>mt_next := nutMsgFreeTimers k\<rparr>) (set_mlink tnpp (mt_next (msgtmr k tnp)) k))
                \<lparr>nutMsgFreeTimers := tnp\<rparr>)
      else free_timer_walk handle (mt_next (msgtmr k tnp)) (MtNext tnp) k)"

definition NutMsgQFreeTimer :: "addr \<Rightarrow> addr \<Rightarrow> kernel \<Rightarrow> kernel option" where
  "NutMsgQFreeTimer que handle k = free_timer_walk handle (mq_timers (msgq k que)) (MqTimers que) k"

text \<open>Messages of a stopped timer that are still in the ring are turned into null messages.\<close>

partial_function (option) cancel_walk :: "addr \<Rightarrow> u8 \<Rightarrow> u8 \<Rightarrow> u8 \<Rightarrow> NUTMSG list \<Rightarrow> NUTMSG list option" where
  "cancel_walk t pos wr msk ms =
     (if pos = wr then Some ms
      else cancel_walk t ((pos + 1) AND msk) wr msk
        (if msg_id (ms ! unat pos) = MSG_TIMER \<and> msg_data (ms ! unat pos) = t
         then ms[unat pos := (ms ! unat pos)\<lparr>msg_id := MSG_NULL\<rparr>] else ms))"

definition NutMsgQStopTimer :: "addr \<Rightarrow> kernel \<Rightarrow> kernel option" where
  "NutMsgQStopTimer t k =
     do { let que = mt_que (msgtmr k t);
          let m = msgq k que;
          ms \<leftarrow> cancel_walk t (mq_read m) (mq_write m) (mq_mask m) (mq_que m);
          let k1 = upd_msgq que (\<lambda>m. m\<lparr>mq_que := ms\<rparr>) k;
          k2 \<leftarrow> (if mt_handle (msgtmr k1 t) \<noteq> NULL then NutTimerStop (mt_handle (msgtmr k1 t)) k1 else Some k1);
          NutMsgQFreeTimer que t k2 }"

definition NutMsgQFlush :: "addr \<Rightarrow> kernel \<Rightarrow> kernel" where
  "NutMsgQFlush que k = set_queue (mq_wait que) NULL (upd_msgq que (\<lambda>m. m\<lparr>mq_read := mq_write m\<rparr>) k)"

end
