(* ===== verification/Nut_Sched.thy ===== *)
theory Nut_Sched
  imports Nut_Msg
begin

text \<open>
  The scheduler: expiry of timers with their callbacks (\<^verbatim>\<open>os/timer.c\<close>), thread switching,
  priorities, creation and termination (\<^verbatim>\<open>os/thread.c\<close>, \<^verbatim>\<open>arch/cm3/os/context.c\<close>), sleeping,
  and waiting for events (\<^verbatim>\<open>os/event.c\<close>).

  A call that switches threads returns, in the source, when its thread runs again. Such a call
  is split: the part up to and including the switch is the operation itself, and what it does
  when its thread continues is a second definition with the suffix \<open>_leave\<close>. The first part
  of a call with a result gives \<open>Some rc\<close> when the result is already known, and \<open>None\<close> when the
  second part computes it. Timer callbacks of applications are a parameter \<open>user\<close>.
\<close>

section \<open>Timers that have elapsed\<close>

type_synonym user_callback = "nat \<Rightarrow> addr \<Rightarrow> addr \<Rightarrow> kernel \<Rightarrow> kernel option"

unbundle bit_operations_syntax

fun run_callback :: "user_callback \<Rightarrow> tcallback \<Rightarrow> addr \<Rightarrow> addr \<Rightarrow> kernel \<Rightarrow> kernel option" where
  "run_callback user NoCallback tn arg k = Some k"
| "run_callback user CbEventTimeout tn arg k = NutEventTimeout tn arg k"
| "run_callback user CbThreadWake tn arg k = NutThreadWake tn arg k"
| "run_callback user CbMsgQTimer tn arg k = NutMsgQTimerCb tn arg k"
| "run_callback user (CbUser i) tn arg k = user i tn arg k"

text \<open>The head of the list has been called back: it is removed, and freed or inserted again.\<close>

definition timer_expire :: "addr \<Rightarrow> kernel \<Rightarrow> kernel option" where
  "timer_expire tn k =
     (let k1 = k\<lparr>nutTimerList := tn_next (tmr k (nutTimerList k))\<rparr>;
          k2 = (if nutTimerList k1 \<noteq> NULL then upd_tmr (nutTimerList k1) (\<lambda>i. i\<lparr>tn_prev := NULL\<rparr>) k1 else k1);
          k3 = upd_tmr tn (\<lambda>i. i\<lparr>tn_ticks_left := tn_ticks i\<rparr>) k2
      in if tn_ticks_left (tmr k3 tn) = 0 then
           (if tn_flags (tmr k3 tn) AND TM_HAS_OWN_STRUCT = 0
            then map_option fst (NutHeapFree tn k3) else Some k3)
         else NutTimerInsert tn k3)"

partial_function (option) elapsed_loop :: "user_callback \<Rightarrow> u32 \<Rightarrow> kernel \<Rightarrow> kernel option" where
  "elapsed_loop user ticks_new k =
     (if nutTimerList k \<noteq> NULL \<and> ticks_new \<noteq> 0 then
        (let tn = nutTimerList k; left = tn_ticks_left (tmr k tn) in
         if ticks_new < left then
           elapsed_loop user 0 (upd_tmr tn (\<lambda>i. i\<lparr>tn_ticks_left := left - ticks_new\<rparr>) k)
         else
           do { let k1 = upd_tmr tn (\<lambda>i. i\<lparr>tn_ticks_left := 0\<rparr>) k;
                k2 \<leftarrow> run_callback user (tn_callback (tmr k1 tn)) tn (tn_arg (tmr k1 tn)) k1;
                k3 \<leftarrow> timer_expire tn k2;
                elapsed_loop user (ticks_new - left) k3 })
      else Some k)"

definition NutTimerProcessElapsed :: "user_callback \<Rightarrow> kernel \<Rightarrow> kernel option" where
  "NutTimerProcessElapsed user k =
     (let ticks = NutGetTickCount k in
      elapsed_loop user (ticks - nut_ticks_resume k) (k\<lparr>nut_ticks_resume := ticks\<rparr>))"

section \<open>Switching threads\<close>

definition NutThreadSwitch :: "kernel \<Rightarrow> kernel" where
  "NutThreadSwitch k =
     upd_thr (queue k runQueue) (\<lambda>i. i\<lparr>td_state := TDS_RUNNING\<rparr>) (k\<lparr>runningThread := queue k runQueue\<rparr>)"

text \<open>Events that interrupt handlers have counted are delivered, one per thread.\<close>

partial_function (option) resume_walk :: "addr \<Rightarrow> kernel \<Rightarrow> kernel option" where
  "resume_walk td k =
     (if td = NULL then Some k
      else do {
        k1 \<leftarrow> (if td_qpec (thr k td) \<noteq> 0 then
                do { let qhp = td_queue (thr k td);
                     let k0 = (upd_thr td (\<lambda>i. i\<lparr>td_qpec := td_qpec i - 1\<rparr>) k)\<lparr>total_pending := total_pending k - 1\<rparr>;
                     (if queue k0 qhp \<noteq> SIGNALED
                      then map_option fst (NutEventPostAsync qhp k0) else Some k0) }
              else Some k);
        resume_walk (td_next (thr k1 td)) k1 })"

definition NutThreadResume :: "user_callback \<Rightarrow> kernel \<Rightarrow> kernel option" where
  "NutThreadResume user k =
     do { k1 \<leftarrow> resume_walk (nutThreadList k) k;
          k2 \<leftarrow> NutTimerProcessElapsed user k1;
          Some (if runningThread k2 \<noteq> queue k2 runQueue then
                  NutThreadSwitch
                    (if td_state (thr k2 (runningThread k2)) = TDS_RUNNING
                     then upd_thr (runningThread k2) (\<lambda>i. i\<lparr>td_state := TDS_READY\<rparr>) k2 else k2)
                else k2) }"

definition NutThreadYield :: "user_callback \<Rightarrow> kernel \<Rightarrow> kernel option" where
  "NutThreadYield user k =
     do { k1 \<leftarrow> (if td_qnxt (thr k (runningThread k)) \<noteq> NULL then
                   do { k' \<leftarrow> NutThreadRemoveQueue (runningThread k) runQueue k;
                        NutThreadAddPriQueue (runningThread k) runQueue k' }
                 else Some k);
          NutThreadResume user k1 }"

section \<open>Life and death of threads\<close>

definition NutThreadDestroy :: "kernel \<Rightarrow> kernel option" where
  "NutThreadDestroy k =
     (if killedThread k \<noteq> NULL then
        do { r \<leftarrow> NutHeapFree (td_memory (thr k (killedThread k))) k;
             Some ((fst r)\<lparr>killedThread := NULL\<rparr>) }
      else Some k)"

text \<open>The link to a thread in the list of all threads: its root, or \<^verbatim>\<open>td_next\<close> of another thread.\<close>

fun set_tlink :: "addr option \<Rightarrow> addr \<Rightarrow> kernel \<Rightarrow> kernel" where
  "set_tlink None v k = k\<lparr>nutThreadList := v\<rparr>"
| "set_tlink (Some t) v k = upd_thr t (\<lambda>i. i\<lparr>td_next := v\<rparr>) k"

partial_function (option) kill_walk :: "addr \<Rightarrow> addr option \<Rightarrow> kernel \<Rightarrow> kernel option" where
  "kill_walk pCur pp k =
     (if pCur = NULL then Some k
      else if pCur = runningThread k then Some (set_tlink pp (td_next (thr k pCur)) k)
      else kill_walk (td_next (thr k pCur)) (Some pCur) k)"

definition NutThreadKill :: "kernel \<Rightarrow> kernel option" where
  "NutThreadKill k =
     do { k1 \<leftarrow> NutThreadDestroy k;
          k2 \<leftarrow> kill_walk (nutThreadList k) None k1;
          Some (k2\<lparr>killedThread := runningThread k2\<rparr>) }"

definition NutThreadSetPriority :: "nat \<Rightarrow> kernel \<Rightarrow> (kernel \<times> nat) option" where
  "NutThreadSetPriority level k =
     do { let me = runningThread k;
          let last = td_priority (thr k me);
          k1 \<leftarrow> NutThreadRemoveQueue me runQueue k;
          let k2 = upd_thr me (\<lambda>i. i\<lparr>td_priority := level\<rparr>) k1;
          k3 \<leftarrow> (if level < 255 then NutThreadAddPriQueue me runQueue k2 else NutThreadKill k2);
          Some (if runningThread k3 = queue k3 runQueue
                then upd_thr me (\<lambda>i. i\<lparr>td_state := TDS_RUNNING\<rparr>) k3
                else NutThreadSwitch (upd_thr me (\<lambda>i. i\<lparr>td_state := TDS_READY\<rparr>) k3), last) }"

definition NutThreadExit :: "kernel \<Rightarrow> kernel option" where
  "NutThreadExit k = map_option fst (NutThreadSetPriority 255 k)"

definition sizeof_NUTTHREADINFO :: nat where
  "sizeof_NUTTHREADINFO = 44"

definition DEADBEEF :: nat where
  "DEADBEEF = 0xDEADBEEF"

definition align8_down :: "nat \<Rightarrow> nat" where
  "align8_down a = a - a mod 8"

definition NutThreadCreate :: "string \<Rightarrow> nat \<Rightarrow> kernel \<Rightarrow> (kernel \<times> addr) option" where
  "NutThreadCreate name stackSize k =
     do { a \<leftarrow> NutHeapAlloc (align8_down (uadd (uadd stackSize sizeof_NUTTHREADINFO) 7)) k;
          let mem = snd a;
          (if mem = NULL then Some (fst a, NULL)
           else do {
             let k0 = (fst a)\<lparr>hmem := (hmem (fst a))(mem := DEADBEEF, mem + 4 := DEADBEEF,
                         mem + 8 := DEADBEEF, mem + 12 := DEADBEEF)\<rparr>;
             let td = align8_down (uadd mem stackSize);
             let k1 = (upd_thr td (\<lambda>i. i\<lparr>td_name := take 8 name, td_state := TDS_READY, td_priority := 64,
                         td_memory := mem, td_timer := NULL, td_queue := NULL, td_next := nutThreadList k0\<rparr>) k0)
                         \<lparr>nutThreadList := td\<rparr>;
             k2 \<leftarrow> NutThreadAddPriQueue td runQueue k1;
             let k3 = (if runningThread k2 = NULL then NutThreadSwitch k2 else k2);
             Some (if runningThread k3 \<noteq> queue k3 runQueue
                   then NutThreadSwitch (upd_thr (runningThread k3) (\<lambda>i. i\<lparr>td_state := TDS_READY\<rparr>) k3)
                   else k3, td) }) }"

partial_function (option) name_walk :: "kernel \<Rightarrow> string \<Rightarrow> addr \<Rightarrow> addr option" where
  "name_walk k name tdp =
     (if tdp = NULL then Some NULL
      else if td_name (thr k tdp) = name then Some tdp
      else name_walk k name (td_next (thr k tdp)))"

text \<open>Without a name (the null pointer) the running thread is returned.\<close>

definition GetThreadByName :: "string option \<Rightarrow> kernel \<Rightarrow> addr option" where
  "GetThreadByName name k =
     (case name of Some n \<Rightarrow> name_walk k n (nutThreadList k) | None \<Rightarrow> Some (runningThread k))"

partial_function (option) stack_scan :: "mem \<Rightarrow> addr \<Rightarrow> addr option" where
  "stack_scan m sp = (if m sp = DEADBEEF then stack_scan m (sp + 4) else Some (sp + 4))"

definition StackAvail :: "addr \<Rightarrow> kernel \<Rightarrow> nat option" where
  "StackAvail td k =
     map_option (\<lambda>sp. sp - td_memory (thr k td)) (stack_scan (hmem k) (td_memory (thr k td)))"

definition NutThreadStackAvailable :: "string option \<Rightarrow> kernel \<Rightarrow> nat option" where
  "NutThreadStackAvailable name k =
     do { tdp \<leftarrow> GetThreadByName name k; (if tdp \<noteq> NULL then StackAvail tdp k else Some 0) }"

partial_function (option) stack_check :: "nat \<Rightarrow> addr \<Rightarrow> kernel \<Rightarrow> addr option" where
  "stack_check minsiz tdp k =
     (if tdp = NULL then Some NULL
      else do { n \<leftarrow> StackAvail tdp k;
                (if n < minsiz then Some tdp else stack_check minsiz (td_next (thr k tdp)) k) })"

definition NutThreadStackCheck :: "nat \<Rightarrow> kernel \<Rightarrow> addr option" where
  "NutThreadStackCheck minsiz k = stack_check minsiz (nutThreadList k) k"

section \<open>Sleeping and waiting\<close>

definition NutSleep :: "user_callback \<Rightarrow> u32 \<Rightarrow> kernel \<Rightarrow> kernel option" where
  "NutSleep user ms k =
     (if ms \<noteq> 0 then
        do { let me = runningThread k;
             k1 \<leftarrow> NutThreadRemoveQueue me runQueue k;
             s \<leftarrow> NutTimerStart ms CbThreadWake me TM_ONESHOT (upd_thr me (\<lambda>i. i\<lparr>td_state := TDS_SLEEP\<rparr>) k1);
             let k2 = upd_thr me (\<lambda>i. i\<lparr>td_timer := snd s\<rparr>) (fst s);
             (if td_timer (thr k2 me) \<noteq> NULL then NutThreadResume user k2
              else Some (set_queue runQueue me
                (upd_thr me (\<lambda>i. i\<lparr>td_queue := runQueue, td_qnxt := queue k2 runQueue, td_state := TDS_RUNNING\<rparr>) k2))) }
      else NutThreadYield user k)"

definition NutEventTryWait :: "user_callback \<Rightarrow> addr \<Rightarrow> kernel \<Rightarrow> (kernel \<times> int) option" where
  "NutEventTryWait user qhp k =
     (if queue k qhp = SIGNALED
      then map_option (\<lambda>k'. (k', 0)) (NutThreadYield user (set_queue qhp NULL k))
      else Some (k, -1))"

definition NutEventWait :: "user_callback \<Rightarrow> addr \<Rightarrow> u32 \<Rightarrow> kernel \<Rightarrow> (kernel \<times> int option) option" where
  "NutEventWait user qhp ms k =
     do { w \<leftarrow> NutEventTryWait user qhp k;
          (if snd w = 0 then Some (fst w, Some 0)
           else do {
             let k0 = fst w; let me = runningThread k0;
             k1 \<leftarrow> NutThreadRemoveQueue me runQueue k0;
             k2 \<leftarrow> NutThreadAddPriQueue me qhp k1;
             let k3 = upd_thr me (\<lambda>i. i\<lparr>td_state := TDS_SLEEP\<rparr>) k2;
             k4 \<leftarrow> (if ms \<noteq> 0
                    then do { s \<leftarrow> NutTimerStart ms CbEventTimeout qhp TM_ONESHOT k3;
                              Some (upd_thr me (\<lambda>i. i\<lparr>td_timer := snd s\<rparr>) (fst s)) }
                    else Some (upd_thr me (\<lambda>i. i\<lparr>td_timer := NULL\<rparr>) k3));
             k5 \<leftarrow> NutThreadResume user k4;
             Some (k5, None) }) }"

definition NutEventWait_leave :: "kernel \<Rightarrow> kernel \<times> int" where
  "NutEventWait_leave k =
     (if td_timer (thr k (runningThread k)) = SIGNALED
      then (upd_thr (runningThread k) (\<lambda>i. i\<lparr>td_timer := NULL\<rparr>) k, -1) else (k, 0))"

definition NutEventWaitNext :: "user_callback \<Rightarrow> addr \<Rightarrow> u32 \<Rightarrow> kernel \<Rightarrow> (kernel \<times> int option) option" where
  "NutEventWaitNext user qhp ms k =
     NutEventWait user qhp ms (if queue k qhp = SIGNALED then set_queue qhp NULL k else k)"

definition NutEventPost :: "user_callback \<Rightarrow> addr \<Rightarrow> kernel \<Rightarrow> (kernel \<times> int) option" where
  "NutEventPost user qhp k =
     do { r \<leftarrow> NutEventPostAsync qhp k; k1 \<leftarrow> NutThreadYield user (fst r); Some (k1, snd r) }"

definition NutEventBroadcast :: "user_callback \<Rightarrow> addr \<Rightarrow> kernel \<Rightarrow> (kernel \<times> int) option" where
  "NutEventBroadcast user qhp k =
     do { r \<leftarrow> NutEventBroadcastAsync qhp k; k1 \<leftarrow> NutThreadYield user (fst r); Some (k1, snd r) }"

end
