(* ===== verification/Nut_Event_Inv.thy ===== *)
theory Nut_Event_Inv
  imports Nut_Sched
begin

text \<open>
  The invariant of the kernel (\<open>kinv\<close>): the threads of every queue, the timer list, the heap
  blocks of the timers, and what the timers are for. Posting an event, a timeout and a
  broadcast keep it; the lemmas say which threads become ready and that everything else stays
  as it was.
\<close>

unbundle bit_operations_syntax

section \<open>Taking a thread out of an event queue\<close>

lemma dequeue_spec:
  assumes ok: "queue_ok k q ts" and sp: "ts = as @ t # bs"
  defines "k' \<equiv> dequeue_thread t (last_link (Root q) as) k"
  shows "queue_ok k' q (as @ bs)"
    and "pending k' q (as @ bs) = (if as @ bs = [] then min 1 (pending k q ts) else pending k q ts)"
    and "td_core (thr k' x) = td_core (thr k x)" and "x \<notin> set ts \<Longrightarrow> thr k' x = thr k x"
    and "x \<noteq> q \<Longrightarrow> queue k' x = queue k x" and "same_rest k' k" and "total_pending k' = total_pending k"
    and "td_qpec (thr k' t) = 0"
proof -
  note ok = ok [unfolded sp]
  let ?l = "last_link (Root q) as" and ?n = "case bs of [] \<Rightarrow> NULL | u # _ \<Rightarrow> u"
  have sig: "queue k q \<noteq> SIGNALED" using queue_okD(2) [OF ok] by auto
  have ch: "qchain k (get_link k (Root q)) (as @ t # bs)" using queue_okD(1) [OF ok sig] by simp
  have d: "distinct (as @ t # bs)" by (rule queue_okD(3) [OF ok])
  have nx: "td_qnxt (thr k t) = ?n" using qchain_link [OF ch] by (cases bs) auto
  have la: "as \<noteq> [] \<Longrightarrow> last as \<noteq> t \<and> last as \<notin> set bs" using d by (auto dest: last_in_set)
  have nb: "bs \<noteq> [] \<Longrightarrow> ?n = hd bs \<and> hd bs \<noteq> NULL \<and> hd bs \<noteq> t \<and> hd bs \<in> set bs"
    using d queue_okD(5) [OF ok] by (cases bs) auto
  have z: "as \<noteq> [] \<Longrightarrow> td_qpec (thr k t) = 0" "as = [] \<Longrightarrow> bs \<noteq> [] \<Longrightarrow> td_qpec (thr k (hd bs)) = 0"
    using queue_okD(8) [OF ok, of t] queue_okD(8) [OF ok, of "hd bs"] by (cases as; auto)+
  have th: "thr k' x = (if x = t then (thr k t)\<lparr>td_qpec := 0\<rparr> else remove_thr k t as bs x)" for x
  proof (cases "as = []")
    case True
    then show ?thesis
      using nb z(2) nx unfolding k'_def
      by (cases "bs = []") (auto simp: dequeue_thread_def Let_def remove_thr_def qpec_idem)
  next
    case False
    then show ?thesis
      using la z(1) nx unfolding k'_def
      by (auto simp: dequeue_thread_def Let_def remove_thr_def set_link_thr last_link_eq qpec_idem)
  qed
  have qu: "queue k' x = (if x = q \<and> as = [] then (if bs = [] \<and> td_qpec (thr k t) \<noteq> 0 then SIGNALED else ?n)
      else queue k x)" for x
    using nx z(1) nb unfolding k'_def
    by (auto simp: dequeue_thread_def Let_def set_link_queue last_link_eq)
  show "td_core (thr k' x) = td_core (thr k x)" by (simp add: th)
  show "td_qpec (thr k' t) = 0" by (simp add: th)
  show "x \<noteq> q \<Longrightarrow> queue k' x = queue k x" by (simp add: qu)
  show "x \<notin> set ts \<Longrightarrow> thr k' x = thr k x"
    using sp by (auto simp: th remove_thr_def dest: last_in_set hd_in_set)
  show "same_rest k' k" unfolding k'_def by (simp add: dequeue_thread_def Let_def)
  have tp: "total_pending (set_link l v k'') = total_pending k''" for l v k'' by (cases l) simp_all
  show "total_pending k' = total_pending k" unfolding k'_def by (simp add: dequeue_thread_def Let_def tp)
  have pk: "pending k q ts = td_qpec (thr k (hd ts))" "ts \<noteq> []" using sig sp by (cases as; simp add: pending_def)+
  obtain r where r: "NutThreadRemoveQueue t q k = Some r" "\<And>x. thr r x = remove_thr k t as bs x"
    "\<And>x. queue r x = (if x = q \<and> as = [] then ?n else queue k x)"
    by (rule remove_thr_eq [OF ok]) blast
  have rm: "remove1 t ts = as @ bs" using sp d by (simp add: remove1_append)
  have okr: "queue_ok r q (as @ bs)" and pr: "pending r q (as @ bs) = (if ts = [t] then 0 else pending k q ts)"
    using remove_queue_spec [OF ok [folded sp], of t] r(1) sp rm by (metis in_set_conv_decomp option.inject)+
  have tn: "t \<notin> set (as @ bs)" using d by auto
  show "queue_ok k' q (as @ bs)" "pending k' q (as @ bs) = (if as @ bs = [] then min 1 (pending k q ts) else pending k q ts)"
  proof -
    have "queue_ok k' q (as @ bs) \<and> pending k' q (as @ bs) = (if as @ bs = [] then min 1 (pending k q ts) else pending k q ts)"
    proof (cases "as = [] \<and> bs = []")
      case True
      then show ?thesis
        using pk sp by (auto simp: queue_ok_def pending_def qu SIGNALED_def)
    next
      case False
      then have ne: "ts \<noteq> [t]" "queue k' q = queue r q" using sp by (cases as; auto simp: qu r(3))+
      moreover have "\<And>x. x \<in> set (as @ bs) \<Longrightarrow> thr k' x = thr r x" using tn by (auto simp: th r(2))
      ultimately show ?thesis using queue_ok_frame [OF okr, of k'] pr False ne by auto
    qed
    then show "queue_ok k' q (as @ bs)"
      "pending k' q (as @ bs) = (if as @ bs = [] then min 1 (pending k q ts) else pending k q ts)" by blast+
  qed
qed

section \<open>The invariant of the kernel\<close>

text \<open>
  The list \<open>Q q\<close> of the threads in each queue, the timers \<open>T\<close> and what they are for: a thread
  that waits with a timeout has a timer of its own, which calls \<^verbatim>\<open>NutEventTimeout\<close> on its queue;
  a timer that calls \<^verbatim>\<open>NutThreadWake\<close> belongs to a thread that is in no queue.
\<close>

definition links :: "kernel \<Rightarrow> (addr \<Rightarrow> addr list) \<Rightarrow> addr set \<Rightarrow> bool" where
  "links k Q T \<longleftrightarrow>
     (\<forall>q t. q \<noteq> runQueue \<longrightarrow> t \<in> set (Q q) \<longrightarrow> td_timer (thr k t) \<noteq> NULL \<longrightarrow>
        td_timer (thr k t) \<in> T \<and> tn_callback (tmr k (td_timer (thr k t))) = CbEventTimeout
        \<and> tn_arg (tmr k (td_timer (thr k t))) = q) \<and>
     (\<forall>q t u. q \<noteq> runQueue \<longrightarrow> t \<in> set (Q q) \<longrightarrow> u \<in> set (Q q) \<longrightarrow> td_timer (thr k t) \<noteq> NULL \<longrightarrow>
        td_timer (thr k t) = td_timer (thr k u) \<longrightarrow> t = u) \<and>
     (\<forall>tn \<in> T. tn_callback (tmr k tn) = CbThreadWake \<longrightarrow>
        tn_arg (tmr k tn) \<noteq> NULL \<and> tn_arg (tmr k tn) \<noteq> SIGNALED \<and> td_timer (thr k (tn_arg (tmr k tn))) = tn
        \<and> (\<forall>q. tn_arg (tmr k tn) \<notin> set (Q q))) \<and>
     (\<forall>tn \<in> T. tn_callback (tmr k tn) = CbEventTimeout \<longrightarrow> tn_arg (tmr k tn) \<noteq> runQueue)"

definition owned :: "kernel \<Rightarrow> addr set \<Rightarrow> addr list \<Rightarrow> bool" where
  "owned k T hs \<longleftrightarrow> (\<forall>tn \<in> T. tn_flags (tmr k tn) AND TM_HAS_OWN_STRUCT = 0 \<longrightarrow> tn \<in> set hs)"

text \<open>Events of interrupt handlers are only counted for threads that wait in an event queue.\<close>

definition quiet :: "kernel \<Rightarrow> (addr \<Rightarrow> addr list) \<Rightarrow> bool" where
  "quiet k Q \<longleftrightarrow> pending k runQueue (Q runQueue) = 0 \<and> (\<forall>x. (\<forall>q. x \<notin> set (Q q)) \<longrightarrow> td_qpec (thr k x) = 0)"

definition kinv :: "kernel \<Rightarrow> (addr \<Rightarrow> addr list) \<Rightarrow> (addr \<times> u32) list \<Rightarrow> addr list \<Rightarrow> addr set \<Rightarrow> bool" where
  "kinv k Q ts hs A \<longleftrightarrow> queues k Q \<and> queue k runQueue \<noteq> SIGNALED \<and> timers k ts \<and> kheap k hs A \<and>
     timer_mem ts hs A \<and> owned k (fst ` set ts) hs \<and> links k Q (fst ` set ts) \<and> quiet k Q"

lemma kinvD:
  assumes "kinv k Q ts hs A"
  shows "queues k Q" "queue k runQueue \<noteq> SIGNALED" "timers k ts" "kheap k hs A" "timer_mem ts hs A"
    "owned k (fst ` set ts) hs" "links k Q (fst ` set ts)" "quiet k Q"
  using assms by (simp_all add: kinv_def)

lemma queuesD:
  assumes "queues k Q"
  shows "queue_ok k q (Q q)" "t \<in> set (Q q) \<Longrightarrow> t \<noteq> NULL \<and> t \<noteq> SIGNALED"
    "t \<in> set (Q q) \<Longrightarrow> t \<in> set (Q p) \<Longrightarrow> q = p"
proof -
  have ok: "queue_ok k q (Q q)" for q using assms by (simp add: queues_def)
  show "queue_ok k q (Q q)" by (rule ok)
  show "t \<in> set (Q q) \<Longrightarrow> t \<noteq> NULL \<and> t \<noteq> SIGNALED" using queue_okD(5,6) [OF ok, of q] by metis
  show "t \<in> set (Q q) \<Longrightarrow> t \<in> set (Q p) \<Longrightarrow> q = p" by (rule queue_ok_exclusive [OF ok ok])
qed

lemma linksD:
  assumes "links k Q T"
  shows "q \<noteq> runQueue \<Longrightarrow> t \<in> set (Q q) \<Longrightarrow> td_timer (thr k t) \<noteq> NULL \<Longrightarrow>
      td_timer (thr k t) \<in> T \<and> tn_callback (tmr k (td_timer (thr k t))) = CbEventTimeout
        \<and> tn_arg (tmr k (td_timer (thr k t))) = q"
    and "q \<noteq> runQueue \<Longrightarrow> t \<in> set (Q q) \<Longrightarrow> u \<in> set (Q q) \<Longrightarrow> td_timer (thr k t) \<noteq> NULL \<Longrightarrow>
      td_timer (thr k t) = td_timer (thr k u) \<Longrightarrow> t = u"
    and "tn \<in> T \<Longrightarrow> tn_callback (tmr k tn) = CbThreadWake \<Longrightarrow>
      tn_arg (tmr k tn) \<noteq> NULL \<and> tn_arg (tmr k tn) \<noteq> SIGNALED \<and> td_timer (thr k (tn_arg (tmr k tn))) = tn
        \<and> (\<forall>q. tn_arg (tmr k tn) \<notin> set (Q q))"
    and "tn \<in> T \<Longrightarrow> tn_callback (tmr k tn) = CbEventTimeout \<Longrightarrow> tn_arg (tmr k tn) \<noteq> runQueue"
  using assms unfolding links_def by blast+

text \<open>A queue operation on one queue, seen from the family of all queues.\<close>

lemma queues_update:
  assumes Q: "queues k Q" and ok: "queue_ok k' q us" and sub: "\<And>x. x \<notin> S \<Longrightarrow> thr k' x = thr k x"
    and S: "\<And>p. p \<noteq> q \<Longrightarrow> S \<inter> set (Q p) = {}" and qu: "\<And>x. x \<noteq> q \<Longrightarrow> queue k' x = queue k x"
  shows "queues k' (Q(q := us))" and "p \<noteq> q \<Longrightarrow> pending k' p (Q p) = pending k p (Q p)"
proof -
  have fr: "queue_ok k' p (Q p)" "pending k' p (Q p) = pending k p (Q p)" if "p \<noteq> q" for p
  proof -
    have "\<And>x. x \<in> set (Q p) \<Longrightarrow> thr k' x = thr k x" using S [OF that] sub by blast
    then show "queue_ok k' p (Q p)" "pending k' p (Q p) = pending k p (Q p)"
      using queue_ok_frame [OF queuesD(1) [OF Q, of p], of k'] qu [OF that] by simp_all
  qed
  then show "queues k' (Q(q := us))" using ok by (simp add: queues_def)
  show "p \<noteq> q \<Longrightarrow> pending k' p (Q p) = pending k p (Q p)" by (rule fr(2))
qed

lemma queues_frame:
  assumes "queues k Q" and "\<And>x. td_qnxt (thr k' x) = td_qnxt (thr k x) \<and> td_qpec (thr k' x) = td_qpec (thr k x)
      \<and> td_queue (thr k' x) = td_queue (thr k x) \<and> td_priority (thr k' x) = td_priority (thr k x)"
    and "queue k' = queue k"
  shows "queues k' Q" and "pending k' q (Q q) = pending k q (Q q)" and "quiet k' Q = quiet k Q"
proof -
  have "queue_ok k' q (Q q) = queue_ok k q (Q q)" for q
  proof -
    have "qchain k' p ts = qchain k p ts" for p ts by (rule qchain_frame) (simp add: assms(2))
    moreover have "map (prio k') ts = map (prio k) ts" for ts using assms(2) by simp
    ultimately show ?thesis unfolding queue_ok_def assms(3) by (simp only: assms(2))
  qed
  then show "queues k' Q" using assms(1) by (simp add: queues_def)
  have pe: "pending k' q (Q q) = pending k q (Q q)" for q
    using assms(2,3) by (simp add: pending_def split: list.splits)
  show "pending k' q (Q q) = pending k q (Q q)" by (rule pe)
  show "quiet k' Q = quiet k Q" using pe [of runQueue] assms(2) by (simp add: quiet_def)
qed

text \<open>Making a thread that is in no queue ready to run.\<close>

lemma ready_spec:
  assumes Q: "queues k Q" and t: "\<And>q. t \<notin> set (Q q)" "t \<noteq> NULL" "t \<noteq> SIGNALED" and run: "queue k runQueue \<noteq> SIGNALED"
  obtains k' where "NutThreadAddPriQueue t runQueue k = Some k'"
    "queues k' (Q(runQueue := rank_insert (prio k) t (Q runQueue)))" "queue k' runQueue \<noteq> SIGNALED"
    "\<And>x. td_core (thr k' x) = td_core (thr k x)" "\<And>x. x \<noteq> runQueue \<Longrightarrow> queue k' x = queue k x"
    "\<And>p. p \<noteq> runQueue \<Longrightarrow> pending k' p (Q p) = pending k p (Q p)"
    "same_rest k' k" "total_pending k' = total_pending k"
    "quiet k Q \<Longrightarrow> quiet k' (Q(runQueue := rank_insert (prio k) t (Q runQueue)))"
proof -
  obtain k' where k': "NutThreadAddPriQueue t runQueue k = Some k'"
    "queue_ok k' runQueue (pri_insert k t (Q runQueue))" "queue k' runQueue \<noteq> SIGNALED"
    "pending k' runQueue (pri_insert k t (Q runQueue)) = pending k runQueue (Q runQueue)"
    "\<And>x. td_core (thr k' x) = td_core (thr k x)" "\<And>x. x \<notin> insert t (set (Q runQueue)) \<Longrightarrow> thr k' x = thr k x"
    "\<And>x. x \<noteq> runQueue \<Longrightarrow> queue k' x = queue k x" "same_rest k' k"
    "total_pending k' = total_pending k + (if queue k runQueue = SIGNALED then 1 else 0)"
    by (rule add_pri_spec [OF queuesD(1) [OF Q, of runQueue] t(1,2,3)]) (rule that)
  have dis: "insert t (set (Q runQueue)) \<inter> set (Q p) = {}" if "p \<noteq> runQueue" for p
    using queuesD(3) [OF Q, of _ runQueue p] t(1) that by auto
  have "queues k' (Q(runQueue := pri_insert k t (Q runQueue)))"
    and "\<And>p. p \<noteq> runQueue \<Longrightarrow> pending k' p (Q p) = pending k p (Q p)"
    by (rule queues_update [OF Q k'(2) k'(6) dis k'(7)]; assumption)+
  moreover have "quiet k' (Q(runQueue := pri_insert k t (Q runQueue)))" if "quiet k Q"
    unfolding quiet_def
  proof (intro conjI allI impI)
    show "pending k' runQueue ((Q(runQueue := pri_insert k t (Q runQueue))) runQueue) = 0"
      using k'(4) that by (simp add: quiet_def)
    fix x assume x: "\<forall>q. x \<notin> set ((Q(runQueue := pri_insert k t (Q runQueue))) q)"
    have "x \<notin> set (Q q)" "x \<noteq> t" for q
      using spec [OF x, of q] spec [OF x, of runQueue] by (auto split: if_splits)
    then show "td_qpec (thr k' x) = 0" using k'(6) [of x] that by (simp add: quiet_def)
  qed
  ultimately show thesis using that [OF k'(1) _ k'(3,5,7) _ k'(8)] k'(9) run by (simp add: pri_insert_rank)
qed

definition woken :: "kernel \<Rightarrow> addr \<Rightarrow> addr \<Rightarrow> (addr \<Rightarrow> addr list) \<Rightarrow> addr \<Rightarrow> addr list" where
  "woken k t q Q = (Q(q := remove1 t (Q q)))(runQueue := rank_insert (prio k) t (Q runQueue))"

lemma woken_set:
  assumes "distinct (Q q)" and "q \<noteq> runQueue"
  shows "p \<noteq> runQueue \<Longrightarrow> x \<in> set (woken k t q Q p) \<longleftrightarrow> x \<in> set (Q p) \<and> (p = q \<longrightarrow> x \<noteq> t)"
    and "x \<in> set (woken k t q Q runQueue) \<longleftrightarrow> x = t \<or> x \<in> set (Q runQueue)"
  using assms by (auto simp: woken_def)

lemma links_wake:
  assumes L: "links k Q T" and Q: "queues k Q" and t: "t \<in> set (Q q)" "q \<noteq> runQueue"
    and th: "\<And>x. x \<noteq> t \<Longrightarrow> td_timer (thr k' x) = td_timer (thr k x)"
    and tm: "\<And>tn. tn \<in> T \<Longrightarrow> tn \<noteq> td_timer (thr k t) \<or> td_timer (thr k t) = NULL \<Longrightarrow>
       tn_callback (tmr k' tn) = tn_callback (tmr k tn) \<and> tn_arg (tmr k' tn) = tn_arg (tmr k tn)"
    and stop: "td_timer (thr k t) \<noteq> NULL \<Longrightarrow> tn_callback (tmr k' (td_timer (thr k t))) = NoCallback \<or>
       tn_callback (tmr k' (td_timer (thr k t))) = CbEventTimeout \<and> tn_arg (tmr k' (td_timer (thr k t))) = q"
  shows "links k' (woken k t q Q) T"
proof -
  have d: "distinct (Q q)" using queue_okD(3) [OF queuesD(1) [OF Q]] .
  have ws: "\<And>p x. p \<noteq> runQueue \<Longrightarrow> x \<in> set (woken k t q Q p) \<longleftrightarrow> x \<in> set (Q p) \<and> (p = q \<longrightarrow> x \<noteq> t)"
    "\<And>x. x \<in> set (woken k t q Q runQueue) \<longleftrightarrow> x = t \<or> x \<in> set (Q runQueue)"
    using woken_set [of Q q, OF d t(2)] by blast+
  have mem: "x \<in> set (Q p)" "x \<noteq> t" if "p \<noteq> runQueue" "x \<in> set (woken k t q Q p)" for p x
    using that ws(1) queuesD(3) [OF Q t(1), of p] by auto
  have far: "td_timer (thr k x) \<noteq> td_timer (thr k t)"
    if "p \<noteq> runQueue" "x \<in> set (Q p)" "x \<noteq> t" "td_timer (thr k x) \<noteq> NULL" for p x
  proof
    assume e: "td_timer (thr k x) = td_timer (thr k t)"
    then have "p = q" using linksD(1) [OF L that(1,2,4)] linksD(1) [OF L t(2) t(1)] that(4) by auto
    then show False using linksD(2) [OF L that(1,2), of t] that e t by auto
  qed
  show ?thesis
    unfolding links_def
  proof (intro conjI allI impI ballI)
    fix p x assume p: "p \<noteq> runQueue" and x: "x \<in> set (woken k t q Q p)" and n: "td_timer (thr k' x) \<noteq> NULL"
    note m = mem [OF p x]
    have n': "td_timer (thr k x) \<noteq> NULL" using th [OF m(2)] n by simp
    note l = linksD(1) [OF L p m(1) n'] and f = far [OF p m n']
    show "td_timer (thr k' x) \<in> T" "tn_callback (tmr k' (td_timer (thr k' x))) = CbEventTimeout"
      "tn_arg (tmr k' (td_timer (thr k' x))) = p"
      using l f tm [of "td_timer (thr k x)"] th [OF m(2)] by simp_all
  next
    fix p x y assume p: "p \<noteq> runQueue" "x \<in> set (woken k t q Q p)" "y \<in> set (woken k t q Q p)"
      "td_timer (thr k' x) \<noteq> NULL" "td_timer (thr k' x) = td_timer (thr k' y)"
    then show "x = y"
      using linksD(2) [OF L p(1) mem(1) [OF p(1,2)] mem(1) [OF p(1,3)]] th mem(2) by metis
  next
    fix tn assume tn: "tn \<in> T" and cb: "tn_callback (tmr k' tn) = CbThreadWake"
    have nt: "tn \<noteq> td_timer (thr k t) \<or> td_timer (thr k t) = NULL" using stop cb by fastforce
    have w: "tn_arg (tmr k tn) \<noteq> NULL \<and> tn_arg (tmr k tn) \<noteq> SIGNALED \<and> td_timer (thr k (tn_arg (tmr k tn))) = tn
        \<and> (\<forall>q. tn_arg (tmr k tn) \<notin> set (Q q))"
      using linksD(3) [OF L tn] tm [OF tn nt] cb by simp
    then have ne: "tn_arg (tmr k tn) \<noteq> t" using t(1) by auto
    show "tn_arg (tmr k' tn) \<noteq> NULL" "tn_arg (tmr k' tn) \<noteq> SIGNALED" "td_timer (thr k' (tn_arg (tmr k' tn))) = tn"
      using w tm [OF tn nt] th [OF ne] by auto
    show "tn_arg (tmr k' tn) \<notin> set (woken k t q Q p)" for p
      using w ne tm [OF tn nt] ws(1) [of p] ws(2) by (cases "p = runQueue") auto
  next
    fix tn assume tn: "tn \<in> T" and cb: "tn_callback (tmr k' tn) = CbEventTimeout"
    show "tn_arg (tmr k' tn) \<noteq> runQueue"
    proof (cases "tn \<noteq> td_timer (thr k t) \<or> td_timer (thr k t) = NULL")
      case True
      then show ?thesis using linksD(4) [OF L tn] tm [OF tn True] cb by simp
    next
      case False
      then show ?thesis using stop cb t(2) by auto
    qed
  qed
qed

lemma same_restD:
  assumes "same_rest k' k"
  shows "tmr k' = tmr k" "runningThread k' = runningThread k" "killedThread k' = killedThread k"
    "nutThreadList k' = nutThreadList k" "nutTimerList k' = nutTimerList k" "nut_ticks k' = nut_ticks k"
    "nut_ticks_resume k' = nut_ticks_resume k" "hmem k' = hmem k" "mem_guard k' = mem_guard k"
    "msgq k' = msgq k" "msgtmr k' = msgtmr k" "nutMsgQue k' = nutMsgQue k" "nutMsgFreeTimers k' = nutMsgFreeTimers k"
  using assms by (simp_all add: same_rest_def)

lemma timers_same: "tmr k' = tmr k \<Longrightarrow> nutTimerList k' = nutTimerList k \<Longrightarrow> timers k' ts = timers k ts"
  using timers_frame [of k ts k'] timers_frame [of k' ts k] by auto

text \<open>What waking a thread leaves alone, and what else it does to it.\<close>

definition same_others :: "addr \<Rightarrow> kernel \<Rightarrow> kernel \<Rightarrow> bool" where
  "same_others t k' k \<longleftrightarrow> (\<forall>x. x \<noteq> t \<longrightarrow> td_core (thr k' x) = td_core (thr k x)) \<and>
     td_core (thr k' t) = td_core ((thr k t)\<lparr>td_state := td_state (thr k' t), td_timer := td_timer (thr k' t)\<rparr>) \<and>
     runningThread k' = runningThread k \<and> killedThread k' = killedThread k \<and> nutThreadList k' = nutThreadList k \<and>
     nut_ticks k' = nut_ticks k \<and> nut_ticks_resume k' = nut_ticks_resume k \<and> msgq k' = msgq k \<and>
     msgtmr k' = msgtmr k \<and> nutMsgQue k' = nutMsgQue k \<and> nutMsgFreeTimers k' = nutMsgFreeTimers k \<and>
     total_pending k' = total_pending k \<and> mem_guard k' = mem_guard k"

text \<open>Taking a thread out of its event queue and making it ready, the common part of posting and of a timeout.\<close>

lemma dequeue_queues:
  assumes Q: "queues k Q" and sp: "Q q = as @ t # bs"
  defines "k' \<equiv> dequeue_thread t (last_link (Root q) as) k"
  shows "queues k' (Q(q := as @ bs))" and "p \<noteq> q \<Longrightarrow> pending k' p (Q p) = pending k p (Q p)"
    and "t \<notin> set ((Q(q := as @ bs)) r)" and "q \<noteq> runQueue \<Longrightarrow> quiet k Q \<Longrightarrow> quiet k' (Q(q := as @ bs))"
proof -
  note ds = dequeue_spec [OF queuesD(1) [OF Q, of q] sp, folded k'_def]
  have dis: "set (Q q) \<inter> set (Q p) = {}" if "p \<noteq> q" for p using queuesD(3) [OF Q, of _ q p] that by blast
  have po: "p \<noteq> q \<Longrightarrow> pending k' p (Q p) = pending k p (Q p)" for p
    by (rule queues_update(2) [OF Q ds(1) ds(4) dis ds(5)]; assumption)
  show "p \<noteq> q \<Longrightarrow> pending k' p (Q p) = pending k p (Q p)" by (rule po)
  show "queues k' (Q(q := as @ bs))"
    by (rule queues_update(1) [OF Q ds(1) ds(4) dis ds(5)]; assumption)
  show "quiet k' (Q(q := as @ bs))" if "q \<noteq> runQueue" "quiet k Q"
    unfolding quiet_def
  proof (intro conjI allI impI)
    show "pending k' runQueue ((Q(q := as @ bs)) runQueue) = 0" using po [of runQueue] that by (simp add: quiet_def)
    fix x assume x: "\<forall>p. x \<notin> set ((Q(q := as @ bs)) p)"
    have "x = t \<or> (\<forall>p. x \<notin> set (Q p))"
    proof (intro disjCI allI)
      fix p assume "\<not> (\<forall>p. x \<notin> set (Q p))"
      then obtain p where "x \<in> set (Q p)" by blast
      then show "x = t" using spec [OF x, of p] sp by (cases "p = q") auto
    qed
    moreover have "x \<noteq> t \<Longrightarrow> \<forall>p. x \<notin> set (Q p) \<Longrightarrow> thr k' x = thr k x" using ds(4) by blast
    ultimately show "td_qpec (thr k' x) = 0" using ds(8) that(2) by (cases "x = t") (auto simp: quiet_def)
  qed
  have "distinct (Q q)" "t \<in> set (Q q)" using queue_okD(3) [OF queuesD(1) [OF Q, of q]] sp by auto
  then show "t \<notin> set ((Q(q := as @ bs)) r)" using sp queuesD(3) [OF Q, of t q r] by auto
qed

lemma core_cong:
  "td_core i = td_core j \<Longrightarrow> td_core (i\<lparr>td_state := s, td_timer := u\<rparr>) = td_core (j\<lparr>td_state := s, td_timer := u\<rparr>)"
  by (cases i; cases j) (simp add: td_core_def)

lemma core_self: "td_core (i\<lparr>td_state := td_state i, td_timer := td_timer i\<rparr>) = td_core i"
  by (cases i) simp

lemma timer_inv_frame:
  assumes "kinv k Q ts hs A" and "tmr k' = tmr k" and "nutTimerList k' = nutTimerList k" and "hmem k' = hmem k"
    and "mem_guard k' = mem_guard k"
  shows "timers k' ts" "kheap k' hs A" "timer_mem ts hs A" "owned k' (fst ` set ts) hs"
  using kinvD(3-6) [OF assms(1)] timers_same [OF assms(2,3)] kheap_frame [OF assms(4,5)] assms(2)
  by (simp_all add: owned_def)

lemma wake_thread_spec:
  assumes I: "kinv k Q ts hs A" and q: "q \<noteq> runQueue" and sp: "Q q = as @ t # bs"
    and k1: "k1 = dequeue_thread t (last_link (Root q) as) k"
    and th: "\<And>x. thr k2 x = (if x = t then (thr k1 t)\<lparr>td_state := TDS_READY, td_timer := u\<rparr> else thr k1 x)"
    and qu: "queue k2 = queue k1"
  obtains k' where "NutThreadAddPriQueue t runQueue k2 = Some k'" "queues k' (woken k t q Q)"
    "queue k' runQueue \<noteq> SIGNALED"
    "pending k' q (as @ bs) = (if as @ bs = [] then min 1 (pending k q (Q q)) else pending k q (Q q))"
    "\<And>p. p \<noteq> q \<Longrightarrow> p \<noteq> runQueue \<Longrightarrow> pending k' p (Q p) = pending k p (Q p)"
    "\<And>x. x \<noteq> t \<Longrightarrow> td_core (thr k' x) = td_core (thr k x)"
    "td_core (thr k' t) = td_core ((thr k t)\<lparr>td_state := TDS_READY, td_timer := u\<rparr>)"
    "same_rest k' k2" "total_pending k' = total_pending k2" "\<And>x. x \<notin> {q, runQueue} \<Longrightarrow> queue k' x = queue k x"
    "quiet k' (woken k t q Q)"
proof -
  note Q = kinvD(1) [OF I]
  note ds = dequeue_spec [OF queuesD(1) [OF Q, of q] sp, folded k1]
  note dq = dequeue_queues [OF Q sp, folded k1]
  have t: "t \<in> set (Q q)" "t \<noteq> NULL" "t \<noteq> SIGNALED" using sp queuesD(2) [OF Q, of t q] by auto
  have d: "distinct (Q q)" using queue_okD(3) [OF queuesD(1) [OF Q, of q]] .
  let ?Q1 = "Q(q := as @ bs)"
  have flds: "td_qnxt (thr k2 x) = td_qnxt (thr k1 x) \<and> td_qpec (thr k2 x) = td_qpec (thr k1 x)
      \<and> td_queue (thr k2 x) = td_queue (thr k1 x) \<and> td_priority (thr k2 x) = td_priority (thr k1 x)" for x
    by (simp add: th)
  have Q2: "queues k2 ?Q1" and p2: "pending k2 p (?Q1 p) = pending k1 p (?Q1 p)" for p
    using queues_frame [OF dq(1) flds qu] by blast+
  have sig: "queue k2 runQueue \<noteq> SIGNALED" using ds(5) [of runQueue] q kinvD(2) [OF I] by (simp add: qu)
  have qt2: "quiet k2 ?Q1" using queues_frame(3) [OF dq(1) flds qu] dq(4) [OF q kinvD(8) [OF I]] by simp
  obtain k' where k': "NutThreadAddPriQueue t runQueue k2 = Some k'"
    "queues k' (?Q1(runQueue := rank_insert (prio k2) t (?Q1 runQueue)))" "queue k' runQueue \<noteq> SIGNALED"
    "\<And>x. td_core (thr k' x) = td_core (thr k2 x)" "\<And>x. x \<noteq> runQueue \<Longrightarrow> queue k' x = queue k2 x"
    "\<And>p. p \<noteq> runQueue \<Longrightarrow> pending k' p (?Q1 p) = pending k2 p (?Q1 p)"
    "same_rest k' k2" "total_pending k' = total_pending k2"
    "quiet k2 ?Q1 \<Longrightarrow> quiet k' (?Q1(runQueue := rank_insert (prio k2) t (?Q1 runQueue)))"
    by (rule ready_spec [OF Q2 dq(3) t(2,3) sig]) (rule that)
  have pr: "prio k2 = prio k" using core_prio [of k1 k, OF ds(3)] flds by (simp add: fun_eq_iff)
  have rm: "remove1 t (Q q) = as @ bs" using sp d by (simp add: remove1_append)
  have W: "woken k t q Q = ?Q1(runQueue := rank_insert (prio k2) t (?Q1 runQueue))"
    using q by (simp add: woken_def rm pr)
  have core: "td_core (thr k' x) = td_core (thr k x)" if "x \<noteq> t" for x
    using k'(4) [of x] ds(3) [of x] that by (simp add: th)
  have coret: "td_core (thr k' t) = td_core ((thr k t)\<lparr>td_state := TDS_READY, td_timer := u\<rparr>)"
    using k'(4) [of t] core_cong [OF ds(3) [of t]] by (simp add: th)
  have pq: "pending k' q (as @ bs) = (if as @ bs = [] then min 1 (pending k q (Q q)) else pending k q (Q q))"
    using k'(6) [OF q] p2 [of q] ds(2) by simp
  have po: "pending k' p (Q p) = pending k p (Q p)" if "p \<noteq> q" "p \<noteq> runQueue" for p
    using k'(6) [OF that(2)] p2 [of p] dq(2) [OF that(1)] that(1) by simp
  have qo: "queue k' x = queue k x" if "x \<notin> {q, runQueue}" for x
    using k'(5) [of x] ds(5) [of x] that by (simp add: qu)
  show thesis
    by (rule that [OF k'(1) k'(2) [folded W] k'(3) pq po core coret k'(7,8) qo k'(9) [OF qt2, folded W]])
qed

lemma kinv_wakeI:
  assumes I: "kinv k Q ts hs A" and t: "t \<in> set (Q q)" "q \<noteq> runQueue"
    and qs: "queues k' (woken k t q Q)" "queue k' runQueue \<noteq> SIGNALED" "quiet k' (woken k t q Q)"
    and T: "timers k' ts'" "fst ` set ts' = fst ` set ts" and H: "hmem k' = hmem k" "mem_guard k' = mem_guard k"
    and core: "\<And>x. x \<noteq> t \<Longrightarrow> td_core (thr k' x) = td_core (thr k x)"
    and tm: "\<And>x. x \<noteq> td_timer (thr k t) \<or> td_timer (thr k t) = NULL \<Longrightarrow> tn_core (tmr k' x) = tn_core (tmr k x)"
    and stop: "td_timer (thr k t) \<noteq> NULL \<Longrightarrow> tn_flags (tmr k' (td_timer (thr k t))) = tn_flags (tmr k (td_timer (thr k t))) \<and>
      (tn_callback (tmr k' (td_timer (thr k t))) = NoCallback \<or>
       tn_callback (tmr k' (td_timer (thr k t))) = CbEventTimeout \<and> tn_arg (tmr k' (td_timer (thr k t))) = q)"
  shows "kinv k' (woken k t q Q) ts' hs A"
proof -
  have "links k' (woken k t q Q) (fst ` set ts)"
  proof (rule links_wake [OF kinvD(7) [OF I] kinvD(1) [OF I] t])
    show "td_timer (thr k' x) = td_timer (thr k x)" if "x \<noteq> t" for x using td_core_eqD [OF core [OF that]] by blast
    show "tn_callback (tmr k' tn) = tn_callback (tmr k tn) \<and> tn_arg (tmr k' tn) = tn_arg (tmr k tn)"
      if "tn \<noteq> td_timer (thr k t) \<or> td_timer (thr k t) = NULL" for tn using tn_core_eqD [OF tm [OF that]] by blast
  qed (use stop in blast)
  moreover have "tn_flags (tmr k' tn) = tn_flags (tmr k tn)" for tn
    using stop tn_core_eqD [OF tm [of tn]] by (cases "tn \<noteq> td_timer (thr k t) \<or> td_timer (thr k t) = NULL") auto
  then have "owned k' (fst ` set ts) hs" using kinvD(6) [OF I] by (simp add: owned_def)
  moreover have "kheap k' hs A" using kinvD(4) [OF I] kheap_frame [OF H] by simp
  moreover have "timer_mem ts' hs A" using kinvD(5) [OF I] T(2) by (simp add: timer_mem_def)
  ultimately show ?thesis using qs T by (simp add: kinv_def)
qed

lemma queue_head:
  assumes "queues k Q" and "Q q = t # us"
  shows "queue k q = t" "queue k q \<noteq> SIGNALED" "queue k q \<noteq> NULL"
proof -
  note ok = queuesD(1) [OF assms(1), of q, unfolded assms(2)]
  show "queue k q \<noteq> SIGNALED" using queue_okD(2) [OF ok] by auto
  then show "queue k q = t" using queue_okD(1) [OF ok] by simp
  then show "queue k q \<noteq> NULL" using queue_okD(5) [OF ok] by auto
qed

lemma timer_idem: "td_timer i = u \<Longrightarrow> i\<lparr>td_timer := u\<rparr> = i"
  by (cases i) simp

lemma core_fields:
  "td_core j = td_core (i\<lparr>td_state := s, td_timer := u\<rparr>) \<Longrightarrow> td_state j = s \<and> td_timer j = u"
  by (cases i; cases j) (simp add: td_core_def)

lemma post_async_wakes:
  assumes I: "kinv k Q ts hs A" and q: "q \<noteq> runQueue" and Qq: "Q q = t # us"
  obtains k' ts' where "NutEventPostAsync q k = Some (k', 1)" "kinv k' (woken k t q Q) ts' hs A"
    "pending k' q us = (if us = [] then min 1 (pending k q (Q q)) else pending k q (Q q))"
    "same_others t k' k" "td_state (thr k' t) = TDS_READY" "td_timer (thr k' t) = NULL"
    "filter (\<lambda>p. fst p \<noteq> td_timer (thr k t)) (expiry 0 ts') = filter (\<lambda>p. fst p \<noteq> td_timer (thr k t)) (expiry 0 ts)"
    "td_timer (thr k t) \<noteq> NULL \<Longrightarrow> tn_callback (tmr k' (td_timer (thr k t))) = NoCallback"
    "\<And>p. p \<noteq> q \<Longrightarrow> p \<noteq> runQueue \<Longrightarrow> pending k' p (Q p) = pending k p (Q p)"
    "\<And>x. x \<notin> {q, runQueue} \<Longrightarrow> queue k' x = queue k x"
    "\<And>x. x \<noteq> td_timer (thr k t) \<or> td_timer (thr k t) = NULL \<Longrightarrow> tn_core (tmr k' x) = tn_core (tmr k x)"
    "fst ` set ts' = fst ` set ts"
proof -
  note Q = kinvD(1) [OF I] and hd = queue_head [of k Q q t us, OF kinvD(1) [OF I] Qq]
  let ?k1 = "dequeue_thread t (Root q) k" and ?tn = "td_timer (thr k t)"
  have sp: "Q q = [] @ t # us" using Qq by simp
  note ds = dequeue_spec [OF queuesD(1) [OF Q, of q] sp, simplified last_link.simps]
  have k1: "?k1 = dequeue_thread t (last_link (Root q) []) k" by simp
  have tq: "t \<in> set (Q q)" using Qq by simp
  have tm1: "td_timer (thr ?k1 t) = ?tn" using td_core_eqD [OF ds(3) [of t]] by blast
  note sr = same_restD [OF ds(6)]
  have T1: "timers ?k1 ts" by (rule timer_inv_frame(1) [OF I sr(1,5,8,9)])
  obtain k2 ts' where k2: "(if ?tn \<noteq> NULL then NutTimerStop ?tn ?k1 else Some ?k1) = Some k2"
    "timers k2 ts'" "only_timers k2 ?k1" "fst ` set ts' = fst ` set ts"
    "filter (\<lambda>p. fst p \<noteq> ?tn) (expiry 0 ts') = filter (\<lambda>p. fst p \<noteq> ?tn) (expiry 0 ts)"
    "\<And>x. x \<noteq> ?tn \<or> ?tn = NULL \<Longrightarrow> tn_core (tmr k2 x) = tn_core (tmr k x)"
    "?tn \<noteq> NULL \<Longrightarrow> tn_callback (tmr k2 ?tn) = NoCallback \<and> tn_flags (tmr k2 ?tn) = tn_flags (tmr k ?tn)"
  proof (cases "?tn = NULL")
    case True
    then show thesis using that [of ?k1 ts] T1 sr(1) by simp
  next
    case False
    have "?tn \<in> fst ` set ts" using linksD(1) [OF kinvD(7) [OF I] q tq False] by blast
    then obtain k2 ts' where s: "NutTimerStop ?tn ?k1 = Some k2" "timers k2 ts'" "only_timers k2 ?k1"
      "fst ` set ts' = fst ` set ts"
      "filter (\<lambda>p. fst p \<noteq> ?tn) (expiry 0 ts') = filter (\<lambda>p. fst p \<noteq> ?tn) (expiry 0 ts)"
      "ts' = (if tn_ticks_left (tmr ?k1 ?tn) = 0 then ts else delta_insert ?tn 0 (delta_remove ?tn ts))"
      "tn_callback (tmr k2 ?tn) = NoCallback" "tn_ticks (tmr k2 ?tn) = 0"
      "tn_flags (tmr k2 ?tn) = tn_flags (tmr ?k1 ?tn)"
      "\<And>x. x \<noteq> ?tn \<Longrightarrow> tn_core (tmr k2 x) = tn_core (tmr ?k1 x)"
      "\<And>x. x \<notin> fst ` set ts \<Longrightarrow> tmr k2 x = tmr ?k1 x"
      by (rule timer_stop_spec [OF T1]) (rule that)
    then show thesis using that [of k2 ts'] False sr(1) by simp
  qed
  let ?k3 = "if ?tn \<noteq> NULL then upd_thr t (\<lambda>i. i\<lparr>td_timer := NULL\<rparr>) k2 else k2"
  let ?k4 = "upd_thr t (\<lambda>i. i\<lparr>td_state := TDS_READY\<rparr>) ?k3"
  note ot = only_timersD [OF k2(3)]
  have th4: "thr ?k4 x = (if x = t then (thr ?k1 t)\<lparr>td_state := TDS_READY, td_timer := NULL\<rparr> else thr ?k1 x)" for x
    using ot(1) tm1 by (cases "?tn = NULL") (auto simp: timer_idem)
  have q4: "queue ?k4 = queue ?k1" using ot(2) by simp
  obtain k' where w: "NutThreadAddPriQueue t runQueue ?k4 = Some k'" "queues k' (woken k t q Q)"
    "queue k' runQueue \<noteq> SIGNALED"
    "pending k' q ([] @ us) = (if [] @ us = [] then min 1 (pending k q (Q q)) else pending k q (Q q))"
    "\<And>p. p \<noteq> q \<Longrightarrow> p \<noteq> runQueue \<Longrightarrow> pending k' p (Q p) = pending k p (Q p)"
    "\<And>x. x \<noteq> t \<Longrightarrow> td_core (thr k' x) = td_core (thr k x)"
    "td_core (thr k' t) = td_core ((thr k t)\<lparr>td_state := TDS_READY, td_timer := NULL\<rparr>)"
    "same_rest k' ?k4" "total_pending k' = total_pending ?k4" "\<And>x. x \<notin> {q, runQueue} \<Longrightarrow> queue k' x = queue k x"
    "quiet k' (woken k t q Q)"
    by (rule wake_thread_spec [OF I q sp k1 th4 q4]) (rule that)
  have run: "NutEventPostAsync q k = Some (k', 1)"
    using hd k2(1) w(1) tm1 by (cases "?tn = NULL") (simp_all add: NutEventPostAsync_def)
  note s4 = same_restD [OF w(8)]
  have tmk: "tmr k' = tmr k2" using s4(1) by simp
  have nl: "nutTimerList k' = nutTimerList k2" using s4(5) by simp
  have T': "timers k' ts'" using k2(2) timers_same [OF tmk nl] by simp
  have flds: "td_state (thr k' t) = TDS_READY" "td_timer (thr k' t) = NULL" using core_fields [OF w(7)] by simp_all
  have K: "kinv k' (woken k t q Q) ts' hs A"
  proof (rule kinv_wakeI [OF I tq q w(2,3,11) T' k2(4) _ _ w(6)])
    show "hmem k' = hmem k" "mem_guard k' = mem_guard k" using s4(8,9) ot(12,13) sr(8,9) by simp_all
    show "tn_core (tmr k' x) = tn_core (tmr k x)" if "x \<noteq> ?tn \<or> ?tn = NULL" for x using k2(6) [OF that] tmk by simp
  qed (use k2(7) tmk in auto)
  have so: "same_others t k' k"
    unfolding same_others_def using w(6,7) flds s4 ot sr w(9) ds(7) by simp
  show thesis
    using that [OF run K _ so flds k2(5) _ w(5) w(10) _ k2(4)] w(4) k2(6,7) tmk by simp
qed

lemma post_async_empty:
  assumes "Q q = []" "queues k Q" "queue k q \<noteq> SIGNALED"
  shows "NutEventPostAsync q k = Some (set_queue q SIGNALED k, 0)"
proof -
  have "queue k q = NULL" using queue_okD(1) [OF queuesD(1) [OF assms(2), of q] assms(3)] assms(1) by simp
  then show ?thesis using assms(3) by (simp add: NutEventPostAsync_def)
qed

lemma kinv_set_queue:
  assumes I: "kinv k Q ts hs A" and "Q q = []" "q \<noteq> runQueue" "v = SIGNALED \<or> v = NULL"
  shows "kinv (set_queue q v k) Q ts hs A"
proof -
  have "queue_ok (set_queue q v k) p (Q p)" for p
  proof (cases "p = q")
    case True
    then show ?thesis using assms(2,4) by (auto simp: queue_ok_def)
  next
    case False
    then show ?thesis using queue_ok_frame(1) [OF queuesD(1) [OF kinvD(1) [OF I], of p], of "set_queue q v k"] by simp
  qed
  moreover have "timers (set_queue q v k) ts" "kheap (set_queue q v k) hs A" "owned (set_queue q v k) (fst ` set ts) hs"
    by (rule timer_inv_frame [OF I]; simp)+
  moreover have "links (set_queue q v k) Q (fst ` set ts) = links k Q (fst ` set ts)" by (simp add: links_def)
  moreover have "pending (set_queue q v k) runQueue (Q runQueue) = pending k runQueue (Q runQueue)"
    using assms(3) by (simp add: pending_def split: list.split)
  ultimately show ?thesis using I assms(3) by (simp add: kinv_def queues_def quiet_def)
qed

section \<open>Timeouts and broadcasts\<close>

lemma timeout_walk_absent:
  "qchain k p ts \<Longrightarrow> \<forall>t \<in> set ts. td_timer (thr k t) \<noteq> tn \<Longrightarrow> timeout_walk k tn p l = Some k"
proof (induction ts arbitrary: p l)
  case Nil
  then show ?case by (subst timeout_walk.simps) simp
next
  case (Cons t ts)
  then show ?case by (subst timeout_walk.simps) simp
qed

lemma timeout_walk_found:
  "qchain k p (as @ t # bs) \<Longrightarrow> \<forall>u \<in> set as. td_timer (thr k u) \<noteq> tn \<Longrightarrow> td_timer (thr k t) = tn \<Longrightarrow>
     timeout_walk k tn p l = map_option (upd_thr t (\<lambda>i. i\<lparr>td_timer := SIGNALED\<rparr>))
       (NutThreadAddPriQueue t runQueue (upd_thr t (\<lambda>i. i\<lparr>td_state := TDS_READY\<rparr>) (dequeue_thread t (last_link l as) k)))"
proof (induction as arbitrary: p l)
  case Nil
  then show ?case by (subst timeout_walk.simps) (simp add: map_conv_bind_option comp_def)
next
  case (Cons a as)
  then show ?case by (subst timeout_walk.simps) simp
qed

lemma td_core_timer_state:
  "td_core j = td_core (i\<lparr>td_state := s, td_timer := u\<rparr>) \<Longrightarrow>
     td_core (j\<lparr>td_timer := v\<rparr>) = td_core (i\<lparr>td_state := s, td_timer := v\<rparr>)"
  by (cases i; cases j) (simp add: td_core_def)

lemma event_timeout_wakes:
  assumes I: "kinv k Q ts hs A" and q: "q \<noteq> runQueue" and t: "t \<in> set (Q q)"
    and tn: "td_timer (thr k t) = tn" "tn \<noteq> NULL"
  obtains k' where "NutEventTimeout tn q k = Some k'" "kinv k' (woken k t q Q) ts hs A"
    "same_others t k' k" "td_state (thr k' t) = TDS_READY" "td_timer (thr k' t) = SIGNALED"
    "tmr k' = tmr k" "hmem k' = hmem k" "nutTimerList k' = nutTimerList k"
proof -
  note Q = kinvD(1) [OF I]
  obtain as bs where sp: "Q q = as @ t # bs" using split_list [OF t] by blast
  note ok = queuesD(1) [OF Q, of q]
  have sig: "queue k q \<noteq> SIGNALED" using queue_okD(2) [OF ok] sp by auto
  have ch: "qchain k (queue k q) (as @ t # bs)" using queue_okD(1) [OF ok sig] sp by simp
  have un: "\<forall>u \<in> set as. td_timer (thr k u) \<noteq> tn"
  proof
    fix u assume u: "u \<in> set as"
    have "u \<in> set (Q q)" "u \<noteq> t" using u sp queue_okD(3) [OF ok] by auto
    then show "td_timer (thr k u) \<noteq> tn" using linksD(2) [OF kinvD(7) [OF I] q t, of u] tn by auto
  qed
  let ?k1 = "dequeue_thread t (last_link (Root q) as) k"
  let ?k2 = "upd_thr t (\<lambda>i. i\<lparr>td_state := TDS_READY\<rparr>) ?k1"
  note ds = dequeue_spec [OF ok sp]
  have tm1: "td_timer (thr ?k1 t) = tn" using td_core_eqD [OF ds(3) [of t]] tn(1) by simp
  have th2: "thr ?k2 x = (if x = t then (thr ?k1 t)\<lparr>td_state := TDS_READY, td_timer := tn\<rparr> else thr ?k1 x)" for x
    using tm1 by (auto simp: timer_idem)
  have q2: "queue ?k2 = queue ?k1" by simp
  obtain k' where w: "NutThreadAddPriQueue t runQueue ?k2 = Some k'" "queues k' (woken k t q Q)"
    "queue k' runQueue \<noteq> SIGNALED"
    "pending k' q (as @ bs) = (if as @ bs = [] then min 1 (pending k q (Q q)) else pending k q (Q q))"
    "\<And>p. p \<noteq> q \<Longrightarrow> p \<noteq> runQueue \<Longrightarrow> pending k' p (Q p) = pending k p (Q p)"
    "\<And>x. x \<noteq> t \<Longrightarrow> td_core (thr k' x) = td_core (thr k x)"
    "td_core (thr k' t) = td_core ((thr k t)\<lparr>td_state := TDS_READY, td_timer := tn\<rparr>)"
    "same_rest k' ?k2" "total_pending k' = total_pending ?k2" "\<And>x. x \<notin> {q, runQueue} \<Longrightarrow> queue k' x = queue k x"
    "quiet k' (woken k t q Q)"
    by (rule wake_thread_spec [OF I q sp refl th2 q2]) (rule that)
  let ?k3 = "upd_thr t (\<lambda>i. i\<lparr>td_timer := SIGNALED\<rparr>) k'"
  have run: "NutEventTimeout tn q k = Some ?k3"
    using sig timeout_walk_found [OF ch un tn(1), of "Root q"] w(1) by (simp add: NutEventTimeout_def Let_def)
  note s = same_restD [OF w(8)] and s1 = same_restD [OF ds(6)]
  have tmr3: "tmr ?k3 = tmr k" "nutTimerList ?k3 = nutTimerList k" "hmem ?k3 = hmem k" "mem_guard ?k3 = mem_guard k"
    using s s1 by simp_all
  have core: "td_core (thr ?k3 x) = td_core (thr k x)" if "x \<noteq> t" for x using w(6) [OF that] that by simp
  have coret: "td_core (thr ?k3 t) = td_core ((thr k t)\<lparr>td_state := TDS_READY, td_timer := SIGNALED\<rparr>)"
    using td_core_timer_state [OF w(7)] by simp
  have flds: "td_state (thr ?k3 t) = TDS_READY" "td_timer (thr ?k3 t) = SIGNALED" using core_fields [OF coret] by simp_all
  have q3: "queues ?k3 (woken k t q Q)" by (rule queues_frame(1) [OF w(2)]) auto
  have cb: "tn_callback (tmr k tn) = CbEventTimeout \<and> tn_arg (tmr k tn) = q"
    using linksD(1) [OF kinvD(7) [OF I] q t] tn by simp
  have K: "kinv ?k3 (woken k t q Q) ts hs A"
  proof (rule kinv_wakeI [OF I t q q3 _ _ timer_inv_frame(1) [OF I tmr3] refl tmr3(3,4)])
    show "queue ?k3 runQueue \<noteq> SIGNALED" using w(3) by simp
    show "quiet ?k3 (woken k t q Q)" using queues_frame(3) [OF w(2), of ?k3] w(11) by simp
  qed (use tmr3(1) cb tn core in simp_all)
  have so: "same_others t ?k3 k"
    unfolding same_others_def using core coret flds s s1 w(9) ds(7) by simp
  show thesis by (rule that [OF run K so flds tmr3(1,3,2)])
qed

lemma event_timeout_none:
  assumes Q: "queues k Q" and "\<And>t. t \<in> set (Q q) \<Longrightarrow> td_timer (thr k t) \<noteq> tn"
  shows "NutEventTimeout tn q k = Some k"
  using queue_okD(1) [OF queuesD(1) [OF Q, of q]] timeout_walk_absent [of k "queue k q" "Q q" tn "Root q"] assms(2)
  by (simp add: NutEventTimeout_def Let_def)

text \<open>A broadcast makes every waiting thread ready.\<close>

fun woken_all :: "kernel \<Rightarrow> addr \<Rightarrow> addr list \<Rightarrow> (addr \<Rightarrow> addr list) \<Rightarrow> addr \<Rightarrow> addr list" where
  "woken_all k q [] Q = Q"
| "woken_all k q (t # us) Q = woken_all k q us (woken k t q Q)"

lemma same_others_prio: "same_others t k' k \<Longrightarrow> prio k' = prio k"
proof
  fix x assume s: "same_others t k' k"
  show "prio k' x = prio k x"
  proof (cases "x = t")
    case True
    have "td_core (thr k' t) = td_core ((thr k t)\<lparr>td_state := td_state (thr k' t), td_timer := td_timer (thr k' t)\<rparr>)"
      using s by (simp only: same_others_def)
    from td_core_eqD [OF this] True show ?thesis by simp
  next
    case False
    then have "td_core (thr k' x) = td_core (thr k x)" using s by (simp only: same_others_def simp_thms)
    from td_core_eqD [OF this] show ?thesis by simp
  qed
qed

lemma woken_cong: "prio k' = prio k \<Longrightarrow> woken k' t q Q = woken k t q Q"
  by (simp add: woken_def)

lemma woken_all_cong: "prio k' = prio k \<Longrightarrow> woken_all k' q us Q = woken_all k q us Q"
proof (induction us arbitrary: Q)
  case (Cons t us)
  then show ?case using woken_cong [of k' k t q Q] by (simp only: woken_all.simps)
qed simp

lemma broadcast_loop_spec:
  assumes "kinv k Q ts hs A" and "q \<noteq> runQueue" and "Q q = us" and "us \<noteq> []"
  shows "\<exists>k' ts'. broadcast_loop q n k = Some (k', n + int (length us)) \<and> kinv k' (woken_all k q us Q) ts' hs A
    \<and> (\<forall>t \<in> set us. td_state (thr k' t) = TDS_READY \<and> td_timer (thr k' t) = NULL)
    \<and> (\<forall>t. t \<notin> set us \<longrightarrow> td_core (thr k' t) = td_core (thr k t))
    \<and> (queue k' q = NULL \<or> queue k' q = SIGNALED) \<and> runningThread k' = runningThread k"
  using assms
proof (induction us arbitrary: k Q ts n)
  case (Cons t us)
  note IH = Cons.IH and prems = Cons.prems
  obtain k1 ts1 where p: "NutEventPostAsync q k = Some (k1, 1)" "kinv k1 (woken k t q Q) ts1 hs A"
    "same_others t k1 k" "td_state (thr k1 t) = TDS_READY" "td_timer (thr k1 t) = NULL"
    using post_async_wakes [OF Cons.prems(1,2,3)] by metis
  have Q1: "woken k t q Q q = us" using Cons.prems(2,3) by (simp add: woken_def)
  have so: "td_core (thr k1 x) = td_core (thr k x)" if "x \<noteq> t" for x using p(3) that by (simp add: same_others_def)
  have rt: "runningThread k1 = runningThread k" using p(3) by (simp add: same_others_def)
  have dt: "t \<notin> set us" using queue_okD(3) [OF queuesD(1) [OF kinvD(1) [OF Cons.prems(1)], of q]] Cons.prems(3) by simp
  show ?case
  proof (cases us)
    case Nil
    have "queue k1 q = NULL \<or> queue k1 q = SIGNALED"
      using queue_okD(1) [OF queuesD(1) [OF kinvD(1) [OF p(2)], of q]] Q1 Nil by auto
    moreover have "broadcast_loop q n k = Some (k1, n + 1)"
      using p(1) calculation by (subst broadcast_loop.simps) auto
    ultimately show ?thesis using p Nil so rt by (intro exI [of _ k1] exI [of _ ts1]) auto
  next
    case (Cons u vs)
    note hd = queue_head [of k1 "woken k t q Q" q u vs, OF kinvD(1) [OF p(2)] Q1 [unfolded Cons]]
    have st: "broadcast_loop q n k = broadcast_loop q (n + 1) k1"
      using p(1) hd(2,3) by (subst broadcast_loop.simps) simp
    obtain k' ts' where b: "broadcast_loop q (n + 1) k1 = Some (k', (n + 1) + int (length us))"
      "kinv k' (woken_all k1 q us (woken k t q Q)) ts' hs A"
      "\<forall>t \<in> set us. td_state (thr k' t) = TDS_READY \<and> td_timer (thr k' t) = NULL"
      "\<forall>t. t \<notin> set us \<longrightarrow> td_core (thr k' t) = td_core (thr k1 t)"
      "queue k' q = NULL \<or> queue k' q = SIGNALED" "runningThread k' = runningThread k1"
    proof -
      have "us \<noteq> []" using Cons by simp
      from IH [OF p(2) prems(2) Q1 this, of "n + 1"] that show thesis by blast
    qed
    have tt: "td_state (thr k' t) = TDS_READY \<and> td_timer (thr k' t) = NULL"
      using b(4) dt td_core_eqD [of "thr k' t" "thr k1 t"] p(4,5) by simp
    have "kinv k' (woken_all k q (t # us) Q) ts' hs A"
      using b(2) woken_all_cong [OF same_others_prio [OF p(3)]] by simp
    then show ?thesis
      using b st tt so rt by (intro exI [of _ k'] exI [of _ ts']) auto
  qed
qed simp

end
