(* ===== verification/Nut_Timer_Fire.thy ===== *)
theory Nut_Timer_Fire
  imports Nut_Event_Inv "HOL-Library.Sublist"
begin

text \<open>
  What processing the elapsed timers does (\<^verbatim>\<open>NutTimerProcessElapsed\<close> of
  src/nut/os/timer.c).  The abstract list of expiry times is advanced by the function
  \<^verbatim>\<open>elapse\<close>; the concrete loop is shown to follow it, waking sleepers and timing
  out waiters through the callbacks of the timers that fire.
\<close>

unbundle bit_operations_syntax

section \<open>Removing an expired timer\<close>

lemma timers_tail:
  assumes "timers k ((tn, 0) # ts)"
  defines "k1 \<equiv> k\<lparr>nutTimerList := tn_next (tmr k tn)\<rparr>"
  defines "k2 \<equiv> (if nutTimerList k1 \<noteq> NULL then upd_tmr (nutTimerList k1) (\<lambda>i. i\<lparr>tn_prev := NULL\<rparr>) k1 else k1)"
  shows "timers k2 ts" and "tn \<notin> fst ` set ts" and "tn \<noteq> NULL"
proof -
  have seg: "tseg k tn (tn_next (tmr k tn)) ts NULL" and tn: "tn \<notin> fst ` set ts" "tn \<noteq> NULL" and d: "distinct (map fst ts)"
    using timersD(1-3) [OF assms(1)] by auto
  show "tn \<notin> fst ` set ts" "tn \<noteq> NULL" using tn by simp_all
  have ex: "\<forall>(t, e) \<in> set (expiry 0 ts). e < 4294967296" using timersD(4) [OF assms(1)] by simp
  have "tseg k2 NULL (nutTimerList k2) ts NULL"
  proof (cases ts)
    case Nil
    then show ?thesis using seg by (simp add: k1_def k2_def)
  next
    case (Cons b r)
    obtain u e where b: "b = (u, e)" by (cases b)
    have u: "tn_next (tmr k tn) = u" "u \<noteq> NULL" "u \<notin> fst ` set r" "tn_ticks_left (tmr k u) = e"
      "tseg k u (tn_next (tmr k u)) r NULL" using seg Cons b d by auto
    have "tseg (upd_tmr u (\<lambda>i. i\<lparr>tn_prev := NULL\<rparr>) k1) u (tn_next (tmr k u)) r NULL"
      using u(3,5) tseg_frame [of r k1 k] by (simp add: k1_def)
    then show ?thesis using u Cons b by (simp add: k2_def k1_def)
  qed
  then show "timers k2 ts" using d ex by (simp add: timers_def)
qed

lemma timer_expire_spec:
  assumes T: "timers k ((tn, 0) # ts)" and H: "kheap k hs A" and M: "timer_mem ((tn, 0) # ts) hs A"
    and O: "owned k (fst ` set ((tn, 0) # ts)) hs"
  defines "ts' \<equiv> (if tn_ticks (tmr k tn) = 0 then ts else delta_insert tn (tn_ticks (tmr k tn)) ts)"
  obtains k' hs' where "timer_expire tn k = Some k'" "timers k' ts'" "kheap k' hs' A" "timer_mem ts' hs' A"
    "owned k' (fst ` set ts') hs'" "\<And>x. tn_core (tmr k' x) = tn_core (tmr k x)" "set hs' \<subseteq> set hs"
    "only_timers k' (k\<lparr>hmem := hmem k'\<rparr>)"
proof -
  let ?k1 = "k\<lparr>nutTimerList := tn_next (tmr k tn)\<rparr>"
  let ?k2 = "if nutTimerList ?k1 \<noteq> NULL then upd_tmr (nutTimerList ?k1) (\<lambda>i. i\<lparr>tn_prev := NULL\<rparr>) ?k1 else ?k1"
  let ?k3 = "upd_tmr tn (\<lambda>i. i\<lparr>tn_ticks_left := tn_ticks i\<rparr>) ?k2"
  note tl = timers_tail [OF T]
  have hd: "nutTimerList k = tn" using timersD(1) [OF T] by simp
  have T3: "timers ?k3 ts" by (rule timers_frame [OF tl(1)]) (use tl(2) in auto)
  have core3: "tn_core (tmr ?k3 x) = tn_core (tmr k x)" for x by simp
  have O3: "only_timers ?k3 k" by simp
  have left3: "tn_ticks_left (tmr ?k3 tn) = tn_ticks (tmr k tn)"
    using tn_core_eqD [of "tmr ?k2 tn" "tmr k tn"] by simp
  have fl3: "tn_flags (tmr ?k3 tn) = tn_flags (tmr k tn)" using tn_core_eqD [OF core3] by simp
  have ex: "timer_expire tn k = (if tn_ticks (tmr k tn) = 0 then
      (if tn_flags (tmr k tn) AND TM_HAS_OWN_STRUCT = 0 then map_option fst (NutHeapFree tn ?k3) else Some ?k3)
      else NutTimerInsert tn ?k3)"
    unfolding timer_expire_def Let_def hd left3 fl3 ..
  have H3: "kheap ?k3 hs A" using H kheap_frame [of ?k3 k] by simp
  have M3: "timer_mem ts hs A" using M by (simp add: timer_mem_def)
  have own: "owned k' X hs'" if "\<And>x. tn_core (tmr k' x) = tn_core (tmr k x)" "X \<subseteq> insert tn (fst ` set ts)"
    "\<And>x. x \<in> X \<Longrightarrow> x \<in> set hs \<Longrightarrow> x \<in> set hs'" for k' X hs'
    unfolding owned_def
  proof (intro ballI impI)
    fix x assume x: "x \<in> X" "tn_flags (tmr k' x) AND TM_HAS_OWN_STRUCT = 0"
    then have "x \<in> fst ` set ((tn, 0) # ts)" "tn_flags (tmr k x) AND TM_HAS_OWN_STRUCT = 0"
      using that(2) tn_core_eqD [OF that(1) [of x]] by auto
    then have "x \<in> set hs" using O unfolding owned_def by blast
    then show "x \<in> set hs'" using that(3) x(1) by blast
  qed
  show thesis
  proof (cases "tn_ticks (tmr k tn) = 0")
    case True
    then have ts': "ts' = ts" by (simp add: ts'_def)
    show thesis
    proof (cases "tn_flags (tmr k tn) AND TM_HAS_OWN_STRUCT = 0")
      case False
      then have "timer_expire tn k = Some ?k3" using ex True by simp
      then show thesis
      proof (rule that)
        show "timers ?k3 ts'" "kheap ?k3 hs A" "timer_mem ts' hs A" using T3 H3 M3 ts' by simp_all
        show "owned ?k3 (fst ` set ts') hs" by (rule own [OF core3]) (use ts' in auto)
      qed (use core3 in simp_all)
    next
      case heap: True
      then have "tn \<in> set hs" using O by (simp add: owned_def)
      then obtain m where fr: "NutHeapFree tn ?k3 = Some (?k3\<lparr>hmem := m\<rparr>, 0)" "kheap (?k3\<lparr>hmem := m\<rparr>) (remove1 tn hs) A"
        using kheap_free [OF H3] by blast
      let ?k4 = "?k3\<lparr>hmem := m\<rparr>"
      have run: "timer_expire tn k = Some ?k4" using ex True heap fr(1) by simp
      have c4: "tn_core (tmr ?k4 x) = tn_core (tmr k x)" for x using core3 [of x] by simp
      have ne: "x \<in> set (remove1 tn hs)" if "x \<in> fst ` set ts" "x \<in> set hs" for x
        using that tl(2) by (metis in_set_remove1)
      show thesis
      proof (rule that [OF run])
        show "timers ?k4 ts'" using T3 ts' timers_same [of ?k4 ?k3] by simp
        show "kheap ?k4 (remove1 tn hs) A" by (rule fr(2))
        show "timer_mem ts' (remove1 tn hs) A" unfolding ts' timer_mem_def
        proof
          fix x assume x: "x \<in> fst ` set ts"
          then have "x \<in> set hs \<or> x \<notin> A" using M3 by (simp only: timer_mem_def)
          then show "x \<in> set (remove1 tn hs) \<or> x \<notin> A" using ne [OF x] by blast
        qed
        show "owned ?k4 (fst ` set ts') (remove1 tn hs)" by (rule own [OF c4]) (use ts' ne in auto)
        show "set (remove1 tn hs) \<subseteq> set hs" by (rule set_remove1_subset)
        show "tn_core (tmr ?k4 x) = tn_core (tmr k x)" for x by (rule c4)
        show "only_timers ?k4 (k\<lparr>hmem := hmem ?k4\<rparr>)"
          by (cases k) (simp add: only_timers_def upd_tmr_def)
      qed
    qed
  next
    case False
    obtain k' where ins: "NutTimerInsert tn ?k3 = Some k'" "timers k' (delta_insert tn (tn_ticks (tmr k tn)) ts)"
      "only_timers k' ?k3" "\<And>x. tn_core (tmr k' x) = tn_core (tmr ?k3 x)"
      "\<And>x. x \<notin> insert tn (fst ` set ts) \<Longrightarrow> tmr k' x = tmr ?k3 x"
      by (rule timer_insert_spec [OF T3 tl(2,3), unfolded left3]) (rule that)
    have ts': "ts' = delta_insert tn (tn_ticks (tmr k tn)) ts" using False by (simp add: ts'_def)
    have run: "timer_expire tn k = Some k'" using ex False ins(1) by simp
    have c': "tn_core (tmr k' x) = tn_core (tmr k x)" for x using ins(4) core3 by simp
    note ot = only_timersD [OF ins(3)]
    have "hmem k' = hmem k" "mem_guard k' = mem_guard k" using ot(12,13) by simp_all
    then have H': "kheap k' hs A" using H kheap_frame by blast
    show thesis
    proof (rule that [OF run _ H'])
      show "timers k' ts'" using ins(2) ts' by simp
      show "timer_mem ts' hs A" using M ts' by (simp add: timer_mem_def)
      show "owned k' (fst ` set ts') hs" by (rule own [OF c']) (use ts' in auto)
      have "k\<lparr>hmem := hmem k'\<rparr> = k" using \<open>hmem k' = hmem k\<close> by simp
      then show "only_timers k' (k\<lparr>hmem := hmem k'\<rparr>)" using only_timers_trans [OF ins(3) O3] by simp
    qed (use c' in simp_all)
  qed
qed

section \<open>The callback of an expired timer\<close>

text \<open>
  The kernel's own timers: a callback of \<^verbatim>\<open>NutSleep\<close> (never periodic) or \<^verbatim>\<open>NutEventWait\<close>, or a
  timer that has been stopped.
\<close>

definition fixed_part :: "kernel \<Rightarrow> kernel \<Rightarrow> bool" where
  "fixed_part k' k \<longleftrightarrow> nut_ticks k' = nut_ticks k \<and> nut_ticks_resume k' = nut_ticks_resume k \<and>
     runningThread k' = runningThread k \<and> nutThreadList k' = nutThreadList k \<and> mem_guard k' = mem_guard k"

text \<open>
  A callback of an application that works on data of the application only, or posts events the way interrupt handlers do: it
  returns, the queues are well-formed and have the same threads, and threads, timers and memory are not touched.
\<close>

definition polite :: "(kernel \<Rightarrow> kernel option) \<Rightarrow> bool" where
  "polite f \<longleftrightarrow> (\<forall>k Q. queues k Q \<longrightarrow> quiet k Q \<longrightarrow> queue k runQueue \<noteq> SIGNALED \<longrightarrow>
     (\<exists>k'. f k = Some k' \<and> queues k' Q \<and> quiet k' Q \<and> queue k' runQueue \<noteq> SIGNALED \<and>
        (\<forall>x. td_core (thr k' x) = td_core (thr k x)) \<and> tmr k' = tmr k \<and> hmem k' = hmem k \<and>
        nutTimerList k' = nutTimerList k \<and> fixed_part k' k))"

definition own_timer :: "user_callback \<Rightarrow> kernel \<Rightarrow> addr \<Rightarrow> bool" where
  "own_timer user k tn \<longleftrightarrow>
     (tn_callback (tmr k tn) \<in> {NoCallback, CbEventTimeout, CbThreadWake} \<or>
       (\<exists>i. tn_callback (tmr k tn) = CbUser i \<and> polite (user i tn (tn_arg (tmr k tn))))) \<and>
     (tn_callback (tmr k tn) = CbThreadWake \<longrightarrow> tn_ticks (tmr k tn) = 0)"

definition own_timers :: "user_callback \<Rightarrow> kernel \<Rightarrow> addr set \<Rightarrow> bool" where
  "own_timers user k T \<longleftrightarrow> (\<forall>tn \<in> T. own_timer user k tn)"

lemma own_timer_cong: "tn_core (tmr k' tn) = tn_core (tmr k tn) \<Longrightarrow> own_timer user k' tn = own_timer user k tn"
  using tn_core_eqD [of "tmr k' tn" "tmr k tn"] by (simp add: own_timer_def)

text \<open>The threads that sleep or wait with one of the timers \<open>F\<close>.\<close>

definition sleeping :: "kernel \<Rightarrow> addr set \<Rightarrow> addr set" where
  "sleeping k F = {t. \<exists>tn \<in> F. tn_callback (tmr k tn) = CbThreadWake \<and> tn_arg (tmr k tn) = t}"

definition waiting :: "kernel \<Rightarrow> (addr \<Rightarrow> addr list) \<Rightarrow> addr set \<Rightarrow> addr set" where
  "waiting k Q F = {t. \<exists>q. q \<noteq> runQueue \<and> t \<in> set (Q q) \<and> td_timer (thr k t) \<noteq> NULL \<and> td_timer (thr k t) \<in> F}"

text \<open>
  The effect of a timer on the queues: the thread that sleeps with it is put into the run queue, the thread that waits with it
  in an event queue moves from there to the run queue, each behind the ready threads of the same or a higher priority.
\<close>

definition fire :: "kernel \<Rightarrow> addr \<Rightarrow> (addr \<Rightarrow> addr list) \<Rightarrow> addr \<Rightarrow> addr list" where
  "fire k tn Q =
     (case tn_callback (tmr k tn) of
        CbThreadWake \<Rightarrow> Q(runQueue := rank_insert (prio k) (tn_arg (tmr k tn)) (Q runQueue))
      | CbEventTimeout \<Rightarrow>
          (case List.find (\<lambda>t. td_timer (thr k t) = tn) (Q (tn_arg (tmr k tn))) of
             None \<Rightarrow> Q | Some t \<Rightarrow> woken k t (tn_arg (tmr k tn)) Q)
      | _ \<Rightarrow> Q)"

lemma fire_cong:
  assumes "prio k' = prio k" and "tn_core (tmr k' tn) = tn_core (tmr k tn)"
    and "tn_callback (tmr k tn) = CbEventTimeout \<Longrightarrow>
      \<forall>t \<in> set (Q (tn_arg (tmr k tn))). td_timer (thr k' t) = td_timer (thr k t)"
  shows "fire k' tn Q = fire k tn Q"
proof -
  have cb: "tn_callback (tmr k' tn) = tn_callback (tmr k tn)" and ar: "tn_arg (tmr k' tn) = tn_arg (tmr k tn)"
    using tn_core_eqD [OF assms(2)] by simp_all
  have fd: "List.find (\<lambda>t. td_timer (thr k' t) = tn) (Q (tn_arg (tmr k tn))) = List.find (\<lambda>t. td_timer (thr k t) = tn) (Q (tn_arg (tmr k tn)))"
    if "tn_callback (tmr k tn) = CbEventTimeout" using assms(3) [OF that] by (intro find_cong) auto
  have wo: "woken k' t q Q = woken k t q Q" for t q by (rule woken_cong [OF assms(1)])
  show ?thesis
    unfolding fire_def cb ar assms(1) wo by (cases "tn_callback (tmr k tn)") (use fd in simp_all)
qed

lemma woken_subset: "q \<noteq> runQueue \<Longrightarrow> set (woken k t p Q q) \<subseteq> set (Q q)"
  using set_remove1_subset [of t "Q p"] by (auto simp: woken_def)

lemma fire_subset:
  assumes "q \<noteq> runQueue"
  shows "set (fire k tn Q q) \<subseteq> set (Q q)"
  using woken_subset [OF assms] assms by (auto simp: fire_def split: tcallback.splits option.splits)

lemma fold_fire_cong:
  assumes "prio k' = prio k" and "\<And>x. tn_core (tmr k' x) = tn_core (tmr k x)"
    and "\<forall>tn \<in> set F. tn_callback (tmr k tn) = CbEventTimeout \<longrightarrow> tn_arg (tmr k tn) \<noteq> runQueue"
    and "\<And>q t. q \<noteq> runQueue \<Longrightarrow> t \<in> set (Q q) \<Longrightarrow> td_timer (thr k' t) = td_timer (thr k t)"
  shows "fold (fire k') F Q = fold (fire k) F Q"
  using assms(3,4)
proof (induction F arbitrary: Q)
  case (Cons tn F)
  have "fire k' tn Q = fire k tn Q" by (rule fire_cong [OF assms(1,2)]) (use Cons.prems in auto)
  moreover have "fold (fire k') F (fire k tn Q) = fold (fire k) F (fire k tn Q)"
  proof (rule Cons.IH)
    show "\<forall>tn \<in> set F. tn_callback (tmr k tn) = CbEventTimeout \<longrightarrow> tn_arg (tmr k tn) \<noteq> runQueue" using Cons.prems(1) by simp
    fix q t assume q: "q \<noteq> runQueue" and "t \<in> set (fire k tn Q q)"
    then have "t \<in> set (Q q)" using fire_subset [OF q] by blast
    then show "td_timer (thr k' t) = td_timer (thr k t)" using Cons.prems(2) [OF q] by simp
  qed
  ultimately show ?case by simp
qed simp

text \<open>The effect on the threads of the timers \<open>F\<close> running out.\<close>

definition timed_out :: "kernel \<Rightarrow> (addr \<Rightarrow> addr list) \<Rightarrow> addr set \<Rightarrow> kernel \<Rightarrow> (addr \<Rightarrow> addr list) \<Rightarrow> bool" where
  "timed_out k Q F k' Q' \<longleftrightarrow>
     (\<forall>t. t \<notin> sleeping k F \<union> waiting k Q F \<longrightarrow>
        td_core (thr k' t) = td_core (thr k t) \<and> (\<forall>p. t \<in> set (Q' p) \<longleftrightarrow> t \<in> set (Q p))) \<and>
     (\<forall>t \<in> sleeping k F. t \<in> set (Q' runQueue) \<and> td_state (thr k' t) = TDS_READY \<and> td_timer (thr k' t) = NULL) \<and>
     (\<forall>t \<in> waiting k Q F. t \<in> set (Q' runQueue) \<and> td_state (thr k' t) = TDS_READY \<and> td_timer (thr k' t) = SIGNALED) \<and>
     (\<forall>t. td_next (thr k' t) = td_next (thr k t) \<and> td_priority (thr k' t) = td_priority (thr k t)) \<and>
     subseq (Q runQueue) (Q' runQueue)"

lemma subseq_rank_insert: "subseq ts (rank_insert r t ts)"
proof -
  have "subseq (takeWhile (\<lambda>u. r u \<le> r t) ts @ dropWhile (\<lambda>u. r u \<le> r t) ts) (rank_insert r t ts)"
    unfolding rank_insert_def by (intro list_emb_append_mono) auto
  then show ?thesis by simp
qed

lemma timed_out_none: "timed_out k Q {} k Q"
  by (simp add: timed_out_def sleeping_def waiting_def)

lemma wake_links:
  assumes L: "links k Q T" and tn: "tn \<in> T" "tn_callback (tmr k tn) = CbThreadWake"
    and t: "t = tn_arg (tmr k tn)"
    and th: "\<And>x. x \<noteq> t \<Longrightarrow> td_timer (thr k' x) = td_timer (thr k x)" and tm: "tmr k' = tmr k"
    and Q': "Q' = Q(runQueue := rank_insert r t (Q runQueue))"
  shows "links k' Q' (T - {tn})"
proof -
  have nt: "t \<notin> set (Q q)" and tt: "td_timer (thr k t) = tn" for q using linksD(3) [OF L tn] t by auto
  have Qe: "p \<noteq> runQueue \<Longrightarrow> Q' p = Q p" for p using Q' by simp
  show ?thesis
    unfolding links_def
  proof (intro conjI allI impI ballI)
    fix q x assume q: "q \<noteq> runQueue" and x: "x \<in> set (Q' q)" and n: "td_timer (thr k' x) \<noteq> NULL"
    have xq: "x \<in> set (Q q)" "x \<noteq> t" using x Qe [OF q] nt by auto
    have n': "td_timer (thr k x) \<noteq> NULL" using n th [OF xq(2)] by simp
    show "td_timer (thr k' x) \<in> T - {tn}" "tn_callback (tmr k' (td_timer (thr k' x))) = CbEventTimeout"
      "tn_arg (tmr k' (td_timer (thr k' x))) = q"
      using linksD(1) [OF L q xq(1) n'] th [OF xq(2)] tm tn(2) by auto
  next
    fix q x y assume "q \<noteq> runQueue" "x \<in> set (Q' q)" "y \<in> set (Q' q)" "td_timer (thr k' x) \<noteq> NULL"
      "td_timer (thr k' x) = td_timer (thr k' y)"
    then show "x = y" using linksD(2) [OF L, of q x y] th Qe nt by metis
  next
    fix u assume u: "u \<in> T - {tn}" and cb: "tn_callback (tmr k' u) = CbThreadWake"
    have w: "tn_arg (tmr k u) \<noteq> NULL \<and> tn_arg (tmr k u) \<noteq> SIGNALED \<and> td_timer (thr k (tn_arg (tmr k u))) = u
      \<and> (\<forall>q. tn_arg (tmr k u) \<notin> set (Q q))" using linksD(3) [OF L, of u] u cb tm by simp
    then have ne: "tn_arg (tmr k u) \<noteq> t" using tt u by auto
    show "tn_arg (tmr k' u) \<noteq> NULL" "tn_arg (tmr k' u) \<noteq> SIGNALED" "td_timer (thr k' (tn_arg (tmr k' u))) = u"
      using w th [OF ne] tm by simp_all
    show "tn_arg (tmr k' u) \<notin> set (Q' q)" for q using w ne tm Q' by (cases "q = runQueue") auto
  next
    fix u assume "u \<in> T - {tn}" "tn_callback (tmr k' u) = CbEventTimeout"
    then show "tn_arg (tmr k' u) \<noteq> runQueue" using linksD(4) [OF L, of u] tm by simp
  qed
qed

lemma links_drop:
  assumes "links k Q T" and "\<And>q t. q \<noteq> runQueue \<Longrightarrow> t \<in> set (Q q) \<Longrightarrow> td_timer (thr k t) \<noteq> tn \<or> tn = NULL"
  shows "links k Q (T - {tn})"
  unfolding links_def
proof (intro conjI allI impI ballI)
  fix q t assume q: "q \<noteq> runQueue" "t \<in> set (Q q)" "td_timer (thr k t) \<noteq> NULL"
  show "td_timer (thr k t) \<in> T - {tn}" "tn_callback (tmr k (td_timer (thr k t))) = CbEventTimeout"
    "tn_arg (tmr k (td_timer (thr k t))) = q"
    using linksD(1) [OF assms(1) q] assms(2) [OF q(1,2)] q(3) by auto
next
  fix q t u assume "q \<noteq> runQueue" "t \<in> set (Q q)" "u \<in> set (Q q)" "td_timer (thr k t) \<noteq> NULL"
    "td_timer (thr k t) = td_timer (thr k u)"
  then show "t = u" by (rule linksD(2) [OF assms(1)])
next
  fix u assume "u \<in> T - {tn}" "tn_callback (tmr k u) = CbThreadWake"
  then show "tn_arg (tmr k u) \<noteq> NULL" "tn_arg (tmr k u) \<noteq> SIGNALED" "td_timer (thr k (tn_arg (tmr k u))) = u"
    "tn_arg (tmr k u) \<notin> set (Q q)" for q using linksD(3) [OF assms(1), of u] by auto
next
  fix u assume "u \<in> T - {tn}" "tn_callback (tmr k u) = CbEventTimeout"
  then show "tn_arg (tmr k u) \<noteq> runQueue" using linksD(4) [OF assms(1), of u] by auto
qed

lemma callback_wake:
  assumes I: "kinv k Q ts hs A" and tn: "tn \<in> fst ` set ts" "tn_callback (tmr k tn) = CbThreadWake"
  obtains k' Q' where "NutThreadWake tn (tn_arg (tmr k tn)) k = Some k'" "queues k' Q'" "queue k' runQueue \<noteq> SIGNALED"
    "links k' Q' (fst ` set ts - {tn})" "timed_out k Q {tn} k' Q'" "same_rest k' k" "quiet k' Q'" "Q' = fire k tn Q"
proof -
  let ?t = "tn_arg (tmr k tn)"
  let ?k1 = "upd_thr ?t (\<lambda>i. i\<lparr>td_timer := NULL, td_state := TDS_READY\<rparr>) k"
  note L = kinvD(7) [OF I]
  have t: "\<And>q. ?t \<notin> set (Q q)" "?t \<noteq> NULL" "?t \<noteq> SIGNALED" using linksD(3) [OF L tn] by auto
  have Q1: "queues ?k1 Q" by (rule queues_frame(1) [OF kinvD(1) [OF I]]) auto
  have sig: "queue ?k1 runQueue \<noteq> SIGNALED" using kinvD(2) [OF I] by simp
  let ?Q' = "Q(runQueue := rank_insert (prio ?k1) ?t (Q runQueue))"
  obtain k' where k': "NutThreadAddPriQueue ?t runQueue ?k1 = Some k'" "queues k' ?Q'" "queue k' runQueue \<noteq> SIGNALED"
    "\<And>x. td_core (thr k' x) = td_core (thr ?k1 x)" "\<And>x. x \<noteq> runQueue \<Longrightarrow> queue k' x = queue ?k1 x"
    "\<And>p. p \<noteq> runQueue \<Longrightarrow> pending k' p (Q p) = pending ?k1 p (Q p)"
    "same_rest k' ?k1" "total_pending k' = total_pending ?k1" "quiet ?k1 Q \<Longrightarrow> quiet k' ?Q'"
    by (rule ready_spec [OF Q1 t sig]) (rule that)
  have core: "td_core (thr k' x) = td_core (thr k x)" if "x \<noteq> ?t" for x using k'(4) [of x] that by simp
  have tmr': "tmr k' = tmr k" using same_restD(1) [OF k'(7)] by simp
  have tt: "td_state (thr k' ?t) = TDS_READY" "td_timer (thr k' ?t) = NULL" using td_core_eqD [OF k'(4) [of ?t]] by simp_all
  have lk: "links k' ?Q' (fst ` set ts - {tn})"
    by (rule wake_links [OF L tn refl _ tmr' refl]) (use td_core_eqD [OF core] in blast)
  have "waiting k Q {tn} = {}"
    using linksD(1) [OF L] tn(2) by (fastforce simp: waiting_def)
  moreover have "sleeping k {tn} = {?t}" using tn(2) by (auto simp: sleeping_def)
  moreover have "td_next (thr k' x) = td_next (thr k x) \<and> td_priority (thr k' x) = td_priority (thr k x)" for x
    using td_core_eqD [OF k'(4) [of x]] by simp
  ultimately have "timed_out k Q {tn} k' ?Q'" using core tt by (auto simp: timed_out_def subseq_rank_insert)
  moreover have "quiet k' ?Q'"
    using k'(9) queues_frame(3) [OF kinvD(1) [OF I], of ?k1] kinvD(8) [OF I] by simp
  moreover have "prio ?k1 = prio k" by auto
  then have "?Q' = fire k tn Q" unfolding fire_def tn(2) by (simp only: tcallback.case)
  ultimately show thesis
    using that [OF _ k'(2,3) lk] k'(1,7) by (simp add: NutThreadWake_def del: fun_upd_apply)
qed

lemma callback_timeout:
  assumes I: "kinv k Q ts hs A" and tn: "tn \<in> fst ` set ts" "tn_callback (tmr k tn) = CbEventTimeout"
  obtains k' Q' where "NutEventTimeout tn (tn_arg (tmr k tn)) k = Some k'" "queues k' Q'" "queue k' runQueue \<noteq> SIGNALED"
    "links k' Q' (fst ` set ts - {tn})" "timed_out k Q {tn} k' Q'"
    "tmr k' = tmr k" "hmem k' = hmem k" "nutTimerList k' = nutTimerList k" "mem_guard k' = mem_guard k"
    "nut_ticks k' = nut_ticks k" "nut_ticks_resume k' = nut_ticks_resume k" "runningThread k' = runningThread k"
    "nutThreadList k' = nutThreadList k" "quiet k' Q'" "Q' = fire k tn Q"
proof -
  let ?q = "tn_arg (tmr k tn)"
  note L = kinvD(7) [OF I] and Q = kinvD(1) [OF I]
  have q: "?q \<noteq> runQueue" and n: "tn \<noteq> NULL" using linksD(4) [OF L tn] timersD(3) [OF kinvD(3) [OF I]] tn(1) by (simp, metis)
  have sl: "sleeping k {tn} = {}" using tn(2) by (auto simp: sleeping_def)
  have only: "p = ?q" if "p \<noteq> runQueue" "x \<in> set (Q p)" "td_timer (thr k x) = tn" for p x
    using linksD(1) [OF L that(1,2)] that(3) n by simp
  show thesis
  proof (cases "\<exists>t \<in> set (Q ?q). td_timer (thr k t) = tn")
    case False
    have "waiting k Q {tn} = {}" using only False by (fastforce simp: waiting_def)
    then have to: "timed_out k Q {tn} k Q" using sl by (simp add: timed_out_def)
    have lk: "links k Q (fst ` set ts - {tn})" by (rule links_drop [OF L]) (use only False in metis)
    have "List.find (\<lambda>t. td_timer (thr k t) = tn) (Q ?q) = None" using False by (simp add: find_None_iff)
    then have fr: "fire k tn Q = Q" by (simp add: fire_def tn(2))
    have ev: "NutEventTimeout tn ?q k = Some k" using event_timeout_none [OF Q] False by blast
    show thesis
      by (rule that [OF ev Q kinvD(2) [OF I] lk to refl refl refl refl refl refl refl refl kinvD(8) [OF I] fr [symmetric]])
  next
    case True
    then obtain t where t: "t \<in> set (Q ?q)" "td_timer (thr k t) = tn" by blast
    obtain k' where w: "NutEventTimeout tn ?q k = Some k'" "kinv k' (woken k t ?q Q) ts hs A" "same_others t k' k"
      "td_state (thr k' t) = TDS_READY" "td_timer (thr k' t) = SIGNALED" "tmr k' = tmr k" "hmem k' = hmem k"
      "nutTimerList k' = nutTimerList k" by (rule event_timeout_wakes [OF I q t n]) (rule that)
    have so: "td_core (thr k' x) = td_core (thr k x)" if "x \<noteq> t" for x using w(3) that by (simp add: same_others_def)
    have d: "distinct (Q ?q)" using queue_okD(3) [OF queuesD(1) [OF Q]] .
    note ws = woken_set [of Q ?q, OF d q]
    have uni: "waiting k Q {tn} = {t}"
    proof (intro equalityI subsetI)
      fix x assume "x \<in> waiting k Q {tn}"
      then obtain p where "p \<noteq> runQueue" "x \<in> set (Q p)" "td_timer (thr k x) = tn" by (auto simp: waiting_def)
      then show "x \<in> {t}" using only [of p x] linksD(2) [OF L q t(1), of x] t(2) n by auto
    next
      fix x assume "x \<in> {t}"
      then show "x \<in> waiting k Q {tn}" using t n q unfolding waiting_def by blast
    qed
    have "timed_out k Q {tn} k' (woken k t ?q Q)"
      unfolding timed_out_def uni sl
    proof (intro conjI allI impI ballI)
      fix x p assume "x \<notin> {} \<union> {t}"
      then have ne: "x \<noteq> t" by simp
      show "td_core (thr k' x) = td_core (thr k x)" by (rule so [OF ne])
      show "(x \<in> set (woken k t ?q Q p)) = (x \<in> set (Q p))" using ws(1) [of p x k t] ws(2) [of x k t] ne by (cases "p = runQueue") auto
    next
      fix x
      have "td_core (thr k' t) = td_core ((thr k t)\<lparr>td_state := td_state (thr k' t), td_timer := td_timer (thr k' t)\<rparr>)"
        using w(3) by (simp only: same_others_def)
      from td_core_eqD [OF this] td_core_eqD [OF so [of x]]
      show "td_next (thr k' x) = td_next (thr k x)" "td_priority (thr k' x) = td_priority (thr k x)"
        by (cases "x = t"; simp)+
    next
      show "subseq (Q runQueue) (woken k t ?q Q runQueue)" by (simp add: woken_def subseq_rank_insert)
    qed (use w(4,5) ws(2) in auto)
    moreover have "links k' (woken k t ?q Q) (fst ` set ts - {tn})"
    proof (rule links_drop [OF kinvD(7) [OF w(2)]])
      fix p x assume p: "p \<noteq> runQueue" "x \<in> set (woken k t ?q Q p)"
      have "x \<in> set (Q p)" "x \<noteq> t" using ws(1) [OF p(1)] p(2) queuesD(3) [OF Q t(1), of p] by auto
      moreover have "td_timer (thr k' x) = td_timer (thr k x)" using td_core_eqD [OF so] calculation(2) by blast
      ultimately show "td_timer (thr k' x) \<noteq> tn \<or> tn = NULL" using only [OF p(1)] linksD(2) [OF L q t(1), of x] t(2) n by metis
    qed
    moreover have "woken k t ?q Q = fire k tn Q"
    proof -
      have same: "x = t" if "x \<in> set (Q ?q)" "td_timer (thr k x) = tn" for x
        using linksD(2) [OF L q t(1) that(1)] that(2) t(2) n by simp
      have "List.find (\<lambda>x. td_timer (thr k x) = tn) (Q ?q) \<noteq> None" unfolding find_None_iff using t by blast
      then obtain x where x: "List.find (\<lambda>x. td_timer (thr k x) = tn) (Q ?q) = Some x" by blast
      then obtain i where "i < length (Q ?q)" "td_timer (thr k (Q ?q ! i)) = tn" "x = Q ?q ! i" unfolding find_Some_iff by blast
      then have "x = t" using same nth_mem by blast
      with x have "List.find (\<lambda>x. td_timer (thr k x) = tn) (Q ?q) = Some t" by simp
      then show ?thesis using tn(2) by (simp add: fire_def)
    qed
    ultimately show thesis
      using w(1,3-8) kinvD(1,2,8) [OF w(2)] by (intro that [of k' "woken k t ?q Q"]) (simp_all add: same_others_def)
  qed
qed

lemma links_add:
  assumes L: "links k Q T" and cb: "tn_callback (tmr k tn) \<noteq> CbThreadWake"
    and arg: "tn_callback (tmr k tn) = CbEventTimeout \<Longrightarrow> tn_arg (tmr k tn) \<noteq> runQueue"
  shows "links k Q (insert tn T)"
  unfolding links_def
proof (intro conjI allI impI ballI)
  fix q t assume q: "q \<noteq> runQueue" "t \<in> set (Q q)" "td_timer (thr k t) \<noteq> NULL"
  show "td_timer (thr k t) \<in> insert tn T" "tn_callback (tmr k (td_timer (thr k t))) = CbEventTimeout"
    "tn_arg (tmr k (td_timer (thr k t))) = q" using linksD(1) [OF L q] by auto
next
  fix q t u assume "q \<noteq> runQueue" "t \<in> set (Q q)" "u \<in> set (Q q)" "td_timer (thr k t) \<noteq> NULL"
    "td_timer (thr k t) = td_timer (thr k u)"
  then show "t = u" by (rule linksD(2) [OF L])
next
  fix u assume "u \<in> insert tn T" "tn_callback (tmr k u) = CbThreadWake"
  then have "u \<in> T" "tn_callback (tmr k u) = CbThreadWake" using cb by auto
  then show "tn_arg (tmr k u) \<noteq> NULL" "tn_arg (tmr k u) \<noteq> SIGNALED" "td_timer (thr k (tn_arg (tmr k u))) = u"
    "tn_arg (tmr k u) \<notin> set (Q q)" for q using linksD(3) [OF L, of u] by auto
next
  fix u assume "u \<in> insert tn T" "tn_callback (tmr k u) = CbEventTimeout"
  then show "tn_arg (tmr k u) \<noteq> runQueue" using linksD(4) [OF L, of u] arg by auto
qed

lemma links_cong:
  assumes "\<And>x. td_timer (thr k' x) = td_timer (thr k x)" and "\<And>x. tn_core (tmr k' x) = tn_core (tmr k x)"
  shows "links k' Q T = links k Q T"
  using tn_core_eqD [OF assms(2)] by (simp add: links_def assms(1))

lemma links_frame:
  assumes "thr k' = thr k" and "\<And>x. tn_core (tmr k' x) = tn_core (tmr k x)"
  shows "links k' Q T = links k Q T"
  by (rule links_cong) (simp_all add: assms)

lemma callback_spec:
  assumes I: "kinv k Q ts hs A" and own: "own_timers user k (fst ` set ts)" and tn: "tn \<in> fst ` set ts"
  obtains k' Q' where "run_callback user (tn_callback (tmr k tn)) tn (tn_arg (tmr k tn)) k = Some k'"
    "queues k' Q'" "queue k' runQueue \<noteq> SIGNALED" "links k' Q' (fst ` set ts - {tn})" "timed_out k Q {tn} k' Q'"
    "tmr k' = tmr k" "hmem k' = hmem k" "nutTimerList k' = nutTimerList k" "fixed_part k' k" "quiet k' Q'" "Q' = fire k tn Q"
proof -
  have idle: "sleeping k {tn} = {}" "waiting k Q {tn} = {}" "links k Q (fst ` set ts - {tn})" "fire k tn Q = Q"
    if "tn_callback (tmr k tn) \<noteq> CbEventTimeout" "tn_callback (tmr k tn) \<noteq> CbThreadWake"
  proof -
    show "waiting k Q {tn} = {}"
      using linksD(1) [OF kinvD(7) [OF I]] that(1) by (fastforce simp: waiting_def)
    show "sleeping k {tn} = {}" using that(2) by (auto simp: sleeping_def)
    show "links k Q (fst ` set ts - {tn})"
    proof (rule links_drop [OF kinvD(7) [OF I]])
      fix q t assume q: "q \<noteq> runQueue" "t \<in> set (Q q)"
      show "td_timer (thr k t) \<noteq> tn \<or> tn = NULL" using linksD(1) [OF kinvD(7) [OF I] q] that(1) by fastforce
    qed
    show "fire k tn Q = Q" using that by (simp add: fire_def split: tcallback.split)
  qed
  consider "tn_callback (tmr k tn) = NoCallback" | "tn_callback (tmr k tn) = CbEventTimeout" | "tn_callback (tmr k tn) = CbThreadWake"
    | i where "tn_callback (tmr k tn) = CbUser i" "polite (user i tn (tn_arg (tmr k tn)))"
    using own tn by (auto simp: own_timers_def own_timer_def)
  then show thesis
  proof cases
    case 1
    then have "timed_out k Q {tn} k Q" using idle by (simp add: timed_out_def)
    then show thesis using 1 that [of k Q] idle kinvD(1,2,8) [OF I] by (simp add: fixed_part_def)
  next
    case 2
    show thesis
    proof (rule callback_timeout [OF I tn 2], goal_cases)
      case (1 k' Q')
      show ?case by (rule that [of k' Q']) (use 1 2 in \<open>simp_all add: fixed_part_def\<close>)
    qed
  next
    case 3
    show thesis
    proof (rule callback_wake [OF I tn 3], goal_cases)
      case (1 k' Q')
      show ?case by (rule that [of k' Q']) (use 1 3 in \<open>simp_all add: fixed_part_def same_rest_def\<close>)
    qed
  next
    case (4 i)
    obtain k' where u: "user i tn (tn_arg (tmr k tn)) k = Some k'" "queues k' Q" "quiet k' Q" "queue k' runQueue \<noteq> SIGNALED"
      "\<And>x. td_core (thr k' x) = td_core (thr k x)" "tmr k' = tmr k" "hmem k' = hmem k" "nutTimerList k' = nutTimerList k" "fixed_part k' k"
      using 4(2) kinvD(1,2,8) [OF I] unfolding polite_def by blast
    have "td_timer (thr k' x) = td_timer (thr k x)" for x using td_core_eqD [OF u(5)] by blast
    then have "links k' Q (fst ` set ts - {tn})" using idle(3) 4(1) links_cong [of k' k] u(6) by simp
    moreover have "timed_out k Q {tn} k' Q" using idle(1,2) 4(1) u(5) td_core_eqD [OF u(5)] by (simp add: timed_out_def)
    ultimately show thesis using that [of k' Q] u idle(4) 4(1) by simp
  qed
qed

lemma fire_spec:
  assumes I: "kinv k Q ((tn, 0) # ts) hs A" and own: "own_timers user k (fst ` set ((tn, 0) # ts))"
  defines "ts' \<equiv> (if tn_ticks (tmr k tn) = 0 then ts else delta_insert tn (tn_ticks (tmr k tn)) ts)"
  obtains k2 k' Q' hs' where "run_callback user (tn_callback (tmr k tn)) tn (tn_arg (tmr k tn)) k = Some k2"
    "timer_expire tn k2 = Some k'" "kinv k' Q' ts' hs' A" "timed_out k Q {tn} k' Q'"
    "\<And>x. tn_core (tmr k' x) = tn_core (tmr k x)" "fixed_part k' k" "set hs' \<subseteq> set hs" "Q' = fire k tn Q"
proof -
  let ?T = "fst ` set ((tn, 0) # ts)"
  have tnT: "tn \<in> ?T" by simp
  obtain k2 Q' where c: "run_callback user (tn_callback (tmr k tn)) tn (tn_arg (tmr k tn)) k = Some k2"
    "queues k2 Q'" "queue k2 runQueue \<noteq> SIGNALED" "links k2 Q' (?T - {tn})" "timed_out k Q {tn} k2 Q'"
    "tmr k2 = tmr k" "hmem k2 = hmem k" "nutTimerList k2 = nutTimerList k" "fixed_part k2 k"
    "quiet k2 Q'" "Q' = fire k tn Q"
    by (rule callback_spec [OF I own tnT]) (rule that)
  have g2: "mem_guard k2 = mem_guard k" using c(9) by (simp add: fixed_part_def)
  note fr = timer_inv_frame [OF I c(6,8,7) g2]
  obtain k' hs' where e: "timer_expire tn k2 = Some k'"
    "timers k' (if tn_ticks (tmr k2 tn) = 0 then ts else delta_insert tn (tn_ticks (tmr k2 tn)) ts)" "kheap k' hs' A"
    "timer_mem (if tn_ticks (tmr k2 tn) = 0 then ts else delta_insert tn (tn_ticks (tmr k2 tn)) ts) hs' A"
    "owned k' (fst ` set (if tn_ticks (tmr k2 tn) = 0 then ts else delta_insert tn (tn_ticks (tmr k2 tn)) ts)) hs'"
    "\<And>x. tn_core (tmr k' x) = tn_core (tmr k2 x)" "set hs' \<subseteq> set hs" "only_timers k' (k2\<lparr>hmem := hmem k'\<rparr>)"
    by (rule timer_expire_spec [OF fr]) (rule that)
  have tq: "(if tn_ticks (tmr k2 tn) = 0 then ts else delta_insert tn (tn_ticks (tmr k2 tn)) ts) = ts'"
    using c(6) by (simp add: ts'_def)
  note e = e [unfolded tq]
  note ot = only_timersD [OF e(8), simplified]
  have thr': "thr k' = thr k2" and qu': "queue k' = queue k2" using ot by simp_all
  have core: "tn_core (tmr k' x) = tn_core (tmr k x)" for x using e(6) c(6) by simp
  have ntn: "tn \<notin> fst ` set ts" using timersD(2) [OF kinvD(3) [OF I]] by simp
  have L2: "links k' Q' (fst ` set ts)"
    using c(4) ntn links_frame [OF thr' e(6)] by simp
  have L: "links k' Q' (fst ` set ts')"
  proof (cases "tn_ticks (tmr k tn) = 0")
    case True
    then show ?thesis using L2 by (simp add: ts'_def)
  next
    case False
    have "tn_callback (tmr k tn) \<noteq> CbThreadWake" using own False by (auto simp: own_timers_def own_timer_def)
    moreover have "tn_callback (tmr k tn) = CbEventTimeout \<Longrightarrow> tn_arg (tmr k tn) \<noteq> runQueue"
      using linksD(4) [OF kinvD(7) [OF I] tnT] .
    ultimately have "links k' Q' (insert tn (fst ` set ts))"
      using tn_core_eqD [OF core [of tn]] by (intro links_add [OF L2]) simp_all
    then show ?thesis using False by (simp add: ts'_def)
  qed
  have qs: "queues k' Q'" using queues_frame(1) [OF c(2), of k'] thr' qu' by simp
  have "kinv k' Q' ts' hs' A"
    using qs c(3) qu' e(2,3,4,5) L c(10) queues_frame(3) [OF c(2), of k'] thr' by (simp add: kinv_def)
  moreover have "timed_out k Q {tn} k' Q'" using c(5) thr' by (simp add: timed_out_def)
  moreover have "fixed_part k' k" using c(9) ot by (simp add: fixed_part_def)
  ultimately show thesis using that [OF c(1) e(1)] core e(7) c(11) by blast
qed

section \<open>The timers that run out within a number of ticks\<close>

definition leading_zeros :: "(addr \<times> u32) list \<Rightarrow> nat" where
  "leading_zeros ts = length (takeWhile (\<lambda>x. snd x = 0) ts)"

lemma leading_zeros_insert: "p \<noteq> 0 \<Longrightarrow> leading_zeros (delta_insert t p ts) = leading_zeros ts"
proof (induction ts arbitrary: p)
  case Nil
  then show ?case by (simp add: leading_zeros_def)
next
  case (Cons a ts)
  obtain u e where a: "a = (u, e)" by (cases a)
  have n0: "\<not> p < 0" and "p < e \<Longrightarrow> e \<noteq> 0" by auto
  then show ?case using Cons a by (auto simp: delta_insert_Cons leading_zeros_def)
qed

text \<open>
  The abstract loop of \<^verbatim>\<open>NutTimerProcessElapsed\<close>: the timers that are called back, in order, and
  the list that remains. A timer at the head of the list runs out when there is at least one
  tick left and its difference is used up; the periodic ones are inserted again.
\<close>

function elapse :: "(addr \<Rightarrow> u32) \<Rightarrow> u32 \<Rightarrow> (addr \<times> u32) list \<Rightarrow> addr list \<times> (addr \<times> u32) list" where
  "elapse per n [] = ([], [])"
| "elapse per n ((t, d) # ts) =
     (if n = 0 then ([], (t, d) # ts)
      else if n < d then ([], (t, d - n) # ts)
      else (let r = elapse per (n - d) (if per t = 0 then ts else delta_insert t (per t) ts)
            in (t # fst r, snd r)))"
  by pat_completeness auto
termination
proof (relation "measures [\<lambda>(per, n, ts). unat n, \<lambda>(per, n, ts). leading_zeros ts]", goal_cases)
  case (2 per n t d ts)
  show ?case
  proof (cases "d = 0")
    case True
    then show ?thesis by (auto simp: leading_zeros_insert) (simp_all add: leading_zeros_def)
  next
    case False
    have "unat (n - d) = unat n - unat d" "0 < unat d" "unat d \<le> unat n"
      using unat_diff_le [of d n] 2 False by (auto simp: word_le_nat_alt word_less_nat_alt unat_gt_0)
    then show ?thesis by simp
  qed
qed simp

lemma own_timers_frame:
  "(\<And>x. tn_core (tmr k' x) = tn_core (tmr k x)) \<Longrightarrow> T' \<subseteq> T \<Longrightarrow> own_timers user k T \<Longrightarrow> own_timers user k' T'"
  using own_timer_cong unfolding own_timers_def by (metis subsetD)

lemma timed_out_trans:
  assumes t1: "timed_out k Q {tn} k1 Q1" and t2: "timed_out k1 Q1 F k2 Q2"
    and core: "\<And>x. tn_core (tmr k1 x) = tn_core (tmr k x)"
    and L: "links k Q T" "links k1 Q1 T1" and Q: "queues k Q" "queues k1 Q1" and F: "F \<subseteq> T1" "T1 \<subseteq> T" "tn \<in> T"
  shows "timed_out k Q (insert tn F) k2 Q2"
proof -
  let ?a = "sleeping k {tn} \<union> waiting k Q {tn}"
  have cb: "tn_callback (tmr k1 x) = tn_callback (tmr k x)" "tn_arg (tmr k1 x) = tn_arg (tmr k x)" for x
    using tn_core_eqD [OF core [of x]] by simp_all
  have un: "td_core (thr k1 t) = td_core (thr k t)" "\<And>p. t \<in> set (Q1 p) \<longleftrightarrow> t \<in> set (Q p)" if "t \<notin> ?a" for t
    using t1 that unfolding timed_out_def by blast+
  have run: "t \<in> set (Q1 runQueue)" if "t \<in> ?a" for t using t1 that unfolding timed_out_def by blast
  have a1: "t \<notin> sleeping k1 F \<union> waiting k1 Q1 F" if t: "t \<in> ?a" for t
  proof -
    have "t \<notin> sleeping k1 F"
      using linksD(3) [OF L(2)] run [OF t] F(1) by (force simp: sleeping_def)
    moreover have "t \<notin> waiting k1 Q1 F" using queuesD(3) [OF Q(2) run [OF t]] by (auto simp: waiting_def)
    ultimately show ?thesis by blast
  qed
  have sl: "sleeping k (insert tn F) = sleeping k {tn} \<union> sleeping k1 F" by (auto simp: sleeping_def cb)
  have wa: "t \<in> waiting k Q (insert tn F) \<longleftrightarrow> t \<in> waiting k Q {tn} \<or> t \<in> waiting k1 Q1 F" for t
  proof (cases "t \<in> ?a")
    case True
    have "t \<in> sleeping k {tn} \<Longrightarrow> t \<notin> waiting k Q (insert tn F)"
      using linksD(3) [OF L(1)] F(3) by (fastforce simp: sleeping_def waiting_def)
    then show ?thesis using True a1 [OF True] by (auto simp: waiting_def)
  next
    case False
    have "td_timer (thr k1 t) = td_timer (thr k t)" using td_core_eqD [OF un(1) [OF False]] by simp
    then show ?thesis using False un(2) [OF False] by (auto simp: waiting_def)
  qed
  show ?thesis
    unfolding timed_out_def
  proof (intro conjI allI impI ballI)
    fix t assume "t \<notin> sleeping k (insert tn F) \<union> waiting k Q (insert tn F)"
    then have "t \<notin> ?a" "t \<notin> sleeping k1 F \<union> waiting k1 Q1 F" using sl wa by blast+
    then show "td_core (thr k2 t) = td_core (thr k t)" "(t \<in> set (Q2 p)) = (t \<in> set (Q p))" for p
      using un t2 unfolding timed_out_def by metis+
  next
    fix t assume t: "t \<in> sleeping k (insert tn F)"
    have "td_core (thr k2 t) = td_core (thr k1 t) \<and> t \<in> set (Q2 runQueue)" if "t \<in> sleeping k {tn}"
      using t2 a1 [of t] run [of t] that unfolding timed_out_def by blast
    moreover have "td_state (thr k1 t) = TDS_READY \<and> td_timer (thr k1 t) = NULL" if "t \<in> sleeping k {tn}"
      using t1 that unfolding timed_out_def by blast
    ultimately show "t \<in> set (Q2 runQueue)" "td_state (thr k2 t) = TDS_READY" "td_timer (thr k2 t) = NULL"
      using t sl t2 td_core_eqD [of "thr k2 t" "thr k1 t"] unfolding timed_out_def by (metis Un_iff)+
  next
    fix t assume t: "t \<in> waiting k Q (insert tn F)"
    have "td_core (thr k2 t) = td_core (thr k1 t) \<and> t \<in> set (Q2 runQueue)" if "t \<in> waiting k Q {tn}"
      using t2 a1 [of t] run [of t] that unfolding timed_out_def by blast
    moreover have "td_state (thr k1 t) = TDS_READY \<and> td_timer (thr k1 t) = SIGNALED" if "t \<in> waiting k Q {tn}"
      using t1 that unfolding timed_out_def by blast
    ultimately show "t \<in> set (Q2 runQueue)" "td_state (thr k2 t) = TDS_READY" "td_timer (thr k2 t) = SIGNALED"
      using t wa [of t] t2 td_core_eqD [of "thr k2 t" "thr k1 t"] unfolding timed_out_def by metis+
  next
    fix t
    show "td_next (thr k2 t) = td_next (thr k t)" "td_priority (thr k2 t) = td_priority (thr k t)"
      using t1 t2 unfolding timed_out_def by metis+
  next
    show "subseq (Q runQueue) (Q2 runQueue)"
      using t1 t2 subseq_order.order_trans unfolding timed_out_def by blast
  qed
qed

lemma elapse_fired: "set (fst (elapse per n ts)) \<subseteq> fst ` set ts"
proof (induction per n ts rule: elapse.induct)
  case (2 per n t d ts)
  show ?case
  proof (cases "n = 0 \<or> n < d")
    case False
    have "fst ` set (if per t = 0 then ts else delta_insert t (per t) ts) \<subseteq> insert t (fst ` set ts)" by auto
    then show ?thesis using 2 False by (auto simp: Let_def)
  qed auto
qed simp

lemma elapse_rest: "fst ` set (snd (elapse per n ts)) \<subseteq> fst ` set ts"
proof (induction per n ts rule: elapse.induct)
  case (2 per n t d ts)
  show ?case
  proof (cases "n = 0 \<or> n < d")
    case False
    have "fst ` set (if per t = 0 then ts else delta_insert t (per t) ts) \<subseteq> insert t (fst ` set ts)" by auto
    then show ?thesis using 2 False by (auto simp: Let_def)
  qed auto
qed simp

lemma head_left:
  assumes "timers k ((t, d) # ts)" and "n \<le> d" and "n = 0 \<or> n < d \<or> n = d"
  shows "timers (upd_tmr t (\<lambda>i. i\<lparr>tn_ticks_left := d - n\<rparr>) k) ((t, d - n) # ts)"
proof -
  have seg: "nutTimerList k = t" "t \<noteq> NULL" "tn_prev (tmr k t) = NULL" "tseg k t (tn_next (tmr k t)) ts NULL"
    "t \<notin> fst ` set ts" "distinct (map fst ts)" using timersD(1,2) [OF assms(1)] by auto
  have ex: "\<forall>(u, e) \<in> set (expiry (unat d) ts). e < 4294967296" "unat d < 4294967296" using timersD(4) [OF assms(1)] by auto
  have "unat (d - n) = unat d - unat n" using unat_diff_le [OF assms(2)] .
  moreover have bd: "\<forall>(u, e) \<in> set (expiry m ts). e < 4294967296" if "m \<le> unat d" for m
    using ex(1) that
  proof (induction ts arbitrary: m d)
    case (Cons a ts)
    obtain u e where a: "a = (u, e)" by (cases a)
    have "unat d + unat e < 4294967296" using Cons.prems(1) a by simp
    moreover have "unat (d + e) = unat d + unat e" using unat_add_exact calculation by blast
    ultimately show ?case using Cons.IH [of "d + e" "m + unat e"] Cons.prems a by auto
  qed simp
  moreover have "unat d - unat n \<le> unat d" "unat d - unat n < 4294967296" using ex(2) by simp_all
  ultimately show ?thesis using seg bd [of "unat d - unat n"] by (simp add: timers_def)
qed

lemma elapsed_loop_spec:
  assumes "kinv k Q ts hs A" and "own_timers user k (fst ` set ts)"
  shows "\<exists>k' Q' hs'. elapsed_loop user n k = Some k' \<and>
    kinv k' Q' (snd (elapse (\<lambda>t. tn_ticks (tmr k t)) n ts)) hs' A \<and>
    timed_out k Q (set (fst (elapse (\<lambda>t. tn_ticks (tmr k t)) n ts))) k' Q' \<and> fixed_part k' k \<and>
    (\<forall>x. tn_core (tmr k' x) = tn_core (tmr k x)) \<and> Q' = fold (fire k) (fst (elapse (\<lambda>t. tn_ticks (tmr k t)) n ts)) Q"
  using assms
proof (induction "\<lambda>t. tn_ticks (tmr k t)" n ts arbitrary: k Q hs rule: elapse.induct)
  case (1 n)
  have "nutTimerList k = NULL" using timersD(1) [OF kinvD(3) [OF 1(1)]] by simp
  then have "elapsed_loop user n k = Some k" by (subst elapsed_loop.simps) simp
  then show ?case using 1 timed_out_none by (auto simp: fixed_part_def)
next
  case (2 n t d ts)
  note I = 2(2) and own = 2(3)
  note T = kinvD(3) [OF I]
  have hd: "nutTimerList k = t" "t \<noteq> NULL" "tn_ticks_left (tmr k t) = d" using timersD(1) [OF T] by auto
  consider "n = 0" | "n \<noteq> 0" "n < d" | "n \<noteq> 0" "\<not> n < d" by blast
  then show ?case
  proof cases
    case 1
    then have "elapsed_loop user n k = Some k" by (subst elapsed_loop.simps) simp
    then show ?thesis using 1 I timed_out_none by (auto simp: fixed_part_def)
  next
    case 2
    let ?k = "upd_tmr t (\<lambda>i. i\<lparr>tn_ticks_left := d - n\<rparr>) k"
    have "elapsed_loop user 0 ?k = Some ?k" by (subst elapsed_loop.simps) simp
    then have run: "elapsed_loop user n k = Some ?k" using hd 2 by (subst elapsed_loop.simps) simp
    have core: "tn_core (tmr ?k x) = tn_core (tmr k x)" for x by simp
    have T': "timers ?k ((t, d - n) # ts)" using head_left [OF T] 2 by auto
    have "kinv ?k Q ((t, d - n) # ts) hs A"
      using I T' queues_frame(1,3) [OF kinvD(1) [OF I], of ?k] links_frame [of ?k k, OF _ core] kheap_frame [of ?k k]
        tn_core_eqD [OF core] by (simp add: kinv_def owned_def timer_mem_def)
    moreover have "timed_out k Q {} ?k Q" by (simp add: timed_out_def sleeping_def waiting_def)
    ultimately show ?thesis using run 2 core by (auto simp: fixed_part_def)
  next
    case 3
    let ?k1 = "upd_tmr t (\<lambda>i. i\<lparr>tn_ticks_left := 0\<rparr>) k" and ?per = "\<lambda>t. tn_ticks (tmr k t)"
    have core1: "tn_core (tmr ?k1 x) = tn_core (tmr k x)" for x by simp
    have T1: "timers ?k1 ((t, 0) # ts)" using head_left [OF T, of d] by simp
    have I1: "kinv ?k1 Q ((t, 0) # ts) hs A"
      using I T1 queues_frame(1,3) [OF kinvD(1) [OF I], of ?k1] links_frame [of ?k1 k, OF _ core1] kheap_frame [of ?k1 k]
        tn_core_eqD [OF core1] by (simp add: kinv_def owned_def timer_mem_def)
    have own1: "own_timers user ?k1 (fst ` set ((t, 0) # ts))" by (rule own_timers_frame [OF core1 _ own]) simp
    have tk: "tn_ticks (tmr ?k1 t) = ?per t" by simp
    let ?ts = "if ?per t = 0 then ts else delta_insert t (?per t) ts"
    obtain k2 k3 Q3 hs3 where f: "run_callback user (tn_callback (tmr ?k1 t)) t (tn_arg (tmr ?k1 t)) ?k1 = Some k2"
      "timer_expire t k2 = Some k3" "kinv k3 Q3 ?ts hs3 A" "timed_out ?k1 Q {t} k3 Q3"
      "\<And>x. tn_core (tmr k3 x) = tn_core (tmr ?k1 x)" "fixed_part k3 ?k1" "set hs3 \<subseteq> set hs" "Q3 = fire ?k1 t Q"
      by (rule fire_spec [OF I1 own1, unfolded tk]) (rule that)
    have core3: "tn_core (tmr k3 x) = tn_core (tmr k x)" for x using f(5) core1 by simp
    have per3: "(\<lambda>x. tn_ticks (tmr k3 x)) = ?per" using tn_core_eqD [OF core3] by simp
    have sub: "fst ` set ?ts \<subseteq> fst ` set ((t, d) # ts)" by auto
    have own3: "own_timers user k3 (fst ` set ?ts)" by (rule own_timers_frame [OF core3 sub own])
    have to1: "timed_out k Q {t} k3 Q3" using f(4) by (simp add: timed_out_def sleeping_def waiting_def)
    obtain k' Q' hs' where r: "elapsed_loop user (n - d) k3 = Some k'"
      "kinv k' Q' (snd (elapse ?per (n - d) ?ts)) hs' A"
      "timed_out k3 Q3 (set (fst (elapse ?per (n - d) ?ts))) k' Q'" "fixed_part k' k3"
      "\<And>x. tn_core (tmr k' x) = tn_core (tmr k3 x)" "Q' = fold (fire k3) (fst (elapse ?per (n - d) ?ts)) Q3"
      using "2.hyps" [OF 3 per3 [symmetric] f(3) own3] unfolding per3 by blast
    have "elapsed_loop user n k = elapsed_loop user (n - d) k3"
      using hd 3 f(1,2) by (subst elapsed_loop.simps) (simp add: Let_def)
    moreover have "timed_out k Q (insert t (set (fst (elapse ?per (n - d) ?ts)))) k' Q'"
      by (rule timed_out_trans [OF to1 r(3) core3 kinvD(7) [OF I] kinvD(7) [OF f(3)] kinvD(1) [OF I] kinvD(1) [OF f(3)]
            elapse_fired sub]) simp
    moreover have "fixed_part k' k" using r(4) f(6) by (simp add: fixed_part_def)
    moreover have "elapse ?per n ((t, d) # ts) = (t # fst (elapse ?per (n - d) ?ts), snd (elapse ?per (n - d) ?ts))"
      using 3 by (simp add: Let_def)
    moreover have "Q' = fold (fire k) (t # fst (elapse ?per (n - d) ?ts)) Q"
    proof -
      have pr: "prio k3 = prio k" using to1 unfolding timed_out_def by auto
      have ar: "\<forall>tn \<in> set (fst (elapse ?per (n - d) ?ts)). tn_callback (tmr k tn) = CbEventTimeout \<longrightarrow> tn_arg (tmr k tn) \<noteq> runQueue"
        using linksD(4) [OF kinvD(7) [OF I]] elapse_fired [of ?per "n - d" ?ts] sub by blast
      have tt: "td_timer (thr k3 x) = td_timer (thr k x)" if "q \<noteq> runQueue" "x \<in> set (Q3 q)" for q x
      proof -
        have "x \<notin> set (Q3 runQueue)" using queuesD(3) [OF kinvD(1) [OF f(3)] that(2), of runQueue] that(1) by auto
        then have "x \<notin> sleeping k {t} \<union> waiting k Q {t}" using to1 unfolding timed_out_def by blast
        then have "td_core (thr k3 x) = td_core (thr k x)" using to1 unfolding timed_out_def by blast
        then show ?thesis using td_core_eqD by blast
      qed
      have "Q' = fold (fire k) (fst (elapse ?per (n - d) ?ts)) Q3" unfolding r(6) by (rule fold_fire_cong [OF pr core3 ar tt])
      moreover have "Q3 = fire k t Q" unfolding f(8) by (rule fire_cong) simp_all
      ultimately show ?thesis by simp
    qed
    ultimately show ?thesis
      using r(1,2,5) core3 by (intro exI [of _ k'] exI [of _ Q'] exI [of _ hs']) (simp del: elapse.simps)
  qed
qed

end
