(* ===== verification/Nut_Sched_Inv.thy ===== *)
theory Nut_Sched_Inv
  imports Nut_Timer_Fire
begin

text \<open>
  The invariant of the scheduler and what its entry points keep of it: posting the events
  interrupts left pending, processing elapsed timers, switching to the head of the run queue
  and yielding (\<^verbatim>\<open>NutThreadResume\<close> and \<^verbatim>\<open>NutThreadYield\<close> of
  src/nut/os/thread.c).
\<close>

unbundle bit_operations_syntax

section \<open>Resuming\<close>

text \<open>The list of all threads.\<close>

fun tlist :: "kernel \<Rightarrow> addr \<Rightarrow> addr list \<Rightarrow> bool" where
  "tlist k p [] \<longleftrightarrow> p = NULL"
| "tlist k p (t # ts) \<longleftrightarrow> p = t \<and> t \<noteq> NULL \<and> tlist k (td_next (thr k t)) ts"

text \<open>What may happen to the threads while events are delivered: some become ready, nothing else.\<close>

definition progress :: "kernel \<Rightarrow> (addr \<Rightarrow> addr list) \<Rightarrow> kernel \<Rightarrow> (addr \<Rightarrow> addr list) \<Rightarrow> bool" where
  "progress k Q k' Q' \<longleftrightarrow>
     (\<forall>x. td_next (thr k' x) = td_next (thr k x) \<and> td_priority (thr k' x) = td_priority (thr k x)) \<and>
     (\<forall>x \<in> set (Q runQueue). x \<in> set (Q' runQueue) \<and> td_core (thr k' x) = td_core (thr k x)) \<and>
     (\<forall>x \<in> set (Q' runQueue). x \<notin> set (Q runQueue) \<longrightarrow> td_state (thr k' x) = TDS_READY) \<and>
     (\<forall>q x. x \<in> set (Q q) \<longrightarrow> x \<in> set (Q' q) \<or> x \<in> set (Q' runQueue)) \<and>
     subseq (Q runQueue) (Q' runQueue) \<and> fixed_part k' k"

lemma progress_refl: "progress k Q k Q"
  by (simp add: progress_def fixed_part_def)

lemma progress_trans:
  assumes "progress k Q k1 Q1" and "progress k1 Q1 k2 Q2"
  shows "progress k Q k2 Q2"
proof -
  have "x \<in> set (Q2 q) \<or> x \<in> set (Q2 runQueue)" if "x \<in> set (Q q)" for q x
    using assms that unfolding progress_def by metis
  moreover have "td_state (thr k2 x) = TDS_READY" if "x \<in> set (Q2 runQueue)" "x \<notin> set (Q runQueue)" for x
  proof (cases "x \<in> set (Q1 runQueue)")
    case True
    then have "td_core (thr k2 x) = td_core (thr k1 x)" "td_state (thr k1 x) = TDS_READY"
      using assms that unfolding progress_def by metis+
    then show ?thesis using td_core_eqD by metis
  next
    case False
    then show ?thesis using assms(2) that unfolding progress_def by metis
  qed
  moreover have "subseq (Q runQueue) (Q2 runQueue)"
    using assms subseq_order.order_trans unfolding progress_def by blast
  ultimately show ?thesis using assms unfolding progress_def by (simp add: fixed_part_def)
qed

lemma tlist_frame: "(\<And>x. td_next (thr k' x) = td_next (thr k x)) \<Longrightarrow> tlist k' p xs = tlist k p xs"
  by (induction xs arbitrary: p) simp_all

lemma quietD:
  assumes "quiet k Q"
  shows "pending k runQueue (Q runQueue) = 0" and "\<forall>q. x \<notin> set (Q q) \<Longrightarrow> td_qpec (thr k x) = 0"
  using assms unfolding quiet_def by simp_all

lemma quietI:
  assumes "pending k runQueue (Q runQueue) = 0" and "\<And>x. \<forall>q. x \<notin> set (Q q) \<Longrightarrow> td_qpec (thr k x) = 0"
  shows "quiet k Q"
  unfolding quiet_def using assms by blast

lemma pending_head:
  assumes I: "kinv k Q ts hs A" and n: "td_qpec (thr k t) \<noteq> 0"
  obtains q us where "td_queue (thr k t) = q" "q \<noteq> runQueue" "Q q = t # us"
proof -
  obtain q where q: "t \<in> set (Q q)" using quietD(2) [OF kinvD(8) [OF I], of t] n by metis
  note ok = queuesD(1) [OF kinvD(1) [OF I], of q]
  obtain u us where us: "Q q = u # us" using q by (cases "Q q") auto
  have "t \<notin> set us" using queue_okD(8) [OF ok, of t] us n by auto
  then have tu: "t = u" using q us by simp
  have "q \<noteq> runQueue"
  proof
    assume "q = runQueue"
    then have "td_qpec (thr k t) = 0" using kinvD(2,8) [OF I] us tu by (simp add: quiet_def pending_def)
    then show False using n by simp
  qed
  then show thesis using that queue_okD(7) [OF ok q] us tu by blast
qed

text \<open>Changing the count of events at the head of a queue.\<close>

lemma queues_count:
  assumes Q: "queues k Q" "quiet k Q" and "Q q = t # us" and "q \<noteq> runQueue"
  shows "queues ((upd_thr t (\<lambda>i. i\<lparr>td_qpec := n\<rparr>) k)\<lparr>total_pending := m\<rparr>) Q" (is "queues ?k Q")
    "quiet ((upd_thr t (\<lambda>i. i\<lparr>td_qpec := n\<rparr>) k)\<lparr>total_pending := m\<rparr>) Q"
proof -
  have ok: "queue_ok ?k p (Q p)" and pe: "p \<noteq> q \<Longrightarrow> pending ?k p (Q p) = pending k p (Q p)" for p
  proof -
    have nt: "p \<noteq> q \<Longrightarrow> t \<notin> set (Q p)" using queuesD(3) [OF Q(1), of t q p] assms(3) by auto
    have fr: "thr ?k x = thr k x" if "p \<noteq> q" "x \<in> set (Q p)" for x using nt that by auto
    show "p \<noteq> q \<Longrightarrow> pending ?k p (Q p) = pending k p (Q p)"
      by (rule queue_ok_frame(2) [OF queuesD(1) [OF Q(1), of p] fr]) simp_all
    show "queue_ok ?k p (Q p)"
    proof (cases "p = q")
      case False
      show ?thesis by (rule queue_ok_frame(1) [OF queuesD(1) [OF Q(1), of p] fr [OF False]]) simp_all
    next
      case True
      note ok = queuesD(1) [OF Q(1), of q]
      have sig: "queue k q \<noteq> SIGNALED" using queue_head(2) [of k Q q, OF Q(1) assms(3)] .
      have nu: "t \<notin> set us" using queue_okD(3) [OF ok] assms(3) by simp
      show ?thesis unfolding True
      proof (rule queue_okI)
        show "qchain ?k (queue ?k q) (Q q)"
          using queue_okD(1) [OF ok sig] qchain_frame [of "Q q" ?k k] by simp
        have "map (prio ?k) (Q q) = map (prio k) (Q q)" by simp
        then show "sorted (map (prio ?k) (Q q))" using queue_okD(4) [OF ok] by (simp only:)
        show "td_queue (thr ?k u) = q" if "u \<in> set (Q q)" for u using queue_okD(7) [OF ok that] by auto
        show "td_qpec (thr ?k u) = 0" if "u \<in> set (tl (Q q))" for u
          using queue_okD(8) [OF ok that] that assms(3) nu by auto
      qed (use sig queue_okD(3,6) [OF ok] in simp_all)
    qed
  qed
  then show "queues ?k Q" unfolding queues_def by blast
  have "td_qpec (thr ?k x) = 0" if "\<forall>p. x \<notin> set (Q p)" for x
  proof -
    have "x \<noteq> t" using spec [OF that, of q] assms(3) by auto
    then show ?thesis using quietD(2) [OF Q(2) that] by simp
  qed
  then show "quiet ?k Q" using quietD(1) [OF Q(2)] pe [of runQueue] assms(4) by (intro quietI) simp_all
qed

lemma kinv_count:
  assumes I: "kinv k Q ts hs A" and "Q q = t # us" and "q \<noteq> runQueue"
  shows "kinv ((upd_thr t (\<lambda>i. i\<lparr>td_qpec := n\<rparr>) k)\<lparr>total_pending := m\<rparr>) Q ts hs A"
proof -
  let ?k = "(upd_thr t (\<lambda>i. i\<lparr>td_qpec := n\<rparr>) k)\<lparr>total_pending := m\<rparr>"
  have "queues ?k Q" "quiet ?k Q" by (rule queues_count [OF kinvD(1,8) [OF I] assms(2,3)])+
  moreover have "links ?k Q (fst ` set ts)" using kinvD(7) [OF I] links_cong [of ?k k] by simp
  moreover have "timers ?k ts" "kheap ?k hs A" "timer_mem ts hs A" "owned ?k (fst ` set ts) hs"
    by (rule timer_inv_frame [OF I]; simp)+
  moreover have "queue ?k runQueue \<noteq> SIGNALED" using kinvD(2) [OF I] by simp
  ultimately show ?thesis unfolding kinv_def by blast
qed

text \<open>
  Callbacks of applications that post an event the way interrupt handlers do, or do not touch the kernel at all.
\<close>

lemma polite_post:
  assumes "q \<noteq> runQueue"
  shows "polite (\<lambda>k. Some (NutEventPostFromIrq q k))" and "polite Some"
proof -
  show "polite (\<lambda>k. Some (NutEventPostFromIrq q k))"
    unfolding polite_def
  proof (intro allI impI)
    fix k Q assume Q: "queues k Q" "quiet k Q" and sg: "queue k runQueue \<noteq> SIGNALED"
    let ?k = "NutEventPostFromIrq q k"
    have "queues ?k Q \<and> quiet ?k Q \<and> queue ?k runQueue \<noteq> SIGNALED"
    proof (cases "Q q")
      case Nil
      have "queue k q = NULL \<or> queue k q = SIGNALED"
        using queue_okD(1) [OF queuesD(1) [OF Q(1), of q]] Nil by auto
      moreover have "queue_ok (set_queue q SIGNALED k) p (Q p)" for p
        using queue_ok_frame(1) [OF queuesD(1) [OF Q(1), of p], of "set_queue q SIGNALED k"] Nil by (cases "p = q") (auto simp: queue_ok_def)
      moreover have "pending (set_queue q SIGNALED k) runQueue (Q runQueue) = pending k runQueue (Q runQueue)"
        using assms by (simp add: pending_def split: list.split)
      ultimately show ?thesis using Q sg assms by (auto simp: NutEventPostFromIrq_def queues_def quiet_def)
    next
      case (Cons t us)
      note h = queue_head [of k Q q, OF Q(1) Cons]
      have "?k = (upd_thr t (\<lambda>i. i\<lparr>td_qpec := td_qpec (thr k t) + 1\<rparr>) k)\<lparr>total_pending := total_pending k + 1\<rparr>"
        using h by (simp add: NutEventPostFromIrq_def upd_thr_def)
      then show ?thesis using queues_count [OF Q Cons assms] sg by simp
    qed
    moreover have "td_core (thr ?k x) = td_core (thr k x)" for x by (auto simp: NutEventPostFromIrq_def)
    moreover have "tmr ?k = tmr k \<and> hmem ?k = hmem k \<and> nutTimerList ?k = nutTimerList k \<and> fixed_part ?k k"
      by (simp add: NutEventPostFromIrq_def fixed_part_def)
    ultimately show "\<exists>k'. Some ?k = Some k' \<and> queues k' Q \<and> quiet k' Q \<and> queue k' runQueue \<noteq> SIGNALED
      \<and> (\<forall>x. td_core (thr k' x) = td_core (thr k x)) \<and> tmr k' = tmr k \<and> hmem k' = hmem k \<and> nutTimerList k' = nutTimerList k \<and> fixed_part k' k"
      by blast
  qed
  show "polite Some" by (auto simp: polite_def fixed_part_def)
qed

lemma progress_post:
  assumes so: "same_others t k' k" and st: "td_state (thr k' t) = TDS_READY"
    and Q: "queues k Q" and t: "t \<in> set (Q q)" "q \<noteq> runQueue"
  shows "progress k Q k' (woken k t q Q)"
proof -
  have d: "distinct (Q q)" using queue_okD(3) [OF queuesD(1) [OF Q]] .
  note ws = woken_set [of Q q, OF d t(2)]
  have nr: "t \<notin> set (Q runQueue)" using queuesD(3) [OF Q t(1), of runQueue] t(2) by auto
  have core: "td_core (thr k' x) = td_core (thr k x)" if "x \<noteq> t" for x using so that by (simp add: same_others_def)
  have cort: "td_core (thr k' t) = td_core ((thr k t)\<lparr>td_state := td_state (thr k' t), td_timer := td_timer (thr k' t)\<rparr>)"
    using so by (simp only: same_others_def)
  have "td_next (thr k' x) = td_next (thr k x) \<and> td_priority (thr k' x) = td_priority (thr k x)" for x
    using td_core_eqD [OF core [of x]] td_core_eqD [OF cort] by (cases "x = t") simp_all
  moreover have "x \<in> set (woken k t q Q p) \<or> x \<in> set (woken k t q Q runQueue)" if "x \<in> set (Q p)" for x p
    using that ws(1) [of p x k t] ws(2) [of x k t] by (cases "p = runQueue") auto
  moreover have "fixed_part k' k" using so by (simp add: same_others_def fixed_part_def)
  moreover have "x \<in> set (woken k t q Q runQueue) \<and> td_core (thr k' x) = td_core (thr k x)" if "x \<in> set (Q runQueue)" for x
    using that nr ws(2) [of x k t] core by metis
  moreover have "td_state (thr k' x) = TDS_READY" if "x \<in> set (woken k t q Q runQueue)" "x \<notin> set (Q runQueue)" for x
    using that ws(2) [of x k t] st by metis
  moreover have "subseq (Q runQueue) (woken k t q Q runQueue)" by (simp add: woken_def subseq_rank_insert)
  ultimately show ?thesis unfolding progress_def by blast
qed

lemma progress_timed_out:
  assumes to: "timed_out k Q F k' Q'" and Q: "queues k Q" and L: "links k Q T" "F \<subseteq> T" and fx: "fixed_part k' k"
  shows "progress k Q k' Q'"
proof -
  let ?a = "sleeping k F \<union> waiting k Q F"
  have "x \<notin> ?a" if "x \<in> set (Q runQueue)" for x
  proof
    assume "x \<in> ?a"
    then consider "x \<in> sleeping k F" | "x \<in> waiting k Q F" by blast
    then show False
    proof cases
      case 1
      then show False using linksD(3) [OF L(1)] L(2) that unfolding sleeping_def by blast
    next
      case 2
      then show False using queuesD(3) [OF Q that] unfolding waiting_def by blast
    qed
  qed
  moreover have un: "x \<notin> ?a \<Longrightarrow> td_core (thr k' x) = td_core (thr k x) \<and> (\<forall>p. x \<in> set (Q' p) \<longleftrightarrow> x \<in> set (Q p))" for x
    using to unfolding timed_out_def by blast
  moreover have "x \<in> ?a \<Longrightarrow> x \<in> set (Q' runQueue) \<and> td_state (thr k' x) = TDS_READY" for x
    using to unfolding timed_out_def by blast
  moreover have "td_next (thr k' x) = td_next (thr k x) \<and> td_priority (thr k' x) = td_priority (thr k x)" for x
    using to unfolding timed_out_def by blast
  moreover have "subseq (Q runQueue) (Q' runQueue)" using to unfolding timed_out_def by blast
  ultimately show ?thesis unfolding progress_def using fx by blast
qed

lemma kinv_cong:
  assumes I: "kinv k Q ts hs A" and "queue k' = queue k"
    and th: "\<And>x. td_qnxt (thr k' x) = td_qnxt (thr k x) \<and> td_qpec (thr k' x) = td_qpec (thr k x)
      \<and> td_queue (thr k' x) = td_queue (thr k x) \<and> td_priority (thr k' x) = td_priority (thr k x)"
    and tt: "\<And>x. td_timer (thr k' x) = td_timer (thr k x)"
    and "tmr k' = tmr k" "nutTimerList k' = nutTimerList k" "hmem k' = hmem k" "mem_guard k' = mem_guard k"
  shows "kinv k' Q ts hs A"
proof -
  note fr = timer_inv_frame [OF I assms(5-8)]
  have "queues k' Q" "quiet k' Q" using queues_frame(1,3) [OF kinvD(1) [OF I] th assms(2)] kinvD(8) [OF I] by simp_all
  moreover have "links k' Q (fst ` set ts)" using kinvD(7) [OF I] links_cong [of k' k, OF tt] assms(5) by simp
  ultimately show ?thesis using fr kinvD(2) [OF I] assms(2) unfolding kinv_def by simp
qed

text \<open>An event that is posted stops the timer \<open>tm\<close> of the thread, and leaves the other timers as they are.\<close>

lemma own_timers_post:
  assumes own: "own_timers user k (fst ` set ts)" and ts: "fst ` set ts' = fst ` set ts"
    and cb: "tm \<noteq> NULL \<Longrightarrow> tn_callback (tmr k' tm) = NoCallback"
    and core: "\<And>x. x \<noteq> tm \<or> tm = NULL \<Longrightarrow> tn_core (tmr k' x) = tn_core (tmr k x)"
  shows "own_timers user k' (fst ` set ts')"
  unfolding own_timers_def
proof (intro ballI)
  fix tn assume "tn \<in> fst ` set ts'"
  then have o: "own_timer user k tn" using own ts unfolding own_timers_def by blast
  show "own_timer user k' tn"
  proof (cases "tn \<noteq> tm \<or> tm = NULL")
    case True
    then show ?thesis using o own_timer_cong [OF core [OF True]] by blast
  next
    case False
    then show ?thesis using cb by (simp add: own_timer_def)
  qed
qed

lemma resume_walk_step:
  assumes I: "kinv k Q ts hs A" and own: "own_timers user k (fst ` set ts)" and n: "td_qpec (thr k t) \<noteq> 0"
  defines "k0 \<equiv> (upd_thr t (\<lambda>i. i\<lparr>td_qpec := td_qpec i - 1\<rparr>) k)\<lparr>total_pending := total_pending k - 1\<rparr>"
  obtains k' Q' ts' where "NutEventPostAsync (td_queue (thr k t)) k0 = Some (k', 1)" "queue k0 (td_queue (thr k t)) \<noteq> SIGNALED"
    "kinv k' Q' ts' hs A" "own_timers user k' (fst ` set ts')" "progress k Q k' Q'" "Q' = woken k t (td_queue (thr k t)) Q"
    "\<And>p. p \<noteq> runQueue \<Longrightarrow> Q' p \<noteq> [] \<Longrightarrow> pending k' p (Q' p) = pending k p (Q p) - (if p = td_queue (thr k t) then 1 else 0)"
proof -
  obtain q us where q: "td_queue (thr k t) = q" "q \<noteq> runQueue" "Q q = t # us" by (rule pending_head [OF I n])
  have k0: "k0 = (upd_thr t (\<lambda>i. i\<lparr>td_qpec := td_qpec (thr k t) - 1\<rparr>) k)\<lparr>total_pending := total_pending k - 1\<rparr>"
    by (simp add: k0_def upd_thr_def)
  have I0: "kinv k0 Q ts hs A" unfolding k0 by (rule kinv_count [OF I q(3,2)])
  have tq: "t \<in> set (Q q)" using q(3) by simp
  obtain k' ts' where p: "NutEventPostAsync q k0 = Some (k', 1)" "kinv k' (woken k0 t q Q) ts' hs A"
    "pending k' q us = (if us = [] then min 1 (pending k0 q (Q q)) else pending k0 q (Q q))"
    "same_others t k' k0" "td_state (thr k' t) = TDS_READY" "td_timer (thr k' t) = NULL"
    "filter (\<lambda>p. fst p \<noteq> td_timer (thr k0 t)) (expiry 0 ts') = filter (\<lambda>p. fst p \<noteq> td_timer (thr k0 t)) (expiry 0 ts)"
    "td_timer (thr k0 t) \<noteq> NULL \<Longrightarrow> tn_callback (tmr k' (td_timer (thr k0 t))) = NoCallback"
    "\<And>p. p \<noteq> q \<Longrightarrow> p \<noteq> runQueue \<Longrightarrow> pending k' p (Q p) = pending k0 p (Q p)"
    "\<And>x. x \<notin> {q, runQueue} \<Longrightarrow> queue k' x = queue k0 x"
    "\<And>x. x \<noteq> td_timer (thr k0 t) \<or> td_timer (thr k0 t) = NULL \<Longrightarrow> tn_core (tmr k' x) = tn_core (tmr k0 x)"
    "fst ` set ts' = fst ` set ts"
    by (rule post_async_wakes [OF I0 q(2,3)]) (rule that)
  have pr0: "progress k0 Q k' (woken k0 t q Q)" by (rule progress_post [OF p(4,5) kinvD(1) [OF I0] tq q(2)])
  have "progress k Q k0 Q" by (simp add: k0 progress_def fixed_part_def)
  then have pr: "progress k Q k' (woken k0 t q Q)" using pr0 by (rule progress_trans)
  have "own_timers user k' (fst ` set ts')"
    by (rule own_timers_post [OF own p(12,8)]) (use p(11) in \<open>simp_all add: k0\<close>)
  moreover have s0: "queue k0 q \<noteq> SIGNALED" using queue_head(2) [of k0 Q q, OF kinvD(1) [OF I0] q(3)] .
  moreover have w: "woken k0 t q Q = woken k t q Q" by (rule woken_cong) (auto simp: k0)
  moreover have "pending k' p (woken k t q Q p) = pending k p (Q p) - (if p = q then 1 else 0)"
    if "p \<noteq> runQueue" "woken k t q Q p \<noteq> []" for p
  proof (cases "p = q")
    case True
    then have "us \<noteq> []" "woken k t q Q p = us" using that q(3) by (simp_all add: woken_def)
    moreover have "queue k q \<noteq> SIGNALED" using s0 by (simp add: k0)
    ultimately show ?thesis using p(3) q(3) s0 True by (simp add: pending_def k0)
  next
    case False
    have "t \<notin> set (Q p)" using queuesD(3) [OF kinvD(1) [OF I] tq, of p] False by blast
    then have "pending k0 p (Q p) = pending k p (Q p)" by (auto simp: pending_def k0 split: list.split)
    then show ?thesis using p(9) [OF False that(1)] False that(1) by (simp add: woken_def)
  qed
  ultimately show thesis using that [of k' "woken k0 t q Q" ts'] p(1,2) pr q(1) by simp
qed

text \<open>
  What the walk over the list of threads does to the queues: a thread that is the first one in an event queue with
  pending events is moved to the run queue, and takes one of the events. \<open>E\<close> are the numbers of pending events.
\<close>

fun deliver :: "kernel \<Rightarrow> addr list \<Rightarrow> (addr \<Rightarrow> nat) \<Rightarrow> (addr \<Rightarrow> addr list) \<Rightarrow> addr \<Rightarrow> addr list" where
  "deliver k [] E Q = Q"
| "deliver k (t # ts) E Q =
     (let q = td_queue (thr k t) in
      if q \<noteq> runQueue \<and> E q \<noteq> 0 \<and> Q q \<noteq> [] \<and> hd (Q q) = t
      then deliver k ts (E(q := E q - 1)) (woken k t q Q) else deliver k ts E Q)"

lemma deliver_keeps: "t \<in> set (Q runQueue) \<Longrightarrow> t \<in> set (deliver k xs E Q runQueue)"
  by (induction xs arbitrary: E Q) (auto simp: Let_def woken_def)

text \<open>Every thread of the list that is the first one in a queue with pending events becomes ready.\<close>

lemma deliver_first:
  assumes "t \<in> set xs" "td_queue (thr k t) = q" "q \<noteq> runQueue" "E q \<noteq> 0" "Q q = t # us"
  shows "t \<in> set (deliver k xs E Q runQueue)"
  using assms(1,4,5)
proof (induction xs arbitrary: E Q)
  case (Cons x xs)
  show ?case
  proof (cases "x = t")
    case True
    have "t \<in> set (woken k t q Q runQueue)" by (simp add: woken_def)
    then show ?thesis using True Cons.prems(2,3) assms(2,3) by (simp add: deliver_keeps)
  next
    case False
    then have t: "t \<in> set xs" using Cons.prems(1) by simp
    let ?p = "td_queue (thr k x)"
    have "woken k x ?p Q q = t # us" "(E(?p := E ?p - 1)) q \<noteq> 0" if "hd (Q ?p) = x" "Q ?p \<noteq> []"
      using that False Cons.prems(2,3) assms(3) by (auto simp: woken_def)
    then show ?thesis using Cons.IH [OF t] Cons.prems(2,3) by (auto simp: Let_def)
  qed
qed simp


lemma qpec_first:
  assumes I: "kinv k Q ts hs A" and "Q q = t # us" "q \<noteq> runQueue"
  shows "pending k q (Q q) = td_qpec (thr k t)"
  using queue_head(2) [of k Q q, OF kinvD(1) [OF I] assms(2)] assms(2) by (simp add: pending_def)

lemma resume_walk_spec:
  assumes "kinv k Q ts hs A" and "own_timers user k (fst ` set ts)" and "tlist k p xs"
    and "\<And>q. q \<noteq> runQueue \<Longrightarrow> Q q \<noteq> [] \<Longrightarrow> E q = pending k q (Q q)"
    and "\<And>q t. q \<noteq> runQueue \<Longrightarrow> t \<in> set (Q q) \<Longrightarrow> td_queue (thr k0 t) = q" and "prio k = prio k0"
  shows "\<exists>k' Q' ts'. resume_walk p k = Some k' \<and> kinv k' Q' ts' hs A \<and> own_timers user k' (fst ` set ts') \<and> progress k Q k' Q'
    \<and> Q' = deliver k0 xs E Q"
  using assms(1-6)
proof (induction xs arbitrary: p k Q ts E)
  case Nil
  then have "resume_walk p k = Some k" by (subst resume_walk.simps) simp
  then show ?case using Nil progress_refl by auto
next
  case (Cons t xs)
  have pt: "p = t" "t \<noteq> NULL" "tlist k (td_next (thr k t)) xs" using Cons.prems(3) by auto
  note I = Cons.prems(1)
  let ?k0 = "(upd_thr t (\<lambda>i. i\<lparr>td_qpec := td_qpec i - 1\<rparr>) k)\<lparr>total_pending := total_pending k - 1\<rparr>"
  let ?q = "td_queue (thr k0 t)"
  let ?E = "if td_qpec (thr k t) \<noteq> 0 then E(?q := E ?q - 1) else E"
  have first: "td_queue (thr k t) = ?q" "?q \<noteq> runQueue" "Q ?q \<noteq> []" "hd (Q ?q) = t" if n: "td_qpec (thr k t) \<noteq> 0"
  proof -
    obtain q us where q: "td_queue (thr k t) = q" "q \<noteq> runQueue" "Q q = t # us" by (rule pending_head [OF I n])
    then have "q = ?q" using Cons.prems(5) [OF q(2), of t] by simp
    then show "td_queue (thr k t) = ?q" "?q \<noteq> runQueue" "Q ?q \<noteq> []" "hd (Q ?q) = t" using q by simp_all
  qed
  have ev: "td_qpec (thr k t) \<noteq> 0 \<longleftrightarrow> ?q \<noteq> runQueue \<and> E ?q \<noteq> 0 \<and> Q ?q \<noteq> [] \<and> hd (Q ?q) = t" (is "?n \<longleftrightarrow> ?c")
  proof
    assume n: ?n
    have "Q ?q = t # tl (Q ?q)" using first [OF n] by (metis list.collapse)
    then have "E ?q = td_qpec (thr k t)" using Cons.prems(4) [of ?q] first [OF n] qpec_first [OF I] by metis
    then show ?c using first [OF n] n by simp
  next
    assume c: ?c
    then have "Q ?q = t # tl (Q ?q)" by (metis list.collapse)
    then show ?n using Cons.prems(4) [of ?q] c qpec_first [OF I] by metis
  qed
  obtain k1 Q1 ts1 where s: "(if td_qpec (thr k t) \<noteq> 0 then
        (if queue ?k0 (td_queue (thr k t)) \<noteq> SIGNALED then map_option fst (NutEventPostAsync (td_queue (thr k t)) ?k0) else Some ?k0)
        else Some k) = Some k1"
    "kinv k1 Q1 ts1 hs A" "own_timers user k1 (fst ` set ts1)" "progress k Q k1 Q1"
    "Q1 = (if td_qpec (thr k t) \<noteq> 0 then woken k t ?q Q else Q)"
    "\<And>p. p \<noteq> runQueue \<Longrightarrow> Q1 p \<noteq> [] \<Longrightarrow> ?E p = pending k1 p (Q1 p)"
  proof (cases "td_qpec (thr k t) = 0")
    case True
    then show thesis using that [OF _ Cons.prems(1,2) progress_refl] Cons.prems(4) by simp
  next
    case False
    note fi = first [OF False]
    show thesis
    proof (rule resume_walk_step [OF Cons.prems(1,2) False], goal_cases)
      case (1 k' Q' ts')
      have "?E p = pending k' p (Q' p)" if "p \<noteq> runQueue" "Q' p \<noteq> []" for p
      proof -
        have "Q p \<noteq> []" using woken_subset [OF that(1), of k t "td_queue (thr k t)" Q] that(2) 1(6) by auto
        then show ?thesis using 1(7) [OF that] Cons.prems(4) [OF that(1)] False fi(1) by auto
      qed
      then show ?case using that [OF _ 1(3-5)] 1 False fi(1) by simp
    qed
  qed
  have nx: "td_next (thr k1 x) = td_next (thr k x)" and pr: "prio k1 = prio k" for x using s(4) unfolding progress_def by auto
  have tl1: "tlist k1 (td_next (thr k1 t)) xs" using pt(3) tlist_frame [of k1 k, OF nx] nx [of t] by simp
  have qu1: "td_queue (thr k0 u) = q" if "q \<noteq> runQueue" "u \<in> set (Q1 q)" for q u
    using Cons.prems(5) [OF that(1), of u] that woken_subset [OF that(1), of k t ?q Q] s(5) by (auto split: if_splits)
  from Cons.IH [OF s(2,3) tl1 s(6) qu1] pr Cons.prems(6) obtain k' Q' ts' where r: "resume_walk (td_next (thr k1 t)) k1 = Some k'"
    "kinv k' Q' ts' hs A" "own_timers user k' (fst ` set ts')" "progress k1 Q1 k' Q'" "Q' = deliver k0 xs ?E Q1" by auto
  have w: "woken k t ?q Q = woken k0 t ?q Q" by (rule woken_cong [OF Cons.prems(6)])
  have "Q' = deliver k0 (t # xs) E Q"
    unfolding r(5) s(5) w deliver.simps Let_def ev [symmetric] by simp
  moreover have "resume_walk p k = Some k'"
    using pt s(1) r(1) by (subst resume_walk.simps) (simp split del: if_split add: Let_def cong: if_cong)
  ultimately show ?case using r(2,3) progress_trans [OF s(4) r(4)] by blast
qed

lemma process_elapsed_spec:
  assumes I: "kinv k Q ts hs A" and own: "own_timers user k (fst ` set ts)"
  defines "e \<equiv> elapse (\<lambda>t. tn_ticks (tmr k t)) (nut_ticks k - nut_ticks_resume k) ts"
  shows "\<exists>k' Q' hs'. NutTimerProcessElapsed user k = Some k' \<and> kinv k' Q' (snd e) hs' A \<and> timed_out k Q (set (fst e)) k' Q'
    \<and> fixed_part k' (k\<lparr>nut_ticks_resume := nut_ticks k\<rparr>) \<and> (\<forall>x. tn_core (tmr k' x) = tn_core (tmr k x))
    \<and> Q' = fold (fire k) (fst e) Q"
proof -
  let ?k = "k\<lparr>nut_ticks_resume := nut_ticks k\<rparr>"
  have I': "kinv ?k Q ts hs A" by (rule kinv_cong [OF I]) simp_all
  have own': "own_timers user ?k (fst ` set ts)" using own by (simp add: own_timers_def own_timer_def)
  have "timed_out ?k Q F k' Q' = timed_out k Q F k' Q'" for F k' Q'
    by (simp add: timed_out_def sleeping_def waiting_def)
  moreover have "fire ?k tn R = fire k tn R" for tn R by (rule fire_cong) simp_all
  then have "fire ?k = fire k" by blast
  ultimately show ?thesis
    using elapsed_loop_spec [OF I' own', of "nut_ticks k - nut_ticks_resume k"]
    by (simp add: NutTimerProcessElapsed_def NutGetTickCount_def e_def Let_def)
qed

section \<open>Moving the running thread\<close>

text \<open>A state of the system from which the scheduler can go on: the invariant, the list of all threads.\<close>

definition sched_inv :: "user_callback \<Rightarrow> kernel \<Rightarrow> (addr \<Rightarrow> addr list) \<Rightarrow> (addr \<times> u32) list \<Rightarrow> addr list \<Rightarrow> addr set \<Rightarrow> addr list \<Rightarrow> bool" where
  "sched_inv user k Q ts hs A xs \<longleftrightarrow> kinv k Q ts hs A \<and> own_timers user k (fst ` set ts) \<and> tlist k (nutThreadList k) xs"

lemma links_queues:
  assumes L: "links k Q T" and "\<And>x. td_timer (thr k' x) = td_timer (thr k x)" "tmr k' = tmr k"
    and "\<And>q x. q \<noteq> runQueue \<Longrightarrow> x \<in> set (Q' q) \<Longrightarrow> x \<in> set (Q q) \<or> x = t"
    and nt: "\<And>q. q \<noteq> runQueue \<Longrightarrow> t \<in> set (Q' q) \<Longrightarrow> t \<notin> set (Q q) \<Longrightarrow> td_timer (thr k t) = NULL"
    and new: "\<And>q x. x \<in> set (Q' q) \<Longrightarrow> (\<exists>p. x \<in> set (Q p)) \<or> x = t"
    and "\<And>tn. tn \<in> T \<Longrightarrow> tn_callback (tmr k tn) = CbThreadWake \<Longrightarrow> tn_arg (tmr k tn) \<noteq> t"
  shows "links k' Q' T"
  unfolding links_def
proof (intro conjI allI impI ballI)
  fix q x assume q: "q \<noteq> runQueue" "x \<in> set (Q' q)" "td_timer (thr k' x) \<noteq> NULL"
  then have "x \<in> set (Q q)" "td_timer (thr k x) \<noteq> NULL" using assms(2) assms(4) [OF q(1,2)] nt [OF q(1)] by metis+
  from linksD(1) [OF L q(1) this] show "td_timer (thr k' x) \<in> T" "tn_callback (tmr k' (td_timer (thr k' x))) = CbEventTimeout"
    "tn_arg (tmr k' (td_timer (thr k' x))) = q" using assms(2,3) by simp_all
next
  fix q x y assume q: "q \<noteq> runQueue" "x \<in> set (Q' q)" "y \<in> set (Q' q)" "td_timer (thr k' x) \<noteq> NULL"
    "td_timer (thr k' x) = td_timer (thr k' y)"
  then have "x \<in> set (Q q)" "y \<in> set (Q q)" "td_timer (thr k x) \<noteq> NULL" "td_timer (thr k x) = td_timer (thr k y)"
    using assms(2) assms(4) [OF q(1,2)] assms(4) [OF q(1,3)] nt [OF q(1)] by metis+
  from linksD(2) [OF L q(1) this] show "x = y" .
next
  fix tn assume tn: "tn \<in> T" "tn_callback (tmr k' tn) = CbThreadWake"
  then have cb: "tn_callback (tmr k tn) = CbThreadWake" using assms(3) by simp
  note w = linksD(3) [OF L tn(1) cb]
  show "tn_arg (tmr k' tn) \<noteq> NULL" "tn_arg (tmr k' tn) \<noteq> SIGNALED" "td_timer (thr k' (tn_arg (tmr k' tn))) = tn"
    using w assms(2,3) by simp_all
  show "tn_arg (tmr k' tn) \<notin> set (Q' q)" for q using w new assms(7) [OF tn(1) cb] assms(3) by metis
next
  fix tn assume "tn \<in> T" "tn_callback (tmr k' tn) = CbEventTimeout"
  then show "tn_arg (tmr k' tn) \<noteq> runQueue" using linksD(4) [OF L, of tn] assms(3) by simp
qed

lemma links_wake_arg:
  "links k Q T \<Longrightarrow> tn \<in> T \<Longrightarrow> tn_callback (tmr k tn) = CbThreadWake \<Longrightarrow> t \<in> set (Q q) \<Longrightarrow> tn_arg (tmr k tn) \<noteq> t"
  using linksD(3) [of k Q T tn] by blast

lemma leave_run_queue:
  assumes I: "kinv k Q ts hs A" and t: "t \<in> set (Q runQueue)"
  obtains k' where "NutThreadRemoveQueue t runQueue k = Some k'"
    "kinv k' (Q(runQueue := remove1 t (Q runQueue))) ts hs A" "\<And>x. td_core (thr k' x) = td_core (thr k x)"
    "same_rest k' k" "\<And>x. x \<noteq> runQueue \<Longrightarrow> queue k' x = queue k x"
proof -
  note Q = kinvD(1) [OF I]
  let ?Q' = "Q(runQueue := remove1 t (Q runQueue))"
  obtain k' where r: "NutThreadRemoveQueue t runQueue k = Some k'" "queue_ok k' runQueue (remove1 t (Q runQueue))"
    "queue k' runQueue \<noteq> SIGNALED"
    "pending k' runQueue (remove1 t (Q runQueue)) = (if Q runQueue = [t] then 0 else pending k runQueue (Q runQueue))"
    "td_qnxt (thr k' t) = NULL" "td_queue (thr k' t) = NULL" "td_qpec (thr k' t) = 0"
    "\<And>x. td_core (thr k' x) = td_core (thr k x)" "\<And>x. x \<notin> set (Q runQueue) \<Longrightarrow> thr k' x = thr k x"
    "\<And>x. x \<noteq> runQueue \<Longrightarrow> queue k' x = queue k x" "same_rest k' k" "total_pending k' = total_pending k"
    by (rule remove_queue_spec [OF queuesD(1) [OF Q, of runQueue] t]) (rule that)
  have dis: "set (Q runQueue) \<inter> set (Q p) = {}" if "p \<noteq> runQueue" for p using queuesD(3) [OF Q, of _ runQueue p] that by blast
  have qs: "queues k' ?Q'" by (rule queues_update(1) [OF Q r(2,9) dis r(10)]; assumption)
  have qt: "quiet k' ?Q'"
  proof (rule quietI)
    show "pending k' runQueue (?Q' runQueue) = 0" using r(4) quietD(1) [OF kinvD(8) [OF I]] by simp
    fix x assume x: "\<forall>q. x \<notin> set (?Q' q)"
    show "td_qpec (thr k' x) = 0"
    proof (cases "x = t")
      case False
      have "x \<notin> set (Q q)" for q using spec [OF x, of q] False by (cases "q = runQueue") auto
      then show ?thesis using r(9) [of x] quietD(2) [OF kinvD(8) [OF I], of x] by simp
    qed (simp add: r(7))
  qed
  note s = same_restD [OF r(11)]
  have L: "links k' ?Q' (fst ` set ts)"
  proof (rule links_queues [OF kinvD(7) [OF I] _ s(1)])
    show "td_timer (thr k t) = NULL" if "q \<noteq> runQueue" "t \<in> set (?Q' q)" "t \<notin> set (Q q)" for q using that by simp
    show "td_timer (thr k' x) = td_timer (thr k x)" for x using td_core_eqD [OF r(8)] by blast
    show "x \<in> set (Q q) \<or> x = t" if "q \<noteq> runQueue" "x \<in> set (?Q' q)" for q x using that by simp
    show "(\<exists>p. x \<in> set (Q p)) \<or> x = t" if "x \<in> set (?Q' q)" for q x
      using that notin_set_remove1 [of x "Q runQueue" t] by (cases "q = runQueue") auto
    show "tn_arg (tmr k tn) \<noteq> t" if "tn \<in> fst ` set ts" "tn_callback (tmr k tn) = CbThreadWake" for tn
      using links_wake_arg [OF kinvD(7) [OF I] that t] .
  qed
  have "kinv k' ?Q' ts hs A"
    using qs r(3) qt L timer_inv_frame [OF I s(1,5,8,9)] unfolding kinv_def by blast
  then show thesis using that r(1,8,10,11) by blast
qed

lemma enter_queue:
  assumes I: "kinv k Q ts hs A" and t: "\<And>p. t \<notin> set (Q p)" "t \<noteq> NULL" "t \<noteq> SIGNALED"
    and tm: "q \<noteq> runQueue \<Longrightarrow> td_timer (thr k t) = NULL"
    and wk: "\<And>tn. tn \<in> fst ` set ts \<Longrightarrow> tn_callback (tmr k tn) = CbThreadWake \<Longrightarrow> tn_arg (tmr k tn) \<noteq> t"
  obtains k' where "NutThreadAddPriQueue t q k = Some k'"
    "kinv k' (Q(q := rank_insert (prio k) t (Q q))) ts hs A" "\<And>x. td_core (thr k' x) = td_core (thr k x)"
    "same_rest k' k" "\<And>x. x \<noteq> q \<Longrightarrow> queue k' x = queue k x"
    "pending k' q (rank_insert (prio k) t (Q q)) = pending k q (Q q)"
proof -
  note Q = kinvD(1) [OF I]
  let ?Q' = "Q(q := rank_insert (prio k) t (Q q))"
  obtain k' where r: "NutThreadAddPriQueue t q k = Some k'"
    "queue_ok k' q (pri_insert k t (Q q))" "queue k' q \<noteq> SIGNALED"
    "pending k' q (pri_insert k t (Q q)) = pending k q (Q q)"
    "\<And>x. td_core (thr k' x) = td_core (thr k x)" "\<And>x. x \<notin> insert t (set (Q q)) \<Longrightarrow> thr k' x = thr k x"
    "\<And>x. x \<noteq> q \<Longrightarrow> queue k' x = queue k x" "same_rest k' k"
    "total_pending k' = total_pending k + (if queue k q = SIGNALED then 1 else 0)"
    by (rule add_pri_spec [OF queuesD(1) [OF Q, of q] t(1,2,3)]) (rule that)
  note r = r [unfolded pri_insert_rank]
  have dis: "insert t (set (Q q)) \<inter> set (Q p) = {}" if "p \<noteq> q" for p
    using queuesD(3) [OF Q, of _ q p] that t(1) [of p] by blast
  have qs: "queues k' ?Q'" by (rule queues_update(1) [OF Q r(2,6) dis r(7)]; assumption)
  have po: "pending k' p (Q p) = pending k p (Q p)" if "p \<noteq> q" for p
    by (rule queues_update(2) [OF Q r(2,6) dis r(7) that]; assumption)
  have qt: "quiet k' ?Q'"
  proof (rule quietI)
    show "pending k' runQueue (?Q' runQueue) = 0"
      using r(4) po [of runQueue] quietD(1) [OF kinvD(8) [OF I]] by (cases "q = runQueue") simp_all
    fix x assume x: "\<forall>p. x \<notin> set (?Q' p)"
    have n: "x \<noteq> t" "x \<notin> set (Q p)" for p using spec [OF x, of q] spec [OF x, of p] by (simp, cases "p = q", simp_all)
    then show "td_qpec (thr k' x) = 0" using r(6) [of x] quietD(2) [OF kinvD(8) [OF I], of x] by simp
  qed
  note s = same_restD [OF r(8)]
  have L: "links k' ?Q' (fst ` set ts)"
  proof (rule links_queues [OF kinvD(7) [OF I] _ s(1) _ _ _ wk])
    show "td_timer (thr k t) = NULL" if "p \<noteq> runQueue" "t \<in> set (?Q' p)" "t \<notin> set (Q p)" for p
      using that tm by (cases "p = q") simp_all
    show "td_timer (thr k' x) = td_timer (thr k x)" for x using td_core_eqD [OF r(5)] by blast
    show "x \<in> set (Q p) \<or> x = t" if "p \<noteq> runQueue" "x \<in> set (?Q' p)" for p x
      using that by (cases "p = q") auto
    show "(\<exists>p. x \<in> set (Q p)) \<or> x = t" if "x \<in> set (?Q' p)" for p x
      using that by (cases "p = q") auto
  qed
  have sg: "queue k' runQueue \<noteq> SIGNALED"
    using r(3,7) kinvD(2) [OF I] by (cases "q = runQueue") auto
  have "kinv k' ?Q' ts hs A"
    using qs sg qt L timer_inv_frame [OF I s(1,5,8,9)] unfolding kinv_def by blast
  then show thesis using that r(1,4,5,7,8) by blast
qed

section \<open>The scheduler\<close>

lemma switch_inv:
  assumes "kinv k Q ts hs A"
  shows "kinv (NutThreadSwitch k) Q ts hs A" and "kinv (upd_thr t (\<lambda>i. i\<lparr>td_state := s\<rparr>) k) Q ts hs A"
  by (rule kinv_cong [OF assms]; simp add: NutThreadSwitch_def)+

text \<open>
  What resuming guarantees: the running thread is at the head of the run queue, so no ready
  thread has a higher priority; threads that were ready stay ready, and every queued thread is
  still in its queue or ready.
\<close>

definition scheduled :: "kernel \<Rightarrow> (addr \<Rightarrow> addr list) \<Rightarrow> kernel \<Rightarrow> (addr \<Rightarrow> addr list) \<Rightarrow> bool" where
  "scheduled k Q k' Q' \<longleftrightarrow>
     (\<exists>us. Q' runQueue = runningThread k' # us) \<and>
     (\<forall>u \<in> set (Q' runQueue). td_priority (thr k' (runningThread k')) \<le> td_priority (thr k' u)) \<and>
     (\<forall>x. td_priority (thr k' x) = td_priority (thr k x)) \<and>
     subseq (Q runQueue) (Q' runQueue) \<and>
     (\<forall>q x. x \<in> set (Q q) \<longrightarrow> x \<in> set (Q' q) \<or> x \<in> set (Q' runQueue)) \<and>
     (runningThread k' \<noteq> runningThread k \<longrightarrow> td_state (thr k' (runningThread k')) = TDS_RUNNING)"

lemma head_priority:
  assumes "queues k Q" and "Q q = t # us" and "u \<in> set (Q q)"
  shows "td_priority (thr k t) \<le> td_priority (thr k u)"
  using queue_okD(4) [OF queuesD(1) [OF assms(1), of q]] assms(2,3) by auto

lemma resume_delivers:
  assumes S: "sched_inv user k Q ts hs A xs" and ne: "Q runQueue \<noteq> []"
  obtains k' Q' ts' hs' k1 Q1 ts1 fired where "NutThreadResume user k = Some k'" "sched_inv user k' Q' ts' hs' A xs" "scheduled k Q k' Q'"
    "resume_walk (nutThreadList k) k = Some k1" "kinv k1 Q1 ts1 hs A" "Q1 = deliver k xs (\<lambda>q. pending k q (Q q)) Q"
    "elapse (\<lambda>t. tn_ticks (tmr k1 t)) (nut_ticks k - nut_ticks_resume k) ts1 = (fired, ts')" "Q' = fold (fire k1) fired Q1"
    "subseq (Q1 runQueue) (Q' runQueue)" "nut_ticks_resume k' = nut_ticks k"
proof -
  have I: "kinv k Q ts hs A" and own: "own_timers user k (fst ` set ts)" and tl: "tlist k (nutThreadList k) xs"
    using S by (simp_all add: sched_inv_def)
  obtain k1 Q1 ts1 where r: "resume_walk (nutThreadList k) k = Some k1" "kinv k1 Q1 ts1 hs A"
    "own_timers user k1 (fst ` set ts1)" "progress k Q k1 Q1" "Q1 = deliver k xs (\<lambda>q. pending k q (Q q)) Q"
    using resume_walk_spec [OF I own tl, of "\<lambda>q. pending k q (Q q)" k] queue_okD(7) [OF queuesD(1) [OF kinvD(1) [OF I]]] by blast
  let ?e = "elapse (\<lambda>t. tn_ticks (tmr k1 t)) (nut_ticks k1 - nut_ticks_resume k1) ts1"
  obtain k2 Q2 hs2 where e: "NutTimerProcessElapsed user k1 = Some k2" "kinv k2 Q2 (snd ?e) hs2 A"
    "timed_out k1 Q1 (set (fst ?e)) k2 Q2" "fixed_part k2 (k1\<lparr>nut_ticks_resume := nut_ticks k1\<rparr>)"
    "\<And>x. tn_core (tmr k2 x) = tn_core (tmr k1 x)" "Q2 = fold (fire k1) (fst ?e) Q1"
    using process_elapsed_spec [OF r(2,3)] by blast
  let ?k1 = "k1\<lparr>nut_ticks_resume := nut_ticks k1\<rparr>"
  have kq: "queues ?k1 Q1" "links ?k1 Q1 (fst ` set ts1)"
    using kinvD(1,7) [OF kinv_cong [OF r(2), of ?k1]] by simp_all
  have "timed_out ?k1 Q1 (set (fst ?e)) k2 Q2"
    using e(3) by (simp add: timed_out_def sleeping_def waiting_def)
  from progress_timed_out [OF this kq elapse_fired e(4)] have pe: "progress ?k1 Q1 k2 Q2" .
  have own2: "own_timers user k2 (fst ` set (snd ?e))"
  proof (rule own_timers_frame [OF e(5) _ r(3)])
    show "fst ` set (snd ?e) \<subseteq> fst ` set ts1" by (rule elapse_rest)
  qed
  have nx: "td_next (thr k2 x) = td_next (thr k x)" "td_priority (thr k2 x) = td_priority (thr k x)" for x
    using r(4) pe unfolding progress_def by auto
  have fx: "nutThreadList k2 = nutThreadList k" "runningThread k2 = runningThread k"
    using r(4) e(4) unfolding progress_def fixed_part_def by auto
  have ss: "subseq (Q runQueue) (Q2 runQueue)"
    using r(4) pe subseq_order.order_trans unfolding progress_def by blast
  have sub: "set (Q runQueue) \<subseteq> set (Q2 runQueue)" using r(4) pe unfolding progress_def by auto
  have all: "x \<in> set (Q q) \<Longrightarrow> x \<in> set (Q2 q) \<or> x \<in> set (Q2 runQueue)" for q x
    using r(4) pe unfolding progress_def by metis
  obtain h us where hd: "Q2 runQueue = h # us" using sub ne by (cases "Q2 runQueue") auto
  note qh = queue_head [of k2 Q2 runQueue, OF kinvD(1) [OF e(2)] hd]
  let ?k3 = "if td_state (thr k2 (runningThread k2)) = TDS_RUNNING
    then upd_thr (runningThread k2) (\<lambda>i. i\<lparr>td_state := TDS_READY\<rparr>) k2 else k2"
  let ?k' = "if runningThread k2 \<noteq> queue k2 runQueue then NutThreadSwitch ?k3 else k2"
  have run: "NutThreadResume user k = Some ?k'" using r(1) e(1) by (simp add: NutThreadResume_def)
  have I3: "kinv ?k3 Q2 (snd ?e) hs2 A" using e(2) switch_inv(2) [OF e(2)] by simp
  have I': "kinv ?k' Q2 (snd ?e) hs2 A" using e(2) switch_inv(1) [OF I3] by simp
  have rt: "runningThread ?k' = h" using qh(1) by (simp add: NutThreadSwitch_def)
  have th': "td_next (thr ?k' x) = td_next (thr k2 x)" "td_priority (thr ?k' x) = td_priority (thr k2 x)" for x
    by (auto simp: NutThreadSwitch_def)
  have st: "runningThread ?k' \<noteq> runningThread k \<longrightarrow> td_state (thr ?k' (runningThread ?k')) = TDS_RUNNING"
    using qh(1) fx(2) by (auto simp: NutThreadSwitch_def)
  have tm: "tmr ?k' = tmr k2" "nutThreadList ?k' = nutThreadList k2" by (auto simp: NutThreadSwitch_def)
  have "own_timers user ?k' (fst ` set (snd ?e))" using own2 tm(1) by (simp only: own_timers_def own_timer_def)
  moreover have "tlist ?k' (nutThreadList ?k') xs"
    using tl tlist_frame [of ?k' k] th'(1) nx(1) tm(2) fx(1) by simp
  ultimately have S': "sched_inv user ?k' Q2 (snd ?e) hs2 A xs" using I' by (simp only: sched_inv_def simp_thms)
  have "td_priority (thr ?k' h) \<le> td_priority (thr ?k' u)" if "u \<in> set (Q2 runQueue)" for u
    using head_priority [OF kinvD(1) [OF I'] hd that] .
  then have "scheduled k Q ?k' Q2"
    unfolding scheduled_def rt using hd th'(2) nx(2) ss all st [unfolded rt] by metis
  moreover have "nut_ticks k1 = nut_ticks k" "nut_ticks_resume k1 = nut_ticks_resume k"
    using r(4) unfolding progress_def fixed_part_def by simp_all
  moreover have "nut_ticks_resume ?k' = nut_ticks k1" using e(4) by (simp add: fixed_part_def NutThreadSwitch_def)
  moreover have "subseq (Q1 runQueue) (Q2 runQueue)" using pe unfolding progress_def by blast
  ultimately show thesis using that [OF run S' _ r(1,2,5) _ e(6)] by simp
qed

lemma resume_spec:
  assumes "sched_inv user k Q ts hs A xs" and "Q runQueue \<noteq> []"
  obtains k' Q' ts' hs' where "NutThreadResume user k = Some k'" "sched_inv user k' Q' ts' hs' A xs" "scheduled k Q k' Q'"
  by (rule resume_delivers [OF assms]) (rule that)

section \<open>Yielding, waiting and sleeping\<close>

lemma tlist_core: "(\<And>x. td_core (thr k' x) = td_core (thr k x)) \<Longrightarrow> tlist k' p xs = tlist k p xs"
  by (rule tlist_frame) (use td_core_eqD in blast)

lemma sched_requeue:
  assumes S: "sched_inv user k Q ts hs A xs" and t: "t \<in> set (Q runQueue)"
  obtains k1 k2 where "NutThreadRemoveQueue t runQueue k = Some k1" "NutThreadAddPriQueue t runQueue k1 = Some k2"
    "sched_inv user k2 (Q(runQueue := rank_insert (prio k) t (remove1 t (Q runQueue)))) ts hs A xs"
    "\<And>x. td_core (thr k2 x) = td_core (thr k x)" "runningThread k2 = runningThread k"
proof -
  have I: "kinv k Q ts hs A" and own: "own_timers user k (fst ` set ts)" and tl: "tlist k (nutThreadList k) xs"
    using S by (simp_all add: sched_inv_def)
  note Q = kinvD(1) [OF I]
  obtain k1 where r: "NutThreadRemoveQueue t runQueue k = Some k1"
    "kinv k1 (Q(runQueue := remove1 t (Q runQueue))) ts hs A" "\<And>x. td_core (thr k1 x) = td_core (thr k x)"
    "same_rest k1 k" "\<And>x. x \<noteq> runQueue \<Longrightarrow> queue k1 x = queue k x"
    by (rule leave_run_queue [OF I t]) (rule that)
  let ?Q1 = "Q(runQueue := remove1 t (Q runQueue))"
  have d: "distinct (Q runQueue)" using queue_okD(3) [OF queuesD(1) [OF Q]] .
  have nt: "t \<notin> set (?Q1 p)" for p using d queuesD(3) [OF Q t, of p] by (cases "p = runQueue") auto
  have v: "t \<noteq> NULL" "t \<noteq> SIGNALED" using queuesD(2) [OF Q t] by simp_all
  have tm1: "tmr k1 = tmr k" using same_restD(1) [OF r(4)] .
  have wk: "tn_arg (tmr k1 tn) \<noteq> t" if "tn \<in> fst ` set ts" "tn_callback (tmr k1 tn) = CbThreadWake" for tn
    using links_wake_arg [OF kinvD(7) [OF I] that(1) that(2) [unfolded tm1] t] unfolding tm1 .
  obtain k2 where a: "NutThreadAddPriQueue t runQueue k1 = Some k2"
    "kinv k2 (?Q1(runQueue := rank_insert (prio k1) t (?Q1 runQueue))) ts hs A" "\<And>x. td_core (thr k2 x) = td_core (thr k1 x)"
    "same_rest k2 k1" "\<And>x. x \<noteq> runQueue \<Longrightarrow> queue k2 x = queue k1 x"
    "pending k2 runQueue (rank_insert (prio k1) t (?Q1 runQueue)) = pending k1 runQueue (?Q1 runQueue)"
    by (rule enter_queue [where q = runQueue, OF r(2) nt v _ wk]) (simp, assumption, assumption, rule that)
  have core: "td_core (thr k2 x) = td_core (thr k x)" for x using a(3) r(3) by simp
  have "?Q1(runQueue := rank_insert (prio k1) t (?Q1 runQueue)) = Q(runQueue := rank_insert (prio k) t (remove1 t (Q runQueue)))"
    using core_prio [OF r(3)] by simp
  moreover have "own_timers user k2 (fst ` set ts)" using own same_restD(1) [OF a(4)] tm1 by (simp add: own_timers_def own_timer_def)
  moreover have "tlist k2 (nutThreadList k2) xs"
    using tl tlist_core [of k2 k, OF core] same_restD(4) [OF a(4)] same_restD(4) [OF r(4)] by simp
  ultimately have "sched_inv user k2 (Q(runQueue := rank_insert (prio k) t (remove1 t (Q runQueue)))) ts hs A xs"
    using a(2) by (simp only: sched_inv_def simp_thms)
  then show thesis
    using that [OF r(1) a(1) _ core] same_restD(2) [OF a(4)] same_restD(2) [OF r(4)] by simp
qed

lemma subseq_set: "subseq xs ys \<Longrightarrow> set xs \<subseteq> set ys"
  by (induction rule: list_emb.induct) auto

lemma subseq_head:
  assumes "subseq (as @ u # bs) (t # us)" and "distinct (t # us)" and "t \<in> set bs"
  shows False
proof -
  have "t \<notin> set us" using assms(2) by simp
  obtain c cs where c: "as @ u # bs = c # cs" by (cases "as @ u # bs") auto
  have "t \<in> set cs" using assms(3) c by (cases as) auto
  moreover have "set cs \<subseteq> set us"
  proof (cases "c = t")
    case True
    then have "subseq cs us" using assms(1) c by (simp add: subseq_Cons2_iff)
    then show ?thesis by (rule subseq_set)
  next
    case False
    then have "subseq (c # cs) us" using assms(1) c by (simp add: subseq_Cons2_iff)
    then show ?thesis using subseq_set by fastforce
  qed
  ultimately show False using \<open>t \<notin> set us\<close> by blast
qed

lemma rank_insert_behind:
  assumes "u \<in> set ts" and "r u \<le> r t" and "sorted (map r ts)"
  obtains as bs where "rank_insert r t ts = as @ u # bs" "t \<in> set bs"
proof -
  have "u \<in> set (filter (\<lambda>u. r u \<le> r t) ts)" using assms(1,2) by simp
  then obtain as bs where "filter (\<lambda>u. r u \<le> r t) ts = as @ u # bs" by (meson split_list)
  then show thesis using that [of as "bs @ t # filter (\<lambda>u. \<not> r u \<le> r t) ts"] rank_insert_sorted_split [OF assms(3)] by simp
qed

lemma yield_spec:
  assumes S: "sched_inv user k Q ts hs A xs" and me: "runningThread k \<in> set (Q runQueue)"
  obtains k' Q' ts' hs' where "NutThreadYield user k = Some k'" "sched_inv user k' Q' ts' hs' A xs"
    "\<exists>us. Q' runQueue = runningThread k' # us"
    "\<And>u. u \<in> set (Q' runQueue) \<Longrightarrow> prio k' (runningThread k') \<le> prio k' u"
    "set (Q runQueue) \<subseteq> set (Q' runQueue)" "\<And>x. prio k' x = prio k x"
    "\<And>q x. x \<in> set (Q q) \<Longrightarrow> x \<in> set (Q' q) \<or> x \<in> set (Q' runQueue)"
    "\<And>u. u \<in> set (Q runQueue) \<Longrightarrow> u \<noteq> runningThread k \<Longrightarrow> prio k u \<le> prio k (runningThread k) \<Longrightarrow> runningThread k' \<noteq> runningThread k"
proof -
  let ?me = "runningThread k"
  have I: "kinv k Q ts hs A" using S by (simp add: sched_inv_def)
  note Q = kinvD(1) [OF I] and ok = queuesD(1) [OF kinvD(1) [OF I], of runQueue]
  have d: "distinct (Q runQueue)" and so: "sorted (map (prio k) (Q runQueue))" using queue_okD(3,4) [OF ok] by simp_all
  have ch: "qchain k (queue k runQueue) (Q runQueue)" using queue_okD(1) [OF ok kinvD(2) [OF I]] .
  let ?Q1 = "Q(runQueue := rank_insert (prio k) ?me (remove1 ?me (Q runQueue)))"
  have s1: "set (?Q1 runQueue) = set (Q runQueue)" using me d by auto
  obtain k1 Q1 where y: "(if td_qnxt (thr k ?me) \<noteq> NULL then
      do { k' \<leftarrow> NutThreadRemoveQueue ?me runQueue k; NutThreadAddPriQueue ?me runQueue k' } else Some k) = Some k1"
    "sched_inv user k1 Q1 ts hs A xs" "\<And>x. td_core (thr k1 x) = td_core (thr k x)" "runningThread k1 = ?me"
    "\<And>q. q \<noteq> runQueue \<Longrightarrow> Q1 q = Q q" "set (Q1 runQueue) = set (Q runQueue)"
    "Q1 = ?Q1 \<or> Q1 = Q \<and> last (Q runQueue) = ?me"
  proof (cases "td_qnxt (thr k ?me) = NULL")
    case True
    obtain as bs where sp: "Q runQueue = as @ ?me # bs" using split_list [OF me] by blast
    have "qchain k (get_link k (last_link (Root runQueue) as)) (?me # bs)"
      using qchain_link [of k "Root runQueue" as "?me # bs"] ch sp by simp
    then have "qchain k NULL bs" using True by simp
    then have "bs = []" by (cases bs) auto
    then show thesis using that [of k Q] S True sp by simp
  next
    case False
    show thesis
    proof (rule sched_requeue [OF S me], goal_cases)
      case (1 k1 k2)
      show ?case by (rule that [of k2 ?Q1]) (use 1 False s1 in simp_all)
    qed
  qed
  have ne: "Q1 runQueue \<noteq> []" using y(6) me by (cases "Q1 runQueue") auto
  obtain k' Q' ts' hs' where r: "NutThreadResume user k1 = Some k'" "sched_inv user k' Q' ts' hs' A xs" "scheduled k1 Q1 k' Q'"
    by (rule resume_spec [OF y(2) ne])
  have run: "NutThreadYield user k = Some k'" using y(1) r(1) by (simp add: NutThreadYield_def)
  have pr1: "prio k1 = prio k" using core_prio [OF y(3)] .
  have pr: "prio k' x = prio k x" for x using r(3) fun_cong [OF pr1, of x] unfolding scheduled_def by simp
  obtain us where us: "Q' runQueue = runningThread k' # us" using r(3) unfolding scheduled_def by blast
  have sub: "subseq (Q1 runQueue) (Q' runQueue)" using r(3) unfolding scheduled_def by blast
  have subset: "set (Q runQueue) \<subseteq> set (Q' runQueue)" using subseq_set [OF sub] y(6) by simp
  have all: "x \<in> set (Q' q) \<or> x \<in> set (Q' runQueue)" if "x \<in> set (Q q)" for q x
    using r(3) that y(5) [of q] subset unfolding scheduled_def by (cases "q = runQueue") auto
  have rot: "runningThread k' \<noteq> ?me" if u: "u \<in> set (Q runQueue)" "u \<noteq> ?me" "prio k u \<le> prio k ?me" for u
  proof
    assume e: "runningThread k' = ?me"
    have d': "distinct (Q' runQueue)"
      using queue_okD(3) [OF queuesD(1) [OF kinvD(1)]] r(2) unfolding sched_inv_def by blast
    obtain as bs where ab: "Q1 runQueue = as @ u # bs" "?me \<in> set bs"
    proof (cases "Q1 = ?Q1")
      case True
      have "u \<in> set (remove1 ?me (Q runQueue))" "sorted (map (prio k) (remove1 ?me (Q runQueue)))"
        using u so d by (auto simp: sorted_map_remove1)
      from rank_insert_behind [OF this(1) u(3) this(2)] that show thesis using True by auto
    next
      case False
      then have q1: "Q1 = Q" "last (Q runQueue) = ?me" using y(7) by auto
      obtain as bs where sp: "Q runQueue = as @ u # bs" using split_list [OF u(1)] by blast
      have "bs \<noteq> []" using sp q1(2) u(2) by auto
      then have "?me \<in> set bs" using sp q1(2) by (metis last_append last_in_set last_ConsR list.distinct(1))
      then show thesis using that sp q1(1) by simp
    qed
    show False using subseq_head [of as u bs ?me us] sub ab us e d' by simp
  qed
  have pp: "prio k' (runningThread k') \<le> prio k' u" if "u \<in> set (Q' runQueue)" for u
    using r(3) that unfolding scheduled_def by blast
  show thesis by (rule that [OF run r(2) _ pp subset pr all rot]) (use us in auto)
qed

end
