(* ===== verification/Nut_Wait.thy ===== *)
theory Nut_Wait
  imports Nut_Sched_Inv
begin

text \<open>
  Waiting and sleeping keep the invariant of the scheduler: a thread that waits for an event or
  sleeps leaves the run queue, starts a timer of its own when a time limit is given, and the
  next thread runs. For one-shot timers the expiry processing is described by expiry times.
\<close>

unbundle bit_operations_syntax

section \<open>Waiting and sleeping\<close>

text \<open>A thread that starts a timer of its own, to bound a wait or to sleep.\<close>

definition timer_for :: "tcallback \<Rightarrow> addr \<Rightarrow> addr \<Rightarrow> (addr \<Rightarrow> addr list) \<Rightarrow> bool" where
  "timer_for cb arg t Q \<longleftrightarrow>
     cb = CbEventTimeout \<and> arg \<noteq> runQueue \<and> (\<forall>p. t \<in> set (Q p) \<longrightarrow> p = arg) \<or>
     cb = CbThreadWake \<and> arg = t \<and> t \<noteq> NULL \<and> t \<noteq> SIGNALED \<and> (\<forall>p. t \<notin> set (Q p))"

lemma links_new_timer:
  assumes L: "links k Q T" and tn: "tn \<notin> T" "tn \<noteq> NULL"
    and th: "\<And>x. td_timer (thr k' x) = (if x = t then tn else td_timer (thr k x))"
    and tm: "\<And>x. x \<noteq> tn \<Longrightarrow> tn_core (tmr k' x) = tn_core (tmr k x)"
    and me: "timer_for (tn_callback (tmr k' tn)) (tn_arg (tmr k' tn)) t Q"
    and wk: "\<And>u. u \<in> T \<Longrightarrow> tn_callback (tmr k u) = CbThreadWake \<Longrightarrow> tn_arg (tmr k u) \<noteq> t"
  shows "links k' Q (insert tn T)"
proof -
  have cb: "tn_callback (tmr k' x) = tn_callback (tmr k x)" "tn_arg (tmr k' x) = tn_arg (tmr k x)" if "x \<noteq> tn" for x
    using tn_core_eqD [OF tm [OF that]] by simp_all
  have old: "td_timer (thr k x) \<in> T" "td_timer (thr k x) \<noteq> tn"
    if "q \<noteq> runQueue" "x \<in> set (Q q)" "td_timer (thr k x) \<noteq> NULL" for q x
    using linksD(1) [OF L that] tn(1) by auto
  show ?thesis
    unfolding links_def
  proof (intro conjI allI impI ballI)
    fix q x assume q: "q \<noteq> runQueue" and x: "x \<in> set (Q q)" and n: "td_timer (thr k' x) \<noteq> NULL"
    show "td_timer (thr k' x) \<in> insert tn T" "tn_callback (tmr k' (td_timer (thr k' x))) = CbEventTimeout"
      "tn_arg (tmr k' (td_timer (thr k' x))) = q"
      using q x n th [of x] me old [OF q x] linksD(1) [OF L q x] cb [of "td_timer (thr k x)"]
      by (cases "x = t"; auto simp: timer_for_def)+
  next
    fix q x y assume q: "q \<noteq> runQueue" "x \<in> set (Q q)" "y \<in> set (Q q)" "td_timer (thr k' x) \<noteq> NULL"
      "td_timer (thr k' x) = td_timer (thr k' y)"
    then show "x = y"
      using linksD(2) [OF L q(1-3)] old(2) [OF q(1,2)] old(2) [OF q(1,3)] th [of x] th [of y] tn(2)
      by (cases "x = t"; cases "y = t") auto
  next
    fix u assume u: "u \<in> insert tn T" "tn_callback (tmr k' u) = CbThreadWake"
    show "tn_arg (tmr k' u) \<noteq> NULL" "tn_arg (tmr k' u) \<noteq> SIGNALED" "td_timer (thr k' (tn_arg (tmr k' u))) = u"
      "\<And>q. tn_arg (tmr k' u) \<notin> set (Q q)"
      using u me th cb [of u] linksD(3) [OF L, of u] wk [of u] by (cases "u = tn"; auto simp: timer_for_def)+
  next
    fix u assume u: "u \<in> insert tn T" "tn_callback (tmr k' u) = CbEventTimeout"
    show "tn_arg (tmr k' u) \<noteq> runQueue"
      using u me cb [of u] linksD(4) [OF L, of u] by (cases "u = tn") (auto simp: timer_for_def)
  qed
qed

lemma own_timer_started:
  assumes S: "sched_inv user k Q ts hs A xs" and nt: "td_timer (thr k t) = NULL" and me: "timer_for cb arg t Q"
    and wk: "\<And>u. u \<in> fst ` set ts \<Longrightarrow> tn_callback (tmr k u) = CbThreadWake \<Longrightarrow> tn_arg (tmr k u) \<noteq> t"
  obtains k1 tn ts' hs' where "NutTimerStart ms cb arg TM_ONESHOT k = Some (k1, tn)"
    "sched_inv user (upd_thr t (\<lambda>i. i\<lparr>td_timer := tn\<rparr>) k1) Q ts' hs' A xs"
    "thr k1 = thr k" "queue k1 = queue k" "runningThread k1 = runningThread k" "tn = NULL \<Longrightarrow> k1 = k"
    "tn \<noteq> NULL \<Longrightarrow> ts' = delta_insert tn (NutTimerMillisToTicks ms + nut_ticks k - nut_ticks_resume k) ts"
proof -
  have I: "kinv k Q ts hs A" and own: "own_timers user k (fst ` set ts)" and tl: "tlist k (nutThreadList k) xs"
    using S by (simp_all add: sched_inv_def)
  let ?n = "NutTimerMillisToTicks ms"
  let ?d = "?n + nut_ticks k - nut_ticks_resume k"
  have "(thr k t)\<lparr>td_timer := NULL\<rparr> = thr k t" using nt by (cases "thr k t") simp
  then have id: "upd_thr t (\<lambda>i. i\<lparr>td_timer := NULL\<rparr>) k = k" by (simp add: upd_thr_def)
  show thesis
  proof (rule timer_start_spec [OF kinvD(3-5) [OF I], of ?n cb arg TM_ONESHOT], goal_cases)
    case 1
    show ?case by (rule that [of k NULL ts hs]) (use 1 S in \<open>simp_all add: NutTimerStart_def id\<close>)
  next
    case (2 k1 tn)
    note o = only_timersD [OF 2(9)]
    let ?k = "upd_thr t (\<lambda>i. i\<lparr>td_timer := tn\<rparr>) k1" and ?ts = "delta_insert tn ?d ts"
    have th: "thr ?k x = (if x = t then (thr k t)\<lparr>td_timer := tn\<rparr> else thr k x)" for x using o(1) by simp
    have qk: "queue ?k = queue k" using o(2) by simp
    have fr: "td_qnxt (thr ?k x) = td_qnxt (thr k x) \<and> td_qpec (thr ?k x) = td_qpec (thr k x)
      \<and> td_queue (thr ?k x) = td_queue (thr k x) \<and> td_priority (thr ?k x) = td_priority (thr k x)" for x using th by simp
    have L: "links ?k Q (insert tn (fst ` set ts))"
    proof (rule links_new_timer [OF kinvD(7) [OF I] 2(4,2)])
      show "timer_for (tn_callback (tmr ?k tn)) (tn_arg (tmr ?k tn)) t Q" using me 2(10,11) by simp
      show "tn_core (tmr ?k x) = tn_core (tmr k x)" if "x \<noteq> tn" for x using 2(14) that by simp
      show "td_timer (thr ?k x) = (if x = t then tn else td_timer (thr k x))" for x using th by simp
    qed (rule wk)
    have fl: "tn_flags (tmr ?k x) = tn_flags (tmr k x)" "tn_callback (tmr ?k x) = tn_callback (tmr k x)"
      "tn_ticks (tmr ?k x) = tn_ticks (tmr k x)" if "x \<noteq> tn" for x
      using tn_core_eqD [OF 2(14) [OF that]] by simp_all
    have nin: "x \<noteq> tn" if "x \<in> fst ` set ts" for x using 2(4) that by metis
    have "owned ?k (fst ` set ?ts) (tn # hs)"
      using kinvD(6) [OF I] fl(1) [OF nin] unfolding owned_def by auto
    moreover have "timers ?k ?ts" using 2(6) by (rule timers_frame) simp_all
    moreover have "kheap ?k (tn # hs) A" using 2(7) by (simp add: kheap_def)
    moreover have "queues ?k Q" "quiet ?k Q"
      using queues_frame(1,3) [OF kinvD(1) [OF I] fr qk] kinvD(8) [OF I] by simp_all
    moreover have "queue ?k runQueue \<noteq> SIGNALED" using kinvD(2) [OF I] qk by simp
    ultimately have "kinv ?k Q ?ts (tn # hs) A" using L 2(8) by (simp add: kinv_def)
    moreover have "own_timers user ?k (fst ` set ?ts)"
      unfolding own_timers_def
    proof
      fix x assume x: "x \<in> fst ` set ?ts"
      show "own_timer user ?k x"
      proof (cases "x = tn")
        case True
        then show ?thesis using 2(10,13) me by (auto simp: own_timer_def timer_for_def TM_ONESHOT_def)
      next
        case False
        then have "own_timer user k x" using own x unfolding own_timers_def by auto
        then show ?thesis using own_timer_cong [of ?k x k user] 2(14) [OF False] by simp
      qed
    qed
    moreover have "tlist ?k (nutThreadList ?k) xs" using tl tlist_frame [of ?k k] th o(5) by simp
    ultimately have "sched_inv user ?k Q ?ts (tn # hs) A xs" by (simp add: sched_inv_def)
    then show ?case
      by (rule that [of k1 tn ?ts "tn # hs", rotated 1]) (use 2(1,2) o(1-3) in \<open>simp_all add: NutTimerStart_def\<close>)
  qed
qed

lemma sched_frame:
  assumes S: "sched_inv user k Q ts hs A xs" and I: "kinv k' Q' ts hs A" and tm: "tmr k' = tmr k"
    and nx: "\<And>x. td_next (thr k' x) = td_next (thr k x)" and tl: "nutThreadList k' = nutThreadList k"
  shows "sched_inv user k' Q' ts hs A xs"
  using S I tlist_frame [of k' k, OF nx] tm tl by (simp add: sched_inv_def own_timers_def own_timer_def)

text \<open>The running thread leaves the run queue; it is in no queue then, and no timer wakes it up.\<close>

lemma sched_leave:
  assumes S: "sched_inv user k Q ts hs A xs" and t: "t \<in> set (Q runQueue)"
  obtains k' where "NutThreadRemoveQueue t runQueue k = Some k'"
    "sched_inv user k' (Q(runQueue := remove1 t (Q runQueue))) ts hs A xs" "\<And>x. td_core (thr k' x) = td_core (thr k x)"
    "same_rest k' k" "\<And>x. x \<noteq> runQueue \<Longrightarrow> queue k' x = queue k x"
    "\<And>p. t \<notin> set ((Q(runQueue := remove1 t (Q runQueue))) p)"
    "\<And>u. u \<in> fst ` set ts \<Longrightarrow> tn_callback (tmr k u) = CbThreadWake \<Longrightarrow> tn_arg (tmr k u) \<noteq> t"
proof -
  have I: "kinv k Q ts hs A" using S by (simp add: sched_inv_def)
  note Q = kinvD(1) [OF I]
  obtain k' where r: "NutThreadRemoveQueue t runQueue k = Some k'"
    "kinv k' (Q(runQueue := remove1 t (Q runQueue))) ts hs A" "\<And>x. td_core (thr k' x) = td_core (thr k x)"
    "same_rest k' k" "\<And>x. x \<noteq> runQueue \<Longrightarrow> queue k' x = queue k x"
    by (rule leave_run_queue [OF I t]) (rule that)
  have "distinct (Q runQueue)" using queue_okD(3) [OF queuesD(1) [OF Q]] .
  then have nt: "t \<notin> set ((Q(runQueue := remove1 t (Q runQueue))) p)" for p
    using queuesD(3) [OF Q t, of p] by (cases "p = runQueue") auto
  have nx: "td_next (thr k' x) = td_next (thr k x)" for x using td_core_eqD [OF r(3)] by blast
  show thesis
    by (rule that [OF r(1) sched_frame [OF S r(2) same_restD(1) [OF r(4)] nx same_restD(4) [OF r(4)]] r(3,4,5) nt
          links_wake_arg [OF kinvD(7) [OF I] _ _ t]])
qed

lemma sched_state: "sched_inv user k Q ts hs A xs \<Longrightarrow> sched_inv user (upd_thr t (\<lambda>i. i\<lparr>td_state := s\<rparr>) k) Q ts hs A xs"
  by (rule sched_frame [where k = k and Q = Q]) (simp_all add: sched_inv_def switch_inv(2))

lemma wait_spec:
  assumes S: "sched_inv user k Q ts hs A xs" and me: "runningThread k \<in> set (Q runQueue)"
    and other: "remove1 (runningThread k) (Q runQueue) \<noteq> []" and tm: "td_timer (thr k (runningThread k)) = NULL"
    and q: "q \<noteq> runQueue" "queue k q \<noteq> SIGNALED"
  obtains k4 Q4 ts4 hs4 k' Q' ts' hs' where
    "NutEventWait user q ms k = Some (k', None)" "NutThreadResume user k4 = Some k'"
    "sched_inv user k4 Q4 ts4 hs4 A xs" "sched_inv user k' Q' ts' hs' A xs" "scheduled k4 Q4 k' Q'"
    "Q4 = Q(runQueue := remove1 (runningThread k) (Q runQueue), q := rank_insert (prio k) (runningThread k) (Q q))"
    "td_state (thr k4 (runningThread k)) = TDS_SLEEP" "prio k4 = prio k" "ms = 0 \<Longrightarrow> td_timer (thr k4 (runningThread k)) = NULL"
proof -
  let ?me = "runningThread k"
  obtain k1 where r: "NutThreadRemoveQueue ?me runQueue k = Some k1"
    "sched_inv user k1 (Q(runQueue := remove1 ?me (Q runQueue))) ts hs A xs" "\<And>x. td_core (thr k1 x) = td_core (thr k x)"
    "same_rest k1 k" "\<And>x. x \<noteq> runQueue \<Longrightarrow> queue k1 x = queue k x"
    "\<And>p. ?me \<notin> set ((Q(runQueue := remove1 ?me (Q runQueue))) p)"
    "\<And>u. u \<in> fst ` set ts \<Longrightarrow> tn_callback (tmr k u) = CbThreadWake \<Longrightarrow> tn_arg (tmr k u) \<noteq> ?me"
    by (rule sched_leave [OF S me]) (rule that)
  let ?Q1 = "Q(runQueue := remove1 ?me (Q runQueue))"
  have I1: "kinv k1 ?Q1 ts hs A" using r(2) by (simp add: sched_inv_def)
  have v: "?me \<noteq> NULL" "?me \<noteq> SIGNALED"
    using queuesD(2) [of k Q, OF _ me] S by (auto simp: sched_inv_def kinv_def)
  have tm1: "tmr k1 = tmr k" using same_restD(1) [OF r(4)] .
  have wk: "tn_arg (tmr k1 u) \<noteq> ?me" if "u \<in> fst ` set ts" "tn_callback (tmr k1 u) = CbThreadWake" for u
    using r(7) [of u] that unfolding tm1 by simp
  have nt: "td_timer (thr k1 ?me) = NULL" using td_core_eqD [OF r(3)] tm by metis
  let ?Q2 = "?Q1(q := rank_insert (prio k1) ?me (?Q1 q))"
  obtain k2 where e: "NutThreadAddPriQueue ?me q k1 = Some k2" "kinv k2 ?Q2 ts hs A"
    "\<And>x. td_core (thr k2 x) = td_core (thr k1 x)" "same_rest k2 k1" "\<And>x. x \<noteq> q \<Longrightarrow> queue k2 x = queue k1 x"
    "pending k2 q (rank_insert (prio k1) ?me (?Q1 q)) = pending k1 q (?Q1 q)"
    by (rule enter_queue [where q = q, OF I1 r(6) v _ wk]) (rule nt, assumption, assumption, rule that)
  have core: "td_core (thr k2 x) = td_core (thr k x)" for x using e(3) r(3) by simp
  have S2: "sched_inv user k2 ?Q2 ts hs A xs"
    by (rule sched_frame [OF r(2) e(2) same_restD(1) [OF e(4)] _ same_restD(4) [OF e(4)]]) (use td_core_eqD [OF e(3)] in blast)
  have pr: "prio k1 = prio k" "prio k2 = prio k" using core_prio [OF r(3)] core_prio [OF core] by simp_all
  have Q2: "?Q2 = Q(runQueue := remove1 ?me (Q runQueue), q := rank_insert (prio k) ?me (Q q))" using q(1) pr by simp
  let ?k3 = "upd_thr ?me (\<lambda>i. i\<lparr>td_state := TDS_SLEEP\<rparr>) k2"
  have S3: "sched_inv user ?k3 ?Q2 ts hs A xs" by (rule sched_state [OF S2])
  have rt: "runningThread k1 = ?me" "runningThread k2 = ?me" using same_restD(2) [OF r(4)] same_restD(2) [OF e(4)] by simp_all
  have nt3: "td_timer (thr ?k3 ?me) = NULL" using td_core_eqD [OF core [of ?me]] tm by simp
  obtain k4 ts4 hs4 where s: "(if ms \<noteq> 0
      then do { s \<leftarrow> NutTimerStart ms CbEventTimeout q TM_ONESHOT ?k3; Some (upd_thr ?me (\<lambda>i. i\<lparr>td_timer := snd s\<rparr>) (fst s)) }
      else Some (upd_thr ?me (\<lambda>i. i\<lparr>td_timer := NULL\<rparr>) ?k3)) = Some k4"
    "sched_inv user k4 ?Q2 ts4 hs4 A xs" "\<And>x. td_state (thr k4 x) = td_state (thr ?k3 x) \<and> prio k4 x = prio ?k3 x"
    "ms = 0 \<Longrightarrow> td_timer (thr k4 ?me) = NULL"
  proof (cases "ms = 0")
    case True
    have "sched_inv user (upd_thr ?me (\<lambda>i. i\<lparr>td_timer := NULL\<rparr>) ?k3) ?Q2 ts hs A xs"
    proof (rule sched_frame [OF S3])
      show "kinv (upd_thr ?me (\<lambda>i. i\<lparr>td_timer := NULL\<rparr>) ?k3) ?Q2 ts hs A"
        by (rule kinv_cong [of ?k3]) (use S3 nt3 in \<open>simp_all add: sched_inv_def\<close>)
    qed simp_all
    then show thesis by (rule that [rotated 1]) (simp_all add: True)
  next
    case False
    have tf: "timer_for CbEventTimeout q ?me ?Q2"
      using q(1) r(6) by (auto simp: timer_for_def split: if_splits)
    have tm3: "tmr ?k3 = tmr k" using same_restD(1) [OF e(4)] tm1 by simp
    show thesis
    proof (rule own_timer_started [where ms = ms, OF S3 nt3 tf], goal_cases)
      case (1 u)
      then show ?case using r(7) [of u] unfolding tm3 by simp
    next
      case (2 k1' tn ts' hs')
      show ?case by (rule that [OF _ 2(2)]) (use 2(1,3) False in simp_all)
    qed
  qed
  have ne: "?Q2 runQueue \<noteq> []" using other q(1) by simp
  obtain k' Q' ts' hs' where p: "NutThreadResume user k4 = Some k'" "sched_inv user k' Q' ts' hs' A xs" "scheduled k4 ?Q2 k' Q'"
    by (rule resume_spec [OF s(2) ne])
  have run: "NutEventWait user q ms k = Some (k', None)"
    using q(2) r(1) e(1) s(1) p(1) rt by (simp add: NutEventWait_def NutEventTryWait_def)
  have "td_state (thr k4 ?me) = TDS_SLEEP" "prio k4 = prio k" using s(3) pr(2) by (auto simp: fun_eq_iff)
  with s(4) Q2 show thesis by (intro that [OF run p(1) s(2) p(2,3)]) simp_all
qed

lemma sleep_spec:
  assumes S: "sched_inv user k Q ts hs A xs" and me: "runningThread k \<in> set (Q runQueue)"
    and other: "remove1 (runningThread k) (Q runQueue) \<noteq> []" and tm: "td_timer (thr k (runningThread k)) = NULL"
    and ms: "ms \<noteq> 0"
  obtains (slept) k4 ts4 hs4 k' Q' ts' hs' where
    "NutSleep user ms k = Some k'" "sched_inv user k4 (Q(runQueue := remove1 (runningThread k) (Q runQueue))) ts4 hs4 A xs"
    "sched_inv user k' Q' ts' hs' A xs" "scheduled k4 (Q(runQueue := remove1 (runningThread k) (Q runQueue))) k' Q'"
    "td_timer (thr k4 (runningThread k)) \<in> fst ` set ts4" "td_state (thr k4 (runningThread k)) = TDS_SLEEP" "prio k4 = prio k"
    "ts4 = delta_insert (td_timer (thr k4 (runningThread k))) (NutTimerMillisToTicks ms + nut_ticks k - nut_ticks_resume k) ts"
  | (failed) k' where "NutSleep user ms k = Some k'" "runningThread k' = runningThread k" "queue k' runQueue = runningThread k"
proof -
  let ?me = "runningThread k"
  obtain k1 where r: "NutThreadRemoveQueue ?me runQueue k = Some k1"
    "sched_inv user k1 (Q(runQueue := remove1 ?me (Q runQueue))) ts hs A xs" "\<And>x. td_core (thr k1 x) = td_core (thr k x)"
    "same_rest k1 k" "\<And>x. x \<noteq> runQueue \<Longrightarrow> queue k1 x = queue k x"
    "\<And>p. ?me \<notin> set ((Q(runQueue := remove1 ?me (Q runQueue))) p)"
    "\<And>u. u \<in> fst ` set ts \<Longrightarrow> tn_callback (tmr k u) = CbThreadWake \<Longrightarrow> tn_arg (tmr k u) \<noteq> ?me"
    by (rule sched_leave [OF S me]) (rule that)
  let ?Q1 = "Q(runQueue := remove1 ?me (Q runQueue))" and ?k2 = "upd_thr ?me (\<lambda>i. i\<lparr>td_state := TDS_SLEEP\<rparr>) k1"
  have v: "?me \<noteq> NULL" "?me \<noteq> SIGNALED" using queuesD(2) [of k Q, OF _ me] S by (auto simp: sched_inv_def kinv_def)
  have nt: "td_timer (thr ?k2 ?me) = NULL" using td_core_eqD [OF r(3) [of ?me]] tm by simp
  have tf: "timer_for CbThreadWake ?me ?me ?Q1" using v r(6) by (simp add: timer_for_def)
  have tm2: "tmr ?k2 = tmr k" using same_restD(1) [OF r(4)] by simp
  have wk: "tn_arg (tmr ?k2 u) \<noteq> ?me" if "u \<in> fst ` set ts" "tn_callback (tmr ?k2 u) = CbThreadWake" for u
    using r(7) [of u] that unfolding tm2 by simp
  obtain k3 tn ts4 hs4 where s: "NutTimerStart ms CbThreadWake ?me TM_ONESHOT ?k2 = Some (k3, tn)"
    "sched_inv user (upd_thr ?me (\<lambda>i. i\<lparr>td_timer := tn\<rparr>) k3) ?Q1 ts4 hs4 A xs"
    "thr k3 = thr ?k2" "queue k3 = queue ?k2" "runningThread k3 = runningThread ?k2" "tn = NULL \<Longrightarrow> k3 = ?k2"
    "tn \<noteq> NULL \<Longrightarrow> ts4 = delta_insert tn (NutTimerMillisToTicks ms + nut_ticks ?k2 - nut_ticks_resume ?k2) ts"
    by (rule own_timer_started [where ms = ms, OF sched_state [OF r(2)] nt tf wk]) (assumption, assumption, rule that)
  let ?k4 = "upd_thr ?me (\<lambda>i. i\<lparr>td_timer := tn\<rparr>) k3"
  show thesis
  proof (cases "tn = NULL")
    case True
    have "\<exists>k'. NutSleep user ms k = Some k' \<and> runningThread k' = ?me \<and> queue k' runQueue = ?me"
      using ms r(1) s(1,5) True same_restD(2) [OF r(4)] by (simp add: NutSleep_def Let_def)
    then show thesis using failed by blast
  next
    case False
    have ne: "?Q1 runQueue \<noteq> []" using other by simp
    obtain k' Q' ts' hs' where p: "NutThreadResume user ?k4 = Some k'" "sched_inv user k' Q' ts' hs' A xs" "scheduled ?k4 ?Q1 k' Q'"
      by (rule resume_spec [OF s(2) ne])
    have pr: "prio ?k4 = prio k" using core_prio [OF r(3)] s(3) by (auto simp: fun_eq_iff)
    have run: "NutSleep user ms k = Some k'" using ms r(1) s(1) p(1) False by (simp add: NutSleep_def Let_def)
    have ticks: "nut_ticks ?k2 = nut_ticks k" "nut_ticks_resume ?k2 = nut_ticks_resume k"
      using r(4) by (simp_all add: same_rest_def)
    show thesis
      by (rule slept [OF run s(2) p(2,3) _ _ pr]) (use s(3) s(7) [OF False] ticks in simp_all)
  qed
qed

section \<open>One-shot timers\<close>

lemma expiry_shift: "expiry m ts = map (\<lambda>(t, e). (t, e + m)) (expiry 0 ts)"
proof (induction ts arbitrary: m)
  case (Cons a ts)
  obtain t d where a: "a = (t, d)" by (cases a)
  show ?case unfolding a using Cons [of "m + unat d"] Cons [of "unat d"] by (auto simp: ac_simps)
qed simp

text \<open>
  The timers that fire within \<open>n\<close> ticks, from the list of expiry times: all that expire before the
  last of these ticks, and the first of those that expire with it. The loop ends as soon as no ticks
  are left, so a second timer with the same expiry stays in the list.
\<close>

definition due :: "nat \<Rightarrow> (addr \<times> nat) list \<Rightarrow> addr list" where
  "due n es = map fst (takeWhile (\<lambda>p. snd p < n) es) @
     (case dropWhile (\<lambda>p. snd p < n) es of [] \<Rightarrow> [] | p # _ \<Rightarrow> if snd p = n \<and> 0 < n then [fst p] else [])"

lemma due_simps [simp]:
  "due n [] = []" "due 0 es = []"
  "due (Suc n) ((t, e) # es) = (if e < Suc n then t # due (Suc n) es else if e = Suc n then [t] else [])"
  by (auto simp: due_def takeWhile_eq_Nil_iff split: list.splits)

lemma due_shift: "0 < n \<Longrightarrow> due (n + m) (map (\<lambda>(t, e). (t, e + m)) es) = due n es"
proof (induction es)
  case (Cons a es)
  obtain l where l: "n = Suc l" using Cons.prems by (cases n) auto
  show ?case using Cons unfolding l by (cases a) auto
qed simp

lemma elapse_oneshot:
  assumes "\<forall>t \<in> fst ` set ts. per t = 0"
  shows "fst (elapse per n ts) = due (unat n) (expiry 0 ts) \<and>
    expiry 0 (snd (elapse per n ts)) =
      map (\<lambda>(t, e). (t, e - unat n)) (drop (length (due (unat n) (expiry 0 ts))) (expiry 0 ts))"
  using assms
proof (induction per n ts rule: elapse.induct)
  case (2 per n t d ts)
  note IH = "2.IH" and prems = "2.prems"
  let ?es = "expiry 0 ((t, d) # ts)"
  have sh: "expiry (unat d) ts = map (\<lambda>(t, e). (t, e + unat d)) (expiry 0 ts)" by (rule expiry_shift)
  consider "n = 0" | "n \<noteq> 0" "n < d" | "n \<noteq> 0" "n = d" | "d < n" by force
  then show ?case
  proof cases
    case 1
    then show ?thesis by (simp add: case_prod_unfold)
  next
    case 2
    have n: "unat n < unat d" "unat (d - n) = unat d - unat n" "0 < unat n"
      using 2 unat_diff_le [of n d] by (simp_all add: word_less_nat_alt word_le_nat_alt unat_gt_0)
    have "due (unat n) ?es = []" using n by (cases "unat n") simp_all
    moreover have "expiry (unat d - unat n) ts = map (\<lambda>(t, e). (t, e - unat n)) (expiry (unat d) ts)"
      using n(1) expiry_shift [of "unat d - unat n" ts] sh by (simp add: case_prod_unfold)
    ultimately show ?thesis using 2 n by simp
  next
    case 3
    have "due (unat d) ?es = [t]" using 3 by (cases "unat d") (auto simp: unat_eq_zero)
    then show ?thesis using 3 prems sh by (cases ts) (auto simp: Let_def case_prod_unfold o_def)
  next
    case 4
    have n: "unat d < unat n" "unat (n - d) = unat n - unat d" "n \<noteq> 0" "\<not> n < d"
      using 4 unat_diff_le [of d n] by (auto simp: word_less_nat_alt word_le_nat_alt)
    have p: "per t = 0" and pr: "\<forall>t \<in> fst ` set ts. per t = 0" using prems by auto
    have el: "elapse per n ((t, d) # ts) = (t # fst (elapse per (n - d) ts), snd (elapse per (n - d) ts))"
      using n p by (simp add: Let_def)
    have du: "due (unat n) ?es = t # due (unat n - unat d) (expiry 0 ts)"
      using due_shift [of "unat n - unat d" "unat d" "expiry 0 ts"] n(1) sh by (cases "unat n") simp_all
    have ih: "fst (elapse per (n - d) ts) = due (unat (n - d)) (expiry 0 ts)"
      "expiry 0 (snd (elapse per (n - d) ts)) =
        map (\<lambda>(t, e). (t, e - unat (n - d))) (drop (length (due (unat (n - d)) (expiry 0 ts))) (expiry 0 ts))"
      using IH n(3,4) p pr by simp_all
    show ?thesis unfolding el du using ih n(1,2) sh by (simp add: drop_map case_prod_unfold o_def)
  qed
qed simp

end
