(* ===== verification/Nut_Kernel_Props.thy ===== *)
theory Nut_Kernel_Props
  imports Nut_Wait
begin

text \<open>
  The properties of the kernel's queues, events, timers and scheduler, each at a concrete state
  in its witness: threads and timers that are linked the way the kernel links them.
\<close>

unbundle bit_operations_syntax

section \<open>An example state\<close>

text \<open>
  Three threads: 256 runs and 512 is ready, both of the default priority; 768 has a higher one and
  waits for an event in the queue at 1024, with a timer at 2048 that has 5 ticks left. Seven ticks
  have passed since the timers were last processed.
\<close>

definition demo_thread :: NUTTHREADINFO where
  "demo_thread = \<lparr>td_next = 0, td_qnxt = 0, td_qpec = 0, td_name = '''', td_state = TDS_READY, td_priority = 64,
     td_memory = 0, td_timer = 0, td_queue = 0\<rparr>"

definition demo_timer :: NUTTIMERINFO where
  "demo_timer = \<lparr>tn_next = 0, tn_prev = 0, tn_ticks = 0, tn_ticks_left = 5, tn_flags = TM_HAS_OWN_STRUCT,
     tn_callback = CbEventTimeout, tn_arg = 1024\<rparr>"

definition demo_kernel :: kernel where
  "demo_kernel = \<lparr>
     thr = (\<lambda>_. demo_thread)(
       256 := demo_thread\<lparr>td_qnxt := 512, td_queue := 8, td_state := TDS_RUNNING\<rparr>,
       512 := demo_thread\<lparr>td_next := 256, td_queue := 8\<rparr>,
       768 := demo_thread\<lparr>td_next := 512, td_queue := 1024, td_state := TDS_SLEEP, td_priority := 32, td_timer := 2048\<rparr>),
     tmr = (\<lambda>_. demo_timer),
     queue = (\<lambda>_. 0)(8 := 256, 1024 := 768),
     runningThread = 256, killedThread = 0, nutThreadList = 768, total_pending = 0, nutTimerList = 2048,
     nut_ticks = 7, nut_ticks_resume = 0, tv_sec = 0, tv_usec = 0, systick_us = 1000,
     hmem = demo_mem, mem_guard = False,
     msgq = (\<lambda>_. \<lparr>mq_timers = 0, mq_next = 0, mq_read = 0, mq_write = 0, mq_mask = 0, mq_que = []\<rparr>),
     msgtmr = (\<lambda>_. \<lparr>mt_que = 0, mt_param = 0, mt_data = 0, mt_handle = 0, mt_next = 0, mt_flags = 0\<rparr>),
     nutMsgQue = 0, nutMsgFreeTimers = 0\<rparr>"

definition demo_queues :: "addr \<Rightarrow> addr list" where
  "demo_queues = (\<lambda>_. [])(8 := [256, 512], 1024 := [768])"

lemmas demo_defs = demo_kernel_def demo_queues_def demo_thread_def demo_timer_def runQueue_def SIGNALED_def

lemma demo_kernel_queues: "queues demo_kernel demo_queues"
  by (auto simp: queues_def queue_ok_def demo_defs)

lemma demo_heap: "kheap demo_kernel [] (cover [(16, 64)])"
proof -
  have "nut_heap.consistent heapFreeList False demo_mem (cover [(16, 64)]) [] (cover [(16, 64)])"
    using demo_inv by (auto simp: nut_heap.consistent_def heap_free_def heapFreeList_def)
  then show ?thesis by (auto simp: kheap_def demo_kernel_def)
qed

lemma demo_timers: "timers demo_kernel [(2048, 5)]"
  by (simp add: timers_def demo_defs)

lemma demo_links: "links demo_kernel demo_queues {2048}"
  by (auto simp: links_def demo_defs split: if_splits)

lemma demo_quiet: "quiet demo_kernel demo_queues"
  by (auto simp: quiet_def pending_def demo_defs)

lemma demo_sched: "sched_inv (\<lambda>_ _ _ k. Some k) demo_kernel demo_queues [(2048, 5)] [] (cover [(16, 64)]) [768, 512, 256]"
proof -
  have "queue demo_kernel runQueue \<noteq> SIGNALED" by (simp add: demo_defs)
  moreover have "timer_mem [(2048, 5)] [] (cover [(16, 64)])" by (simp add: timer_mem_def)
  moreover have "owned demo_kernel {2048} []" by (simp add: owned_def demo_defs TM_HAS_OWN_STRUCT_def)
  moreover have "own_timers (\<lambda>_ _ _ k. Some k) demo_kernel {2048}" by (simp add: own_timers_def own_timer_def demo_defs)
  moreover have "tlist demo_kernel (nutThreadList demo_kernel) [768, 512, 256]" by (simp add: demo_defs)
  ultimately show ?thesis
    using demo_kernel_queues demo_heap demo_timers demo_links demo_quiet by (simp add: sched_inv_def kinv_def)
qed

text \<open>The same with a periodic timer of an application at 4096, which is due every tick and posts an event to the queue at 1024.\<close>

definition demo_app :: kernel where
  "demo_app = demo_kernel\<lparr>tmr := (\<lambda>_. demo_timer)(
     2048 := demo_timer\<lparr>tn_prev := 4096, tn_ticks_left := 4\<rparr>,
     4096 := demo_timer\<lparr>tn_next := 2048, tn_ticks := 10, tn_ticks_left := 1, tn_callback := CbUser 0\<rparr>), nutTimerList := 4096\<rparr>"

abbreviation (input) demo_user :: user_callback where
  "demo_user \<equiv> \<lambda>_ _ q k. Some (NutEventPostFromIrq q k)"

lemma demo_app_kinv: "kinv demo_app demo_queues [(4096, 1), (2048, 4)] [] (cover [(16, 64)])"
proof -
  have "queues demo_app demo_queues" "quiet demo_app demo_queues" "queue demo_app runQueue \<noteq> SIGNALED"
    by (auto simp: demo_app_def queues_def queue_ok_def quiet_def pending_def demo_defs)
  moreover have "timers demo_app [(4096, 1), (2048, 4)]" by (simp add: timers_def demo_app_def demo_defs)
  moreover have "kheap demo_app [] (cover [(16, 64)])" using demo_heap by (simp add: kheap_def demo_app_def)
  moreover have "timer_mem [(4096, 1), (2048, 4)] [] (cover [(16, 64)])" by (auto simp: timer_mem_def)
  moreover have "owned demo_app {4096, 2048} []" by (simp add: owned_def demo_app_def demo_defs TM_HAS_OWN_STRUCT_def)
  moreover have "links demo_app demo_queues {4096, 2048}" by (auto simp: links_def demo_app_def demo_defs split: if_splits)
  ultimately show ?thesis by (simp add: kinv_def)
qed

lemma demo_app_own: "own_timers demo_user demo_app {4096, 2048}"
proof -
  have "polite (\<lambda>k. Some (NutEventPostFromIrq 1024 k))" by (rule polite_post) (simp add: runQueue_def)
  then show ?thesis by (simp add: own_timers_def own_timer_def demo_app_def demo_defs)
qed

lemma demo_kinv: "kinv demo_kernel demo_queues [(2048, 5)] [] (cover [(16, 64)])"
  using demo_sched by (simp add: sched_inv_def)

section \<open>Properties\<close>

text \<open>
  Moving a thread between queues. \<^verbatim>\<open>NutThreadRemoveQueue\<close> followed by
  \<^verbatim>\<open>NutThreadAddPriQueue\<close> returns, and on the family of all queues it is the abstract operation:
  the thread disappears from the one queue and is put into the other behind the threads of the
  same or a higher priority; all queues stay ordered and disjoint.
\<close>

theorem queue_move_refines:
  assumes "queues k Q" and "t \<in> set (Q q)"
  shows "\<exists>k1 k2. NutThreadRemoveQueue t q k = Some k1 \<and> NutThreadAddPriQueue t p k1 = Some k2 \<and> prio k2 = prio k \<and>
    queues k2 (let R = Q(q := remove1 t (Q q)) in R(p := rank_insert (prio k) t (R p)))"
proof -
  have v: "t \<noteq> NULL \<and> t \<noteq> SIGNALED" by (rule queuesD(2) [OF assms])
  have sys: "kernel_queues.system k' R = queues k' R" for k' R by (simp add: kernel_queues.system_def queues_def)
  from kernel_queues.move_system [unfolded sys, OF assms v, of p] show ?thesis
    unfolding kernel_queues.move_def Let_def by (cases "NutThreadRemoveQueue t q k") auto
qed

theorem queue_move_refines_witness:
  "\<exists>k1 k2. NutThreadRemoveQueue 768 1024 demo_kernel = Some k1 \<and> NutThreadAddPriQueue 768 runQueue k1 = Some k2 \<and>
    queues k2 (demo_queues(1024 := [], 8 := [768, 256, 512]))"
proof -
  have m: "768 \<in> set (demo_queues 1024)" by (simp add: demo_queues_def)
  have "(let R = demo_queues(1024 := remove1 768 (demo_queues 1024)) in R(runQueue := rank_insert (prio demo_kernel) 768 (R runQueue)))
    = demo_queues(1024 := [], 8 := [768, 256, 512])"
    by (simp add: demo_defs rank_insert_def Let_def)
  with queue_move_refines [OF demo_kernel_queues m, of runQueue] show ?thesis by fastforce
qed

text \<open>
  C12: Posting an event to a queue with waiting threads makes exactly the first of them ready: it
  leaves the queue and enters the run queue by its priority, its timeout timer no longer calls back,
  the other threads, the running thread and the tick counters are untouched, and the kernel
  invariant holds. Events that interrupt handlers posted to the queue in the meantime are not lost.
\<close>

theorem post_wakes_first:
  assumes "kinv k Q ts hs A" and "q \<noteq> runQueue" and "Q q = t # us"
  shows "\<exists>k' ts'. NutEventPostAsync q k = Some (k', 1) \<and>
    kinv k' (Q(q := us, runQueue := rank_insert (prio k) t (Q runQueue))) ts' hs A \<and>
    td_state (thr k' t) = TDS_READY \<and> td_timer (thr k' t) = NULL \<and> same_others t k' k \<and>
    pending k' q us = (if us = [] then min 1 (pending k q (Q q)) else pending k q (Q q)) \<and>
    (td_timer (thr k t) \<noteq> NULL \<longrightarrow> tn_callback (tmr k' (td_timer (thr k t))) = NoCallback) \<and>
    filter (\<lambda>p. fst p \<noteq> td_timer (thr k t)) (expiry 0 ts') = filter (\<lambda>p. fst p \<noteq> td_timer (thr k t)) (expiry 0 ts)"
proof -
  have w: "woken k t q Q = Q(q := us, runQueue := rank_insert (prio k) t (Q runQueue))"
    using assms(3) by (simp add: woken_def)
  show ?thesis
    by (rule post_async_wakes [OF assms], unfold w) blast
qed

theorem post_wakes_first_witness:
  "\<exists>k' ts'. NutEventPostAsync 1024 demo_kernel = Some (k', 1) \<and>
    kinv k' (demo_queues(1024 := [], 8 := [768, 256, 512])) ts' [] (cover [(16, 64)]) \<and>
    td_state (thr k' 768) = TDS_READY \<and> tn_callback (tmr k' 2048) = NoCallback"
proof -
  have q: "(1024::addr) \<noteq> runQueue" "demo_queues 1024 = [768]" by (simp_all add: demo_defs)
  have e: "demo_queues(1024 := [], runQueue := rank_insert (prio demo_kernel) 768 (demo_queues runQueue))
    = demo_queues(1024 := [], 8 := [768, 256, 512])" by (simp add: demo_defs rank_insert_def)
  have tm: "td_timer (thr demo_kernel 768) = 2048" by (simp add: demo_defs)
  from post_wakes_first [OF demo_kinv q] show ?thesis unfolding e tm by fastforce
qed

text \<open>
  C11: No wake-up is lost. An event posted to an empty queue is remembered: the next
  \<^verbatim>\<open>NutEventWait\<close> on the queue, whatever its time limit, returns 0 without blocking, in a state
  that satisfies the scheduler's invariant.
\<close>

theorem post_then_wait:
  assumes "sched_inv user k Q ts hs A xs" and "q \<noteq> runQueue" and "Q q = []" and "queue k q \<noteq> SIGNALED"
    and "runningThread k \<in> set (Q runQueue)"
  shows "\<exists>k1 k2 Q' ts' hs'. NutEventPostAsync q k = Some (k1, 0) \<and> kinv k1 Q ts hs A \<and>
    NutEventWait user q ms k1 = Some (k2, Some 0) \<and> sched_inv user k2 Q' ts' hs' A xs"
proof -
  have I: "kinv k Q ts hs A" using assms(1) by (simp add: sched_inv_def)
  let ?k1 = "set_queue q SIGNALED k" and ?k0 = "set_queue q NULL (set_queue q SIGNALED k)"
  have p: "NutEventPostAsync q k = Some (?k1, 0)" by (rule post_async_empty [OF assms(3) kinvD(1) [OF I] assms(4)])
  have I1: "kinv ?k1 Q ts hs A" by (rule kinv_set_queue [OF I assms(3,2)]) simp
  have I0: "kinv ?k0 Q ts hs A" by (rule kinv_set_queue [OF I1 assms(3,2)]) simp
  have S0: "sched_inv user ?k0 Q ts hs A xs" by (rule sched_frame [OF assms(1) I0]) simp_all
  have me: "runningThread ?k0 \<in> set (Q runQueue)" using assms(5) by simp
  obtain k2 Q' ts' hs' where y: "NutThreadYield user ?k0 = Some k2" "sched_inv user k2 Q' ts' hs' A xs"
  proof (rule yield_spec [OF S0 me], goal_cases)
    case (1 k' Q' ts' hs')
    then show ?case using that by blast
  qed
  have "NutEventWait user q ms ?k1 = Some (k2, Some 0)"
    using y(1) by (simp add: NutEventWait_def NutEventTryWait_def)
  with p I1 y(2) show ?thesis by blast
qed

theorem post_then_wait_witness:
  "\<exists>k1 k2. NutEventPostAsync 4096 demo_kernel = Some (k1, 0) \<and> NutEventWait (\<lambda>_ _ _ k. Some k) 4096 100 k1 = Some (k2, Some 0)"
proof -
  have h: "(4096::addr) \<noteq> runQueue" "demo_queues 4096 = []" "queue demo_kernel 4096 \<noteq> SIGNALED"
    "runningThread demo_kernel \<in> set (demo_queues runQueue)" by (simp_all add: demo_defs)
  from post_then_wait [OF demo_sched h] show ?thesis by blast
qed

lemma woken_all_empty:
  assumes "q \<noteq> runQueue" and "distinct us" and "Q q = us"
  shows "woken_all k q us Q q = []" and "set (woken_all k q us Q runQueue) = set us \<union> set (Q runQueue)"
    and "p \<noteq> q \<Longrightarrow> p \<noteq> runQueue \<Longrightarrow> woken_all k q us Q p = Q p"
  using assms by (induction us arbitrary: Q) (auto simp: woken_def)

text \<open>
  A broadcast makes every waiting thread ready and returns their number; no thread is left in
  the queue, all others keep their state, and the kernel invariant holds.
\<close>

theorem broadcast_wakes_all:
  assumes "kinv k Q ts hs A" and "q \<noteq> runQueue" and "Q q \<noteq> []"
  shows "\<exists>k' Q' ts'. NutEventBroadcastAsync q k = Some (k', int (length (Q q))) \<and> kinv k' Q' ts' hs A \<and>
    Q' q = [] \<and> set (Q' runQueue) = set (Q q) \<union> set (Q runQueue) \<and> (\<forall>p. p \<noteq> q \<and> p \<noteq> runQueue \<longrightarrow> Q' p = Q p) \<and>
    (\<forall>t \<in> set (Q q). td_state (thr k' t) = TDS_READY \<and> td_timer (thr k' t) = NULL) \<and>
    (\<forall>t. t \<notin> set (Q q) \<longrightarrow> td_core (thr k' t) = td_core (thr k t)) \<and> runningThread k' = runningThread k"
proof -
  note ok = queuesD(1) [OF kinvD(1) [OF assms(1)], of q]
  have d: "distinct (Q q)" by (rule queue_okD(3) [OF ok])
  have sig: "queue k q \<noteq> SIGNALED" using queue_okD(2) [OF ok] assms(3) by auto
  obtain t us where Qq: "Q q = t # us" using assms(3) by (cases "Q q") auto
  have "queue k q \<noteq> NULL" using queue_head [of k Q q t us, OF kinvD(1) [OF assms(1)] Qq] queuesD(2) [OF kinvD(1) [OF assms(1)], of t q] Qq by simp
  then have run: "NutEventBroadcastAsync q k = broadcast_loop q 0 k" using sig by (simp add: NutEventBroadcastAsync_def)
  obtain k' ts' where b: "broadcast_loop q 0 k = Some (k', int (length (Q q)))" "kinv k' (woken_all k q (Q q) Q) ts' hs A"
    "\<forall>t \<in> set (Q q). td_state (thr k' t) = TDS_READY \<and> td_timer (thr k' t) = NULL"
    "\<forall>t. t \<notin> set (Q q) \<longrightarrow> td_core (thr k' t) = td_core (thr k t)" "runningThread k' = runningThread k"
    using broadcast_loop_spec [OF assms(1,2) refl assms(3), of 0] by auto
  note w = woken_all_empty [where q = q and us = "Q q" and Q = Q and k = k, OF assms(2) d refl]
  show ?thesis
    by (rule exI [of _ k'], rule exI [of _ "woken_all k q (Q q) Q"], rule exI [of _ ts'])
      (use run b w in simp)
qed

theorem broadcast_wakes_all_witness:
  "\<exists>k'. NutEventBroadcastAsync 1024 demo_kernel = Some (k', 1) \<and> td_state (thr k' 768) = TDS_READY"
proof -
  have q: "(1024::addr) \<noteq> runQueue" "demo_queues 1024 = [768]" by (simp_all add: demo_defs)
  then have "demo_queues 1024 \<noteq> []" by simp
  from broadcast_wakes_all [OF demo_kinv q(1) this] show ?thesis unfolding q(2) by auto
qed

text \<open>
  C14: Starting a timer. Either no memory is available, and nothing changes, or the timer gets
  memory of its own and is inserted into the list by its expiry time, behind the timers that expire
  at the same time; the expiry times of all other timers, their callbacks and the threads are
  unchanged although the list stores only differences.
\<close>

theorem timer_start_ordered:
  assumes "timers k ts" and "kheap k hs A" and "timer_mem ts hs A"
  shows "NutTimerStartTicks n cb arg fl k = Some (k, NULL) \<or>
    (\<exists>k' tn ts'. NutTimerStartTicks n cb arg fl k = Some (k', tn) \<and> tn \<noteq> NULL \<and> tn \<notin> fst ` set ts \<and> timers k' ts' \<and>
      expiry 0 ts' = rank_insert snd (tn, unat (n + nut_ticks k - nut_ticks_resume k)) (expiry 0 ts) \<and>
      kheap k' (tn # hs) A \<and> tn_callback (tmr k' tn) = cb \<and> tn_arg (tmr k' tn) = arg \<and>
      tn_ticks (tmr k' tn) = (if fl AND TM_ONESHOT \<noteq> 0 then 0 else n) \<and>
      (\<forall>x. x \<noteq> tn \<longrightarrow> tn_core (tmr k' x) = tn_core (tmr k x)) \<and> thr k' = thr k \<and> queue k' = queue k)"
proof (rule timer_start_spec [OF assms, of n cb arg fl], goal_cases)
  case (2 k' tn)
  note o = only_timersD(1,2) [OF 2(9)]
  have e: "expiry 0 (delta_insert tn (n + nut_ticks k - nut_ticks_resume k) ts) =
    rank_insert snd (tn, unat (n + nut_ticks k - nut_ticks_resume k)) (expiry 0 ts)" by (simp add: expiry_insert)
  show ?case
    by (rule disjI2, rule exI [of _ k'], rule exI [of _ tn], rule exI [of _ "delta_insert tn (n + nut_ticks k - nut_ticks_resume k) ts"])
      (use 2 o e in simp)
qed simp

theorem timer_start_ordered_witness:
  "NutTimerStartTicks 3 CbThreadWake 256 TM_ONESHOT demo_kernel = Some (demo_kernel, NULL) \<or>
    (\<exists>k' tn ts'. NutTimerStartTicks 3 CbThreadWake 256 TM_ONESHOT demo_kernel = Some (k', tn) \<and> timers k' ts' \<and>
      expiry 0 ts' = [(2048, 5), (tn, 10)])"
proof -
  have m: "timer_mem [(2048, 5)] [] (cover [(16, 64)])" by (simp add: timer_mem_def)
  have "rank_insert snd (tn, unat (3 + nut_ticks demo_kernel - nut_ticks_resume demo_kernel)) (expiry 0 [(2048, 5)])
    = [(2048, 5), (tn, 10)]" for tn by (simp add: rank_insert_def demo_kernel_def)
  with timer_start_ordered [OF demo_timers demo_heap m, of 3 CbThreadWake 256 TM_ONESHOT] show ?thesis by metis
qed

text \<open>
  Stopping a timer removes its callback and its period, so it will never call back, and leaves
  the expiry times of all other timers as they are; the list keeps the same timers.
\<close>

theorem timer_stop_safe:
  assumes "timers k ts" and "tn \<in> fst ` set ts"
  shows "\<exists>k' ts'. NutTimerStop tn k = Some k' \<and> timers k' ts' \<and> tn_callback (tmr k' tn) = NoCallback \<and>
    tn_ticks (tmr k' tn) = 0 \<and> fst ` set ts' = fst ` set ts \<and>
    filter (\<lambda>p. fst p \<noteq> tn) (expiry 0 ts') = filter (\<lambda>p. fst p \<noteq> tn) (expiry 0 ts) \<and>
    (\<forall>x. x \<noteq> tn \<longrightarrow> tn_core (tmr k' x) = tn_core (tmr k x)) \<and> only_timers k' k"
  by (rule timer_stop_spec [OF assms]) blast

theorem timer_stop_safe_witness:
  "\<exists>k' ts'. NutTimerStop 2048 demo_kernel = Some k' \<and> timers k' ts' \<and> tn_callback (tmr k' 2048) = NoCallback"
  using timer_stop_safe [OF demo_timers, of 2048] by auto

text \<open>
  C13: Processing the elapsed timers returns (although every callback of a periodic timer inserts it
  again), consumes exactly the ticks since the last call, and refines the abstract step on the list
  of expiry times: the timers that fire are those of \<open>elapse\<close>, and the queues are what one gets by
  letting these timers fire one after the other in that order, so that threads of the same priority become ready in the
  order in which their timers have expired. The threads that sleep or wait with one of the timers become ready (a waiting one
  marked as timed out) and no other thread changes. The timers in the list are those of \<^verbatim>\<open>NutSleep\<close> and
  \<^verbatim>\<open>NutEventWait\<close>, stopped timers, and one-shot or periodic timers of applications whose callbacks at most
  post events the way interrupt handlers do; callbacks that wake up threads themselves or start and stop timers, among them those
  of message queue timers, are not covered.
\<close>

theorem process_elapsed_refines:
  assumes "kinv k Q ts hs A" and "own_timers user k (fst ` set ts)"
  shows "\<exists>k' Q' hs'. NutTimerProcessElapsed user k = Some k' \<and>
    (case elapse (\<lambda>t. tn_ticks (tmr k t)) (nut_ticks k - nut_ticks_resume k) ts of
       (fired, ts') \<Rightarrow> kinv k' Q' ts' hs' A \<and> timed_out k Q (set fired) k' Q' \<and> Q' = fold (fire k) fired Q) \<and>
    nut_ticks_resume k' = nut_ticks k \<and> runningThread k' = runningThread k"
  using process_elapsed_spec [OF assms] by (auto simp: case_prod_unfold fixed_part_def)

theorem process_elapsed_refines_witness:
  "\<exists>k' ts' hs'. NutTimerProcessElapsed demo_user demo_app = Some k' \<and>
    kinv k' (demo_queues(1024 := [], 8 := [768, 256, 512])) ts' hs' (cover [(16, 64)]) \<and>
    td_timer (thr k' 768) = SIGNALED \<and> td_state (thr k' 768) = TDS_READY"
proof -
  have o: "own_timers demo_user demo_app (fst ` set [(4096, 1), (2048, 4)])" using demo_app_own by simp
  have e: "elapse (\<lambda>t. tn_ticks (tmr demo_app t)) (nut_ticks demo_app - nut_ticks_resume demo_app) [(4096, 1), (2048, 4)]
    = ([4096, 2048], [(4096, 4)])" by (simp add: demo_app_def demo_defs Let_def delta_insert_Cons)
  have q: "fold (fire demo_app) [4096, 2048] demo_queues = demo_queues(1024 := [], 8 := [768, 256, 512])"
    by (simp add: fire_def woken_def demo_app_def demo_defs rank_insert_def fun_upd_twist)
  have w: "768 \<in> waiting demo_app demo_queues {4096, 2048}"
    unfolding waiting_def by (rule CollectI, rule exI [of _ 1024]) (simp add: demo_app_def demo_defs)
  obtain k' hs' where r: "NutTimerProcessElapsed demo_user demo_app = Some k'"
    "kinv k' (fold (fire demo_app) [4096, 2048] demo_queues) [(4096, 4)] hs' (cover [(16, 64)])"
    "timed_out demo_app demo_queues {4096, 2048} k' (fold (fire demo_app) [4096, 2048] demo_queues)"
    using process_elapsed_refines [OF demo_app_kinv o] unfolding e by auto
  have "td_state (thr k' 768) = TDS_READY \<and> td_timer (thr k' 768) = SIGNALED"
    using r(3) w unfolding timed_out_def by blast
  then show ?thesis using r(1,2) unfolding q by blast
qed

text \<open>
  C15: When every timer is a one-shot timer, the processing after \<open>n\<close> ticks fires the timers with
  an earlier expiry time and leaves the others \<open>n\<close> ticks less to go; but of several timers that
  expire exactly with the last tick only the first fires, and the threads of the others are not
  woken up before a later call.
\<close>

theorem oneshot_expiry:
  assumes "kinv k Q ts hs A" and "own_timers user k (fst ` set ts)" and "\<forall>t \<in> fst ` set ts. tn_ticks (tmr k t) = 0"
    and "n = unat (nut_ticks k - nut_ticks_resume k)"
  shows "\<exists>k' Q' ts' hs' fired. NutTimerProcessElapsed user k = Some k' \<and> kinv k' Q' ts' hs' A \<and>
    timed_out k Q (set fired) k' Q' \<and>
    fired = map fst (takeWhile (\<lambda>p. snd p < n) (expiry 0 ts)) @
      (case dropWhile (\<lambda>p. snd p < n) (expiry 0 ts) of [] \<Rightarrow> []
       | p # _ \<Rightarrow> if snd p = n \<and> 0 < n then [fst p] else []) \<and>
    expiry 0 ts' = map (\<lambda>(t, e). (t, e - n)) (drop (length fired) (expiry 0 ts))"
proof -
  let ?e = "elapse (\<lambda>t. tn_ticks (tmr k t)) (nut_ticks k - nut_ticks_resume k) ts"
  obtain k' Q' hs' where r: "NutTimerProcessElapsed user k = Some k'" "kinv k' Q' (snd ?e) hs' A"
    "timed_out k Q (set (fst ?e)) k' Q'"
    using process_elapsed_spec [OF assms(1,2)] by blast
  have "fst ?e = due n (expiry 0 ts)"
    and "expiry 0 (snd ?e) = map (\<lambda>(t, e). (t, e - n)) (drop (length (due n (expiry 0 ts))) (expiry 0 ts))"
    using elapse_oneshot [of ts "\<lambda>t. tn_ticks (tmr k t)"] assms(3,4) by simp_all
  with r show ?thesis unfolding due_def by fastforce
qed

theorem oneshot_expiry_witness:
  "\<exists>k' Q' ts' hs'. NutTimerProcessElapsed (\<lambda>_ _ _ k. Some k) demo_kernel = Some k' \<and>
    kinv k' Q' ts' hs' (cover [(16, 64)]) \<and> expiry 0 ts' = []"
proof -
  have h: "own_timers (\<lambda>_ _ _ k. Some k) demo_kernel (fst ` set [(2048, 5)])" "\<forall>t \<in> fst ` set [(2048::addr, 5::u32)]. tn_ticks (tmr demo_kernel t) = 0"
    "7 = unat (nut_ticks demo_kernel - nut_ticks_resume demo_kernel)" by (simp_all add: own_timers_def own_timer_def demo_defs)
  from oneshot_expiry [OF demo_kinv h] show ?thesis by auto
qed

text \<open>
  C8: Scheduling. \<^verbatim>\<open>NutThreadResume\<close> first delivers the events of interrupt handlers: walking through the list \<open>xs\<close> of
  all threads, it moves each thread that is the first one in an event queue with pending events to the run queue, for one event
  each (\<open>deliver\<close>); so every thread of the list that is first in a queue with pending events is ready afterwards. Then it
  lets the timers that have elapsed fire, in the order of their expiry. It returns with the thread at the head of the
  run queue running: no ready thread has a higher priority. Threads that were ready stay ready and in order,
  every queued thread is still in its queue or has become ready, and the invariant holds. Timers of applications are covered as
  far as their callbacks at most post events the way interrupt handlers do.
\<close>

theorem resume_runs_best:
  assumes "sched_inv user k Q ts hs A xs" and "Q runQueue \<noteq> []"
  shows "\<exists>k' Q' ts' hs' k1 Q1 ts1 fired. NutThreadResume user k = Some k' \<and> sched_inv user k' Q' ts' hs' A xs \<and>
    resume_walk (nutThreadList k) k = Some k1 \<and> kinv k1 Q1 ts1 hs A \<and> Q1 = deliver k xs (\<lambda>q. pending k q (Q q)) Q \<and>
    elapse (\<lambda>t. tn_ticks (tmr k1 t)) (nut_ticks k - nut_ticks_resume k) ts1 = (fired, ts') \<and> Q' = fold (fire k1) fired Q1 \<and>
    nut_ticks_resume k' = nut_ticks k \<and>
    (\<forall>q t us. q \<noteq> runQueue \<and> Q q = t # us \<and> 0 < pending k q (Q q) \<and> t \<in> set xs \<longrightarrow> t \<in> set (Q' runQueue)) \<and>
    (\<exists>us. Q' runQueue = runningThread k' # us) \<and>
    (\<forall>u \<in> set (Q' runQueue). prio k' (runningThread k') \<le> prio k' u) \<and>
    (\<forall>x. prio k' x = prio k x) \<and> subseq (Q runQueue) (Q' runQueue) \<and>
    (\<forall>q x. x \<in> set (Q q) \<longrightarrow> x \<in> set (Q' q) \<or> x \<in> set (Q' runQueue)) \<and>
    (runningThread k' \<noteq> runningThread k \<longrightarrow> td_state (thr k' (runningThread k')) = TDS_RUNNING)"
proof (rule resume_delivers [OF assms], goal_cases)
  case (1 k' Q' ts' hs' k1 Q1 ts1 fired)
  have qs: "queues k Q" using assms(1) by (simp add: sched_inv_def kinv_def)
  have "t \<in> set (Q' runQueue)" if h: "q \<noteq> runQueue" "Q q = t # us" "0 < pending k q (Q q)" "t \<in> set xs" for q t us
  proof -
    have "td_queue (thr k t) = q" using queue_okD(7) [OF queuesD(1) [OF qs, of q]] h(2) by simp
    then have "t \<in> set (Q1 runQueue)" unfolding 1(6) by (rule deliver_first [OF h(4)]) (use h in simp_all)
    then show ?thesis using subseq_set [OF 1(9)] by blast
  qed
  then have first: "\<forall>q t us. q \<noteq> runQueue \<and> Q q = t # us \<and> 0 < pending k q (Q q) \<and> t \<in> set xs \<longrightarrow> t \<in> set (Q' runQueue)" by blast
  show ?case
    by (rule exI [of _ k'], rule exI [of _ Q'], rule exI [of _ ts'], rule exI [of _ hs'], rule exI [of _ k1],
        rule exI [of _ Q1], rule exI [of _ ts1], rule exI [of _ fired], insert 1(1,2,4-8,10) first 1(3) [unfolded scheduled_def],
        elim conjE, intro conjI, assumption+)
qed

text \<open>In the example, an interrupt handler has posted an event to the queue at 1024 in which thread 768 waits.\<close>

theorem resume_runs_best_witness:
  "\<exists>k'. NutThreadResume (\<lambda>_ _ _ k. Some k) (NutEventPostFromIrq 1024 demo_kernel) = Some k' \<and> runningThread k' = 768 \<and>
    td_state (thr k' 768) = TDS_RUNNING"
proof -
  let ?k = "NutEventPostFromIrq 1024 demo_kernel" and ?u = "\<lambda>_ _ _ k. Some k"
  have k: "?k = (upd_thr 768 (\<lambda>i. i\<lparr>td_qpec := 1\<rparr>) demo_kernel)\<lparr>total_pending := 1\<rparr>"
    by (simp add: NutEventPostFromIrq_def demo_defs upd_thr_def)
  have "demo_queues 1024 = 768 # []" by (simp add: demo_defs)
  from kinv_count [OF demo_kinv this] have "kinv ?k demo_queues [(2048, 5)] [] (cover [(16, 64)])" unfolding k by (simp add: runQueue_def)
  moreover have "own_timers ?u ?k {2048}" unfolding k by (simp add: own_timers_def own_timer_def demo_defs)
  moreover have "tlist ?k (nutThreadList ?k) [768, 512, 256]" unfolding k by (simp add: demo_defs)
  ultimately have S: "sched_inv ?u ?k demo_queues [(2048, 5)] [] (cover [(16, 64)]) [768, 512, 256]" by (simp add: sched_inv_def)
  have ne: "demo_queues runQueue \<noteq> []" by (simp add: demo_defs)
  obtain k' Q' us where r: "NutThreadResume ?u ?k = Some k'" "Q' runQueue = runningThread k' # us"
    "\<forall>q t us. q \<noteq> runQueue \<and> demo_queues q = t # us \<and> 0 < pending ?k q (demo_queues q) \<and> t \<in> set [768, 512, 256] \<longrightarrow> t \<in> set (Q' runQueue)"
    "\<forall>u \<in> set (Q' runQueue). prio k' (runningThread k') \<le> prio k' u" "\<forall>u. prio k' u = prio ?k u"
    "runningThread k' \<noteq> runningThread ?k \<longrightarrow> td_state (thr k' (runningThread k')) = TDS_RUNNING"
    using resume_runs_best [OF S ne] by blast
  have "768 \<in> set (Q' runQueue)" using spec [OF spec [OF spec [OF r(3), of 1024], of 768], of "[]"] unfolding k by (simp add: demo_defs pending_def)
  moreover have best: "prio k' x = (if x = 768 then 32 else 64)" for x using r(5) [unfolded k] by (simp add: demo_defs)
  ultimately have "runningThread k' = 768" using r(4) by (metis (no_types) numeral_le_iff semiring_norm(69) semiring_norm(71))
  then show ?thesis using r(1) r(6) [unfolded k] by (simp add: demo_defs)
qed

text \<open>
  C9: Yielding makes progress. After \<^verbatim>\<open>NutThreadYield\<close> a thread of the highest priority among the
  ready ones runs; if another thread of at least the priority of the caller was ready, the
  caller does not run again before it: some other thread runs. No ready thread is lost.
\<close>

theorem yield_passes_on:
  assumes "sched_inv user k Q ts hs A xs" and "runningThread k \<in> set (Q runQueue)"
  shows "\<exists>k' Q' ts' hs'. NutThreadYield user k = Some k' \<and> sched_inv user k' Q' ts' hs' A xs \<and>
    (\<exists>us. Q' runQueue = runningThread k' # us) \<and>
    (\<forall>u \<in> set (Q' runQueue). prio k' (runningThread k') \<le> prio k' u) \<and> set (Q runQueue) \<subseteq> set (Q' runQueue) \<and>
    ((\<exists>u \<in> set (Q runQueue). u \<noteq> runningThread k \<and> prio k u \<le> prio k (runningThread k)) \<longrightarrow>
      runningThread k' \<noteq> runningThread k)"
  by (rule yield_spec [OF assms]) blast

theorem yield_passes_on_witness:
  "\<exists>k'. NutThreadYield (\<lambda>_ _ _ k. Some k) demo_kernel = Some k' \<and> runningThread k' \<noteq> 256"
proof -
  have h: "runningThread demo_kernel \<in> set (demo_queues runQueue)"
    "\<exists>u \<in> set (demo_queues runQueue). u \<noteq> runningThread demo_kernel \<and> prio demo_kernel u \<le> prio demo_kernel (runningThread demo_kernel)"
    "runningThread demo_kernel = 256" by (simp_all add: demo_defs)
  from yield_passes_on [OF demo_sched h(1)] h(2,3) show ?thesis by metis
qed

text \<open>
  C10: Waiting. When no event is pending, \<^verbatim>\<open>NutEventWait\<close> takes the caller off the run queue,
  puts it into the event queue by its priority, asleep, and gives the processor to the best ready
  thread; the caller is afterwards still in the event queue, or ready again because an event or
  the time limit came in.
\<close>

theorem wait_blocks:
  assumes "sched_inv user k Q ts hs A xs" and "runningThread k \<in> set (Q runQueue)"
    and "remove1 (runningThread k) (Q runQueue) \<noteq> []" and "td_timer (thr k (runningThread k)) = NULL"
    and "q \<noteq> runQueue" and "queue k q \<noteq> SIGNALED"
  shows "\<exists>k4 Q4 k' Q' ts' hs'. NutEventWait user q ms k = Some (k', None) \<and> NutThreadResume user k4 = Some k' \<and>
    queues k4 Q4 \<and> Q4 q = rank_insert (prio k) (runningThread k) (Q q) \<and> Q4 runQueue = remove1 (runningThread k) (Q runQueue) \<and>
    td_state (thr k4 (runningThread k)) = TDS_SLEEP \<and> sched_inv user k' Q' ts' hs' A xs \<and>
    (runningThread k \<in> set (Q' q) \<or> runningThread k \<in> set (Q' runQueue)) \<and>
    (\<exists>us. Q' runQueue = runningThread k' # us)"
proof (rule wait_spec [OF assms, of ms], goal_cases)
  case (1 k4 Q4 ts4 hs4 k' Q' ts' hs')
  have qs: "queues k4 Q4" using 1(3) by (simp add: sched_inv_def kinv_def)
  have m: "runningThread k \<in> set (Q4 q)" using 1(6) assms(5) by simp
  have sc: "\<And>q x. x \<in> set (Q4 q) \<Longrightarrow> x \<in> set (Q' q) \<or> x \<in> set (Q' runQueue)" "\<exists>us. Q' runQueue = runningThread k' # us"
    using 1(5) unfolding scheduled_def by blast+
  show ?case
    by (rule exI [of _ k4], rule exI [of _ Q4], rule exI [of _ k'], rule exI [of _ Q'], rule exI [of _ ts'], rule exI [of _ hs'])
      (use 1(1,2,4,6,7) qs m sc assms(5) in auto)
qed

theorem wait_blocks_witness:
  "\<exists>k4 Q4 k' Q'. NutEventWait (\<lambda>_ _ _ k. Some k) 1024 50 demo_kernel = Some (k', None) \<and> queues k4 Q4 \<and>
    Q4 1024 = [768, 256] \<and> Q4 runQueue = [512] \<and> ((256::addr) \<in> set (Q' 1024) \<or> 256 \<in> set (Q' runQueue))"
proof -
  have h: "runningThread demo_kernel \<in> set (demo_queues runQueue)"
    "remove1 (runningThread demo_kernel) (demo_queues runQueue) \<noteq> []"
    "td_timer (thr demo_kernel (runningThread demo_kernel)) = NULL" "(1024::addr) \<noteq> runQueue" "queue demo_kernel 1024 \<noteq> SIGNALED"
    by (simp_all add: demo_defs)
  have e: "runningThread demo_kernel = 256" "rank_insert (prio demo_kernel) 256 (demo_queues 1024) = [768, 256]"
    "remove1 256 (demo_queues runQueue) = [512]"
    by (simp_all add: demo_defs rank_insert_def)
  from wait_blocks [OF demo_sched h, of 50] show ?thesis unfolding e by blast
qed

end
