(* ===== verification/Nut_Sync.thy ===== *)
theory Nut_Sync
  imports Nut_Kernel_Props
begin

text \<open>
  Mutexes, semaphores and condition variables (\<^verbatim>\<open>os/mutex.c\<close>, \<^verbatim>\<open>os/semaphore.c\<close>, \<^verbatim>\<open>os/condition.c\<close>)
  on top of the events of the kernel. A call that blocks is split at the thread switch: it returns
  \<open>Blocked\<close>, and the caller continues with the \<open>_leave\<close> part when it is running again.
\<close>

section \<open>Model\<close>

record MUTEX =
  mtx_thread :: addr
  mtx_count :: u16

text \<open>
  The structures in memory: a mutex has its queue root at its own address; a condition variable has its
  event queue at its own address and its mutex four bytes further.
\<close>

record sync =
  kern :: kernel
  mtx :: "addr \<Rightarrow> MUTEX"
  sem_value :: "addr \<Rightarrow> 16 word"

datatype outcome = Done | Blocked

definition upd_mtx :: "addr \<Rightarrow> (MUTEX \<Rightarrow> MUTEX) \<Rightarrow> sync \<Rightarrow> sync" where
  "upd_mtx a f s = s\<lparr>mtx := (mtx s)(a := f (mtx s a))\<rparr>"

definition NutMutexInit :: "addr \<Rightarrow> sync \<Rightarrow> sync" where
  "NutMutexInit a s = (upd_mtx a (\<lambda>_. \<lparr>mtx_thread = NULL, mtx_count = 0\<rparr>) s)\<lparr>kern := set_queue a NULL (kern s)\<rparr>"

definition lock_take :: "addr \<Rightarrow> sync \<Rightarrow> sync" where
  "lock_take a s = upd_mtx a (\<lambda>m. \<lparr>mtx_thread = runningThread (kern s), mtx_count = mtx_count m + 1\<rparr>) s"

text \<open>The loop of \<^verbatim>\<open>NutMutexLock\<close>, up to the next switch.\<close>

definition NutMutexLock_leave :: "user_callback \<Rightarrow> addr \<Rightarrow> sync \<Rightarrow> (sync \<times> outcome) option" where
  "NutMutexLock_leave user a s =
     (if mtx_count (mtx s a) \<noteq> 0
      then do { r \<leftarrow> NutEventWaitNext user a 0 (kern s); Some (s\<lparr>kern := fst r\<rparr>, Blocked) }
      else Some (lock_take a s, Done))"

definition NutMutexLock :: "user_callback \<Rightarrow> addr \<Rightarrow> sync \<Rightarrow> (sync \<times> outcome) option" where
  "NutMutexLock user a s =
     (if mtx_thread (mtx s a) \<noteq> runningThread (kern s) then NutMutexLock_leave user a s
      else Some (lock_take a s, Done))"

definition NutMutexTrylock :: "user_callback \<Rightarrow> addr \<Rightarrow> sync \<Rightarrow> (sync \<times> int) option" where
  "NutMutexTrylock user a s =
     (if mtx_count (mtx s a) \<noteq> 0 \<and> mtx_thread (mtx s a) \<noteq> runningThread (kern s) then Some (s, -1)
      else do { r \<leftarrow> NutMutexLock user a s; Some (fst r, 0) })"

definition NutMutexUnlock :: "user_callback \<Rightarrow> addr \<Rightarrow> sync \<Rightarrow> (sync \<times> int) option" where
  "NutMutexUnlock user a s =
     (if mtx_thread (mtx s a) \<noteq> runningThread (kern s) then Some (s, -1)
      else do { let s1 = upd_mtx a (\<lambda>m. m\<lparr>mtx_count := mtx_count m - 1\<rparr>) s;
                (if mtx_count (mtx s1 a) = 0
                 then do { r \<leftarrow> NutEventPost user a (kern s1); Some (s1\<lparr>kern := fst r\<rparr>, 0) }
                 else Some (s1, 0)) })"

definition NutMutexDestroy :: "addr \<Rightarrow> sync \<Rightarrow> int" where
  "NutMutexDestroy a s =
     (if mtx_count (mtx s a) = 0 then 0 else if mtx_thread (mtx s a) = runningThread (kern s) then 0 else -1)"

definition NutSemInit :: "addr \<Rightarrow> 16 word \<Rightarrow> sync \<Rightarrow> sync" where
  "NutSemInit a v s = s\<lparr>kern := set_queue a NULL (kern s), sem_value := (sem_value s)(a := v)\<rparr>"

definition NutSemWait :: "user_callback \<Rightarrow> addr \<Rightarrow> sync \<Rightarrow> (sync \<times> outcome) option" where
  "NutSemWait user a s =
     do { let s1 = s\<lparr>sem_value := (sem_value s)(a := sem_value s a - 1)\<rparr>;
          (if sint (sem_value s1 a) < 0
           then do { r \<leftarrow> NutEventWaitNext user a 0 (kern s1); Some (s1\<lparr>kern := fst r\<rparr>, Blocked) }
           else Some (s1, Done)) }"

definition NutSemPost :: "user_callback \<Rightarrow> addr \<Rightarrow> sync \<Rightarrow> sync option" where
  "NutSemPost user a s =
     do { let s1 = s\<lparr>sem_value := (sem_value s)(a := sem_value s a + 1)\<rparr>;
          (if sint (sem_value s1 a) \<le> 0
           then do { r \<leftarrow> NutEventPost user a (kern s1); Some (s1\<lparr>kern := fst r\<rparr>) }
           else Some s1) }"

definition NutSemTryWait :: "user_callback \<Rightarrow> addr \<Rightarrow> sync \<Rightarrow> (sync \<times> int) option" where
  "NutSemTryWait user a s =
     (if sint (sem_value s a) \<le> 0 then Some (s, -1)
      else do { r \<leftarrow> NutSemWait user a s; Some (fst r, 0) })"

definition NutSemDestroy :: "addr \<Rightarrow> sync \<Rightarrow> int" where
  "NutSemDestroy a s = (if queue (kern s) a = SIGNALED then 0 else if queue (kern s) a = 0 then 0 else -1)"

text \<open>
  Condition variables. The three calls of \<^verbatim>\<open>NutConditionWait\<close> each may switch threads, so it is split
  into unlocking, waiting and locking again. Waiting is done on the queue whose root is at the
  address that the event field \<^emph>\<open>contains\<close>, as the source passes the field and not its address.
\<close>

definition sizeof_CONDITION :: nat where
  "sizeof_CONDITION = 16"

definition NutConditionInit :: "addr \<Rightarrow> sync \<Rightarrow> (sync \<times> int) option" where
  "NutConditionInit cond s =
     do { r \<leftarrow> NutHeapAlloc sizeof_CONDITION (kern s);
          let s1 = s\<lparr>kern := fst r\<rparr>; let c = snd r;
          Some (if c = NULL then (s1, 1) else (NutMutexInit (c + 4) s1, 0)) }"

definition NutConditionLock :: "user_callback \<Rightarrow> addr \<Rightarrow> sync \<Rightarrow> (sync \<times> outcome) option" where
  "NutConditionLock user c s = (if c = NULL then Some (s, Done) else NutMutexLock user (c + 4) s)"

definition NutConditionUnlock :: "user_callback \<Rightarrow> addr \<Rightarrow> sync \<Rightarrow> sync option" where
  "NutConditionUnlock user c s = (if c = NULL then Some s else map_option fst (NutMutexUnlock user (c + 4) s))"

definition NutConditionWait :: "user_callback \<Rightarrow> addr \<Rightarrow> sync \<Rightarrow> (sync \<times> int) option" where
  "NutConditionWait user c s =
     (if c = NULL then Some (s, -1) else map_option (\<lambda>r. (fst r, 0)) (NutMutexUnlock user (c + 4) s))"

definition NutConditionWait_wait :: "user_callback \<Rightarrow> addr \<Rightarrow> sync \<Rightarrow> (sync \<times> outcome) option" where
  "NutConditionWait_wait user c s =
     map_option (\<lambda>r. (s\<lparr>kern := fst r\<rparr>, if snd r = None then Blocked else Done))
       (NutEventWait user (queue (kern s) c) 0 (kern s))"

definition NutConditionTimedWait :: "user_callback \<Rightarrow> addr \<Rightarrow> u32 \<Rightarrow> sync \<Rightarrow> (sync \<times> (int + u32)) option" where
  "NutConditionTimedWait user c abs_ms s =
     (if c = NULL then Some (s, Inl (-1))
      else let ms = abs_ms - NutGetMillis (kern s) in
        if ms > 0x7FFFFFFF then Some (s, Inl (-1))
        else map_option (\<lambda>r. (fst r, Inr ms)) (NutMutexUnlock user (c + 4) s))"

definition NutConditionTimedWait_wait :: "user_callback \<Rightarrow> addr \<Rightarrow> u32 \<Rightarrow> sync \<Rightarrow> (sync \<times> outcome) option" where
  "NutConditionTimedWait_wait user c ms s =
     map_option (\<lambda>r. (s\<lparr>kern := fst r\<rparr>, if snd r = None then Blocked else Done)) (NutEventWait user c ms (kern s))"

definition NutConditionWait_leave :: "user_callback \<Rightarrow> addr \<Rightarrow> sync \<Rightarrow> (sync \<times> outcome) option" where
  "NutConditionWait_leave user c s = NutMutexLock user (c + 4) s"

definition NutConditionSignal :: "user_callback \<Rightarrow> addr \<Rightarrow> sync \<Rightarrow> (sync \<times> int) option" where
  "NutConditionSignal user c s =
     (if c = NULL then Some (s, -1)
      else map_option (\<lambda>r. (s\<lparr>kern := fst r\<rparr>, snd r)) (NutEventPost user c (kern s)))"

definition NutConditionBroadcast :: "user_callback \<Rightarrow> addr \<Rightarrow> sync \<Rightarrow> (sync \<times> int) option" where
  "NutConditionBroadcast user c s =
     (if c = NULL then Some (s, -1)
      else map_option (\<lambda>r. (s\<lparr>kern := fst r\<rparr>, snd r)) (NutEventBroadcast user c (kern s)))"

definition NutConditionFree :: "addr \<Rightarrow> sync \<Rightarrow> sync option" where
  "NutConditionFree c s = map_option (\<lambda>r. s\<lparr>kern := fst r\<rparr>) (NutHeapFree c (kern s))"

section \<open>Mutual exclusion\<close>

text \<open>
  Any number of threads call lock, trylock and unlock for a mutex at address \<open>a\<close>, rightly or wrongly. \<open>held\<close> counts the
  calls that have locked it for a thread, minus those that have unlocked it, and \<open>inside\<close> tells which threads are
  blocked in lock. In between the kernel may do anything that leaves the mutex alone, such as switching threads at any time.
  \<open>faulty\<close> records two faults that the code does not refuse: an unlock that is accepted from a thread that does not hold
  the mutex, and a lock by a thread that has already locked it 65535 times.
\<close>

record mutex_sys =
  sys :: sync
  held :: "addr \<Rightarrow> nat"
  inside :: "addr set"
  faulty :: bool

definition took :: "addr \<Rightarrow> outcome \<Rightarrow> mutex_sys \<Rightarrow> mutex_sys" where
  "took t o1 y =
     (if o1 = Done
      then y\<lparr>held := (held y)(t := held y t + 1), inside := inside y - {t}, faulty := faulty y \<or> 65535 \<le> held y t\<rparr>
      else y\<lparr>inside := insert t (inside y)\<rparr>)"

definition gave :: "addr \<Rightarrow> int \<Rightarrow> mutex_sys \<Rightarrow> mutex_sys" where
  "gave t rc y = (if rc = 0 then y\<lparr>held := (held y)(t := held y t - 1), faulty := faulty y \<or> held y t = 0\<rparr> else y)"

inductive mutex_step :: "user_callback \<Rightarrow> addr \<Rightarrow> mutex_sys \<Rightarrow> mutex_sys \<Rightarrow> bool" for user a where
  lock: "t = runningThread (kern (sys y)) \<Longrightarrow> t \<notin> inside y
    \<Longrightarrow> NutMutexLock user a (sys y) = Some (s', r) \<Longrightarrow> mutex_step user a y (took t r (y\<lparr>sys := s'\<rparr>))"
| lock_again: "t = runningThread (kern (sys y)) \<Longrightarrow> t \<in> inside y
    \<Longrightarrow> NutMutexLock_leave user a (sys y) = Some (s', r) \<Longrightarrow> mutex_step user a y (took t r (y\<lparr>sys := s'\<rparr>))"
| trylock: "t = runningThread (kern (sys y)) \<Longrightarrow> t \<notin> inside y
    \<Longrightarrow> NutMutexTrylock user a (sys y) = Some (s', rc)
    \<Longrightarrow> mutex_step user a y (if rc = 0 then took t Done (y\<lparr>sys := s'\<rparr>) else y\<lparr>sys := s'\<rparr>)"
| unlock: "t = runningThread (kern (sys y)) \<Longrightarrow> t \<notin> inside y
    \<Longrightarrow> NutMutexUnlock user a (sys y) = Some (s', rc) \<Longrightarrow> mutex_step user a y (gave t rc (y\<lparr>sys := s'\<rparr>))"
| other: "mtx s' a = mtx (sys y) a \<Longrightarrow> mutex_step user a y (y\<lparr>sys := s'\<rparr>)"

inductive mutex_reach :: "user_callback \<Rightarrow> addr \<Rightarrow> mutex_sys \<Rightarrow> bool" for user a where
  init: "mutex_reach user a \<lparr>sys = NutMutexInit a s, held = (\<lambda>_. 0), inside = {}, faulty = False\<rparr>"
| step: "mutex_reach user a y \<Longrightarrow> mutex_step user a y y' \<Longrightarrow> mutex_reach user a y'"

definition mutex_inv :: "addr \<Rightarrow> mutex_sys \<Rightarrow> bool" where
  "mutex_inv a y \<longleftrightarrow>
     (\<forall>t. held y t = (if t = mtx_thread (mtx (sys y) a) then unat (mtx_count (mtx (sys y) a)) else 0))
     \<and> (\<forall>t \<in> inside y. held y t = 0)"

lemma mutex_inv_faulty [simp]: "mutex_inv a (y\<lparr>faulty := f\<rparr>) = mutex_inv a y"
  by (simp add: mutex_inv_def)

lemma lock_take_mtx [simp]:
  "mtx (lock_take a s) a = \<lparr>mtx_thread = runningThread (kern s), mtx_count = mtx_count (mtx s a) + 1\<rparr>"
  by (simp add: lock_take_def upd_mtx_def)

lemma count_up: "unat c < 65535 \<Longrightarrow> unat (c + 1 :: u16) = unat c + 1"
  by (simp add: unat_word_ariths)

lemma count_down: "0 < unat c \<Longrightarrow> unat (c - 1 :: u16) = unat c - 1"
  by (simp add: unat_gt_0 unat_minus_one)

lemma leave_cases:
  assumes "NutMutexLock_leave user a s = Some (s', r)"
  obtains "r = Blocked" "mtx s' = mtx s" "mtx_count (mtx s a) \<noteq> 0" | "r = Done" "s' = lock_take a s" "mtx_count (mtx s a) = 0"
  using assms by (auto simp: NutMutexLock_leave_def bind_eq_Some_conv split: if_splits)

lemma lock_cases:
  assumes "NutMutexLock user a s = Some (s', r)"
  obtains "r = Blocked" "mtx s' = mtx s" "mtx_thread (mtx s a) \<noteq> runningThread (kern s)" "mtx_count (mtx s a) \<noteq> 0"
    | "r = Done" "s' = lock_take a s" "mtx_thread (mtx s a) = runningThread (kern s) \<or> mtx_count (mtx s a) = 0"
  using assms by (auto simp: NutMutexLock_def split: if_splits elim: leave_cases)

lemma trylock_cases:
  assumes "NutMutexTrylock user a s = Some (s', rc)"
  obtains "rc = -1" "s' = s" | "rc = 0" "s' = lock_take a s" "mtx_thread (mtx s a) = runningThread (kern s) \<or> mtx_count (mtx s a) = 0"
  using assms
  by (auto simp: NutMutexTrylock_def NutMutexLock_def NutMutexLock_leave_def bind_eq_Some_conv split: if_splits)

lemma mutex_invD:
  assumes "mutex_inv a y"
  shows "held y t = (if t = mtx_thread (mtx (sys y) a) then unat (mtx_count (mtx (sys y) a)) else 0)"
    and "t \<in> inside y \<Longrightarrow> held y t = 0"
  using assms unfolding mutex_inv_def by blast+

lemma inv_take:
  assumes I: "mutex_inv a y" and t: "t = runningThread (kern (sys y))" "held y t < 65535"
    and free: "mtx_thread (mtx (sys y) a) = t \<or> mtx_count (mtx (sys y) a) = 0"
  shows "mutex_inv a (took t Done (y\<lparr>sys := lock_take a (sys y)\<rparr>))"
proof -
  have c: "held y t = unat (mtx_count (mtx (sys y) a))" and o: "u \<noteq> t \<Longrightarrow> held y u = 0" for u
    using mutex_invD(1) [OF I] free by auto
  have "unat (mtx_count (mtx (sys y) a) + 1) = held y t + 1" using c t(2) count_up by simp
  then show ?thesis using o t(1) by (simp add: mutex_inv_def took_def)
qed

lemma inv_block:
  assumes "mutex_inv a y" and "held y t = 0" and "mtx s' = mtx (sys y)"
  shows "mutex_inv a (took t Blocked (y\<lparr>sys := s'\<rparr>))"
  using assms by (auto simp: mutex_inv_def took_def)

lemma inv_unlock:
  assumes I: "mutex_inv a y" and t: "t = runningThread (kern (sys y))" "t \<notin> inside y"
    and u: "NutMutexUnlock user a (sys y) = Some (s', rc)" and f: "rc = 0 \<Longrightarrow> held y t \<noteq> 0"
  shows "mutex_inv a (gave t rc (y\<lparr>sys := s'\<rparr>))"
proof (cases "mtx_thread (mtx (sys y) a) = t")
  case False
  then have "rc = -1" "s' = sys y" using u t(1) by (simp_all add: NutMutexUnlock_def)
  then show ?thesis using I by (simp add: gave_def)
next
  case True
  then have m: "rc = 0" "mtx s' a = (mtx (sys y) a)\<lparr>mtx_count := mtx_count (mtx (sys y) a) - 1\<rparr>"
    using u t(1) by (auto simp: NutMutexUnlock_def upd_mtx_def bind_eq_Some_conv Let_def split: if_splits)
  then have "0 < unat (mtx_count (mtx (sys y) a))" using f I True by (simp add: mutex_inv_def)
  then show ?thesis using I m True t(2) by (auto simp: mutex_inv_def gave_def count_down)
qed

lemma mutex_inv_step:
  assumes "mutex_step user a y y'" and "\<not> faulty y \<longrightarrow> mutex_inv a y"
  shows "\<not> faulty y' \<longrightarrow> mutex_inv a y'"
  using assms
proof (induction rule: mutex_step.induct)
  case (lock t y s' r)
  from lock(3) show ?case
  proof (cases rule: lock_cases)
    case 1
    have "mutex_inv a (took t Blocked (y\<lparr>sys := s'\<rparr>))" if I: "mutex_inv a y"
      using 1 lock(1) mutex_invD(1) [OF I, of t] inv_block [OF I] by simp
    then show ?thesis using 1 lock(4) by (simp add: took_def)
  next
    case 2
    have "mutex_inv a (took t r (y\<lparr>sys := s'\<rparr>))" if "mutex_inv a y" "held y t < 65535"
      using inv_take [OF that(1) lock(1) that(2)] 2 lock(1) by auto
    then show ?thesis using 2(1) lock(4) by (auto simp: took_def)
  qed
next
  case (lock_again t y s' r)
  from lock_again(3) show ?case
  proof (cases rule: leave_cases)
    case 1
    have "mutex_inv a (took t Blocked (y\<lparr>sys := s'\<rparr>))" if I: "mutex_inv a y"
      using 1 mutex_invD(2) [OF I lock_again(2)] inv_block [OF I] by simp
    then show ?thesis using 1 lock_again(4) by (simp add: took_def)
  next
    case 2
    have "mutex_inv a (took t r (y\<lparr>sys := s'\<rparr>))" if I: "mutex_inv a y"
      using inv_take [OF I lock_again(1)] mutex_invD(2) [OF I lock_again(2)] 2 by auto
    then show ?thesis using 2(1) lock_again(4) by (auto simp: took_def)
  qed
next
  case (trylock t y s' rc)
  from trylock(3) show ?case
  proof (cases rule: trylock_cases)
    case 1
    then show ?thesis using trylock(4) by simp
  next
    case 2
    have "mutex_inv a (took t Done (y\<lparr>sys := s'\<rparr>))" if "mutex_inv a y" "held y t < 65535"
      using inv_take [OF that(1) trylock(1) that(2)] 2 trylock(1) by auto
    then show ?thesis using 2(1) trylock(4) by (auto simp: took_def)
  qed
next
  case (unlock t y s' rc)
  have "mutex_inv a (gave t rc (y\<lparr>sys := s'\<rparr>))" if "mutex_inv a y" "rc = 0 \<longrightarrow> held y t \<noteq> 0"
    using inv_unlock [OF that(1) unlock(1,2,3)] that(2) by blast
  then show ?case using unlock(4) by (auto simp: gave_def)
next
  case (other s' y)
  have "mutex_inv a (y\<lparr>sys := s'\<rparr>) = mutex_inv a y" using other(1) by (simp add: mutex_inv_def)
  then show ?case using other(2) by simp
qed

lemma mutex_reach_inv: "mutex_reach user a y \<Longrightarrow> \<not> faulty y \<longrightarrow> mutex_inv a y"
proof (induction rule: mutex_reach.induct)
  case (init s)
  then show ?case by (simp add: mutex_inv_def NutMutexInit_def upd_mtx_def)
next
  case (step y y')
  then show ?case using mutex_inv_step by blast
qed

section \<open>Waking up\<close>

text \<open>Posting an event keeps the invariant of the scheduler, and \<^verbatim>\<open>NutEventPost\<close> then runs the best thread.\<close>

lemma post_async_sched:
  assumes S: "sched_inv user k Q ts hs A xs" and q: "q \<noteq> runQueue" and Qq: "Q q = t # us"
  obtains k' ts' where "NutEventPostAsync q k = Some (k', 1)" "sched_inv user k' (woken k t q Q) ts' hs A xs"
    "runningThread k' = runningThread k"
proof -
  have I: "kinv k Q ts hs A" and own: "own_timers user k (fst ` set ts)" and tl: "tlist k (nutThreadList k) xs"
    using S by (simp_all add: sched_inv_def)
  obtain k' ts' where p: "NutEventPostAsync q k = Some (k', 1)" "kinv k' (woken k t q Q) ts' hs A" "same_others t k' k"
    "td_timer (thr k t) \<noteq> NULL \<Longrightarrow> tn_callback (tmr k' (td_timer (thr k t))) = NoCallback"
    "\<And>x. x \<noteq> td_timer (thr k t) \<or> td_timer (thr k t) = NULL \<Longrightarrow> tn_core (tmr k' x) = tn_core (tmr k x)"
    "fst ` set ts' = fst ` set ts"
    by (rule post_async_wakes [OF I q Qq]) (rule that)
  have nx: "td_next (thr k' x) = td_next (thr k x)" for x
  proof (cases "x = t")
    case True
    have "td_core (thr k' t) = td_core ((thr k t)\<lparr>td_state := td_state (thr k' t), td_timer := td_timer (thr k' t)\<rparr>)"
      using p(3) by (simp add: same_others_def)
    then show ?thesis using td_core_eqD [of "thr k' t" "(thr k t)\<lparr>td_state := td_state (thr k' t), td_timer := td_timer (thr k' t)\<rparr>"] True by simp
  next
    case False
    then show ?thesis using p(3) td_core_eqD [of "thr k' x" "thr k x"] by (simp add: same_others_def)
  qed
  have "tlist k' (nutThreadList k') xs"
    using tl tlist_frame [of k' k, OF nx] p(3) by (simp add: same_others_def)
  moreover have "own_timers user k' (fst ` set ts')" by (rule own_timers_post [OF own p(6,4,5)])
  moreover have "runningThread k' = runningThread k" using p(3) by (simp add: same_others_def)
  ultimately show thesis using that p(1,2) by (simp add: sched_inv_def)
qed

lemma event_post_spec:
  assumes S: "sched_inv user k Q ts hs A xs" and me: "runningThread k \<in> set (Q runQueue)" and q: "q \<noteq> runQueue" and Qq: "Q q = t # us"
  obtains k' Q' ts' hs' where "NutEventPost user q k = Some (k', 1)" "sched_inv user k' Q' ts' hs' A xs" "t \<in> set (Q' runQueue)"
    "set (Q runQueue) \<subseteq> set (Q' runQueue)" "\<exists>us. Q' runQueue = runningThread k' # us"
    "\<And>u. u \<in> set (Q' runQueue) \<Longrightarrow> prio k' (runningThread k') \<le> prio k' u"
proof -
  obtain k1 ts1 where p: "NutEventPostAsync q k = Some (k1, 1)" "sched_inv user k1 (woken k t q Q) ts1 hs A xs"
    "runningThread k1 = runningThread k" by (rule post_async_sched [OF S q Qq])
  have sub: "insert t (set (Q runQueue)) \<subseteq> set (woken k t q Q runQueue)" by (auto simp: woken_def)
  then have me1: "runningThread k1 \<in> set (woken k t q Q runQueue)" using me p(3) by auto
  obtain k' Q' ts' hs' where y: "NutThreadYield user k1 = Some k'" "sched_inv user k' Q' ts' hs' A xs"
    "\<exists>us. Q' runQueue = runningThread k' # us" "\<And>u. u \<in> set (Q' runQueue) \<Longrightarrow> prio k' (runningThread k') \<le> prio k' u"
    "set (woken k t q Q runQueue) \<subseteq> set (Q' runQueue)"
    by (rule yield_spec [OF p(2) me1]) (rule that)
  show thesis
    by (rule that [of k' Q' ts' hs']) (use p(1) y sub in \<open>auto simp: NutEventPost_def\<close>)
qed

section \<open>Properties\<close>


text \<open>The state after the running thread has locked the mutex twice.\<close>

definition demo_sync :: sync where
  "demo_sync = \<lparr>kern = demo_kernel, mtx = (\<lambda>_. \<lparr>mtx_thread = NULL, mtx_count = 0\<rparr>), sem_value = (\<lambda>_. 0)\<rparr>"


text \<open>
  The unlock of a free mutex by the thread that has released it last is not refused, although the caller does
  not hold it: the counter wraps around.
\<close>

lemma unlock_twice_wraps:
  assumes "mtx_thread (mtx s a) = runningThread (kern s)" and "mtx_count (mtx s a) = 0"
  shows "NutMutexUnlock user a s = Some (upd_mtx a (\<lambda>m. m\<lparr>mtx_count := 0xFFFF\<rparr>) s, 0)"
proof -
  have m: "(-1 :: u16) = 0xFFFF" by simp
  show ?thesis using assms by (simp add: NutMutexUnlock_def upd_mtx_def Let_def) (simp only: m)
qed

text \<open>
  Exclusion is lost then: the next lock of this thread counts up to zero, and a second thread gets the mutex at once. Two threads
  hold the mutex, 256 and 512.
\<close>

lemma post_nobody:
  "\<exists>k'. NutEventPost (\<lambda>_ _ _ k. Some k) 1028 demo_kernel = Some (k', 0)"
proof -
  let ?u = "(\<lambda>_ _ _ k. Some k) :: user_callback" and ?k = "set_queue 1028 SIGNALED demo_kernel"
  have q: "demo_queues 1028 = []" "(1028::addr) \<noteq> runQueue" "queue demo_kernel 1028 \<noteq> SIGNALED" by (simp_all add: demo_defs)
  have "NutEventPostAsync 1028 demo_kernel = Some (?k, 0)" by (rule post_async_empty [OF q(1) demo_kernel_queues q(3)])
  moreover have "sched_inv ?u ?k demo_queues [(2048, 5)] [] (cover [(16, 64)]) [768, 512, 256]"
    by (rule sched_frame [OF demo_sched kinv_set_queue [OF demo_kinv q(1,2)]]) simp_all
  then have "\<exists>k'. NutThreadYield ?u ?k = Some k'" by (rule yield_spec) (auto simp: demo_defs)
  ultimately show ?thesis by (auto simp: NutEventPost_def)
qed

lemma unlock_free_breaks:
  "\<exists>y. mutex_reach (\<lambda>_ _ _ k. Some k) 1028 y \<and> held y 256 = 1 \<and> held y 512 = 1"
proof -
  let ?u = "(\<lambda>_ _ _ k. Some k) :: user_callback" and ?a = "1028 :: addr"
  define s where "s n t c = demo_sync\<lparr>kern := demo_kernel\<lparr>runningThread := n\<rparr>, mtx := (mtx demo_sync)(?a := \<lparr>mtx_thread = t, mtx_count = c\<rparr>)\<rparr>"
    for n t c
  define y where "y n t c h1 h2 f = \<lparr>sys = s n t c, held = (\<lambda>_. 0)(256 := h1, 512 := h2), inside = {}, faulty = f\<rparr>"
    for n t c and h1 h2 :: nat and f
  have sk: "runningThread (kern (s n t c)) = n" "mtx (s n t c) ?a = \<lparr>mtx_thread = t, mtx_count = c\<rparr>" for n t c
    by (simp_all add: s_def)
  have ss: "sys (y n t c h1 h2 f) = s n t c" "inside (y n t c h1 h2 f) = {}" for n t c h1 h2 f by (simp_all add: y_def)
  have tk: "lock_take ?a (s n t c) = s n n (c + 1)" for n t c by (simp add: s_def lock_take_def upd_mtx_def)
  have move: "mutex_reach ?u ?a (y n' t c h1 h2 f)"
    if "mutex_reach ?u ?a z" "mtx (sys z) ?a = \<lparr>mtx_thread = t, mtx_count = c\<rparr>" "z\<lparr>sys := s n' t c\<rparr> = y n' t c h1 h2 f" for z n' t c h1 h2 f
    using mutex_reach.step [OF that(1) mutex_step.other [of "s n' t c"]] that(2,3) by (simp add: sk)
  have lock: "mutex_reach ?u ?a (took n Done (y n n (c + 1) h1 h2 f))"
    if "mutex_reach ?u ?a (y n t c h1 h2 f)" "t = n \<or> c = 0" for n t c h1 h2 f
  proof -
    have "NutMutexLock ?u ?a (s n t c) = Some (s n n (c + 1), Done)"
      using that(2) by (auto simp: NutMutexLock_def NutMutexLock_leave_def sk tk)
    from mutex_reach.step [OF that(1) mutex_step.lock [of n, OF _ _ this [folded ss(1) [of n t c h1 h2 f]]]]
    show ?thesis by (simp add: ss sk) (simp add: y_def)
  qed
  have "mutex_reach ?u ?a (y 256 0 0 0 0 False)"
    by (rule move [OF mutex_reach.init [of _ _ demo_sync]]) (auto simp: y_def NutMutexInit_def upd_mtx_def)
  from lock [OF this] have r1: "mutex_reach ?u ?a (y 256 256 1 1 0 False)" by (simp add: took_def y_def fun_upd_twist)
  obtain k' where "NutEventPost ?u ?a demo_kernel = Some (k', 0)" using post_nobody by blast
  moreover have "kern (s 256 256 1) = demo_kernel" "runningThread demo_kernel = 256" by (simp_all add: s_def demo_kernel_def)
  ultimately have "NutMutexUnlock ?u ?a (s 256 256 1) = Some ((s 256 256 0)\<lparr>kern := k'\<rparr>, 0)"
    by (simp add: NutMutexUnlock_def sk Let_def upd_mtx_def) (simp add: s_def)
  from mutex_reach.step [OF r1 mutex_step.unlock [of 256, OF _ _ this [folded ss(1) [of 256 256 1 1 0 False]]]]
  have "mutex_reach ?u ?a (gave 256 0 ((y 256 256 1 1 0 False)\<lparr>sys := (s 256 256 0)\<lparr>kern := k'\<rparr>\<rparr>))" by (simp add: ss sk)
  then have r2: "mutex_reach ?u ?a (y 256 256 0 0 0 False)"
    by (rule move) (auto simp: gave_def y_def sk)
  have "NutMutexUnlock ?u ?a (s 256 256 0) = Some (s 256 256 0xFFFF, 0)"
    using unlock_twice_wraps [of "s 256 256 0" ?a ?u] by (simp add: sk) (simp add: s_def upd_mtx_def)
  from mutex_reach.step [OF r2 mutex_step.unlock [of 256, OF _ _ this [folded ss(1) [of 256 256 0 0 0 False]]]]
  have r2': "mutex_reach ?u ?a (y 256 256 0xFFFF 0 0 True)" by (simp add: ss sk) (simp add: gave_def y_def fun_upd_twist)
  have z: "(0xFFFF + 1 :: u16) = 0" by simp
  from lock [OF r2'] have r3: "mutex_reach ?u ?a (y 256 256 0 1 0 True)" unfolding z by (simp add: took_def y_def fun_upd_twist)
  have "mutex_reach ?u ?a (y 512 256 0 1 0 True)" by (rule move [OF r3]) (simp_all add: ss sk, simp add: y_def)
  from lock [OF this] have "mutex_reach ?u ?a (y 512 512 1 1 1 True)" by (simp add: took_def y_def fun_upd_twist)
  then show ?thesis by (intro exI [of _ "y 512 512 1 1 1 True"]) (simp add: y_def)
qed

text \<open>
  C18: Posting a semaphore on which threads are blocked adds one to its value and makes the first of them
  ready; the call returns, no ready thread is lost and a thread of the highest priority runs.
\<close>

theorem sem_post_wakes:
  assumes "sched_inv user (kern s) Q ts hs A xs" and "runningThread (kern s) \<in> set (Q runQueue)"
    and "a \<noteq> runQueue" and "Q a = t # us" and "sint (sem_value s a) < 0"
  shows "\<exists>s' Q' ts' hs'. NutSemPost user a s = Some s' \<and> sint (sem_value s' a) = sint (sem_value s a) + 1
    \<and> sched_inv user (kern s') Q' ts' hs' A xs \<and> t \<in> set (Q' runQueue) \<and> set (Q runQueue) \<subseteq> set (Q' runQueue)
    \<and> (\<exists>us. Q' runQueue = runningThread (kern s') # us)
    \<and> (\<forall>u \<in> set (Q' runQueue). prio (kern s') (runningThread (kern s')) \<le> prio (kern s') u)"
proof -
  have v: "sint (sem_value s a + 1) = sint (sem_value s a) + 1"
    using assms(5) sint_ge [of "sem_value s a"] by (simp add: sint_word_ariths signed_take_bit_int_eq_self)
  obtain k' Q' ts' hs' where p: "NutEventPost user a (kern s) = Some (k', 1)" "sched_inv user k' Q' ts' hs' A xs" "t \<in> set (Q' runQueue)"
    "set (Q runQueue) \<subseteq> set (Q' runQueue)" "\<exists>us. Q' runQueue = runningThread k' # us"
    "\<And>u. u \<in> set (Q' runQueue) \<Longrightarrow> prio k' (runningThread k') \<le> prio k' u"
    by (rule event_post_spec [OF assms(1-4)]) (rule that)
  show ?thesis
    using p v assms(5) by (intro exI [of _ "s\<lparr>kern := k', sem_value := (sem_value s)(a := sem_value s a + 1)\<rparr>"])
      (auto simp: NutSemPost_def Let_def)
qed

theorem sem_post_wakes_witness:
  "\<exists>s' Q'. NutSemPost (\<lambda>_ _ _ k. Some k) 1024 (demo_sync\<lparr>sem_value := \<lambda>_. -1\<rparr>) = Some s' \<and> sint (sem_value s' 1024) = 0
    \<and> (768::addr) \<in> set (Q' runQueue) \<and> (\<exists>us. Q' runQueue = runningThread (kern s') # us)"
proof -
  let ?s = "demo_sync\<lparr>sem_value := \<lambda>_. -1\<rparr>"
  have h: "sched_inv (\<lambda>_ _ _ k. Some k) (kern ?s) demo_queues [(2048, 5)] [] (cover [(16, 64)]) [768, 512, 256]"
    using demo_sched by (simp add: demo_sync_def)
  have g: "runningThread (kern ?s) \<in> set (demo_queues runQueue)" "(1024::addr) \<noteq> runQueue" "demo_queues 1024 = 768 # []"
    "sint (sem_value ?s 1024) < 0" by (simp_all add: demo_sync_def demo_defs)
  show ?thesis using sem_post_wakes [OF h g] by (auto simp: demo_sync_def)
qed

text \<open>Unlocking a mutex for which threads are blocked makes the first of them ready in the same way.\<close>

lemma mutex_unlock_wakes:
  assumes "sched_inv user (kern s) Q ts hs A xs" and "runningThread (kern s) \<in> set (Q runQueue)"
    and "a \<noteq> runQueue" and "Q a = t # us" and "mtx_thread (mtx s a) = runningThread (kern s)" and "mtx_count (mtx s a) = 1"
  shows "\<exists>s' Q' ts' hs'. NutMutexUnlock user a s = Some (s', 0) \<and> mtx_count (mtx s' a) = 0
    \<and> sched_inv user (kern s') Q' ts' hs' A xs \<and> t \<in> set (Q' runQueue)"
proof -
  let ?s = "upd_mtx a (\<lambda>m. m\<lparr>mtx_count := mtx_count m - 1\<rparr>) s"
  obtain k' Q' ts' hs' where p: "NutEventPost user a (kern s) = Some (k', 1)" "sched_inv user k' Q' ts' hs' A xs" "t \<in> set (Q' runQueue)"
    by (rule event_post_spec [OF assms(1-4)]) (rule that)
  then show ?thesis
    using assms(5,6) by (intro exI [of _ "?s\<lparr>kern := k'\<rparr>"]) (auto simp: NutMutexUnlock_def upd_mtx_def Let_def)
qed

end
