(* ===== verification/Nut_Msg_Ring.thy ===== *)
theory Nut_Msg_Ring
  imports Nut_Kernel_Props
begin

text \<open>
  The operations on message queues that switch threads or take a message out (\<^verbatim>\<open>os/msg.c\<close>), and the proof that the ring of a
  queue is a bounded first-in first-out queue. \<^verbatim>\<open>NutMsgQGetMessage\<close> is split where its caller may be suspended.
\<close>

unbundle bit_operations_syntax

section \<open>Operations\<close>

definition NutMsgQSend :: "user_callback \<Rightarrow> addr \<Rightarrow> u8 \<Rightarrow> int \<Rightarrow> addr \<Rightarrow> kernel \<Rightarrow> (kernel \<times> int) option" where
  "NutMsgQSend user que i param data k =
     do { r \<leftarrow> NutMsgQPost que i param data k;
          (if snd r = 0 then do { k1 \<leftarrow> NutThreadYield user (fst r); Some (k1, 0) } else Some (fst r, -1)) }"

text \<open>The wait for a message; the caller goes on with \<open>NutMsgQGetMessage_leave\<close> when it runs again.\<close>

definition NutMsgQGetMessage :: "user_callback \<Rightarrow> addr \<Rightarrow> u32 \<Rightarrow> kernel \<Rightarrow> (kernel \<times> int option) option" where
  "NutMsgQGetMessage user que timeout k = NutEventWait user (mq_wait que) timeout k"

text \<open>A message of a timer is replaced by the data of the timer, which is released if it does not repeat.\<close>

definition timer_message :: "addr \<Rightarrow> NUTMSG \<Rightarrow> kernel \<Rightarrow> (kernel \<times> NUTMSG) option" where
  "timer_message que msg k =
     (if msg_id msg = MSG_TIMER then
        do { let timer = msg_data msg; let t = msgtmr k timer;
             k1 \<leftarrow> (if mt_flags t AND TM_ONESHOT \<noteq> 0 then NutMsgQFreeTimer que timer k else Some k);
             Some (k1, msg\<lparr>msg_data := mt_data t, msg_param := mt_param t\<rparr>) }
      else Some (k, msg))"

definition take_message :: "addr \<Rightarrow> kernel \<Rightarrow> (kernel \<times> NUTMSG) option" where
  "take_message que k =
     do { let m = msgq k que;
          let k1 = upd_msgq que (\<lambda>m. m\<lparr>mq_read := (mq_read m + 1) AND mq_mask m\<rparr>) k;
          k2 \<leftarrow> (if mq_read (msgq k1 que) \<noteq> mq_write (msgq k1 que)
                 then map_option fst (NutEventPostAsync (mq_wait que) k1) else Some k1);
          (if unat (mq_read m) < length (mq_que m) then timer_message que (mq_que m ! unat (mq_read m)) k2 else None) }"

text \<open>\<open>rc\<close> is what \<^verbatim>\<open>NutEventWait\<close> has returned.\<close>

definition NutMsgQGetMessage_leave :: "addr \<Rightarrow> int \<Rightarrow> kernel \<Rightarrow> (kernel \<times> int \<times> NUTMSG option) option" where
  "NutMsgQGetMessage_leave que rc k =
     (if rc \<noteq> 0 then Some (k, -1, None) else map_option (\<lambda>(k1, msg). (k1, 0, Some msg)) (take_message que k))"

section \<open>The contract of a bounded queue\<close>

datatype 'm qop = Post 'm | Take

datatype 'm qres = Posted int | Taken 'm

text \<open>The abstract queue of at most \<open>cap\<close> messages; taking from an empty one is not defined.\<close>

fun fifo_run :: "nat \<Rightarrow> 'm qop list \<Rightarrow> 'm list \<Rightarrow> ('m qres list \<times> 'm list) option" where
  "fifo_run cap [] q = Some ([], q)"
| "fifo_run cap (Post m # ops) q =
     (if length q < cap then map_option (\<lambda>(rs, q'). (Posted 0 # rs, q')) (fifo_run cap ops (q @ [m]))
      else map_option (\<lambda>(rs, q'). (Posted (-1) # rs, q')) (fifo_run cap ops q))"
| "fifo_run cap (Take # ops) [] = None"
| "fifo_run cap (Take # ops) (m # q) = map_option (\<lambda>(rs, q'). (Taken m # rs, q')) (fifo_run cap ops q)"

fun queue_run :: "('m \<Rightarrow> 's \<Rightarrow> ('s \<times> int) option) \<Rightarrow> ('s \<Rightarrow> ('s \<times> 'm) option) \<Rightarrow> 'm qop list \<Rightarrow> 's \<Rightarrow> ('m qres list \<times> 's) option" where
  "queue_run post tk [] s = Some ([], s)"
| "queue_run post tk (Post m # ops) s =
     (case post m s of None \<Rightarrow> None | Some (s1, rc) \<Rightarrow> map_option (\<lambda>(rs, s'). (Posted rc # rs, s')) (queue_run post tk ops s1))"
| "queue_run post tk (Take # ops) s =
     (case tk s of None \<Rightarrow> None | Some (s1, m) \<Rightarrow> map_option (\<lambda>(rs, s'). (Taken m # rs, s')) (queue_run post tk ops s1))"

fun op_ok :: "('m \<Rightarrow> bool) \<Rightarrow> 'm qop \<Rightarrow> bool" where
  "op_ok ok (Post m) = ok m"
| "op_ok ok Take = True"

locale bounded_fifo =
  fixes inv :: "'s \<Rightarrow> bool" and contents :: "'s \<Rightarrow> 'm list" and cap :: nat and ok :: "'m \<Rightarrow> bool"
    and post :: "'m \<Rightarrow> 's \<Rightarrow> ('s \<times> int) option" and tk :: "'s \<Rightarrow> ('s \<times> 'm) option"
  assumes post_full: "inv s \<Longrightarrow> cap \<le> length (contents s) \<Longrightarrow> post m s = Some (s, -1)"
    and post_room: "inv s \<Longrightarrow> length (contents s) < cap \<Longrightarrow> ok m \<Longrightarrow>
      \<exists>s'. post m s = Some (s', 0) \<and> inv s' \<and> contents s' = contents s @ [m]"
    and take_head: "inv s \<Longrightarrow> contents s = m # ms \<Longrightarrow> \<exists>s'. tk s = Some (s', m) \<and> inv s' \<and> contents s' = ms"
begin

lemma run_refines:
  assumes "inv s" "\<forall>x \<in> set ops. op_ok ok x" "fifo_run cap ops (contents s) = Some (rs, q)"
  shows "\<exists>s'. queue_run post tk ops s = Some (rs, s') \<and> inv s' \<and> contents s' = q"
  using assms
proof (induction ops arbitrary: s rs)
  case (Cons x ops)
  show ?case
  proof (cases x)
    case (Post m)
    show ?thesis
    proof (cases "length (contents s) < cap")
      case True
      from post_room [OF Cons.prems(1) True, of m] Cons.prems(2) Post obtain s1 where
        s: "post m s = Some (s1, 0)" "inv s1" "contents s1 = contents s @ [m]" by auto
      with Cons.IH [OF s(2)] Cons.prems Post True show ?thesis by auto
    next
      case False
      with post_full [OF Cons.prems(1), of m] Cons.IH [OF Cons.prems(1)] Cons.prems Post show ?thesis by auto
    qed
  next
    case Take
    with Cons.prems(3) obtain m ms where c: "contents s = m # ms" by (cases "contents s") auto
    from take_head [OF Cons.prems(1) c] obtain s1 where s: "tk s = Some (s1, m)" "inv s1" "contents s1 = ms" by blast
    with Cons.IH [OF s(2)] Cons.prems Take c show ?thesis by auto
  qed
qed auto

end

section \<open>The ring\<close>

definition ring_count :: "NUTMSGQ \<Rightarrow> nat" where
  "ring_count m = (unat (mq_write m) + Suc (unat (mq_mask m)) - unat (mq_read m)) mod Suc (unat (mq_mask m))"

definition ring :: "NUTMSGQ \<Rightarrow> NUTMSG list" where
  "ring m = map (\<lambda>i. mq_que m ! ((unat (mq_read m) + i) mod Suc (unat (mq_mask m)))) [0..<ring_count m]"

text \<open>The mask has between one and seven bits, as \<^verbatim>\<open>NutMsgQCreate\<close> sets it.\<close>

definition ring_ok :: "nat \<Rightarrow> NUTMSGQ \<Rightarrow> bool" where
  "ring_ok b m \<longleftrightarrow> 0 < b \<and> b < 8 \<and> mq_mask m = mask b \<and> mq_read m \<le> mq_mask m \<and> mq_write m \<le> mq_mask m
     \<and> unat (mq_mask m) < length (mq_que m)"

lemma unat_mask8: "b < 8 \<Longrightarrow> unat (mask b :: u8) = 2 ^ b - 1"
proof -
  assume "b < 8"
  then have "b \<in> {0, 1, 2, 3, 4, 5, 6, 7}" by auto
  then show ?thesis by (auto simp: mask_eq_exp_minus_1)
qed

lemma suc_mask8: "b < 8 \<Longrightarrow> Suc (unat (mask b :: u8)) = 2 ^ b"
  by (simp add: unat_mask8)

lemma pow8: "b < 8 \<Longrightarrow> (2::nat) ^ b \<le> 128"
  using power_increasing [of b 7 "2::nat"] by simp

lemma unat_step:
  assumes "b < 8" "unat (w :: u8) < 2 ^ b"
  shows "unat ((w + 1) AND mask b) = (unat w + 1) mod 2 ^ b"
proof -
  have "unat w + 1 < 256" using assms pow8 [of b] by simp
  then have "unat (w + 1) = unat w + 1" by (simp add: unat_word_ariths)
  then have "take_bit b (unat (w + 1)) = (unat w + 1) mod 2 ^ b" by (simp add: take_bit_eq_mod)
  then show ?thesis unfolding take_bit_eq_mask [symmetric] unsigned_take_bit_eq .
qed

lemma ring_okD:
  assumes "ring_ok b m"
  shows "b < 8" "Suc (unat (mq_mask m)) = 2 ^ b" "unat (mq_read m) < 2 ^ b" "unat (mq_write m) < 2 ^ b" "2 ^ b \<le> length (mq_que m)"
    "mq_mask m = mask b" "1 < (2::nat) ^ b"
proof -
  show "1 < (2::nat) ^ b" using assms one_less_power [of "2::nat" b] by (simp add: ring_ok_def)
  show b: "b < 8" and m: "mq_mask m = mask b" using assms by (simp_all add: ring_ok_def)
  show s: "Suc (unat (mq_mask m)) = 2 ^ b" using b m suc_mask8 by simp
  show "unat (mq_read m) < 2 ^ b" "unat (mq_write m) < 2 ^ b" "2 ^ b \<le> length (mq_que m)"
    using assms s by (auto simp: ring_ok_def word_le_nat_alt)
qed

lemma ring_length: "ring_ok b m \<Longrightarrow> length (ring m) < 2 ^ b"
  by (simp add: ring_def ring_count_def ring_okD(2))

text \<open>A position behind the last message, in the ring: the next one, and where the ring is full.\<close>

lemma count_mod: "(r :: nat) < n \<Longrightarrow> w < n \<Longrightarrow> (r + (w + n - r) mod n) mod n = w"
  by (simp add: mod_add_right_eq)

lemma ring_write: "ring_ok b m \<Longrightarrow> (unat (mq_read m) + ring_count m) mod 2 ^ b = unat (mq_write m)"
  unfolding ring_count_def ring_okD(2) by (rule count_mod) (auto dest: ring_okD)

lemma wrap_mod: "(x :: nat) < 2 * n \<Longrightarrow> x mod n = (if x < n then x else x - n)"
  by (simp add: le_mod_geq)

lemma mod_inj: "(r :: nat) < n \<Longrightarrow> i < n \<Longrightarrow> j < n \<Longrightarrow> (r + i) mod n = (r + j) mod n \<longleftrightarrow> i = j"
  by (auto simp: wrap_mod split: if_splits)

lemma count_next:
  assumes "(r :: nat) < n" "w < n" "1 < n"
  shows "(w + 1) mod n = r \<longleftrightarrow> (w + n - r) mod n = n - 1"
    and "(w + 1) mod n \<noteq> r \<Longrightarrow> ((w + 1) mod n + n - r) mod n = Suc ((w + n - r) mod n)"
    and "r \<noteq> w \<Longrightarrow> (w + n - r) mod n = Suc ((w + n - (r + 1) mod n) mod n)"
    and "(w + n - r) mod n = 0 \<longleftrightarrow> r = w"
proof -
  have e: "(w + n - r) mod n = (if r \<le> w then w - r else w + n - r)" if "r < n" "w < n" for w r
    using that by (auto simp: wrap_mod)
  show "(w + n - r) mod n = 0 \<longleftrightarrow> r = w" using assms by (auto simp: e)
  show "(w + 1) mod n = r \<longleftrightarrow> (w + n - r) mod n = n - 1" using assms by (cases "w + 1 = n") (auto simp: e)
  show "((w + 1) mod n + n - r) mod n = Suc ((w + n - r) mod n)" if "(w + 1) mod n \<noteq> r"
    using assms that e [of r "(w + 1) mod n"] by (cases "w + 1 = n") (auto simp: e)
  show "(w + n - r) mod n = Suc ((w + n - (r + 1) mod n) mod n)" if "r \<noteq> w"
    using assms that by (cases "r + 1 = n") (auto simp: e)
qed

definition ring_put :: "NUTMSG \<Rightarrow> NUTMSGQ \<Rightarrow> NUTMSGQ" where
  "ring_put x m = m\<lparr>mq_que := (mq_que m)[unat (mq_write m) := x], mq_write := (mq_write m + 1) AND mq_mask m\<rparr>"

definition ring_pop :: "NUTMSGQ \<Rightarrow> NUTMSGQ" where
  "ring_pop m = m\<lparr>mq_read := (mq_read m + 1) AND mq_mask m\<rparr>"

lemma ring_full:
  assumes "ring_ok b m"
  shows "(unat (mq_write m) + 1) mod 2 ^ b = unat (mq_read m) \<longleftrightarrow> length (ring m) = 2 ^ b - 1"
  using count_next(1) [OF ring_okD(3,4,7) [OF assms]] by (simp add: ring_def ring_count_def ring_okD(2) [OF assms])

lemma ring_step_ok:
  assumes "ring_ok b m" "unat (w :: u8) < 2 ^ b"
  shows "(w + 1) AND mq_mask m \<le> mq_mask m" "unat ((w + 1) AND mq_mask m) = (unat w + 1) mod 2 ^ b"
proof -
  note o = ring_okD [OF assms(1)]
  show e: "unat ((w + 1) AND mq_mask m) = (unat w + 1) mod 2 ^ b" unfolding o(6) by (rule unat_step [OF o(1) assms(2)])
  have "(unat w + 1) mod 2 ^ b < Suc (unat (mq_mask m))" unfolding o(2) by simp
  with e show "(w + 1) AND mq_mask m \<le> mq_mask m" by (simp add: word_le_nat_alt)
qed

lemma ring_put:
  assumes ok: "ring_ok b m" and "length (ring m) < 2 ^ b - 1"
  shows "ring_ok b (ring_put x m)" "ring (ring_put x m) = ring m @ [x]"
proof -
  note o = ring_okD [OF ok] and st = ring_step_ok [OF ok ring_okD(4) [OF ok]]
  show "ring_ok b (ring_put x m)" using ok st(1) unfolding ring_ok_def ring_put_def by auto
  let ?r = "unat (mq_read m)" and ?w = "unat (mq_write m)" and ?c = "ring_count m"
  have c: "ring_count (ring_put x m) = Suc ?c"
    using count_next(2) [OF o(3,4,7)] ring_full [OF ok] assms(2) by (simp add: ring_count_def ring_put_def o(2) st(2))
  have cl: "Suc ?c < 2 ^ b" using assms(2) by (simp add: ring_def)
  have "?w \<noteq> (?r + i) mod 2 ^ b" if "i < ?c" for i
    using mod_inj [OF o(3), of i ?c] ring_write [OF ok] that cl by auto
  then have "map (\<lambda>i. (mq_que m)[?w := x] ! ((?r + i) mod 2 ^ b)) [0..<?c] = ring m" by (auto simp: ring_def o(2))
  moreover have "(mq_que m)[?w := x] ! ((?r + ?c) mod 2 ^ b) = x" using ring_write [OF ok] o(4,5) by simp
  ultimately show "ring (ring_put x m) = ring m @ [x]"
    unfolding ring_def [of "ring_put x m"] c by (simp add: ring_put_def o(2))
qed

lemma ring_pop:
  assumes ok: "ring_ok b m" and ne: "ring m = x # xs"
  shows "ring_ok b (ring_pop m)" "ring (ring_pop m) = xs" "mq_que m ! unat (mq_read m) = x"
proof -
  note o = ring_okD [OF ok] and st = ring_step_ok [OF ok ring_okD(3) [OF ok]]
  show "ring_ok b (ring_pop m)" using ok st(1) unfolding ring_ok_def ring_pop_def by auto
  let ?r = "unat (mq_read m)" and ?w = "unat (mq_write m)"
  have "ring_count m \<noteq> 0" using ne by (metis length_0_conv length_map length_upt diff_zero list.discI ring_def)
  then have c: "ring_count m = Suc (ring_count (ring_pop m))"
    using count_next(3,4) [OF o(3,4,7)] by (simp add: ring_count_def ring_pop_def o(2) st(2))
  have "ring m = mq_que m ! ?r # map (\<lambda>i. mq_que m ! ((?r + Suc i) mod 2 ^ b)) [0..<ring_count (ring_pop m)]"
    using o(3) unfolding ring_def c o(2) by (simp add: upt_conv_Cons map_Suc_upt [symmetric] comp_def del: upt_Suc)
  moreover have "(?r + Suc i) mod 2 ^ b = ((?r + 1) mod 2 ^ b + i) mod 2 ^ b" for i by (simp add: mod_add_left_eq)
  moreover have "ring (ring_pop m) = map (\<lambda>i. mq_que m ! (((?r + 1) mod 2 ^ b + i) mod 2 ^ b)) [0..<ring_count (ring_pop m)]"
    unfolding ring_def [of "ring_pop m"] by (simp add: ring_pop_def o(2) st(2))
  ultimately show "ring (ring_pop m) = xs" "mq_que m ! unat (mq_read m) = x" using ne by simp_all
qed

lemma ring_empty:
  assumes "ring_ok b m"
  shows "ring m = [] \<longleftrightarrow> mq_read m = mq_write m"
  using count_next(4) [OF ring_okD(3,4,7) [OF assms]] by (simp add: ring_def ring_count_def ring_okD(2) [OF assms] word_unat_eq_iff)

section \<open>Posting and taking\<close>

text \<open>Posting an event keeps the invariant of the kernel and the message queues, whether a thread waits or not.\<close>

lemma post_keeps:
  assumes I: "kinv k Q ts hs A" and q: "q \<noteq> runQueue"
  shows "\<exists>k' rc Q' ts'. NutEventPostAsync q k = Some (k', rc) \<and> kinv k' Q' ts' hs A \<and> msgq k' = msgq k"
proof (cases "queue k q = SIGNALED")
  case True
  then show ?thesis using I by (auto simp: NutEventPostAsync_def)
next
  case sig: False
  show ?thesis
  proof (cases "Q q")
    case Nil
    then show ?thesis using post_async_empty [OF Nil kinvD(1) [OF I] sig] kinv_set_queue [OF I Nil q] by auto
  next
    case (Cons t us)
    show ?thesis by (rule post_async_wakes [OF I q Cons]) (auto simp: same_others_def)
  qed
qed

lemma kinv_msgq: "kinv k Q ts hs A \<Longrightarrow> kinv (upd_msgq que f k) Q ts hs A"
  by (rule kinv_cong) auto

definition msgq_inv :: "addr \<Rightarrow> nat \<Rightarrow> addr set \<Rightarrow> kernel \<Rightarrow> bool" where
  "msgq_inv que b A k \<longleftrightarrow> que \<noteq> runQueue \<and> ring_ok b (msgq k que) \<and> (\<forall>m \<in> set (ring (msgq k que)). msg_id m \<noteq> MSG_TIMER)
     \<and> (\<exists>Q ts hs. kinv k Q ts hs A)"

lemma full_ring:
  assumes "ring_ok b (msgq k que)"
  shows "NutMsgQFull que k \<noteq> 0 \<longleftrightarrow> length (ring (msgq k que)) = 2 ^ b - 1"
proof -
  note o = ring_okD [OF assms]
  let ?m = "msgq k que"
  have "int (unat (mq_mask ?m)) = int (2 ^ b - 1)" using o(2) by (metis diff_Suc_1)
  then have "uint (mq_mask ?m) = mask b" by (simp add: mask_eq_exp_minus_1 of_nat_diff)
  then have "(uint (mq_write ?m) + 1) AND uint (mq_mask ?m) = (uint (mq_write ?m) + 1) mod 2 ^ b" by (simp add: take_bit_eq_mask [symmetric] take_bit_eq_mod)
  also have "\<dots> = int ((unat (mq_write ?m) + 1) mod 2 ^ b)" by (simp add: zmod_int add.commute)
  finally have "NutMsgQFull que k \<noteq> 0 \<longleftrightarrow> int ((unat (mq_write ?m) + 1) mod 2 ^ b) = int (unat (mq_read ?m))" by (simp add: NutMsgQFull_def)
  then show ?thesis using ring_full [OF assms] by (simp only: of_nat_eq_iff)
qed

lemma post_ring:
  assumes "msgq_inv que b A k" "length (ring (msgq k que)) < 2 ^ b - 1" "msg_id m \<noteq> MSG_TIMER"
  shows "\<exists>k'. NutMsgQPost que (msg_id m) (msg_param m) (msg_data m) k = Some (k', 0) \<and> msgq_inv que b A k'
    \<and> ring (msgq k' que) = ring (msgq k que) @ [m]"
proof -
  from assms(1) obtain Q ts hs where I: "que \<noteq> runQueue" "ring_ok b (msgq k que)" "kinv k Q ts hs A"
    and nt: "\<forall>m \<in> set (ring (msgq k que)). msg_id m \<noteq> MSG_TIMER" by (auto simp: msgq_inv_def)
  let ?k = "upd_msgq que (ring_put m) k"
  from post_keeps [OF kinv_msgq [OF I(3), of que "ring_put m"] I(1)] obtain k' rc Q' ts' where
    p: "NutEventPostAsync que ?k = Some (k', rc)" "kinv k' Q' ts' hs A" "msgq k' = msgq ?k" by blast
  have "NutMsgQFull que k = 0" using full_ring [OF I(2)] assms(2) by auto
  moreover have e: "\<lparr>msg_id = msg_id m, msg_param = msg_param m, msg_data = msg_data m\<rparr> = m" by simp
  ultimately have "NutMsgQPost que (msg_id m) (msg_param m) (msg_data m) k = Some (k', 0)"
    using p(1) unfolding NutMsgQPost_def e Let_def by (simp add: mq_wait_def ring_put_def upd_msgq_def)
  moreover have "ring (msgq k' que) = ring (msgq k que) @ [m]" "ring_ok b (msgq k' que)"
    using ring_put [OF I(2) assms(2), of m] p(3) by simp_all
  ultimately show ?thesis using I(1) p(2) nt assms(3) by (auto simp: msgq_inv_def)
qed

lemma take_ring:
  assumes "msgq_inv que b A k" "ring (msgq k que) = m # ms"
  shows "\<exists>k'. take_message que k = Some (k', m) \<and> msgq_inv que b A k' \<and> ring (msgq k' que) = ms"
proof -
  from assms(1) obtain Q ts hs where I: "que \<noteq> runQueue" "ring_ok b (msgq k que)" "kinv k Q ts hs A"
    and nt: "\<forall>m \<in> set (ring (msgq k que)). msg_id m \<noteq> MSG_TIMER" by (auto simp: msgq_inv_def)
  let ?k = "upd_msgq que ring_pop k"
  note r = ring_pop [OF I(2) assms(2)]
  have k: "kinv ?k Q ts hs A" by (rule kinv_msgq [OF I(3)])
  obtain k' Q' ts' where p: "(if mq_read (msgq ?k que) \<noteq> mq_write (msgq ?k que) then map_option fst (NutEventPostAsync (mq_wait que) ?k) else Some ?k) = Some k'"
    "kinv k' Q' ts' hs A" "msgq k' = msgq ?k"
    using post_keeps [OF k I(1)] k unfolding mq_wait_def by (cases "mq_read (msgq ?k que) = mq_write (msgq ?k que)") auto
  have "unat (mq_read (msgq k que)) < length (mq_que (msgq k que))" using ring_okD(3,5) [OF I(2)] by simp
  then have "take_message que k = timer_message que m k'"
    using p(1) r(3) unfolding take_message_def ring_pop_def by (simp add: Let_def)
  then have "take_message que k = Some (k', m)" using nt assms(2) by (simp add: timer_message_def)
  moreover have "ring (msgq k' que) = ms" "ring_ok b (msgq k' que)" using r p(3) by simp_all
  ultimately show ?thesis using I(1) p(2) nt assms(2) by (auto simp: msgq_inv_def)
qed

lemma post_full_ring:
  assumes "msgq_inv que b A k" "2 ^ b - 1 \<le> length (ring (msgq k que))"
  shows "NutMsgQPost que i p d k = Some (k, -1)"
proof -
  have ok: "ring_ok b (msgq k que)" using assms(1) by (simp add: msgq_inv_def)
  then have "NutMsgQFull que k \<noteq> 0" using full_ring [OF ok] ring_length [OF ok] assms(2) by simp
  then show ?thesis by (simp add: NutMsgQPost_def)
qed

interpretation msgq_fifo: bounded_fifo "msgq_inv que b A" "\<lambda>k. ring (msgq k que)" "2 ^ b - 1" "\<lambda>m. msg_id m \<noteq> MSG_TIMER"
  "\<lambda>m. NutMsgQPost que (msg_id m) (msg_param m) (msg_data m)" "take_message que" for que b A
  by unfold_locales (auto intro: post_full_ring post_ring take_ring)

text \<open>
  C16: The ring of a message queue with a mask of \<open>b\<close> bits is a queue of \<open>2 ^ b - 1\<close> messages. In every sequence of posting and taking messages that
  takes none from an empty queue, every operation returns, posting fails exactly when the queue is full and changes nothing
  then, messages are taken in the order in which they were posted, each once, and the kernel's invariant and the ring are kept, whether threads wait
  for messages or not. Messages of timers are not posted this way.
\<close>

theorem msgq_first_in_first_out:
  assumes "msgq_inv que b A k" "\<forall>x \<in> set ops. op_ok (\<lambda>m. msg_id m \<noteq> MSG_TIMER) x"
    "fifo_run (2 ^ b - 1) ops (ring (msgq k que)) = Some (rs, q)"
  shows "\<exists>k'. queue_run (\<lambda>m. NutMsgQPost que (msg_id m) (msg_param m) (msg_data m)) (take_message que) ops k = Some (rs, k')
    \<and> msgq_inv que b A k' \<and> ring (msgq k' que) = q"
  by (rule msgq_fifo.run_refines [OF assms])

text \<open>A queue of three messages, for which a thread waits.\<close>

definition demo_msgq :: kernel where
  "demo_msgq = upd_msgq 1024 (\<lambda>_. (cleared_msgq 4)\<lparr>mq_mask := 3\<rparr>) demo_kernel"

definition demo_msg :: "u8 \<Rightarrow> NUTMSG" where
  "demo_msg i = \<lparr>msg_id = i, msg_param = 0, msg_data = 0\<rparr>"

lemma demo_msgq_inv: "msgq_inv 1024 2 (cover [(16, 64)]) demo_msgq"
proof -
  have "kinv demo_msgq demo_queues [(2048, 5)] [] (cover [(16, 64)])"
    unfolding demo_msgq_def by (rule kinv_msgq [OF demo_kinv])
  moreover have "ring_ok 2 (msgq demo_msgq 1024)"
    by (simp add: ring_ok_def demo_msgq_def cleared_msgq_def mask_eq_exp_minus_1)
  moreover have "ring (msgq demo_msgq 1024) = []" by (simp add: ring_def ring_count_def demo_msgq_def cleared_msgq_def)
  ultimately show ?thesis by (auto simp: msgq_inv_def runQueue_def)
qed

theorem msgq_first_in_first_out_witness:
  "\<exists>k'. queue_run (\<lambda>m. NutMsgQPost 1024 (msg_id m) (msg_param m) (msg_data m)) (take_message 1024)
      [Post (demo_msg 1), Post (demo_msg 2), Take, Post (demo_msg 3), Post (demo_msg 4), Post (demo_msg 5), Take] demo_msgq
    = Some ([Posted 0, Posted 0, Taken (demo_msg 1), Posted 0, Posted 0, Posted (-1), Taken (demo_msg 2)], k')
    \<and> ring (msgq k' 1024) = [demo_msg 3, demo_msg 4]"
proof -
  let ?ops = "[Post (demo_msg 1), Post (demo_msg 2), Take, Post (demo_msg 3), Post (demo_msg 4), Post (demo_msg 5), Take]"
  have e: "ring (msgq demo_msgq 1024) = []" by (simp add: ring_def ring_count_def demo_msgq_def cleared_msgq_def)
  have o: "\<forall>x \<in> set ?ops. op_ok (\<lambda>m. msg_id m \<noteq> MSG_TIMER) x" by (simp add: demo_msg_def MSG_TIMER_def)
  have "fifo_run (2 ^ 2 - 1) ?ops (ring (msgq demo_msgq 1024))
    = Some ([Posted 0, Posted 0, Taken (demo_msg 1), Posted 0, Posted 0, Posted (-1), Taken (demo_msg 2)], [demo_msg 3, demo_msg 4])"
    unfolding e by simp
  from msgq_first_in_first_out [OF demo_msgq_inv o this] show ?thesis by blast
qed

text \<open>
  A thread that has been woken up for a message takes one even if the queue has been flushed in between: the position to read from passes the one
  to write to, and the ring seems to be full of old messages.
\<close>

theorem flushed_ring_fills:
  assumes "ring_ok b m" "ring m = []"
  shows "length (ring (ring_pop m)) = 2 ^ b - 1"
proof -
  note o = ring_okD [OF assms(1)]
  have w: "mq_write m = mq_read m" using ring_empty [OF assms(1)] assms(2) by simp
  have "length (ring (ring_pop m)) = (unat (mq_read m) + 2 ^ b - (unat (mq_read m) + 1) mod 2 ^ b) mod 2 ^ b"
    by (simp add: ring_def ring_count_def ring_pop_def o(2) w ring_step_ok(2) [OF assms(1) o(3)])
  also have "\<dots> = 2 ^ b - 1"
    using o(3,7) by (cases "unat (mq_read m) + 1 = 2 ^ b") (auto simp: wrap_mod)
  finally show ?thesis .
qed

end
