(* ===== verification/Nut_Bytes.thy ===== *)
theory Nut_Bytes
  imports Nut_Prelude
begin

text \<open>
  Bytes and the machine words put together from them, as the network and file system code does
  with shifts and masks: the values of casts, shifts and disjunctions as natural numbers.
\<close>

unbundle bit_operations_syntax

named_theorems byte_simps \<open>machine words as natural numbers\<close>

lemma unat_bound:
  "unat (a::u8) < 256" "unat (b::u16) < 65536" "unat (c::u32) < 4294967296"
  using unsigned_less [of a, where ?'a = nat] unsigned_less [of b, where ?'a = nat] unsigned_less [of c, where ?'a = nat] by simp_all

lemma unat_ucast_mod: "unat (ucast (w :: 'a::len word) :: 'b::len word) = unat w mod 2 ^ LENGTH('b)"
  by (simp only: unsigned_ucast_eq take_bit_eq_mod)

lemma unat_ucast_up [byte_simps]:
  "unat (ucast (a::u8) :: u16) = unat a" "unat (ucast (a::u8) :: u32) = unat a" "unat (ucast (b::u16) :: u32) = unat b"
  by (simp_all only: unat_ucast_mod) (simp_all add: less_trans [OF unat_bound(1)] less_trans [OF unat_bound(2)])

lemma unat_ucast_down [byte_simps]:
  "unat (ucast (b::u16) :: u8) = unat b mod 256" "unat (ucast (c::u32) :: u8) = unat c mod 256"
  "unat (ucast (c::u32) :: u16) = unat c mod 65536"
  by (simp_all only: unat_ucast_mod) simp_all

lemma unat_drop [byte_simps]: "unat (drop_bit n w) = unat w div 2 ^ n"
  by (subst unat_drop_bit_eq) (simp only: drop_bit_eq_div)

lemma unat_push [byte_simps]: "unat (w :: 'a::len word) * 2 ^ n < 2 ^ LENGTH('a) \<Longrightarrow> unat (push_bit n w) = unat w * 2 ^ n"
proof -
  assume "unat w * 2 ^ n < 2 ^ LENGTH('a)"
  moreover have "unat (push_bit n w) = take_bit LENGTH('a) (push_bit n (unat w))" by (rule unsigned_push_bit_eq)
  ultimately show ?thesis by (simp add: push_bit_eq_mult take_bit_eq_mod)
qed

lemma unat_disjoint_or: "a AND b = 0 \<Longrightarrow> unat a + unat b < 2 ^ LENGTH('a) \<Longrightarrow> unat (a OR b) = unat a + unat (b :: 'a::len word)"
  by (simp add: disjunctive_add_eq_or [symmetric] unat_add_lem [THEN iffD1])

section \<open>Little endian values\<close>

definition le16 :: "u8 \<Rightarrow> u8 \<Rightarrow> u32" where
  "le16 a b = push_bit 8 (ucast b) OR ucast a"

definition le32 :: "u8 \<Rightarrow> u8 \<Rightarrow> u8 \<Rightarrow> u8 \<Rightarrow> u32" where
  "le32 a b c d = push_bit 16 (le16 c d) OR le16 a b"

lemma unat_le16 [byte_simps]: "unat (le16 a b) = unat a + 256 * unat b"
proof -
  have "push_bit 8 (ucast b) AND (ucast a :: u32) = 0"
    by (auto simp: bit_eq_iff bit_simps dest: bit_imp_le_length)
  moreover have "unat b * 256 < 65536" using unat_bound(1) [of b] by linarith
  moreover have "unat (push_bit 8 (ucast b :: u32)) = unat b * 256"
    by (subst unat_push) (use less_trans [OF unat_bound(1) [of b]] in \<open>simp_all add: unat_ucast_up\<close>)
  moreover have "unat b * 256 + unat a < 4294967296" using unat_bound(1) [of a] unat_bound(1) [of b] by linarith
  ultimately show ?thesis by (simp add: le16_def unat_disjoint_or unat_ucast_up)
qed

lemma unat_le32 [byte_simps]: "unat (le32 a b c d) = unat (le16 a b) + 65536 * unat (le16 c d)"
proof -
  have "push_bit 16 (le16 c d) AND le16 a b = 0"
    by (auto simp: le16_def bit_eq_iff bit_simps dest!: bit_imp_le_length)
  moreover have s: "unat (le16 x y) < 65536" for x y
    using unat_bound(1) [of x] unat_bound(1) [of y] unfolding unat_le16 by linarith
  moreover have "unat (push_bit 16 (le16 c d)) = unat (le16 c d) * 65536"
    by (subst unat_push) (use s [of c d] in simp_all)
  moreover have "unat (le16 c d) * 65536 + unat (le16 a b) < 4294967296" using s [of a b] s [of c d] by linarith
  ultimately show ?thesis by (simp add: le32_def unat_disjoint_or)
qed

definition le_bytes32 :: "u32 \<Rightarrow> u8 list" where
  "le_bytes32 w = [ucast w, ucast (drop_bit 8 w), ucast (drop_bit 16 w), ucast (drop_bit 24 w)]"

lemma le32_bytes: "le32 (ucast w) (ucast (drop_bit 8 w)) (ucast (drop_bit 16 w)) (ucast (drop_bit 24 w)) = w"
proof (rule bit_word_eqI)
  fix n assume "n < LENGTH(32)"
  then show "bit (le32 (ucast w) (ucast (drop_bit 8 w)) (ucast (drop_bit 16 w)) (ucast (drop_bit 24 w))) n = bit w n"
    by (cases "n < 8"; cases "n < 16"; cases "n < 24") (auto simp: le32_def le16_def bit_simps)
qed

end
