(* ===== verification/Nut_IpCsum.thy ===== *)
theory Nut_IpCsum
  imports Nut_Bytes "HOL-Library.Monad_Syntax"
begin

text \<open>
  The Internet checksum (\<^verbatim>\<open>net/ipcsum.c\<close>) on a little endian machine. A pointer into a buffer
  is the list of the bytes from there on; reading past the end of the buffer is \<open>None\<close>. The source
  sums 16-bit values (\<^verbatim>\<open>NUT_LEGACY_IPCSUM\<close> is defined at its top); the alternative with 32-bit
  values, which it also contains, is modelled as \<open>ChkSumPartial32\<close>. The reference is one's
  complement addition.
\<close>

unbundle bit_operations_syntax

section \<open>Model\<close>

fun sum16_loop :: "u32 \<Rightarrow> u8 list \<Rightarrow> nat \<Rightarrow> (u32 \<times> u8 list \<times> nat) option" where
  "sum16_loop acc cp len =
     (if len > 1 then
        (case cp of a # b # r \<Rightarrow> sum16_loop (acc + le16 a b) r (len - 2) | _ \<Rightarrow> None)
      else Some (acc, cp, len))"

declare sum16_loop.simps [simp del]

definition add_last :: "u32 \<Rightarrow> u8 list \<Rightarrow> nat \<Rightarrow> u32 option" where
  "add_last acc cp len =
     (if len \<noteq> 0 then (case cp of a # _ \<Rightarrow> Some (acc + ucast a) | [] \<Rightarrow> None) else Some acc)"

text \<open>Folding the upper half into the lower one until it is empty.\<close>

lemma fold_step: "unat (ucast (ucast s :: u16) + drop_bit 16 s) = unat s mod 65536 + unat (s::u32) div 65536"
proof -
  have lo: "unat (ucast (ucast s :: u16) :: u32) = unat s mod 65536" by (simp only: byte_simps)
  have hi: "unat (drop_bit 16 s) = unat s div 65536" by (simp only: byte_simps) simp
  have "unat s div 65536 < 65536" using unat_bound(3) [of s] by (intro less_mult_imp_div_less) simp
  moreover have "unat s mod 65536 < 65536" by simp
  ultimately have "unat s mod 65536 + unat s div 65536 < 4294967296" by linarith
  then show ?thesis using lo hi by (subst unat_add_lem [THEN iffD1]) simp_all
qed

lemma fold_smaller:
  assumes "drop_bit 16 s \<noteq> (0::u32)"
  shows "unat (ucast (ucast s :: u16) + drop_bit 16 s) < unat s"
proof -
  have "unat (drop_bit 16 s) = unat s div 65536" by (simp only: byte_simps) simp
  then have "unat s div 65536 \<noteq> 0" using assms by (metis unat_eq_zero)
  moreover have "unat s = 65536 * (unat s div 65536) + unat s mod 65536" by simp
  ultimately show ?thesis unfolding fold_step by linarith
qed

function fold_carry :: "u32 \<Rightarrow> u32" where
  "fold_carry s = (if drop_bit 16 s \<noteq> 0 then fold_carry (ucast (ucast s :: u16) + drop_bit 16 s) else s)"
  by pat_completeness auto
termination
  by (relation "measure unat") (use fold_smaller in auto)

declare fold_carry.simps [simp del]

definition NutIpChkSumPartial :: "u16 \<Rightarrow> u8 list \<Rightarrow> nat \<Rightarrow> u16 option" where
  "NutIpChkSumPartial ics buf len =
     do { (acc, cp, len) \<leftarrow> sum16_loop (ucast ics) buf len;
          acc \<leftarrow> add_last acc cp len;
          Some (ucast (fold_carry acc)) }"

definition NutIpChkSum :: "u16 \<Rightarrow> u8 list \<Rightarrow> nat \<Rightarrow> u16 option" where
  "NutIpChkSum ics buf len = map_option NOT (NutIpChkSumPartial ics buf len)"

definition pseudo_hdr :: "u32 \<Rightarrow> u32 \<Rightarrow> u8 \<Rightarrow> u16 \<Rightarrow> u8 list" where
  "pseudo_hdr src dest protocol len =
     le_bytes32 src @ le_bytes32 dest @ [0, protocol, ucast len, ucast (drop_bit 8 len)]"

definition NutIpPseudoChkSumPartial :: "u32 \<Rightarrow> u32 \<Rightarrow> u8 \<Rightarrow> u16 \<Rightarrow> u32 option" where
  "NutIpPseudoChkSumPartial src_addr dest_addr protocol len =
     map_option ucast (NutIpChkSumPartial 0 (pseudo_hdr src_addr dest_addr protocol len) 12)"

text \<open>
  The variant with 32-bit values. \<open>align\<close> is the address of the buffer modulo 4; the bytes that
  are summed up before the first 32-bit value are not subtracted from the length.
\<close>

definition lead_in :: "nat \<Rightarrow> u32 \<Rightarrow> u8 list \<Rightarrow> (u32 \<times> u8 list) option" where
  "lead_in align acc cp =
     do { (acc, cp, step) \<leftarrow>
            (if align > 1 then (case cp of a # b # r \<Rightarrow> Some (acc + le16 a b, r, align - 2) | _ \<Rightarrow> None)
             else Some (acc, cp, align));
          (if step \<noteq> 0 then (case cp of a # r \<Rightarrow> Some (acc + ucast a, r) | [] \<Rightarrow> None) else Some (acc, cp)) }"

fun sum32_loop :: "u32 \<Rightarrow> u8 list \<Rightarrow> nat \<Rightarrow> (u32 \<times> u8 list \<times> nat) option" where
  "sum32_loop acc wp len =
     (if len > 3 then
        (case wp of a # b # c # d # r \<Rightarrow>
           (let w = le32 a b c d; s = acc + w in sum32_loop (s + (if w > s then 1 else 0)) r (len - 4))
         | _ \<Rightarrow> None)
      else Some (acc, wp, len))"

declare sum32_loop.simps [simp del]

definition ChkSumPartial32 :: "nat \<Rightarrow> u16 \<Rightarrow> u8 list \<Rightarrow> nat \<Rightarrow> u16 option" where
  "ChkSumPartial32 align ics buf len =
     do { (acc, cp) \<leftarrow> lead_in align (ucast ics) buf;
          (acc, cp, len) \<leftarrow> sum32_loop acc cp len;
          (acc, cp, len) \<leftarrow>
            (if len > 1 then (case cp of a # b # r \<Rightarrow> Some (acc + le16 a b, r, len - 2) | _ \<Rightarrow> None)
             else Some (acc, cp, len));
          acc \<leftarrow> add_last acc cp len;
          Some (ucast (fold_carry acc)) }"

section \<open>One's complement addition\<close>

text \<open>The sum of the 16-bit values of a block, the last odd byte padded with zero.\<close>

fun words16 :: "u8 list \<Rightarrow> nat" where
  "words16 (a # b # r) = unat a + 256 * unat b + words16 r"
| "words16 [a] = unat a"
| "words16 [] = 0"

text \<open>The representative of a sum in 16-bit one's complement: zero only for the sum zero.\<close>

definition oc16 :: "nat \<Rightarrow> nat" where
  "oc16 n = (if n = 0 then 0 else if n mod 65535 = 0 then 65535 else n mod 65535)"

text \<open>Two sums with the same representative.\<close>

definition oc_eq :: "nat \<Rightarrow> nat \<Rightarrow> bool" where
  "oc_eq m n \<longleftrightarrow> m mod 65535 = n mod 65535 \<and> (m = 0 \<longleftrightarrow> n = 0)"

lemma oc_eq_oc16: "oc_eq m n \<Longrightarrow> oc16 m = oc16 n"
  by (auto simp: oc_eq_def oc16_def)

lemma oc_eq_refl [simp]: "oc_eq n n"
  by (simp add: oc_eq_def)

lemma oc_eq_trans: "oc_eq a b \<Longrightarrow> oc_eq b c \<Longrightarrow> oc_eq a c"
  by (simp add: oc_eq_def)

lemma oc_eq_add: "oc_eq a b \<Longrightarrow> oc_eq (a + c) (b + c)"
  unfolding oc_eq_def by (auto intro: mod_add_cong)

lemma oc16_small: "n \<le> 65535 \<Longrightarrow> oc16 n = n"
  by (cases "n = 65535") (auto simp: oc16_def)

lemma fold_carry_oc: "unat (fold_carry s) = oc16 (unat s)"
proof (induction s rule: fold_carry.induct)
  case (1 s)
  have hi: "unat (drop_bit 16 s) = unat s div 65536" by (simp only: byte_simps) simp
  show ?case
  proof (cases "drop_bit 16 s = 0")
    case True
    then have "unat s < 65536" using hi by (simp add: div_eq_0_iff)
    then show ?thesis using True by (subst fold_carry.simps) (simp add: oc16_small)
  next
    case False
    have eq: "unat s = 65536 * (unat s div 65536) + unat s mod 65536" by simp
    then have "unat s = 65535 * (unat s div 65536) + (unat s mod 65536 + unat s div 65536)" by linarith
    then have "unat s mod 65535 = (unat s mod 65536 + unat s div 65536) mod 65535" by (metis mod_mult_self4)
    moreover have "unat s div 65536 \<noteq> 0" using False hi by (metis unat_eq_zero)
    ultimately have "oc_eq (unat s mod 65536 + unat s div 65536) (unat s)" by (auto simp: oc_eq_def)
    then show ?thesis using 1 [OF False] False by (subst fold_carry.simps) (simp add: fold_step oc_eq_oc16)
  qed
qed

lemma oc16_bound: "oc16 n \<le> 65535"
  using mod_less_divisor [of 65535 n] by (auto simp: oc16_def less_imp_le)

lemma words16_bound: "words16 bs \<le> 65535 * length bs"
proof (induction bs rule: words16.induct)
  case (1 a b r)
  then show ?case using unat_bound(1) [of a] unat_bound(1) [of b] by simp
next
  case (2 a)
  then show ?case using unat_bound(1) [of a] by simp
qed simp

section \<open>The loops\<close>

lemma sum16_spec:
  assumes "len \<le> length bs" and "unat s + words16 (take len bs) < 4294967296"
  shows "\<exists>s'. (do { (s, cp, len) \<leftarrow> sum16_loop s bs len; add_last s cp len }) = Some s' \<and> unat s' = unat s + words16 (take len bs)"
  using assms
proof (induction s bs len rule: sum16_loop.induct)
  case (1 s bs len)
  consider "len = 0" | a where "len = 1" "bs = a # tl bs" | a b r where "len > 1" "bs = a # b # r"
    using "1.prems"(1) by (cases bs; cases "tl bs"; cases "len = 0"; cases "len = 1") auto
  then show ?case
  proof cases
    case 1
    then show ?thesis by (simp add: sum16_loop.simps add_last_def)
  next
    case (2 a)
    have t: "take 1 bs = [a]" by (subst 2(2)) simp
    have "unat (s + ucast a) = unat s + unat a"
      using "1.prems"(2) 2(1) t by (subst unat_add_lem [THEN iffD1]) (simp_all add: unat_ucast_up)
    moreover have "add_last s bs 1 = Some (s + ucast a)" by (subst 2(2)) (simp add: add_last_def)
    ultimately show ?thesis using 2(1) t by (simp add: sum16_loop.simps)
  next
    case (3 a b r)
    then have tk: "take len bs = a # b # take (len - 2) r" by (cases len; cases "len - 1") auto
    have u: "unat (s + le16 a b) = unat s + unat a + 256 * unat b"
      using "1.prems"(2) tk by (subst unat_add_lem [THEN iffD1]) (simp_all add: unat_le16)
    have "\<exists>s'. (do { (s, cp, len) \<leftarrow> sum16_loop (s + le16 a b) r (len - 2); add_last s cp len }) = Some s' \<and>
      unat s' = unat (s + le16 a b) + words16 (take (len - 2) r)"
      using "1.IH" [OF 3(1,2) refl] "1.prems" 3 tk u by simp
    then show ?thesis using 3 tk u by (subst sum16_loop.simps) (simp add: add.assoc)
  qed
qed

lemma partial_spec:
  assumes "len \<le> length bs" and "len < 65536"
  obtains r where "NutIpChkSumPartial ics bs len = Some r" "unat r = oc16 (unat ics + words16 (take len bs))"
proof -
  have "words16 (take len bs) \<le> 65535 * len" using words16_bound [of "take len bs"] assms(1) by simp
  then have "unat (ucast ics :: u32) + words16 (take len bs) < 4294967296"
    using assms(2) unat_bound(2) [of ics] by (simp add: unat_ucast_up)
  from sum16_spec [OF assms(1) this] obtain s' where
    s: "(do { (s, cp, len) \<leftarrow> sum16_loop (ucast ics) bs len; add_last s cp len }) = Some s'"
    "unat s' = unat ics + words16 (take len bs)" by (auto simp: unat_ucast_up)
  have "unat (ucast (fold_carry s') :: u16) = oc16 (unat s')"
    using oc16_bound [of "unat s'"] by (simp add: unat_ucast_down fold_carry_oc)
  moreover have "NutIpChkSumPartial ics bs len = Some (ucast (fold_carry s'))"
    using s(1) by (auto simp: NutIpChkSumPartial_def bind_eq_Some_conv split: prod.splits)
  ultimately show thesis using that s(2) by simp
qed

text \<open>Adding a 32-bit value with the carry is one's complement addition of its halves.\<close>

lemma add_carry:
  fixes s w :: u32
  shows "oc_eq (unat (s + w + (if w > s + w then 1 else 0))) (unat s + unat w)"
proof (cases "unat s + unat w < 4294967296")
  case True
  then have e: "unat (s + w) = unat s + unat w" by (subst unat_add_lem [THEN iffD1]) simp_all
  then have "\<not> w > s + w" by (simp add: word_less_nat_alt)
  then show ?thesis using e by simp
next
  case False
  have e: "unat (s + w) = unat s + unat w - 4294967296"
    using False unat_bound(3) [of s] unat_bound(3) [of w] by (simp add: unat_word_ariths mod_if [of "unat s + unat w"])
  then have c: "w > s + w" using False unat_bound(3) [of s] by (simp add: word_less_nat_alt)
  have u: "unat (s + w + 1) = unat s + unat w - 4294967296 + 1"
    using e unat_bound(3) [of s] unat_bound(3) [of w] by (subst unat_add_lem [THEN iffD1]) simp_all
  have "unat s + unat w = 65535 * 65537 + (unat s + unat w - 4294967296 + 1)" using False by simp
  then have "(unat s + unat w) mod 65535 = (unat s + unat w - 4294967296 + 1) mod 65535" by (metis mod_mult_self4)
  moreover have "unat s + unat w \<noteq> 0" using False by linarith
  ultimately show ?thesis using c u by (simp add: oc_eq_def)
qed

lemma le32_halves: "oc_eq (unat (le32 a b c d)) (unat a + 256 * unat b + (unat c + 256 * unat d))"
proof -
  have "unat (le32 a b c d) = 65535 * unat (le16 c d) + (unat (le16 a b) + unat (le16 c d))" by (simp add: unat_le32)
  then have "unat (le32 a b c d) mod 65535 = (unat (le16 a b) + unat (le16 c d)) mod 65535" by (metis mod_mult_self4)
  then show ?thesis by (simp add: oc_eq_def unat_le32 unat_le16)
qed

lemma sum32_spec:
  assumes "len \<le> length bs" and "len mod 4 = 0"
  shows "\<exists>s'. sum32_loop s bs len = Some (s', drop len bs, 0) \<and> oc_eq (unat s') (unat s + words16 (take len bs))"
  using assms
proof (induction s bs len rule: sum32_loop.induct)
  case (1 s bs len)
  show ?case
  proof (cases "len > 3")
    case False
    then have "len = 0" using "1.prems"(2) by presburger
    then show ?thesis by (simp add: sum32_loop.simps)
  next
    case True
    obtain l where l: "len = Suc (Suc (Suc (Suc l)))" using True by (metis add_2_eq_Suc less_imp_Suc_add numeral_3_eq_3 add_Suc)
    obtain a b c d r where bs: "bs = a # b # c # d # r"
      using "1.prems"(1) l by (cases bs; cases "tl bs"; cases "tl (tl bs)"; cases "tl (tl (tl bs))") auto
    define s1 where "s1 = s + le32 a b c d + (if le32 a b c d > s + le32 a b c d then 1 else 0)"
    have "\<exists>s'. sum32_loop s1 r l = Some (s', drop l r, 0) \<and> oc_eq (unat s') (unat s1 + words16 (take l r))"
      using "1.IH" [OF True bs refl refl refl refl refl] "1.prems" bs l unfolding s1_def by simp
    then obtain s' where s': "sum32_loop s1 r l = Some (s', drop l r, 0)" "oc_eq (unat s') (unat s1 + words16 (take l r))" by blast
    have "oc_eq (unat s1) (unat s + unat (le32 a b c d))" unfolding s1_def by (rule add_carry)
    moreover have "oc_eq (unat s + unat (le32 a b c d)) (unat s + (unat a + 256 * unat b + (unat c + 256 * unat d)))"
      using oc_eq_add [OF le32_halves, of a b c d "unat s"] by (simp add: add.commute)
    ultimately have "oc_eq (unat s1) (unat s + (unat a + 256 * unat b + (unat c + 256 * unat d)))" by (rule oc_eq_trans)
    from oc_eq_add [OF this, of "words16 (take l r)"]
    have "oc_eq (unat s1 + words16 (take l r)) (unat s + words16 (take len bs))"
      using l bs by (simp add: add.assoc)
    then have "oc_eq (unat s') (unat s + words16 (take len bs))" using oc_eq_trans [OF s'(2)] by blast
    moreover have "sum32_loop s bs len = Some (s', drop len bs, 0)"
      using s'(1) True bs l unfolding s1_def by (subst sum32_loop.simps) (simp add: Let_def)
    ultimately show ?thesis by blast
  qed
qed

section \<open>Properties\<close>

lemma variant32_spec:
  assumes "len \<le> length bs" and "len mod 4 = 0"
  obtains r where "ChkSumPartial32 0 ics bs len = Some r" "unat r = oc16 (unat ics + words16 (take len bs))"
proof -
  obtain s' where s: "sum32_loop (ucast ics) bs len = Some (s', drop len bs, 0)"
    "oc_eq (unat s') (unat ics + words16 (take len bs))"
    using sum32_spec [OF assms, of "ucast ics"] by (auto simp: unat_ucast_up)
  have "unat (ucast (fold_carry s') :: u16) = oc16 (unat s')"
    using oc16_bound [of "unat s'"] by (simp add: unat_ucast_down fold_carry_oc)
  moreover have "ChkSumPartial32 0 ics bs len = Some (ucast (fold_carry s'))"
    using s(1) by (simp add: ChkSumPartial32_def lead_in_def add_last_def)
  ultimately show thesis using that oc_eq_oc16 [OF s(2)] by simp
qed

lemma words16_append: "even (length a) \<Longrightarrow> words16 (a @ b) = words16 a + words16 b"
  by (induction a rule: words16.induct) auto

lemma words16_bytes: "words16 [ucast c, ucast (drop_bit 8 c)] = unat (c::u16)"
proof -
  have "unat c div 256 < 256" using unat_bound(2) [of c] by (intro less_mult_imp_div_less) simp
  then show ?thesis by (simp add: byte_simps)
qed

lemma oc16_complement: "oc16 (n + (65535 - oc16 n)) = 65535"
proof (cases "n = 0")
  case False
  have "(n + (65535 - oc16 n)) mod 65535 = 0"
  proof (cases "n mod 65535 = 0")
    case True
    then show ?thesis using False by (simp add: oc16_def)
  next
    case F: False
    obtain q m where n: "n = 65535 * q + m" "m < 65535" "n mod 65535 = m"
      using mult_div_mod_eq [of 65535 n] mod_less_divisor [of 65535 n] by (metis zero_less_numeral)
    then have "n + (65535 - m) = 65535 * (q + 1)" by simp
    then have "(n + (65535 - m)) mod 65535 = 0" by (simp only: mod_mult_self1_is_0)
    then show ?thesis using F False n(3) by (simp add: oc16_def)
  qed
  moreover have "x \<noteq> 0 \<Longrightarrow> x mod 65535 = 0 \<Longrightarrow> oc16 x = 65535" for x by (simp add: oc16_def)
  ultimately show ?thesis using False by (metis add_is_0)
qed (simp add: oc16_def)

text \<open>
  C36: \<^verbatim>\<open>NutIpChkSumPartial\<close> reads only bytes of the block and returns the one's complement sum of the
  initial value and the 16-bit values of the block, an odd last byte padded with zero; no carry is
  lost for blocks of up to 64 KB. On an aligned block of whole 32-bit values, the variant that
  adds 32-bit values with the carry gives the same result.
\<close>

theorem ipcsum_correct:
  assumes "len \<le> length buf" and "len < 65536"
  shows "map_option unat (NutIpChkSumPartial ics buf len) = Some (oc16 (unat ics + words16 (take len buf))) \<and>
    (len mod 4 = 0 \<longrightarrow> ChkSumPartial32 0 ics buf len = NutIpChkSumPartial ics buf len)"
proof -
  obtain r where r: "NutIpChkSumPartial ics buf len = Some r" "unat r = oc16 (unat ics + words16 (take len buf))"
    by (rule partial_spec [OF assms])
  moreover have "ChkSumPartial32 0 ics buf len = Some r" if m: "len mod 4 = 0"
  proof (rule variant32_spec [OF assms(1) m, of ics])
    fix r' assume "ChkSumPartial32 0 ics buf len = Some r'" "unat r' = oc16 (unat ics + words16 (take len buf))"
    then show ?thesis using r(2) by (simp add: word_unat_eq_iff)
  qed
  ultimately show ?thesis by simp
qed

theorem ipcsum_correct_witness:
  "map_option unat (NutIpChkSumPartial 0 [0x45, 0x00, 0xFF, 0xFF] 4) = Some 0x45 \<and>
   ChkSumPartial32 0 0 [0x45, 0x00, 0xFF, 0xFF] 4 = NutIpChkSumPartial 0 [0x45, 0x00, 0xFF, 0xFF] 4"
  using ipcsum_correct [of 4 "[0x45, 0x00, 0xFF, 0xFF]" 0] by (simp add: oc16_def)

text \<open>
  A sender that stores the checksum of a packet, computed with the checksum field set to zero,
  in that field (at an even offset, in memory order) makes the receiver's check succeed: the
  checksum over the whole packet is zero.
\<close>

theorem ipcsum_verifies:
  assumes "even (length h)" and "length h + length t + 2 < 65536"
    and "NutIpChkSum ics (h @ [0, 0] @ t) (length h + length t + 2) = Some c"
  shows "NutIpChkSum ics (h @ [ucast c, ucast (drop_bit 8 c)] @ t) (length h + length t + 2) = Some 0"
proof -
  let ?n = "length h + length t + 2" and ?S = "unat ics + words16 h + words16 t"
  let ?b = "h @ [0, 0] @ t" and ?b' = "h @ [ucast c, ucast (drop_bit 8 c)] @ t"
  obtain r where r: "NutIpChkSumPartial ics ?b ?n = Some r" "unat r = oc16 (unat ics + words16 (take ?n ?b))"
    using assms(2) by (auto intro: partial_spec [of ?n ?b ics])
  have "words16 ([x, y] @ t) = words16 [x, y] + words16 t" for x y by simp
  then have w: "words16 (take ?n ?b) = words16 h + words16 t" "words16 (take ?n ?b') = words16 h + unat c + words16 t"
    using words16_append [OF assms(1)] words16_bytes [of c] by (simp_all del: append_Cons)
  have c: "c = NOT r" using assms(3) r(1) by (simp add: NutIpChkSum_def)
  have "c = 65535 - r" using c by (simp add: not_eq_complement)
  moreover have "r \<le> 65535" using unat_bound(2) [of r] by (simp add: word_le_nat_alt)
  ultimately have uc: "unat c = 65535 - unat r" by (simp add: unat_sub)
  obtain r' where r': "NutIpChkSumPartial ics ?b' ?n = Some r'" "unat r' = oc16 (unat ics + words16 (take ?n ?b'))"
    using assms(2) by (auto intro: partial_spec [of ?n ?b' ics])
  have "unat r' = oc16 (?S + (65535 - oc16 ?S))" using r'(2) w uc r(2) by (simp add: ac_simps)
  then have "unat r' = 65535" by (simp add: oc16_complement)
  then have "r' = 65535" by (simp add: word_unat_eq_iff)
  then show ?thesis using r'(1) by (simp add: NutIpChkSum_def)
qed

theorem ipcsum_verifies_witness:
  "NutIpChkSum 0 ([0x45, 0x00] @ [0, 0] @ [0x01]) 5 = Some 0xFFB9 \<and>
   NutIpChkSum 0 ([0x45, 0x00] @ [0xB9, 0xFF] @ [0x01]) 5 = Some 0"
proof -
  have c: "NutIpChkSum 0 ([0x45, 0x00] @ [0, 0] @ [0x01]) 5 = Some 0xFFB9" by code_simp
  have n: "length [0x45::u8, 0x00] + length [0x01::u8] + 2 = 5" by simp
  have e: "ucast (0xFFB9::u16) = (0xB9::u8)" "ucast (drop_bit 8 (0xFFB9::u16)) = (0xFF::u8)" by code_simp+
  from ipcsum_verifies [where h = "[0x45, 0x00]" and t = "[0x01]" and ics = 0 and c = "0xFFB9", unfolded n e] c show ?thesis by simp
qed

text \<open>
  The variant with 32-bit values does not subtract the bytes in front of the first aligned value from
  the length: for a block at an address that is not a multiple of four it reads past the end.
\<close>

lemma variant32_unaligned:
  "ChkSumPartial32 2 0 [1, 2] 2 = None" "NutIpChkSumPartial 0 [1, 2] 2 = Some 0x0201"
  by code_simp+

end
