(* ===== verification/Nut_Inet.thy ===== *)
theory Nut_Inet
  imports Nut_Bytes
begin

text \<open>
  Addresses as text: dotted decimal IP addresses (\<^verbatim>\<open>net/inet.c\<close>) and Ethernet addresses
  (\<^verbatim>\<open>net/ether_addr.c\<close>). A C string is the list of its characters without the terminating zero;
  reading at the end of the list sees the terminator. The static result buffers of the source are
  results here. IP addresses are in network byte order, so the first byte in memory is the lowest
  one of the digits_val on a little endian machine.
\<close>

unbundle bit_operations_syntax

section \<open>Model\<close>

definition is_digit :: "char \<Rightarrow> bool" where
  "is_digit c \<longleftrightarrow> (of_char c :: nat) \<ge> 48 \<and> (of_char c :: nat) \<le> 57"

text \<open>The inner loop of \<^verbatim>\<open>inet_addr\<close>: it is entered at a digit and ends behind the last one it uses.\<close>

fun num_loop :: "nat \<Rightarrow> string \<Rightarrow> nat \<times> string" where
  "num_loop num [] = (num, [])"
| "num_loop num (c # str) =
     (if num \<le> 255 then
        (let num' = num * 10 + (of_char c - 48) in
         case str of
           d # _ \<Rightarrow> if is_digit d then num_loop num' str else (num', str)
         | [] \<Rightarrow> (num', str))
      else (num, c # str))"

function addr_loop :: "nat \<Rightarrow> u8 list \<Rightarrow> string \<Rightarrow> u8 list option" where
  "addr_loop parts ap str =
     (if parts < 4 then
        (case str of
           [] \<Rightarrow> None
         | c # _ \<Rightarrow>
             if \<not> is_digit c then None
             else case num_loop 0 str of (num, s) \<Rightarrow>
               if num > 255 then None
               else case s of
                   d # s' \<Rightarrow>
                     if d = CHR ''.'' then addr_loop (parts + 1) (ap @ [word_of_nat num]) s'
                     else if parts + 1 = 4 then Some (ap @ [word_of_nat num]) else None
                 | [] \<Rightarrow> if parts + 1 = 4 then Some (ap @ [word_of_nat num]) else None)
      else None)"
  by pat_completeness auto
termination by (relation "measure (\<lambda>(parts, ap, str). 4 - parts)") auto

declare addr_loop.simps [simp del]

definition inet_addr :: "string \<Rightarrow> u32" where
  "inet_addr str =
     (case addr_loop 0 [] str of
        Some [a, b, c, d] \<Rightarrow> le32 a b c d
      | _ \<Rightarrow> -1)"

text \<open>The digits of a byte, lowest first, as the first inner loop of \<^verbatim>\<open>inet_ntoa\<close> stores them.\<close>

function inv_digits :: "u8 \<Rightarrow> string" where
  "inv_digits a = char_of (48 + unat (a mod 10)) # (if a div 10 \<noteq> 0 then inv_digits (a div 10) else [])"
  by pat_completeness auto
termination
proof (relation "measure unat")
  fix a :: u8 assume "a div 10 \<noteq> 0"
  then have "unat a div 10 \<noteq> 0" by (simp add: unat_div_distrib word_unat_eq_iff)
  then show "(a div 10, a) \<in> measure unat" by (simp add: unat_div_distrib)
qed simp

declare inv_digits.simps [simp del]

definition inet_ntoa :: "u32 \<Rightarrow> string" where
  "inet_ntoa addr = butlast (concat (map (\<lambda>a. rev (inv_digits a) @ ''.'') (le_bytes32 addr)))"

definition hex2bin :: "char \<Rightarrow> u8" where
  "hex2bin c =
     (let n = of_char c :: nat in
      if 48 \<le> n \<and> n \<le> 57 then word_of_nat (n - 48)
      else if 97 \<le> n \<and> n \<le> 102 then word_of_nat (n - 97 + 10)
      else if 65 \<le> n \<and> n \<le> 70 then word_of_nat (n - 65 + 10)
      else 0)"

definition hexdigit :: string where
  "hexdigit = ''0123456789ABCDEF''"

definition bad_hex :: "char \<Rightarrow> bool" where
  "bad_hex c \<longleftrightarrow>
     (let k = of_char c :: nat in k < 48 \<or> k > 57 \<and> k < 65 \<or> k > 70 \<and> k < 97 \<or> k > 102)"

fun aton_loop :: "u8 list \<Rightarrow> nat \<Rightarrow> string \<Rightarrow> u8 list option" where
  "aton_loop mac n [] = Some mac"
| "aton_loop mac n (c # cp) =
     (if bad_hex c then None
      else if mac ! n > 0x0F then None
      else let mac' = mac[n := push_bit 4 (mac ! n) OR hex2bin c] in
        case cp of
          d # cp' \<Rightarrow>
            if d = CHR '':'' then (if n + 1 > 5 then None else aton_loop mac' (n + 1) cp')
            else aton_loop mac' n cp
        | [] \<Rightarrow> aton_loop mac' n [])"

definition ether_aton :: "string \<Rightarrow> u8 list option" where
  "ether_aton str = aton_loop (replicate 6 0) 0 str"

definition ether_ntoa :: "u8 list \<Rightarrow> string" where
  "ether_ntoa mac =
     butlast (concat (map (\<lambda>m. [hexdigit ! unat (drop_bit 4 m AND 0x0F), hexdigit ! unat (m AND 0x0F), CHR '':'']) (take 6 mac)))"

definition inet_mtoa :: "u8 list \<Rightarrow> string" where
  "inet_mtoa mac =
     concat (map (\<lambda>i. [hexdigit ! unat (drop_bit 4 (mac ! i)), hexdigit ! unat (mac ! i AND 0x0F)] @ (if i < 5 then '':'' else []))
       [0..<6])"

section \<open>Decimal numbers\<close>

lemma digit_char: "d < 10 \<Longrightarrow> is_digit (char_of (48 + d)) \<and> of_char (char_of (48 + d)) = 48 + (d::nat)"
  by (simp add: is_digit_def)

definition dec :: "nat \<Rightarrow> nat list" where
  "dec n = (if n < 10 then [n] else if n < 100 then [n div 10, n mod 10] else [n div 100, n div 10 mod 10, n mod 10])"

lemma inv_digits_dec: "rev (inv_digits a) = map (\<lambda>d. char_of (48 + d)) (dec (unat a))"
proof -
  have d: "unat (b div 10) = unat b div 10" "unat (b mod 10) = unat b mod 10" "(b div 10 = 0) = (unat b < 10)" for b :: u8
    by (simp_all add: unat_div_distrib unat_mod_distrib word_unat_eq_iff div_eq_0_iff)
  have b: "unat a < 256" by (rule unat_bound)
  have l: "unat a div 10 div 10 < 10" using b by (intro less_mult_imp_div_less) simp
  show ?thesis
    using l by (subst inv_digits.simps, subst inv_digits.simps, subst inv_digits.simps)
      (auto simp: d dec_def div_mult2_eq [symmetric] div_eq_0_iff)
qed

definition digits_val :: "nat \<Rightarrow> nat list \<Rightarrow> nat" where
  "digits_val n ds = foldl (\<lambda>n d. n * 10 + d) n ds"

lemma digits_val_simps [simp]: "digits_val n [] = n" "digits_val n (d # ds) = digits_val (n * 10 + d) ds"
  by (simp_all add: digits_val_def)

lemma digits_val_ge: "n \<le> digits_val n ds"
proof (induction ds arbitrary: n)
  case (Cons d ds)
  have "n \<le> n * 10 + d" by simp
  also have "\<dots> \<le> digits_val (n * 10 + d) ds" by (rule Cons)
  finally show ?case by simp
qed simp

lemma num_loop_digits:
  assumes "ds \<noteq> []" and "\<forall>d \<in> set ds. d < 10" and "digits_val n ds \<le> 255" and "rest = [] \<or> \<not> is_digit (hd rest)"
  shows "num_loop n (map (\<lambda>d. char_of (48 + d)) ds @ rest) = (digits_val n ds, rest)"
  using assms
proof (induction ds arbitrary: n)
  case (Cons d ds)
  have n: "n \<le> 255" "n * 10 + d \<le> 255"
    using Cons.prems(3) digits_val_ge [of n "d # ds"] digits_val_ge [of "n * 10 + d" ds] by simp_all
  have dd: "of_char (char_of (48 + d)) = 48 + d" using Cons.prems(2) digit_char [of d] by simp
  show ?case
  proof (cases ds)
    case Nil
    then show ?thesis using n dd Cons.prems(4) by (cases rest) (simp_all add: Let_def)
  next
    case F: (Cons e es)
    have de: "is_digit (char_of (48 + e))" using Cons.prems(2) F digit_char [of e] by simp
    have "num_loop (n * 10 + d) (map (\<lambda>d. char_of (48 + d)) ds @ rest) = (digits_val (n * 10 + d) ds, rest)"
      using Cons.IH [of "n * 10 + d"] Cons.prems F by simp
    moreover have "map (\<lambda>d. char_of (48 + d)) ds @ rest = char_of (48 + e) # map (\<lambda>d. char_of (48 + d)) es @ rest"
      using F by simp
    ultimately show ?thesis using n dd de by (simp add: Let_def del: num_loop.simps(2) add: num_loop.simps(2) [of n "char_of (48 + d)"])
  qed
qed simp

lemma dec_value:
  assumes "n < 256"
  shows "digits_val 0 (dec n) = n" and "\<forall>d \<in> set (dec n). d < 10" and "dec n \<noteq> []"
proof -
  have "n div 100 = n div 10 div 10" by (simp add: div_mult2_eq [symmetric])
  then have "n div 100 * 10 + n div 10 mod 10 = n div 10" "n div 10 * 10 + n mod 10 = n" by (simp_all only: div_mult_mod_eq)
  then show "digits_val 0 (dec n) = n" by (simp add: dec_def)
  have "n div 100 < 10" using assms by (intro less_mult_imp_div_less) simp
  moreover have "n < 100 \<Longrightarrow> n div 10 < 10" by (intro less_mult_imp_div_less) simp
  ultimately show "\<forall>d \<in> set (dec n). d < 10" by (simp add: dec_def)
  show "dec n \<noteq> []" by (simp add: dec_def)
qed

lemma num_loop_byte:
  assumes "rest = [] \<or> \<not> is_digit (hd rest)"
  shows "num_loop 0 (rev (inv_digits a) @ rest) = (unat a, rest)"
  using num_loop_digits [OF dec_value(3,2) _ assms, of "unat a" 0] dec_value [of "unat a"] unat_bound(1) [of a]
  by (simp add: inv_digits_dec)

lemma inv_digits_head: "\<exists>c s. rev (inv_digits a) = c # s \<and> is_digit c"
proof -
  obtain d ds where d: "dec (unat a) = d # ds" "d < 10"
    using dec_value(2,3) [of "unat a"] unat_bound(1) [of a] by (cases "dec (unat a)") auto
  then show ?thesis using digit_char [of d] by (auto simp: inv_digits_dec)
qed

text \<open>One part of a dotted address.\<close>

lemma addr_loop_part:
  assumes "parts < 4"
  shows "addr_loop parts ap (rev (inv_digits a) @ CHR ''.'' # s) = addr_loop (parts + 1) (ap @ [a]) s"
    and "addr_loop parts ap (rev (inv_digits a)) = (if parts + 1 = 4 then Some (ap @ [a]) else None)"
proof -
  have nd: "\<not> is_digit (CHR ''.'')" by (simp add: is_digit_def)
  obtain c t where h: "rev (inv_digits a) = c # t" "is_digit c" using inv_digits_head by blast
  have l: "\<not> 255 < unat a" using unat_bound(1) [of a] by simp
  show "addr_loop parts ap (rev (inv_digits a) @ CHR ''.'' # s) = addr_loop (parts + 1) (ap @ [a]) s"
    using assms h nd l num_loop_byte [of "CHR ''.'' # s" a] by (subst addr_loop.simps) simp
  show "addr_loop parts ap (rev (inv_digits a)) = (if parts + 1 = 4 then Some (ap @ [a]) else None)"
    using assms h l num_loop_byte [of "[]" a] by (subst addr_loop.simps) simp
qed

section \<open>Hexadecimal bytes\<close>

lemma hexdigit_bin:
  assumes "n < 16"
  shows "hex2bin (hexdigit ! n) = word_of_nat n" and "\<not> bad_hex (hexdigit ! n)" and "hexdigit ! n \<noteq> CHR '':''"
proof -
  have "\<forall>n \<in> set [0..<16]. hex2bin (hexdigit ! n) = word_of_nat n \<and> \<not> bad_hex (hexdigit ! n) \<and> hexdigit ! n \<noteq> CHR '':''"
    by code_simp
  moreover have "n \<in> set [0..<16]" using assms by simp
  ultimately show "hex2bin (hexdigit ! n) = word_of_nat n" "\<not> bad_hex (hexdigit ! n)" "hexdigit ! n \<noteq> CHR '':''"
    by blast+
qed

lemma nibbles: "push_bit 4 (drop_bit 4 m AND 0x0F) OR (m AND 0x0F) = (m::u8)" "drop_bit 4 m AND 0x0F = drop_bit 4 m"
proof -
  have f: "(0x0F::u8) = mask 4" by (simp add: mask_eq_exp_minus_1)
  show "push_bit 4 (drop_bit 4 m AND 0x0F) OR (m AND 0x0F) = m"
    unfolding f
  proof (rule bit_word_eqI)
    fix n assume "n < LENGTH(8)"
    then show "bit (push_bit 4 (drop_bit 4 m AND mask 4) OR (m AND mask 4)) n = bit m n"
      by (cases "n < 4") (auto simp: bit_simps)
  qed
  show "drop_bit 4 m AND 0x0F = drop_bit 4 m"
    unfolding f by (rule bit_word_eqI) (auto simp: bit_simps dest: bit_imp_le_length)
qed

lemma nibble_bound: "unat (w AND 0x0F :: u8) < 16"
proof -
  have "w AND 0x0F \<le> (0x0F::u8)" by (rule word_and_le1)
  then show ?thesis by (simp add: word_le_nat_alt)
qed

definition hex_byte :: "u8 \<Rightarrow> string" where
  "hex_byte m = [hexdigit ! unat (drop_bit 4 m AND 0x0F), hexdigit ! unat (m AND 0x0F)]"

lemma aton_loop_byte:
  assumes "mac ! n = 0" and "n < length mac"
  shows "n < 5 \<Longrightarrow> aton_loop mac n (hex_byte m @ CHR '':'' # s) = aton_loop (mac[n := m]) (n + 1) s"
    and "aton_loop mac n (hex_byte m) = Some (mac[n := m])"
proof -
  let ?h = "drop_bit 4 m AND 0x0F" and ?l = "m AND 0x0F"
  note h = hexdigit_bin [OF nibble_bound, of "drop_bit 4 m"] and l = hexdigit_bin [OF nibble_bound, of m]
  have hi: "\<not> ?h > 0x0F" by (simp add: linorder_not_less word_and_le1)
  have one: "aton_loop mac n (hexdigit ! unat ?h # hexdigit ! unat ?l # s') = aton_loop (mac[n := ?h]) n (hexdigit ! unat ?l # s')" for s'
    using assms h l(3) by (simp add: Let_def del: aton_loop.simps(2) add: aton_loop.simps(2) [of mac n "hexdigit ! unat ?h"])
  show "aton_loop mac n (hex_byte m @ CHR '':'' # s) = aton_loop (mac[n := m]) (n + 1) s" if "n < 5"
    unfolding hex_byte_def using that one assms(2) l hi nibbles(1) [of m] by (simp add: Let_def)
  show "aton_loop mac n (hex_byte m) = Some (mac[n := m])"
    unfolding hex_byte_def using one [of "[]"] assms(2) l hi nibbles(1) [of m] by (simp add: Let_def)
qed

lemma ether_ntoa_bytes:
  "ether_ntoa [a, b, c, d, e, f] = hex_byte a @ CHR '':'' # hex_byte b @ CHR '':'' # hex_byte c @ CHR '':'' #
     hex_byte d @ CHR '':'' # hex_byte e @ CHR '':'' # hex_byte f"
  by (simp add: ether_ntoa_def hex_byte_def)

section \<open>Properties\<close>

text \<open>
  C37: Writing an IP address in dotted decimal and reading it back gives the address, for every
  address.
\<close>

theorem inet_roundtrip: "inet_addr (inet_ntoa a) = a"
proof -
  let ?a = "ucast a :: u8" and ?b = "ucast (drop_bit 8 a) :: u8" and ?c = "ucast (drop_bit 16 a) :: u8"
    and ?d = "ucast (drop_bit 24 a) :: u8"
  have "inet_ntoa a = rev (inv_digits ?a) @ CHR ''.'' # rev (inv_digits ?b) @ CHR ''.'' # rev (inv_digits ?c) @ CHR ''.'' #
      rev (inv_digits ?d)"
    by (simp add: inet_ntoa_def le_bytes32_def butlast_append)
  then have "addr_loop 0 [] (inet_ntoa a) = Some [?a, ?b, ?c, ?d]" by (simp add: addr_loop_part)
  then show ?thesis using le32_bytes [of a] by (simp add: inet_addr_def)
qed

text \<open>
  Writing an Ethernet address of six bytes as text and reading it back gives the address; both
  functions that write it agree.
\<close>

theorem ether_roundtrip:
  assumes "length mac = 6"
  shows "ether_aton (ether_ntoa mac) = Some mac \<and> inet_mtoa mac = ether_ntoa mac"
proof -
  obtain a b c d e f where m: "mac = [a, b, c, d, e, f]"
    using assms by (auto simp: length_Suc_conv numeral_eq_Suc)
  have r: "replicate 6 (0::u8) = [0, 0, 0, 0, 0, 0]" by (simp add: numeral_eq_Suc)
  have u: "[0..<6] = [0, 1, 2, 3, 4, 5::nat]" by (simp add: upt_rec)
  have "ether_aton (ether_ntoa mac) = Some mac"
    unfolding ether_aton_def m ether_ntoa_bytes r by (simp add: aton_loop_byte)
  moreover have "inet_mtoa mac = ether_ntoa mac"
    unfolding inet_mtoa_def m ether_ntoa_bytes u by (simp add: hex_byte_def nibbles(2))
  ultimately show ?thesis ..
qed

theorem ether_roundtrip_witness:
  "ether_aton (ether_ntoa [0x00, 0x06, 0x98, 0x20, 0xAB, 0xFF]) = Some [0x00, 0x06, 0x98, 0x20, 0xAB, 0xFF]"
  using ether_roundtrip [of "[0x00, 0x06, 0x98, 0x20, 0xAB, 0xFF]"] by simp

end
