(* ===== verification/Nut_Base64.thy ===== *)
theory Nut_Base64
  imports Nut_Bytes
begin

text \<open>
  Base64 encoding and decoding (\<^verbatim>\<open>gorp/codec/base64_encode.c\<close>, \<^verbatim>\<open>gorp/codec/base64_decode.c\<close>).
  A C string is the list of its bytes without the terminating zero, and \<^verbatim>\<open>char\<close> is unsigned, as on
  the ARM targets. Whether the heap has room is a parameter of the encoder. The decoder works in
  place; since it writes behind its read position, it is a function from the old to the new text.
  A read outside the decoding table is \<open>None\<close>.
\<close>

unbundle bit_operations_syntax

section \<open>Model\<close>

definition base64etab :: string where
  "base64etab = ''ABCDEFGHIJKLMNOPQRSTUVWXYZabcdefghijklmnopqrstuvwxyz0123456789+/''"

definition etab :: "u32 \<Rightarrow> u8" where
  "etab i = of_char (base64etab ! unat i)"

text \<open>The size of the buffer, computed in unsigned 32-bit arithmetic.\<close>

definition encoded_length :: "nat \<Rightarrow> nat" where
  "encoded_length len =
     (let n = ((len + 1) * 4) mod 2 ^ 32 div 3;
          n = (n + n mod 3) mod 2 ^ 32
      in (n + (n div 72) * 2 + 3) mod 2 ^ 32)"

definition quad :: "u32 \<Rightarrow> u8 list" where
  "quad bits = [etab (drop_bit 18 bits AND 0x3f), etab (drop_bit 12 bits AND 0x3f),
     etab (drop_bit 6 bits AND 0x3f), etab (bits AND 0x3f)]"

definition enc_tail :: "u32 \<Rightarrow> nat \<Rightarrow> u8 list" where
  "enc_tail bits char_count =
     (if char_count \<noteq> 0 then
        (let bits = push_bit (16 - 8 * char_count) bits in
         [etab (drop_bit 18 bits), etab (drop_bit 12 bits AND 0x3f)] @
         (if char_count = 1 then [0x3D, 0x3D] else [etab (drop_bit 6 bits AND 0x3f), 0x3D]))
      else [])"

fun enc_loop :: "u8 list \<Rightarrow> u32 \<Rightarrow> nat \<Rightarrow> nat \<Rightarrow> u8 list" where
  "enc_loop [] bits char_count cols = enc_tail bits char_count"
| "enc_loop (c # str) bits char_count cols =
     (let bits = bits + ucast c; char_count = char_count + 1 in
      if char_count = 3 then
        quad bits @
        (if cols + 4 = 72 then [0x0D, 0x0A] @ enc_loop str 0 0 0 else enc_loop str 0 0 (cols + 4))
      else enc_loop str (push_bit 8 bits) char_count cols)"

definition NutEncodeBase64 :: "(nat \<Rightarrow> bool) \<Rightarrow> u8 list \<Rightarrow> u8 list option" where
  "NutEncodeBase64 room str =
     (if room (encoded_length (length str)) then Some (enc_loop str 0 0 0) else None)"

definition base64dtab :: "u8 list" where
  "base64dtab = [
    -1, -1, -1, -1, -1, -1, -1, -1, -1, -1, -1, 62, -1, -1, -1, 63,
    52, 53, 54, 55, 56, 57, 58, 59, 60, 61, -1, -1, -1, -1, -1, -1,
    -1,  0,  1,  2,  3,  4,  5,  6,  7,  8,  9, 10, 11, 12, 13, 14,
    15, 16, 17, 18, 19, 20, 21, 22, 23, 24, 25, -1, -1, -1, -1, -1,
    -1, 26, 27, 28, 29, 30, 31, 32, 33, 34, 35, 36, 37, 38, 39, 40,
    41, 42, 43, 44, 45, 46, 47, 48, 49, 50, 51, -1, -1, -1, -1, -1]"

text \<open>What the step writes for a code, and the next step.\<close>

definition dec_step :: "nat \<Rightarrow> u8 \<Rightarrow> u8 \<Rightarrow> u8 list \<times> nat" where
  "dec_step step lst code =
     (if step = 1 then ([push_bit 2 lst OR drop_bit 4 (code AND 0x30)], 2)
      else if step = 2 then ([push_bit 4 (lst AND 0xf) OR drop_bit 2 (code AND 0x3c)], 3)
      else if step = 3 then ([push_bit 6 (lst AND 0x03) OR code], 0)
      else ([], step + 1))"

fun dec_loop :: "u8 list \<Rightarrow> nat \<Rightarrow> u8 \<Rightarrow> u8 list option" where
  "dec_loop [] step lst = Some []"
| "dec_loop (c # sp) step lst =
     (if c < 32 then dec_loop sp step lst
      else if unat c - 32 < length base64dtab then
        (let code = base64dtab ! (unat c - 32) in
         if code = -1 then dec_loop sp step lst
         else case dec_step step lst code of (out, step') \<Rightarrow> map_option ((@) out) (dec_loop sp step' code))
      else None)"

definition NutDecodeBase64 :: "u8 list \<Rightarrow> u8 list option" where
  "NutDecodeBase64 str = dec_loop str 0 (-1)"

section \<open>Codes\<close>

text \<open>Decoding the character of a code gives the code.\<close>

lemma dtab_etab:
  assumes "unat i < 64"
  shows "\<not> etab i < 32" and "unat (etab i) - 32 < length base64dtab" and "base64dtab ! (unat (etab i) - 32) = ucast i"
    and "ucast i \<noteq> (-1 :: u8)"
proof -
  have "\<forall>n \<in> set [0..<64]. \<not> (of_char (base64etab ! n) :: u8) < 32 \<and> unat (of_char (base64etab ! n) :: u8) - 32 < length base64dtab \<and>
      base64dtab ! (unat (of_char (base64etab ! n) :: u8) - 32) = word_of_nat n \<and> word_of_nat n \<noteq> (-1 :: u8)"
    by code_simp
  moreover have "unat i \<in> set [0..<64]" using assms by simp
  moreover have e: "ucast i = (word_of_nat (unat i) :: u8)" by (simp add: unat_ucast_mod word_unat_eq_iff take_bit_eq_mod)
  ultimately show "\<not> etab i < 32" "unat (etab i) - 32 < length base64dtab" "base64dtab ! (unat (etab i) - 32) = ucast i"
    "ucast i \<noteq> (-1 :: u8)"
    unfolding etab_def e by blast+
qed

lemma dec_code:
  assumes "unat i < 64"
  shows "dec_loop (etab i # s) step lst =
    (case dec_step step lst (ucast i) of (out, step') \<Rightarrow> map_option ((@) out) (dec_loop s step' (ucast i)))"
  using dtab_etab [OF assms] by (simp add: Let_def)

lemma code_bound: "unat (w AND 0x3f :: u32) < 64"
proof -
  have "w AND 0x3f \<le> (0x3f::u32)" by (rule word_and_le1)
  then show ?thesis by (simp add: word_le_nat_alt)
qed

lemma dec_skip: "dec_loop (0x3D # s) step lst = dec_loop s step lst" "dec_loop (0x0D # s) step lst = dec_loop s step lst"
  "dec_loop (0x0A # s) step lst = dec_loop s step lst"
  by (simp_all add: base64dtab_def)

text \<open>Three bytes collected in a word.\<close>

definition be24 :: "u8 \<Rightarrow> u8 \<Rightarrow> u8 \<Rightarrow> u32" where
  "be24 a b c = push_bit 8 (push_bit 8 (ucast a) + ucast b) + ucast c"

lemma be24_or: "be24 a b c = push_bit 16 (ucast a) OR push_bit 8 (ucast b) OR ucast c"
proof -
  have "push_bit 8 (ucast a) AND (ucast b :: u32) = 0"
    by (auto simp: bit_eq_iff bit_simps dest!: bit_imp_le_length)
  then have 1: "push_bit 8 (ucast a) + (ucast b :: u32) = push_bit 8 (ucast a) OR ucast b" by (simp add: disjunctive_add_eq_or)
  have "push_bit 8 (push_bit 8 (ucast a) OR ucast b) AND (ucast c :: u32) = 0"
    by (auto simp: bit_eq_iff bit_simps dest!: bit_imp_le_length)
  then show ?thesis unfolding be24_def 1 by (simp add: disjunctive_add_eq_or or.assoc)
qed

lemma bit_be24: "bit (be24 a b c) n = (if n < 8 then bit c n else if n < 16 then bit b (n - 8) else n < 24 \<and> bit a (n - 16))"
  unfolding be24_or by (auto simp: bit_simps dest: bit_imp_le_length)

lemma masks:
  "(0x3f::u32) = mask 6" "(0x30::u8) = push_bit 4 (mask 2)" "(0x3c::u8) = push_bit 2 (mask 4)" "(0xf::u8) = mask 4" "(0x03::u8) = mask 2"
  by (simp_all add: mask_eq_exp_minus_1)

lemma byte_eqI: "(\<And>n. n \<in> {0, 1, 2, 3, 4, 5, 6, 7} \<Longrightarrow> bit a n = bit (b::u8) n) \<Longrightarrow> a = b"
  by (rule bit_word_eqI) (simp add: numeral_eq_Suc less_Suc_eq)

lemma quad_bytes:
  fixes a b c
  defines "w \<equiv> be24 a b c"
  defines "c0 \<equiv> ucast (drop_bit 18 w AND 0x3f) :: u8" and "c1 \<equiv> ucast (drop_bit 12 w AND 0x3f) :: u8"
    and "c2 \<equiv> ucast (drop_bit 6 w AND 0x3f) :: u8" and "c3 \<equiv> ucast (w AND 0x3f) :: u8"
  shows "push_bit 2 c0 OR drop_bit 4 (c1 AND 0x30) = a"
    and "push_bit 4 (c1 AND 0xf) OR drop_bit 2 (c2 AND 0x3c) = b"
    and "push_bit 6 (c2 AND 0x03) OR c3 = c"
  unfolding c0_def c1_def c2_def c3_def w_def masks
  by (rule byte_eqI, elim insertE emptyE; simp add: bit_simps bit_be24 del: push_bit_of_1 push_bit_and)+

text \<open>What is decoded from two, three and four codes.\<close>

lemma dec_codes:
  fixes i0 i1 i2 i3 :: u32
  assumes "unat i0 < 64" and "unat i1 < 64"
  shows "dec_loop (etab i0 # etab i1 # s) 0 lst =
      map_option ((#) (push_bit 2 (ucast i0) OR drop_bit 4 (ucast i1 AND 0x30))) (dec_loop s 2 (ucast i1))"
    and "unat i2 < 64 \<Longrightarrow> dec_loop (etab i2 # s) 2 (ucast i1) =
      map_option ((#) (push_bit 4 (ucast i1 AND 0xf) OR drop_bit 2 (ucast i2 AND 0x3c))) (dec_loop s 3 (ucast i2))"
    and "unat i2 < 64 \<Longrightarrow> unat i3 < 64 \<Longrightarrow> dec_loop (etab i3 # s) 3 (ucast i2) =
      map_option ((#) (push_bit 6 (ucast i2 AND 0x03) OR ucast i3)) (dec_loop s 0 (ucast i3))"
proof -
  have single: "(@) [x] = (#) x" for x :: u8 by (rule ext) simp
  show "dec_loop (etab i0 # etab i1 # s) 0 lst =
      map_option ((#) (push_bit 2 (ucast i0) OR drop_bit 4 (ucast i1 AND 0x30))) (dec_loop s 2 (ucast i1))"
    using assms by (simp add: dec_code dec_step_def option.map_comp o_def single del: dec_loop.simps)
  show "unat i2 < 64 \<Longrightarrow> dec_loop (etab i2 # s) 2 (ucast i1) =
      map_option ((#) (push_bit 4 (ucast i1 AND 0xf) OR drop_bit 2 (ucast i2 AND 0x3c))) (dec_loop s 3 (ucast i2))"
    by (simp add: dec_code dec_step_def single del: dec_loop.simps)
  show "unat i2 < 64 \<Longrightarrow> unat i3 < 64 \<Longrightarrow> dec_loop (etab i3 # s) 3 (ucast i2) =
      map_option ((#) (push_bit 6 (ucast i2 AND 0x03) OR ucast i3)) (dec_loop s 0 (ucast i3))"
    by (simp add: dec_code dec_step_def single del: dec_loop.simps)
qed

lemma dec_quad: "dec_loop (quad (be24 a b c) @ s) 0 lst =
  map_option ((@) [a, b, c]) (dec_loop s 0 (ucast (be24 a b c AND 0x3f)))"
proof -
  have "map_option ((#) x) (map_option ((#) y) (map_option ((#) z) r)) = map_option ((@) [x, y, z]) r"
    for x y z :: u8 and r by (cases r) simp_all
  then show ?thesis
    unfolding quad_def append_Cons append_Nil dec_codes(1) [OF code_bound code_bound] dec_codes(2) [OF code_bound code_bound code_bound]
      dec_codes(3) [OF code_bound code_bound code_bound code_bound] quad_bytes by (simp del: dec_loop.simps)
qed

lemma enc_three: "enc_loop (a # b # c # s) 0 0 cols = quad (be24 a b c) @
   (if cols = 68 then [0x0D, 0x0A] @ enc_loop s 0 0 0 else enc_loop s 0 0 (cols + 4))"
  by (simp add: be24_def numeral_eq_Suc)

lemma be24_top: "drop_bit 18 (be24 a b c) AND 0x3f = drop_bit 18 (be24 a b c)"
  unfolding masks(1) by (rule bit_word_eqI) (auto simp: bit_simps bit_be24 dest: bit_imp_le_length)

lemma enc_one: "enc_loop [a] 0 0 cols = [etab (drop_bit 18 (be24 a 0 0) AND 0x3f), etab (drop_bit 12 (be24 a 0 0) AND 0x3f), 0x3D, 0x3D]"
  unfolding be24_top by (simp add: be24_def enc_tail_def Let_def)

lemma enc_two: "enc_loop [a, b] 0 0 cols = [etab (drop_bit 18 (be24 a b 0) AND 0x3f), etab (drop_bit 12 (be24 a b 0) AND 0x3f),
   etab (drop_bit 6 (be24 a b 0) AND 0x3f), 0x3D]"
  unfolding be24_top by (simp add: be24_def enc_tail_def Let_def)

lemma dec_enc: "dec_loop (enc_loop str 0 0 cols) 0 lst = Some str"
proof (induction str arbitrary: cols lst rule: length_induct)
  case (1 str)
  note IH = this
  consider "str = []" | a where "str = [a]" | a b where "str = [a, b]" | a b c s where "str = a # b # c # s"
    by (cases str; cases "tl str"; cases "tl (tl str)") auto
  then show ?case
  proof cases
    case 1
    then show ?thesis by (simp add: enc_tail_def)
  next
    case (2 a)
    then show ?thesis
      unfolding enc_one 2 dec_codes(1) [OF code_bound code_bound] quad_bytes dec_skip by simp
  next
    case (3 a b)
    then show ?thesis
      unfolding enc_two 3 dec_codes(1) [OF code_bound code_bound] dec_codes(2) [OF code_bound code_bound code_bound]
        quad_bytes dec_skip by simp
  next
    case (4 a b c s)
    have ih: "dec_loop (enc_loop s 0 0 n) 0 l = Some s" for n l using IH 4 by simp
    show ?thesis unfolding 4 enc_three dec_quad using ih by (simp add: dec_skip del: dec_loop.simps enc_loop.simps)
  qed
qed

section \<open>Properties\<close>

text \<open>
  C38: Decoding what the encoder has produced gives the original string, for every string of any
  length, line breaks and padding included.
\<close>

theorem base64_roundtrip:
  assumes "NutEncodeBase64 room str = Some enc"
  shows "NutDecodeBase64 enc = Some str"
  using assms dec_enc by (auto simp: NutEncodeBase64_def NutDecodeBase64_def split: if_splits)

theorem base64_roundtrip_witness:
  "\<exists>enc. NutEncodeBase64 (\<lambda>_. True) [0x4E, 0x75, 0x74, 0xFF] = Some enc \<and> NutDecodeBase64 enc = Some [0x4E, 0x75, 0x74, 0xFF]"
  using base64_roundtrip [of "\<lambda>_. True" "[0x4E, 0x75, 0x74, 0xFF]"] by (simp add: NutEncodeBase64_def)

lemma enc_length:
  "cols < 72 \<Longrightarrow> cols mod 4 = 0 \<Longrightarrow>
   length (enc_loop str 0 0 cols) = 4 * ((length str + 2) div 3) + 2 * ((cols + 4 * (length str div 3)) div 72)"
proof (induction str arbitrary: cols rule: length_induct)
  case (1 str)
  note IH = this
  consider "str = []" | a where "str = [a]" | a b where "str = [a, b]" | a b c s where "str = a # b # c # s"
    by (cases str; cases "tl str"; cases "tl (tl str)") auto
  then show ?case
  proof cases
    case (4 a b c s)
    have ih: "length (enc_loop s 0 0 n) = 4 * ((length s + 2) div 3) + 2 * ((n + 4 * (length s div 3)) div 72)"
      if "n < 72" "n mod 4 = 0" for n using IH 4 that by simp
    have d: "(length str + 2) div 3 = (length s + 2) div 3 + 1" "length str div 3 = length s div 3 + 1" using 4 by simp_all
    show ?thesis
    proof (cases "cols = 68")
      case True
      have "(72 + 4 * k) div 72 = Suc (k div 18)" for k
        using div_mult_mult1 [of 4 "18 + k" "18::nat"] by simp
      then show ?thesis using ih [of 0] d True unfolding 4 enc_three by (simp add: quad_def del: enc_loop.simps)
    next
      case False
      then have "cols + 4 < 72" "(cols + 4) mod 4 = 0" using IH(2,3) by presburger+
      then show ?thesis using ih [of "cols + 4"] False d unfolding 4 enc_three
        by (simp add: quad_def add.assoc del: enc_loop.simps)
    qed
  qed (use IH(2) in \<open>auto simp: enc_tail_def enc_one enc_two simp del: enc_loop.simps(2)\<close>)
qed

text \<open>
  The buffer the encoder asks for is large enough for the encoded text with its line breaks,
  padding and terminating zero; the size does not wrap around for strings below 768 MB.
\<close>

theorem base64_fits:
  assumes "NutEncodeBase64 room str = Some enc" and "length str < 805306368"
  shows "length enc + 1 \<le> encoded_length (length str)"
proof -
  let ?l = "length str"
  have e: "length enc = 4 * ((?l + 2) div 3) + 2 * ((4 * (?l div 3)) div 72)"
    using assms(1) enc_length [of 0 str] by (auto simp: NutEncodeBase64_def split: if_splits)
  define n where "n = (?l + 1) * 4 div 3"
  have n: "n \<le> 1073741824" using assms(2) by (simp add: n_def)
  have "n mod 3 < 3" by simp
  define m where "m = n + n mod 3"
  have m: "m \<le> 1073741826" using n \<open>n mod 3 < 3\<close> by (simp add: m_def)
  have "m div 72 * 2 \<le> m" by simp
  then have b: "(m + m div 72 * 2 + 3) mod 2 ^ 32 = m + m div 72 * 2 + 3" using m by simp
  have 1: "((?l + 1) * 4) mod 2 ^ 32 div 3 = n" using assms(2) by (simp add: n_def)
  have 2: "(n + n mod 3) mod 2 ^ 32 = m" using m by (simp add: m_def)
  have "encoded_length ?l = m + m div 72 * 2 + 3" unfolding encoded_length_def 1 Let_def 2 b ..
  moreover have "4 * ((?l + 2) div 3) + 2 * ((4 * (?l div 3)) div 72) \<le> m + m div 72 * 2 + 2"
  proof -
    obtain k r where l: "?l = 3 * k + r" "r < 3" using mult_div_mod_eq [of 3 ?l] mod_less_divisor [of 3 ?l] by (metis zero_less_numeral)
    from l(2) consider "r = 0" | "r = 1" | "r = 2" by linarith
    then have "4 * ((?l + 2) div 3) \<le> n + 2 \<and> 4 * (?l div 3) \<le> n"
      unfolding n_def l by cases (simp_all, presburger+)
    then have c: "4 * ((?l + 2) div 3) \<le> m + 2" "4 * (?l div 3) \<le> m" unfolding m_def by simp_all
    from div_le_mono [OF c(2), of 72] c(1) show ?thesis by linarith
  qed
  ultimately show ?thesis using e by simp
qed

theorem base64_fits_witness:
  "length (enc_loop [0x4E, 0x75, 0x74, 0xFF] 0 0 0) + 1 \<le> encoded_length (length [0x4E::u8, 0x75, 0x74, 0xFF])"
proof -
  have "NutEncodeBase64 (\<lambda>_. True) [0x4E, 0x75, 0x74, 0xFF] = Some (enc_loop [0x4E, 0x75, 0x74, 0xFF] 0 0 0)"
    by (simp add: NutEncodeBase64_def)
  from base64_fits [OF this] show ?thesis by simp
qed

text \<open>A byte above 127 indexes the decoding table out of range when \<^verbatim>\<open>char\<close> is unsigned.\<close>

lemma decode_out_of_table: "NutDecodeBase64 [0x80] = None"
  by code_simp

end
