(* ===== verification/Nut_Ppp.thy ===== *)
theory Nut_Ppp
  imports Nut_Bytes "HOL-Library.Monad_Syntax"
begin

text \<open>
  The control protocols of PPP: the state machines of LCP and IPCP with their timeouts
  (\<^verbatim>\<open>net/pppsm.c\<close>), the packets they send (\<^verbatim>\<open>net/lcpout.c\<close>, \<^verbatim>\<open>net/ipcpout.c\<close>, \<^verbatim>\<open>net/papout.c\<close>) and
  PAP (\<^verbatim>\<open>net/papin.c\<close>). The state is the device control block; what is sent, the events posted to
  waiting threads and the requests to the line driver are appended to a trace. The number of
  network buffers in use is counted, and \<open>netbuf_avail\<close> tells whether new ones can be allocated:
  an output function releases the buffer it is given in any case. The machine is little endian.
\<close>

unbundle bit_operations_syntax

section \<open>State\<close>

datatype ppps = PPPS_INITIAL | PPPS_STARTING | PPPS_CLOSED | PPPS_STOPPED | PPPS_CLOSING | PPPS_STOPPING
  | PPPS_REQSENT | PPPS_ACKRCVD | PPPS_ACKSENT | PPPS_OPENED

datatype papcs = PAPCS_INITIAL | PAPCS_CLOSED | PAPCS_PENDING | PAPCS_AUTHREQ | PAPCS_OPEN | PAPCS_BADAUTH

datatype proto = PPP_LCP | PPP_IPCP | PPP_PAP

datatype xcp_code = XCP_CONFREQ | XCP_CONFACK | XCP_CONFNAK | XCP_CONFREJ | XCP_TERMREQ | XCP_TERMACK | XCP_CODEREJ
  | LCP_PROTREJ | LCP_ERQ | LCP_ERP | LCP_DRQ

datatype action = Send proto xcp_code u8 "u8 list" | StateChg | SetTxAccm u32 | ResetIfNet

record PPPDCB =
  dcb_lcp_state :: ppps
  dcb_reqid :: u8
  dcb_rejid :: u8
  dcb_acked :: bool
  dcb_loc_mru :: u16
  dcb_rem_mru :: u16
  dcb_accm :: u32
  dcb_compr :: u8
  dcb_auth :: u16
  dcb_neg_magic :: u32
  dcb_loc_magic :: u32
  dcb_rem_magic :: u32
  dcb_user :: "u8 list option"
  dcb_pass :: "u8 list option"
  dcb_local_ip :: u32
  dcb_remote_ip :: u32
  dcb_ip_dns1 :: u32
  dcb_ip_dns2 :: u32
  dcb_rejects :: u32
  dcb_retries :: u8
  dcb_lcp_naks :: u8
  dcb_ipcp_state :: ppps
  dcb_ipcp_naks :: u8
  dcb_auth_state :: papcs

record ppp = PPPDCB +
  new_magic :: u32
  netbuf_avail :: bool
  netbufs :: int
  trace :: "action list"

definition emit :: "action \<Rightarrow> ppp \<Rightarrow> ppp" where
  "emit a p = p\<lparr>trace := trace p @ [a]\<rparr>"

definition NutNetBufFree :: "ppp \<Rightarrow> ppp" where
  "NutNetBufFree p = p\<lparr>netbufs := netbufs p - 1\<rparr>"

definition next_reqid :: "ppp \<Rightarrow> ppp" where
  "next_reqid p = p\<lparr>dcb_reqid := dcb_reqid p + 1\<rparr>"

text \<open>
  Sending a packet: with the given payload, whose buffer is released, or with an empty one in a
  new buffer. Without memory nothing is sent.
\<close>

definition xcp_output :: "proto \<Rightarrow> xcp_code \<Rightarrow> u8 \<Rightarrow> u8 list option \<Rightarrow> ppp \<Rightarrow> ppp" where
  "xcp_output pr code xid nb p =
     (let p1 = (if netbuf_avail p then emit (Send pr code xid (case nb of None \<Rightarrow> [] | Some pl \<Rightarrow> pl)) p else p)
      in (case nb of None \<Rightarrow> p1 | Some _ \<Rightarrow> NutNetBufFree p1))"

definition NutLcpOutput :: "xcp_code \<Rightarrow> u8 \<Rightarrow> u8 list option \<Rightarrow> ppp \<Rightarrow> ppp" where
  "NutLcpOutput = xcp_output PPP_LCP"

definition NutIpcpOutput :: "xcp_code \<Rightarrow> u8 \<Rightarrow> u8 list option \<Rightarrow> ppp \<Rightarrow> ppp" where
  "NutIpcpOutput = xcp_output PPP_IPCP"

definition NutPapOutput :: "xcp_code \<Rightarrow> u8 \<Rightarrow> u8 list option \<Rightarrow> ppp \<Rightarrow> ppp" where
  "NutPapOutput = xcp_output PPP_PAP"

text \<open>A new buffer for a packet, filled and sent, if there is memory for it.\<close>

definition NutNetBufAlloc :: "ppp \<Rightarrow> ppp" where
  "NutNetBufAlloc p = p\<lparr>netbufs := netbufs p + 1\<rparr>"

section \<open>Output\<close>

definition negotiating :: "ppps \<Rightarrow> bool" where
  "negotiating s \<longleftrightarrow> s = PPPS_REQSENT \<or> s = PPPS_ACKRCVD \<or> s = PPPS_ACKSENT"

definition nonempty :: "u8 list option \<Rightarrow> bool" where
  "nonempty s \<longleftrightarrow> (case s of Some (c # _) \<Rightarrow> True | _ \<Rightarrow> False)"

definition LcpResetOptions :: "ppp \<Rightarrow> ppp" where
  "LcpResetOptions p =
     emit (SetTxAccm 0xFFFFFFFF)
       (p\<lparr>dcb_compr := 0,
          dcb_auth := (if nonempty (dcb_user p) \<or> nonempty (dcb_pass p) then 0xC023 else 0),
          dcb_neg_magic := new_magic p, dcb_loc_magic := 0, dcb_rem_magic := 0,
          dcb_accm := 0xFFFFFFFF, dcb_loc_mru := 1500\<rparr>)"

text \<open>\<^verbatim>\<open>LCP_DEFOPT_ASYNCMAP\<close> in network byte order.\<close>

definition lcp_options :: "bool \<Rightarrow> ppp \<Rightarrow> u8 list" where
  "lcp_options rejected p =
     [2, 6, 0x00, 0x0A, 0x00, 0x00] @ (if rejected then [] else [5, 6] @ le_bytes32 (dcb_neg_magic p))"

definition LcpTxConfReq :: "u8 \<Rightarrow> bool \<Rightarrow> ppp \<Rightarrow> ppp" where
  "LcpTxConfReq xid rejected p =
     (let p1 = (if negotiating (dcb_lcp_state p) then p else (LcpResetOptions p)\<lparr>dcb_lcp_naks := 0\<rparr>);
          p2 = p1\<lparr>dcb_acked := False, dcb_retries := 0\<rparr>
      in if netbuf_avail p2 then NutLcpOutput XCP_CONFREQ xid (Some (lcp_options rejected p2)) (NutNetBufAlloc p2)
         else p2)"

text \<open>The rejected packet, of at least two bytes, starts at its network part; its last two bytes do not fit.\<close>

definition LcpTxProtRej :: "u16 \<Rightarrow> u8 list \<Rightarrow> ppp \<Rightarrow> ppp" where
  "LcpTxProtRej protocol nw p =
     (if netbuf_avail p then
        (let p1 = (NutNetBufFree (NutNetBufAlloc p))\<lparr>dcb_rejid := dcb_rejid p + 1\<rparr>
         in NutLcpOutput LCP_PROTREJ (dcb_rejid p1)
              (Some ([ucast (drop_bit 8 protocol), ucast protocol] @ take (length nw - 2) nw)) p1)
      else NutNetBufFree p)"

definition REJ_IPCP_DNS1 :: u32 where
  "REJ_IPCP_DNS1 = 0x100"

definition REJ_IPCP_DNS2 :: u32 where
  "REJ_IPCP_DNS2 = 0x200"

definition ipcp_options :: "ppp \<Rightarrow> u8 list" where
  "ipcp_options p =
     [3, 6] @ le_bytes32 (dcb_local_ip p) @
     (if dcb_rejects p AND REJ_IPCP_DNS1 = 0 then [129, 6] @ le_bytes32 (dcb_ip_dns1 p) else []) @
     (if dcb_rejects p AND REJ_IPCP_DNS2 = 0 then [131, 6] @ le_bytes32 (dcb_ip_dns2 p) else [])"

definition IpcpTxConfReq :: "u8 \<Rightarrow> ppp \<Rightarrow> ppp" where
  "IpcpTxConfReq xid p =
     (let p1 = (if negotiating (dcb_ipcp_state p) then p else p\<lparr>dcb_ipcp_naks := 0\<rparr>);
          p2 = p1\<lparr>dcb_acked := False\<rparr>
      in if netbuf_avail p2 then NutIpcpOutput XCP_CONFREQ xid (Some (ipcp_options p2)) (NutNetBufAlloc p2)
         else p2)"

text \<open>
  The name and the password, each with its length, for strings of less than 128 characters (the length
  is stored in a char).
\<close>

definition pap_field :: "u8 list option \<Rightarrow> u8 list" where
  "pap_field s = (case s of None \<Rightarrow> [0] | Some u \<Rightarrow> word_of_nat (length u) # u)"

definition PapTxAuthReq :: "u8 \<Rightarrow> ppp \<Rightarrow> ppp" where
  "PapTxAuthReq xid p =
     (if netbuf_avail p then
        (let p1 = next_reqid ((NutNetBufAlloc p)\<lparr>dcb_auth_state := PAPCS_AUTHREQ\<rparr>)
         in NutPapOutput XCP_CONFREQ (dcb_reqid p1) (Some (pap_field (dcb_user p) @ pap_field (dcb_pass p))) p1)
      else p)"

section \<open>Events of the layers\<close>

text \<open>Sending a configuration request with a new identifier.\<close>

definition LcpNewReq :: "bool \<Rightarrow> ppp \<Rightarrow> ppp" where
  "LcpNewReq rejected p = (let p1 = next_reqid p in LcpTxConfReq (dcb_reqid p1) rejected p1)"

definition IpcpNewReq :: "ppp \<Rightarrow> ppp" where
  "IpcpNewReq p = (let p1 = next_reqid p in IpcpTxConfReq (dcb_reqid p1) p1)"

definition LcpOpen :: "ppp \<Rightarrow> ppp" where
  "LcpOpen p =
     (case dcb_lcp_state p of
        PPPS_INITIAL \<Rightarrow> p\<lparr>dcb_lcp_state := PPPS_STARTING\<rparr>
      | PPPS_CLOSED \<Rightarrow> (LcpNewReq False p)\<lparr>dcb_lcp_state := PPPS_REQSENT\<rparr>
      | PPPS_CLOSING \<Rightarrow> p\<lparr>dcb_lcp_state := PPPS_STOPPING\<rparr>
      | _ \<Rightarrow> p)"

definition IpcpOpen :: "ppp \<Rightarrow> ppp" where
  "IpcpOpen p =
     (case dcb_ipcp_state p of
        PPPS_INITIAL \<Rightarrow> LcpOpen (p\<lparr>dcb_ipcp_state := PPPS_STARTING\<rparr>)
      | PPPS_CLOSED \<Rightarrow> (IpcpNewReq p)\<lparr>dcb_ipcp_state := PPPS_REQSENT\<rparr>
      | PPPS_CLOSING \<Rightarrow> p\<lparr>dcb_ipcp_state := PPPS_STOPPING\<rparr>
      | _ \<Rightarrow> p)"

definition IpcpClose :: "ppp \<Rightarrow> ppp" where
  "IpcpClose p =
     (case dcb_ipcp_state p of
        PPPS_STARTING \<Rightarrow> p\<lparr>dcb_ipcp_state := PPPS_INITIAL\<rparr>
      | PPPS_STOPPED \<Rightarrow> p\<lparr>dcb_ipcp_state := PPPS_CLOSED\<rparr>
      | PPPS_STOPPING \<Rightarrow> p\<lparr>dcb_ipcp_state := PPPS_CLOSING\<rparr>
      | s \<Rightarrow> if negotiating s \<or> s = PPPS_OPENED
             then emit StateChg ((NutIpcpOutput XCP_TERMREQ (dcb_reqid p) None p)\<lparr>dcb_ipcp_state := PPPS_CLOSING\<rparr>)
             else p)"

definition IpcpLowerUp :: "ppp \<Rightarrow> ppp" where
  "IpcpLowerUp p =
     (case dcb_ipcp_state p of
        PPPS_INITIAL \<Rightarrow> p\<lparr>dcb_ipcp_state := PPPS_CLOSED\<rparr>
      | PPPS_STARTING \<Rightarrow> (IpcpNewReq p)\<lparr>dcb_ipcp_state := PPPS_REQSENT\<rparr>
      | _ \<Rightarrow> p)"

definition IpcpLowerDown :: "ppp \<Rightarrow> ppp" where
  "IpcpLowerDown p =
     (case dcb_ipcp_state p of
        PPPS_CLOSED \<Rightarrow> emit ResetIfNet (p\<lparr>dcb_ipcp_state := PPPS_INITIAL\<rparr>)
      | PPPS_STOPPED \<Rightarrow> p\<lparr>dcb_ipcp_state := PPPS_STARTING\<rparr>
      | PPPS_CLOSING \<Rightarrow> p\<lparr>dcb_ipcp_state := PPPS_INITIAL\<rparr>
      | PPPS_OPENED \<Rightarrow> emit StateChg (p\<lparr>dcb_ipcp_state := PPPS_STARTING\<rparr>)
      | s \<Rightarrow> if negotiating s \<or> s = PPPS_STOPPING then p\<lparr>dcb_ipcp_state := PPPS_STARTING\<rparr> else p)"

definition LcpClose :: "ppp \<Rightarrow> ppp" where
  "LcpClose p =
     (case dcb_lcp_state p of
        PPPS_STARTING \<Rightarrow> p\<lparr>dcb_lcp_state := PPPS_INITIAL\<rparr>
      | PPPS_STOPPED \<Rightarrow> p\<lparr>dcb_lcp_state := PPPS_CLOSED\<rparr>
      | PPPS_STOPPING \<Rightarrow> p\<lparr>dcb_lcp_state := PPPS_CLOSING\<rparr>
      | s \<Rightarrow> if negotiating s \<or> s = PPPS_OPENED
             then (let p1 = IpcpLowerDown (p\<lparr>dcb_lcp_state := PPPS_CLOSING\<rparr>) in NutLcpOutput XCP_TERMREQ (dcb_reqid p1) None p1)
             else p)"

definition LcpLowerUp :: "ppp \<Rightarrow> ppp" where
  "LcpLowerUp p =
     (case dcb_lcp_state p of
        PPPS_INITIAL \<Rightarrow> p\<lparr>dcb_lcp_state := PPPS_CLOSED\<rparr>
      | PPPS_STARTING \<Rightarrow> (LcpNewReq False p)\<lparr>dcb_lcp_state := PPPS_REQSENT\<rparr>
      | _ \<Rightarrow> p)"

definition LcpLowerDown :: "ppp \<Rightarrow> ppp" where
  "LcpLowerDown p =
     (case dcb_lcp_state p of
        PPPS_CLOSED \<Rightarrow> p\<lparr>dcb_lcp_state := PPPS_INITIAL\<rparr>
      | PPPS_STOPPED \<Rightarrow> p\<lparr>dcb_lcp_state := PPPS_STARTING\<rparr>
      | PPPS_CLOSING \<Rightarrow> p\<lparr>dcb_lcp_state := PPPS_INITIAL\<rparr>
      | PPPS_OPENED \<Rightarrow> (IpcpLowerDown p)\<lparr>dcb_lcp_state := PPPS_STARTING\<rparr>
      | s \<Rightarrow> if negotiating s \<or> s = PPPS_STOPPING then p\<lparr>dcb_lcp_state := PPPS_STARTING\<rparr> else p)"

section \<open>Timeouts\<close>

definition lcp_timeout :: "u8 \<Rightarrow> ppp \<Rightarrow> ppp" where
  "lcp_timeout retries p =
     (let s = dcb_lcp_state p in
      if s = PPPS_CLOSING \<or> s = PPPS_STOPPING then
        (if retries < 9
         then (if retries \<noteq> 0 then NutLcpOutput XCP_TERMREQ (dcb_reqid p) None p else p)\<lparr>dcb_retries := retries + 1\<rparr>
         else p\<lparr>dcb_lcp_state := (if s = PPPS_CLOSING then PPPS_CLOSED else PPPS_STOPPED)\<rparr>)
      else if s = PPPS_REQSENT \<or> s = PPPS_ACKSENT then
        (if retries < 9
         then (if retries \<noteq> 0 then LcpTxConfReq (dcb_reqid p) False p else p)\<lparr>dcb_retries := retries + 1\<rparr>
         else p\<lparr>dcb_lcp_state := PPPS_STOPPED\<rparr>)
      else p)"

definition auth_timeout :: "u8 \<Rightarrow> ppp \<Rightarrow> ppp" where
  "auth_timeout retries p =
     (if dcb_auth_state p = PAPCS_AUTHREQ then
        (if retries < 9
         then (if retries \<noteq> 0 then PapTxAuthReq (dcb_reqid p) p else p)\<lparr>dcb_retries := retries + 1\<rparr>
         else p\<lparr>dcb_lcp_state := PPPS_STOPPED\<rparr>)
      else p)"

definition ipcp_timeout :: "u8 \<Rightarrow> ppp \<Rightarrow> ppp" where
  "ipcp_timeout retries p =
     (let s = dcb_ipcp_state p in
      if s = PPPS_CLOSING \<or> s = PPPS_STOPPING then
        (if retries < 9
         then (if retries \<noteq> 0 then NutIpcpOutput XCP_TERMREQ (dcb_reqid p) None p else p)\<lparr>dcb_retries := retries + 1\<rparr>
         else p\<lparr>dcb_ipcp_state := (if s = PPPS_CLOSING then PPPS_CLOSED else PPPS_STOPPED)\<rparr>)
      else if s = PPPS_REQSENT \<or> s = PPPS_ACKSENT then
        (if retries < 9
         then (if retries \<noteq> 0 then IpcpTxConfReq (dcb_reqid p) p else p)\<lparr>dcb_retries := retries + 1\<rparr>
         else p\<lparr>dcb_ipcp_state := PPPS_STOPPED\<rparr>)
      else p)"

text \<open>One round of the timeout thread, after it has slept for five seconds.\<close>

definition NutPppSm :: "ppp \<Rightarrow> ppp" where
  "NutPppSm p =
     (let p1 = p\<lparr>new_magic := new_magic p + 1\<rparr>; retries = dcb_retries p1
      in ipcp_timeout retries (auth_timeout retries (lcp_timeout retries p1)))"

end
