(* ===== verification/Nut_Ppp_In.thy ===== *)
theory Nut_Ppp_In
  imports Nut_Ppp
begin

text \<open>
  The packets that LCP, IPCP and PAP receive (\<^verbatim>\<open>net/lcpin.c\<close>, \<^verbatim>\<open>net/ipcpin.c\<close>, \<^verbatim>\<open>net/papin.c\<close>). The
  application part of the incoming buffer is a list of bytes that the handlers read and, when they
  compose a reject or a nak, overwrite in place; \<open>sz\<close> is its size. A read or write outside the
  buffer, and a loop that does not end, is \<open>None\<close>. Offsets into the buffer take the place of the
  pointers \<^verbatim>\<open>xcpo\<close> and \<^verbatim>\<open>xcpr\<close>; sizes are 16-bit values that wrap around.
\<close>

unbundle bit_operations_syntax

section \<open>Options in a buffer\<close>

definition rd :: "u8 list \<Rightarrow> nat \<Rightarrow> u8 option" where
  "rd b i = (if i < length b then Some (b ! i) else None)"

definition wr :: "nat \<Rightarrow> u8 \<Rightarrow> u8 list \<Rightarrow> u8 list option" where
  "wr i v b = (if i < length b then Some (b[i := v]) else None)"

fun wrs :: "nat \<Rightarrow> u8 list \<Rightarrow> u8 list \<Rightarrow> u8 list option" where
  "wrs i [] b = Some b"
| "wrs i (v # vs) b = do { b' \<leftarrow> wr i v b; wrs (i + 1) vs b' }"

text \<open>The 16-bit value of an option in network byte order, and its 32-bit value as it is in memory.\<close>

definition rd_us :: "u8 list \<Rightarrow> nat \<Rightarrow> u16 option" where
  "rd_us b xcpo = do { h \<leftarrow> rd b (xcpo + 2); l \<leftarrow> rd b (xcpo + 3); Some (push_bit 8 (ucast h) OR ucast l) }"

definition rd_ul :: "u8 list \<Rightarrow> nat \<Rightarrow> u32 option" where
  "rd_ul b xcpo = do { w0 \<leftarrow> rd b (xcpo + 2); w1 \<leftarrow> rd b (xcpo + 3); w2 \<leftarrow> rd b (xcpo + 4); w3 \<leftarrow> rd b (xcpo + 5);
     Some (le32 w0 w1 w2 w3) }"

definition ntohl :: "u32 \<Rightarrow> u32" where
  "ntohl w = le32 (ucast (drop_bit 24 w)) (ucast (drop_bit 16 w)) (ucast (drop_bit 8 w)) (ucast w)"

text \<open>Copying the data bytes of an option towards the front, one after the other.\<close>

fun copy_data :: "nat \<Rightarrow> nat \<Rightarrow> nat \<Rightarrow> u8 list \<Rightarrow> u8 list option" where
  "copy_data 0 dst src b = Some b"
| "copy_data (Suc n) dst src b = do { v \<leftarrow> rd b src; b' \<leftarrow> wr dst v b; copy_data n (dst + 1) (src + 1) b' }"

text \<open>An option that is rejected is moved to the front, unless it is already there.\<close>

definition reject_option :: "nat \<Rightarrow> nat \<Rightarrow> u16 \<Rightarrow> u8 list \<Rightarrow> u8 list option" where
  "reject_option xcpo xcpr len b =
     (if xcpr \<noteq> xcpo then
        do { ty \<leftarrow> rd b xcpo;
             b \<leftarrow> wr xcpr ty b;
             b \<leftarrow> wr (xcpr + 1) (ucast len) b;
             copy_data (unat len - 2) (xcpr + 2) (xcpo + 2) b }
      else Some b)"

text \<open>
  The first loop over the options of a configuration request. \<open>judge\<close> gives the length of an
  option that is rejected, and 0 for one that is not.
\<close>

partial_function (option) reject_loop ::
    "(u8 list \<Rightarrow> nat \<Rightarrow> u16 option) \<Rightarrow> nat \<Rightarrow> u16 \<Rightarrow> nat \<Rightarrow> u16 \<Rightarrow> u8 list \<Rightarrow> (u16 \<times> u8 list) option" where
  "reject_loop judge xcpo xcpl xcpr xcps b =
     (if xcpl \<ge> 2 then
        do { l \<leftarrow> rd b (xcpo + 1);
             len \<leftarrow> (if ucast l > xcpl then Some xcpl else judge b xcpo);
             b' \<leftarrow> (if len \<noteq> 0 then reject_option xcpo xcpr len b else Some b);
             l' \<leftarrow> rd b' (xcpo + 1);
             reject_loop judge (xcpo + unat l') (xcpl - ucast l') (xcpr + unat len) (xcps + len) b' }
      else Some (xcps, b))"

section \<open>LCP\<close>

definition lcp_judge :: "u8 list \<Rightarrow> nat \<Rightarrow> u16 option" where
  "lcp_judge b xcpo =
     do { ty \<leftarrow> rd b xcpo; l \<leftarrow> rd b (xcpo + 1);
          Some (if ty = 1 \<and> l = 4 \<or> (ty = 5 \<or> ty = 2) \<and> l = 6 \<or> ty = 3 \<and> l \<ge> 4 then 0 else ucast l) }"

text \<open>
  One option of the second loop: the length of the answer if the value is not acceptable (with the
  value to be suggested written into it), the buffer and the control block.
\<close>

definition lcp_negotiate :: "nat \<Rightarrow> nat \<Rightarrow> u8 list \<Rightarrow> ppp \<Rightarrow> (u16 \<times> u8 list \<times> ppp) option" where
  "lcp_negotiate xcpo xcpr b p =
     do { ty \<leftarrow> rd b xcpo;
          (if ty = 1 then
             do { sval \<leftarrow> rd_us b xcpo;
                  (if sval < 128 then do { b' \<leftarrow> wrs (xcpr + 2) [0, 128] b; Some (4, b', p) }
                   else Some (0, b, p\<lparr>dcb_rem_mru := sval\<rparr>)) }
           else if ty = 2 then
             do { ul \<leftarrow> rd_ul b xcpo; Some (0, b, p\<lparr>dcb_accm := ntohl ul\<rparr>) }
           else if ty = 3 then
             do { us \<leftarrow> rd_us b xcpo;
                  (if us \<noteq> 0xC023 then do { b' \<leftarrow> wrs (xcpr + 2) [0xC0, 0x23] b; Some (4, b', p) }
                   else Some (0, b, p)) }
           else if ty = 5 then
             do { ul \<leftarrow> rd_ul b xcpo;
                  (if ul = dcb_loc_magic p \<or> ul = dcb_neg_magic p then
                     do { b' \<leftarrow> wrs (xcpr + 2) (le_bytes32 (new_magic p)) b; Some (6, b', p\<lparr>dcb_rem_magic := new_magic p\<rparr>) }
                   else Some (0, b, p)) }
           else if ty = 7 then Some (0, b, p\<lparr>dcb_compr := dcb_compr p OR 1\<rparr>)
           else if ty = 8 then Some (0, b, p\<lparr>dcb_compr := dcb_compr p OR 2\<rparr>)
           else Some (0, b, p)) }"

definition nak_header :: "nat \<Rightarrow> nat \<Rightarrow> u16 \<Rightarrow> u8 list \<Rightarrow> u8 list option" where
  "nak_header xcpo xcpr len b =
     (if len \<noteq> 0 \<and> xcpr \<noteq> xcpo then do { ty \<leftarrow> rd b xcpo; wrs xcpr [ty, ucast len] b } else Some b)"

partial_function (option) lcp_nak_loop ::
    "nat \<Rightarrow> u16 \<Rightarrow> nat \<Rightarrow> u16 \<Rightarrow> u8 list \<Rightarrow> ppp \<Rightarrow> (u16 \<times> u8 list \<times> ppp) option" where
  "lcp_nak_loop xcpo xcpl xcpr xcps b p =
     (if xcpl \<ge> 2 then
        do { (len, b1, p1) \<leftarrow> lcp_negotiate xcpo xcpr b p;
             b2 \<leftarrow> nak_header xcpo xcpr len b1;
             l \<leftarrow> rd b2 (xcpo + 1);
             lcp_nak_loop (xcpo + unat l) (xcpl - ucast l) (xcpr + unat len) (xcps + len) b2 p1 }
      else Some (xcps, b, p))"

text \<open>What follows when both sides have agreed.\<close>

definition lcp_opened :: "ppp \<Rightarrow> ppp" where
  "lcp_opened p =
     (let p1 = emit (SetTxAccm (dcb_accm p)) (p\<lparr>dcb_lcp_state := PPPS_OPENED\<rparr>)
      in if dcb_auth p1 = 0xC023 then (let p2 = next_reqid p1 in PapTxAuthReq (dcb_reqid p2) p2) else IpcpLowerUp p1)"

definition lcp_answer :: "xcp_code \<Rightarrow> u8 \<Rightarrow> u8 list \<Rightarrow> ppp \<Rightarrow> ppp" where
  "lcp_answer rc xid pl p =
     (let p1 = NutLcpOutput rc xid (Some pl) p in
      if rc = XCP_CONFACK then
        (if dcb_lcp_state p1 = PPPS_ACKRCVD then lcp_opened p1 else p1\<lparr>dcb_lcp_state := PPPS_ACKSENT\<rparr>)\<lparr>dcb_lcp_naks := 0\<rparr>
      else if dcb_lcp_state p1 \<noteq> PPPS_ACKRCVD then p1\<lparr>dcb_lcp_state := PPPS_REQSENT\<rparr> else p1)"

definition lcp_options_in :: "u8 \<Rightarrow> u8 list \<Rightarrow> u16 \<Rightarrow> ppp \<Rightarrow> ppp option" where
  "lcp_options_in xid b sz p =
     do { (xcps, b1) \<leftarrow> reject_loop lcp_judge 0 sz 0 0 b;
          (if xcps \<noteq> 0 then Some (lcp_answer XCP_CONFREJ xid (take (unat xcps) b1) p)
           else do { (xcps, b2, p1) \<leftarrow> lcp_nak_loop 0 sz 0 0 b1 p;
                     Some (if xcps \<noteq> 0 then lcp_answer XCP_CONFNAK xid (take (unat xcps) b2) p1
                           else lcp_answer XCP_CONFACK xid (take (unat sz) b2) p1) }) }"

definition LcpRxConfReq :: "u8 \<Rightarrow> u8 list \<Rightarrow> u16 \<Rightarrow> ppp \<Rightarrow> ppp option" where
  "LcpRxConfReq xid b sz p =
     (case dcb_lcp_state p of
        PPPS_CLOSED \<Rightarrow> Some (NutLcpOutput XCP_TERMACK xid None (NutNetBufFree p))
      | PPPS_CLOSING \<Rightarrow> Some (NutNetBufFree p)
      | PPPS_STOPPING \<Rightarrow> Some (NutNetBufFree p)
      | PPPS_OPENED \<Rightarrow> lcp_options_in xid b sz (LcpNewReq False (IpcpLowerDown p))
      | PPPS_STOPPED \<Rightarrow> lcp_options_in xid b sz ((LcpNewReq False p)\<lparr>dcb_lcp_state := PPPS_REQSENT\<rparr>)
      | _ \<Rightarrow> lcp_options_in xid b sz p)"

definition lcp_check_ack :: "nat \<Rightarrow> u8 list \<Rightarrow> ppp \<Rightarrow> ppp option" where
  "lcp_check_ack xcpo b p =
     do { ty \<leftarrow> rd b xcpo;
          (if ty = 1 then do { us \<leftarrow> rd_us b xcpo; Some (if us \<noteq> 1500 then p\<lparr>dcb_acked := False\<rparr> else p) }
           else if ty = 3 then do { us \<leftarrow> rd_us b xcpo; Some (if us \<noteq> dcb_auth p then p\<lparr>dcb_acked := False\<rparr> else p) }
           else if ty = 5 then
             do { ul \<leftarrow> rd_ul b xcpo;
                  Some (if ul = dcb_neg_magic p then p\<lparr>dcb_loc_magic := dcb_neg_magic p\<rparr> else p\<lparr>dcb_acked := False\<rparr>) }
           else if ty = 7 \<or> ty = 8 then Some (p\<lparr>dcb_acked := False\<rparr>)
           else Some p) }"

partial_function (option) option_loop ::
    "(nat \<Rightarrow> u8 list \<Rightarrow> ppp \<Rightarrow> ppp option) \<Rightarrow> nat \<Rightarrow> u16 \<Rightarrow> u8 list \<Rightarrow> ppp \<Rightarrow> ppp option" where
  "option_loop f xcpo xcpl b p =
     (if xcpl \<ge> 2 then
        do { p1 \<leftarrow> f xcpo b p;
             l \<leftarrow> rd b (xcpo + 1);
             option_loop f (xcpo + unat l) (xcpl - ucast l) b p1 }
      else Some p)"

definition lcp_acked :: "u8 \<Rightarrow> ppp \<Rightarrow> ppp" where
  "lcp_acked xid p =
     (case dcb_lcp_state p of
        PPPS_CLOSED \<Rightarrow> NutLcpOutput XCP_TERMACK xid None p
      | PPPS_STOPPED \<Rightarrow> NutLcpOutput XCP_TERMACK xid None p
      | PPPS_REQSENT \<Rightarrow> p\<lparr>dcb_lcp_state := PPPS_ACKRCVD, dcb_retries := 0\<rparr>
      | PPPS_ACKRCVD \<Rightarrow> (LcpNewReq False p)\<lparr>dcb_lcp_state := PPPS_REQSENT\<rparr>
      | PPPS_ACKSENT \<Rightarrow> lcp_opened p
      | PPPS_OPENED \<Rightarrow> (LcpNewReq False (IpcpLowerDown p))\<lparr>dcb_lcp_state := PPPS_REQSENT\<rparr>
      | _ \<Rightarrow> p)"

definition LcpRxConfAck :: "u8 \<Rightarrow> u8 list \<Rightarrow> u16 \<Rightarrow> ppp \<Rightarrow> ppp option" where
  "LcpRxConfAck xid b sz p =
     do { p1 \<leftarrow> (if xid = dcb_reqid p \<and> \<not> dcb_acked p
                 then option_loop lcp_check_ack 0 sz b (p\<lparr>dcb_acked := True\<rparr>) else Some p);
          let p2 = NutNetBufFree p1;
          Some (if \<not> dcb_acked p2 then p2 else lcp_acked xid p2) }"

definition LcpRxConfNakRej :: "u8 \<Rightarrow> u8 list \<Rightarrow> u16 \<Rightarrow> bool \<Rightarrow> ppp \<Rightarrow> ppp option" where
  "LcpRxConfNakRej xid b sz rejected p =
     (if xid \<noteq> dcb_reqid p \<or> dcb_acked p then Some (NutNetBufFree p)
      else do { p1 \<leftarrow> option_loop (\<lambda>_ _ p. Some p) 0 sz b (p\<lparr>dcb_acked := True\<rparr>);
                let p2 = NutNetBufFree p1;
                Some (case dcb_lcp_state p2 of
                        PPPS_CLOSED \<Rightarrow> NutLcpOutput XCP_TERMACK xid None p2
                      | PPPS_STOPPED \<Rightarrow> NutLcpOutput XCP_TERMACK xid None p2
                      | PPPS_REQSENT \<Rightarrow> LcpNewReq rejected p2
                      | PPPS_ACKSENT \<Rightarrow> LcpNewReq rejected p2
                      | PPPS_ACKRCVD \<Rightarrow> (LcpNewReq False p2)\<lparr>dcb_lcp_state := PPPS_REQSENT\<rparr>
                      | PPPS_OPENED \<Rightarrow> (LcpNewReq False (IpcpLowerDown p2))\<lparr>dcb_lcp_state := PPPS_REQSENT\<rparr>
                      | _ \<Rightarrow> p2) })"

definition LcpRxTermReq :: "u8 \<Rightarrow> ppp \<Rightarrow> ppp" where
  "LcpRxTermReq xid p =
     (let p1 = NutNetBufFree p in
      NutLcpOutput XCP_TERMACK xid None
        (case dcb_lcp_state p1 of
           PPPS_ACKRCVD \<Rightarrow> p1\<lparr>dcb_lcp_state := PPPS_REQSENT\<rparr>
         | PPPS_ACKSENT \<Rightarrow> p1\<lparr>dcb_lcp_state := PPPS_REQSENT\<rparr>
         | PPPS_OPENED \<Rightarrow> (IpcpLowerDown p1)\<lparr>dcb_lcp_state := PPPS_STOPPING\<rparr>
         | _ \<Rightarrow> p1))"

definition LcpRxTermAck :: "ppp \<Rightarrow> ppp" where
  "LcpRxTermAck p =
     (let p1 = NutNetBufFree p in
      case dcb_lcp_state p1 of
        PPPS_CLOSING \<Rightarrow> p1\<lparr>dcb_lcp_state := PPPS_CLOSED\<rparr>
      | PPPS_STOPPING \<Rightarrow> p1\<lparr>dcb_lcp_state := PPPS_STOPPED\<rparr>
      | PPPS_ACKRCVD \<Rightarrow> p1\<lparr>dcb_lcp_state := PPPS_REQSENT\<rparr>
      | PPPS_OPENED \<Rightarrow> LcpNewReq False (IpcpLowerDown p1)
      | _ \<Rightarrow> p1)"

definition LcpRxProtRej :: "ppp \<Rightarrow> ppp" where
  "LcpRxProtRej p =
     (case dcb_lcp_state p of
        PPPS_CLOSING \<Rightarrow> p\<lparr>dcb_lcp_state := PPPS_CLOSED\<rparr>
      | PPPS_CLOSED \<Rightarrow> p\<lparr>dcb_lcp_state := PPPS_CLOSED\<rparr>
      | PPPS_OPENED \<Rightarrow>
          (let p1 = IpcpLowerDown p in (NutIpcpOutput XCP_TERMREQ (dcb_reqid p1) None p1)\<lparr>dcb_lcp_state := PPPS_STOPPING\<rparr>)
      | s \<Rightarrow> if negotiating s \<or> s = PPPS_STOPPING \<or> s = PPPS_STOPPED then p\<lparr>dcb_lcp_state := PPPS_STOPPED\<rparr> else p)"

definition LcpRxCodeRej :: "ppp \<Rightarrow> ppp" where
  "LcpRxCodeRej p =
     (let p1 = NutNetBufFree p in
      if dcb_lcp_state p1 = PPPS_ACKRCVD then p1\<lparr>dcb_lcp_state := PPPS_REQSENT\<rparr> else p1)"

definition LcpRxEchoReq :: "u8 \<Rightarrow> u8 list \<Rightarrow> u16 \<Rightarrow> ppp \<Rightarrow> ppp option" where
  "LcpRxEchoReq xid b sz p =
     (if dcb_lcp_state p \<noteq> PPPS_OPENED then Some (NutNetBufFree p)
      else do { b' \<leftarrow> wrs 0 (le_bytes32 (dcb_loc_magic p)) b;
                Some (NutLcpOutput LCP_ERP xid (Some (take (unat sz) b')) p) })"

text \<open>
  The header of a packet: code, identifier and length (the rest of the buffer may be longer).
\<close>

definition xcp_header :: "u8 list \<Rightarrow> (u8 \<times> u8 \<times> u16 \<times> u8 list) option" where
  "xcp_header nw =
     (case nw of
        code # xid # l1 # l0 # ap \<Rightarrow>
          (let len = push_bit 8 (ucast l1) OR ucast l0 :: u16 in
           if len < 4 \<or> unat len > length nw then None else Some (code, xid, len - 4, ap))
      | _ \<Rightarrow> None)"

definition NutLcpInput :: "u8 list \<Rightarrow> ppp \<Rightarrow> ppp option" where
  "NutLcpInput nw p =
     (case xcp_header nw of
        None \<Rightarrow> Some (NutNetBufFree p)
      | Some (code, xid, sz, ap) \<Rightarrow>
          if dcb_lcp_state p = PPPS_INITIAL \<or> dcb_lcp_state p = PPPS_STARTING then Some (NutNetBufFree p)
          else if code = 1 then LcpRxConfReq xid ap sz p
          else if code = 2 then LcpRxConfAck xid ap sz p
          else if code = 3 then LcpRxConfNakRej xid ap sz False p
          else if code = 4 then LcpRxConfNakRej xid ap sz True p
          else if code = 5 then Some (LcpRxTermReq xid p)
          else if code = 6 then Some (LcpRxTermAck p)
          else if code = 7 then Some (LcpRxCodeRej p)
          else if code = 9 then LcpRxEchoReq xid ap sz p
          else Some (NutNetBufFree p))"

section \<open>IPCP\<close>

text \<open>The cases of the source fall through: a primary name server is also checked like a secondary one.\<close>

definition ipcp_judge :: "ppp \<Rightarrow> u8 list \<Rightarrow> nat \<Rightarrow> u16 option" where
  "ipcp_judge p b xcpo =
     do { ty \<leftarrow> rd b xcpo; l \<leftarrow> rd b (xcpo + 1);
          let six = (if l = 6 then 0 else ucast l);
          (if ty = 129 then
             do { ul \<leftarrow> rd_ul b xcpo;
                  Some (if ul = 0 \<and> dcb_ip_dns1 p = 0 then ucast l else if ul = 0 \<and> dcb_ip_dns2 p = 0 then ucast l else six) }
           else if ty = 131 then
             do { ul \<leftarrow> rd_ul b xcpo; Some (if ul = 0 \<and> dcb_ip_dns2 p = 0 then ucast l else six) }
           else if ty = 3 then Some six
           else Some (ucast l)) }"

text \<open>The length of the answer, the expected address and the requested address.\<close>

definition IpcpValidateIpReq :: "u32 \<Rightarrow> u32 \<Rightarrow> u16 \<times> u32 \<times> u32" where
  "IpcpValidateIpReq expected_ip requested_ip =
     (if expected_ip = 0 \<and> requested_ip \<noteq> 0 then (0, requested_ip, requested_ip)
      else if expected_ip \<noteq> requested_ip then (6, expected_ip, expected_ip)
      else (0, expected_ip, requested_ip))"

definition ipcp_negotiate :: "nat \<Rightarrow> u8 list \<Rightarrow> ppp \<Rightarrow> (u16 \<times> u32 \<times> ppp) option" where
  "ipcp_negotiate xcpo b p =
     do { ip \<leftarrow> rd_ul b xcpo; ty \<leftarrow> rd b xcpo;
          Some (if ty = 3 then (case IpcpValidateIpReq (dcb_remote_ip p) ip of (len, e, ip) \<Rightarrow> (len, ip, p\<lparr>dcb_remote_ip := e\<rparr>))
                else if ty = 129 then (case IpcpValidateIpReq (dcb_ip_dns1 p) ip of (len, e, ip) \<Rightarrow> (len, ip, p\<lparr>dcb_ip_dns1 := e\<rparr>))
                else if ty = 131 then (case IpcpValidateIpReq (dcb_ip_dns2 p) ip of (len, e, ip) \<Rightarrow> (len, ip, p\<lparr>dcb_ip_dns2 := e\<rparr>))
                else (0, ip, p)) }"

partial_function (option) ipcp_nak_loop ::
    "nat \<Rightarrow> u16 \<Rightarrow> nat \<Rightarrow> u16 \<Rightarrow> u8 list \<Rightarrow> ppp \<Rightarrow> (u16 \<times> u8 list \<times> ppp) option" where
  "ipcp_nak_loop xcpo xcpl xcpr xcps b p =
     (if xcpl \<ge> 2 then
        do { (len, ip, p1) \<leftarrow> ipcp_negotiate xcpo b p;
             b1 \<leftarrow> nak_header xcpo xcpr len b;
             b2 \<leftarrow> (if len \<noteq> 0 then wrs (xcpr + 2) (le_bytes32 ip) b1 else Some b1);
             l \<leftarrow> rd b2 (xcpo + 1);
             ipcp_nak_loop (xcpo + unat l) (xcpl - ucast l) (xcpr + unat len) (xcps + len) b2 p1 }
      else Some (xcps, b, p))"

definition ipcp_answer :: "xcp_code \<Rightarrow> u8 \<Rightarrow> u8 list \<Rightarrow> ppp \<Rightarrow> ppp" where
  "ipcp_answer rc xid pl p =
     (let p1 = NutIpcpOutput rc xid (Some pl) p in
      if rc = XCP_CONFACK then
        (if dcb_ipcp_state p1 = PPPS_ACKRCVD then emit StateChg (p1\<lparr>dcb_ipcp_state := PPPS_OPENED\<rparr>)
         else p1\<lparr>dcb_ipcp_state := PPPS_ACKSENT\<rparr>)\<lparr>dcb_ipcp_naks := 0\<rparr>
      else if dcb_ipcp_state p1 \<noteq> PPPS_ACKRCVD then p1\<lparr>dcb_ipcp_state := PPPS_REQSENT\<rparr> else p1)"

definition ipcp_options_in :: "u8 \<Rightarrow> u8 list \<Rightarrow> u16 \<Rightarrow> ppp \<Rightarrow> ppp option" where
  "ipcp_options_in xid b sz p =
     do { (xcps, b1) \<leftarrow> reject_loop (ipcp_judge p) 0 sz 0 0 b;
          (if xcps \<noteq> 0 then Some (ipcp_answer XCP_CONFREJ xid (take (unat xcps) b1) p)
           else do { (xcps, b2, p1) \<leftarrow> ipcp_nak_loop 0 sz 0 0 b1 p;
                     Some (if xcps \<noteq> 0 then ipcp_answer XCP_CONFNAK xid (take (unat xcps) b2) p1
                           else ipcp_answer XCP_CONFACK xid (take (unat sz) b2) p1) }) }"

definition IpcpRxConfReq :: "u8 \<Rightarrow> u8 list \<Rightarrow> u16 \<Rightarrow> ppp \<Rightarrow> ppp option" where
  "IpcpRxConfReq xid b sz p =
     (case dcb_ipcp_state p of
        PPPS_CLOSED \<Rightarrow> Some (NutIpcpOutput XCP_TERMACK xid None (NutNetBufFree p))
      | PPPS_CLOSING \<Rightarrow> Some (NutNetBufFree p)
      | PPPS_STOPPING \<Rightarrow> Some (NutNetBufFree p)
      | PPPS_OPENED \<Rightarrow> ipcp_options_in xid b sz (IpcpNewReq (IpcpLowerDown p))
      | PPPS_STOPPED \<Rightarrow> ipcp_options_in xid b sz ((IpcpNewReq p)\<lparr>dcb_ipcp_state := PPPS_REQSENT\<rparr>)
      | _ \<Rightarrow> ipcp_options_in xid b sz p)"

definition ipcp_take_ack :: "nat \<Rightarrow> u8 list \<Rightarrow> ppp \<Rightarrow> ppp option" where
  "ipcp_take_ack xcpo b p =
     do { ty \<leftarrow> rd b xcpo;
          (if ty = 3 then do { ul \<leftarrow> rd_ul b xcpo; Some (if ul \<noteq> 0 then p\<lparr>dcb_local_ip := ul\<rparr> else p) }
           else if ty = 129 then do { ul \<leftarrow> rd_ul b xcpo; Some (if ul \<noteq> 0 then p\<lparr>dcb_ip_dns1 := ul\<rparr> else p) }
           else if ty = 131 then do { ul \<leftarrow> rd_ul b xcpo; Some (if ul \<noteq> 0 then p\<lparr>dcb_ip_dns2 := ul\<rparr> else p) }
           else Some p) }"

definition IpcpRxConfAck :: "u8 \<Rightarrow> u8 list \<Rightarrow> u16 \<Rightarrow> ppp \<Rightarrow> ppp option" where
  "IpcpRxConfAck xid b sz p =
     (if xid \<noteq> dcb_reqid p \<or> dcb_acked p then Some p
      else if dcb_ipcp_state p = PPPS_CLOSED \<or> dcb_ipcp_state p = PPPS_STOPPED
        then Some (NutIpcpOutput XCP_TERMACK xid None (NutNetBufFree p))
      else
        do { let p1 = (case dcb_ipcp_state p of
                         PPPS_REQSENT \<Rightarrow> p\<lparr>dcb_ipcp_state := PPPS_ACKRCVD, dcb_retries := 0\<rparr>
                       | PPPS_ACKRCVD \<Rightarrow> (IpcpNewReq p)\<lparr>dcb_ipcp_state := PPPS_REQSENT\<rparr>
                       | PPPS_ACKSENT \<Rightarrow> emit StateChg (p\<lparr>dcb_ipcp_state := PPPS_OPENED, dcb_retries := 0\<rparr>)
                       | PPPS_OPENED \<Rightarrow> (IpcpNewReq (IpcpLowerDown p))\<lparr>dcb_ipcp_state := PPPS_REQSENT\<rparr>
                       | _ \<Rightarrow> p);
             p2 \<leftarrow> option_loop ipcp_take_ack 0 sz b p1;
             Some (NutNetBufFree (p2\<lparr>dcb_acked := True\<rparr>)) })"

definition ipcp_take_nak :: "bool \<Rightarrow> nat \<Rightarrow> u8 list \<Rightarrow> ppp \<Rightarrow> ppp option" where
  "ipcp_take_nak rejected xcpo b p =
     do { ty \<leftarrow> rd b xcpo;
          (if ty = 3 then do { ul \<leftarrow> rd_ul b xcpo; Some (if ul \<noteq> 0 then p\<lparr>dcb_local_ip := ul\<rparr> else p) }
           else if ty = 129 then
             (if rejected then Some (p\<lparr>dcb_rejects := dcb_rejects p OR REJ_IPCP_DNS1\<rparr>)
              else do { ul \<leftarrow> rd_ul b xcpo; Some (if ul \<noteq> 0 then p\<lparr>dcb_ip_dns1 := ul\<rparr> else p) })
           else if ty = 131 then
             (if rejected then Some (p\<lparr>dcb_rejects := dcb_rejects p OR REJ_IPCP_DNS2\<rparr>)
              else do { ul \<leftarrow> rd_ul b xcpo; Some (if ul \<noteq> 0 then p\<lparr>dcb_ip_dns2 := ul\<rparr> else p) })
           else Some p) }"

definition IpcpRxConfNakRej :: "u8 \<Rightarrow> u8 list \<Rightarrow> u16 \<Rightarrow> bool \<Rightarrow> ppp \<Rightarrow> ppp option" where
  "IpcpRxConfNakRej xid b sz rejected p =
     (if xid \<noteq> dcb_reqid p \<or> dcb_acked p then Some (NutNetBufFree p)
      else if dcb_ipcp_state p = PPPS_CLOSED \<or> dcb_ipcp_state p = PPPS_STOPPED
        then Some (NutIpcpOutput XCP_TERMACK xid None (NutNetBufFree p))
      else if \<not> negotiating (dcb_ipcp_state p) \<and> dcb_ipcp_state p \<noteq> PPPS_OPENED then Some (NutNetBufFree p)
      else
        do { p1 \<leftarrow> option_loop (ipcp_take_nak rejected) 0 sz b (p\<lparr>dcb_acked := True\<rparr>);
             let p2 = NutNetBufFree p1;
             Some (case dcb_ipcp_state p2 of
                     PPPS_REQSENT \<Rightarrow> IpcpNewReq p2
                   | PPPS_ACKSENT \<Rightarrow> IpcpNewReq p2
                   | PPPS_ACKRCVD \<Rightarrow> (IpcpNewReq p2)\<lparr>dcb_ipcp_state := PPPS_REQSENT\<rparr>
                   | PPPS_OPENED \<Rightarrow> (IpcpNewReq (IpcpLowerDown p2))\<lparr>dcb_ipcp_state := PPPS_REQSENT\<rparr>
                   | _ \<Rightarrow> p2) })"

definition IpcpRxTermReq :: "u8 \<Rightarrow> ppp \<Rightarrow> ppp" where
  "IpcpRxTermReq xid p =
     (let p1 = NutNetBufFree p in
      NutIpcpOutput XCP_TERMACK xid None
        (case dcb_ipcp_state p1 of
           PPPS_ACKRCVD \<Rightarrow> p1\<lparr>dcb_ipcp_state := PPPS_REQSENT\<rparr>
         | PPPS_ACKSENT \<Rightarrow> p1\<lparr>dcb_ipcp_state := PPPS_REQSENT\<rparr>
         | PPPS_OPENED \<Rightarrow> (IpcpLowerDown p1)\<lparr>dcb_ipcp_state := PPPS_STOPPING\<rparr>
         | _ \<Rightarrow> p1))"

text \<open>The buffer is not released here.\<close>

definition IpcpRxTermAck :: "ppp \<Rightarrow> ppp" where
  "IpcpRxTermAck p =
     (case dcb_ipcp_state p of
        PPPS_CLOSING \<Rightarrow> p\<lparr>dcb_ipcp_state := PPPS_CLOSED\<rparr>
      | PPPS_STOPPING \<Rightarrow> p\<lparr>dcb_ipcp_state := PPPS_STOPPED\<rparr>
      | PPPS_ACKRCVD \<Rightarrow> p\<lparr>dcb_ipcp_state := PPPS_REQSENT\<rparr>
      | PPPS_OPENED \<Rightarrow> IpcpNewReq (IpcpLowerDown p)
      | _ \<Rightarrow> p)"

definition IpcpRxProtRej :: "ppp \<Rightarrow> ppp" where
  "IpcpRxProtRej p =
     (case dcb_ipcp_state p of
        PPPS_CLOSING \<Rightarrow> p\<lparr>dcb_ipcp_state := PPPS_CLOSED\<rparr>
      | PPPS_CLOSED \<Rightarrow> p\<lparr>dcb_ipcp_state := PPPS_CLOSED\<rparr>
      | PPPS_OPENED \<Rightarrow>
          (let p1 = IpcpLowerDown p in (NutIpcpOutput XCP_TERMREQ (dcb_reqid p1) None p1)\<lparr>dcb_ipcp_state := PPPS_STOPPING\<rparr>)
      | s \<Rightarrow> if negotiating s \<or> s = PPPS_STOPPING \<or> s = PPPS_STOPPED then p\<lparr>dcb_ipcp_state := PPPS_STOPPED\<rparr> else p)"

definition IpcpRxCodeRej :: "ppp \<Rightarrow> ppp" where
  "IpcpRxCodeRej p =
     (let p1 = NutNetBufFree p in
      if dcb_ipcp_state p1 = PPPS_ACKRCVD then p1\<lparr>dcb_ipcp_state := PPPS_REQSENT\<rparr> else p1)"

definition NutIpcpInput :: "u8 list \<Rightarrow> ppp \<Rightarrow> ppp option" where
  "NutIpcpInput nw p =
     (case xcp_header nw of
        None \<Rightarrow> Some (NutNetBufFree p)
      | Some (code, xid, sz, ap) \<Rightarrow>
          if dcb_ipcp_state p = PPPS_INITIAL \<or> dcb_ipcp_state p = PPPS_STARTING then Some (NutNetBufFree p)
          else if code = 1 then IpcpRxConfReq xid ap sz p
          else if code = 2 then IpcpRxConfAck xid ap sz p
          else if code = 3 then IpcpRxConfNakRej xid ap sz False p
          else if code = 4 then IpcpRxConfNakRej xid ap sz True p
          else if code = 5 then Some (IpcpRxTermReq xid p)
          else if code = 6 then Some (IpcpRxTermAck p)
          else if code = 7 then Some (IpcpRxCodeRej p)
          else Some (NutNetBufFree p))"

section \<open>PAP\<close>

definition PapRxAuthReq :: "u8 \<Rightarrow> u8 list \<Rightarrow> ppp \<Rightarrow> ppp" where
  "PapRxAuthReq xid pl p = NutPapOutput XCP_CONFACK xid (Some pl) p"

definition PapRxAuthAck :: "ppp \<Rightarrow> ppp" where
  "PapRxAuthAck p =
     (if dcb_auth_state p = PAPCS_AUTHREQ then IpcpLowerUp (p\<lparr>dcb_auth_state := PAPCS_OPEN\<rparr>) else p)"

definition PapRxAuthNak :: "ppp \<Rightarrow> ppp" where
  "PapRxAuthNak p =
     (if dcb_auth_state p = PAPCS_AUTHREQ then IpcpLowerDown (p\<lparr>dcb_auth_state := PAPCS_BADAUTH\<rparr>) else p)"

definition NutPapInput :: "u8 list \<Rightarrow> ppp \<Rightarrow> ppp" where
  "NutPapInput nw p =
     (case xcp_header nw of
        None \<Rightarrow> NutNetBufFree p
      | Some (code, xid, sz, ap) \<Rightarrow>
          NutNetBufFree
            (if code = 1 then PapRxAuthReq xid (take (unat sz) ap) p
             else if code = 2 then PapRxAuthAck p
             else if code = 3 then PapRxAuthNak p
             else p))"

end
