(* ===== verification/Nut_Ppp_Frame.thy ===== *)
theory Nut_Ppp_Frame
  imports Nut_Ppp_In
begin

text \<open>
  Properties of the PPP control protocols: how the state machine moves, that timeouts end, that
  buffers are released, and what malformed options do.
\<close>

unbundle bit_operations_syntax

section \<open>What the operations leave alone\<close>

named_theorems ppp_frame \<open>fields that an operation of the state machine keeps\<close>

lemma emit_frame [ppp_frame]:
  "dcb_lcp_state (emit a p) = dcb_lcp_state p" "dcb_ipcp_state (emit a p) = dcb_ipcp_state p" "netbufs (emit a p) = netbufs p"
  "netbuf_avail (emit a p) = netbuf_avail p" "trace (emit a p) = trace p @ [a]" "dcb_reqid (emit a p) = dcb_reqid p"
  "dcb_acked (emit a p) = dcb_acked p" "dcb_auth (emit a p) = dcb_auth p" "dcb_retries (emit a p) = dcb_retries p"
  by (simp_all add: emit_def)

lemma free_frame [ppp_frame]:
  "dcb_lcp_state (NutNetBufFree p) = dcb_lcp_state p" "dcb_ipcp_state (NutNetBufFree p) = dcb_ipcp_state p"
  "netbufs (NutNetBufFree p) = netbufs p - 1" "netbuf_avail (NutNetBufFree p) = netbuf_avail p"
  "trace (NutNetBufFree p) = trace p" "dcb_acked (NutNetBufFree p) = dcb_acked p" "dcb_retries (NutNetBufFree p) = dcb_retries p"
  "dcb_reqid (NutNetBufFree p) = dcb_reqid p" "dcb_auth (NutNetBufFree p) = dcb_auth p"
  by (simp_all add: NutNetBufFree_def)

lemma alloc_frame [ppp_frame]:
  "dcb_lcp_state (NutNetBufAlloc p) = dcb_lcp_state p" "dcb_ipcp_state (NutNetBufAlloc p) = dcb_ipcp_state p"
  "netbufs (NutNetBufAlloc p) = netbufs p + 1" "netbuf_avail (NutNetBufAlloc p) = netbuf_avail p"
  "trace (NutNetBufAlloc p) = trace p" "dcb_acked (NutNetBufAlloc p) = dcb_acked p" "dcb_retries (NutNetBufAlloc p) = dcb_retries p"
  by (simp_all add: NutNetBufAlloc_def)

lemma reqid_frame [ppp_frame]:
  "dcb_lcp_state (next_reqid p) = dcb_lcp_state p" "dcb_ipcp_state (next_reqid p) = dcb_ipcp_state p"
  "netbufs (next_reqid p) = netbufs p" "netbuf_avail (next_reqid p) = netbuf_avail p" "trace (next_reqid p) = trace p"
  "dcb_retries (next_reqid p) = dcb_retries p"
  by (simp_all add: next_reqid_def)

lemma output_frame [ppp_frame]:
  "dcb_lcp_state (xcp_output pr c i nb p) = dcb_lcp_state p" "dcb_ipcp_state (xcp_output pr c i nb p) = dcb_ipcp_state p"
  "netbufs (xcp_output pr c i nb p) = netbufs p - (if nb = None then 0 else 1)"
  "netbuf_avail (xcp_output pr c i nb p) = netbuf_avail p" "dcb_acked (xcp_output pr c i nb p) = dcb_acked p"
  "dcb_retries (xcp_output pr c i nb p) = dcb_retries p" "dcb_auth (xcp_output pr c i nb p) = dcb_auth p"
  "trace (xcp_output pr c i nb p) = trace p @ (if netbuf_avail p then [Send pr c i (case nb of None \<Rightarrow> [] | Some pl \<Rightarrow> pl)] else [])"
  by (auto simp: xcp_output_def Let_def ppp_frame split: option.splits)

lemmas outputs = NutLcpOutput_def NutIpcpOutput_def NutPapOutput_def

lemma reset_frame [ppp_frame]:
  "dcb_lcp_state (LcpResetOptions p) = dcb_lcp_state p" "dcb_ipcp_state (LcpResetOptions p) = dcb_ipcp_state p"
  "netbufs (LcpResetOptions p) = netbufs p" "netbuf_avail (LcpResetOptions p) = netbuf_avail p"
  "trace (LcpResetOptions p) = trace p @ [SetTxAccm 0xFFFFFFFF]"
  by (simp_all add: LcpResetOptions_def ppp_frame)

lemma conf_req_frame [ppp_frame]:
  "dcb_lcp_state (LcpTxConfReq i r p) = dcb_lcp_state p" "dcb_ipcp_state (LcpTxConfReq i r p) = dcb_ipcp_state p"
  "netbufs (LcpTxConfReq i r p) = netbufs p" "netbuf_avail (LcpTxConfReq i r p) = netbuf_avail p"
  "\<exists>t. trace (LcpTxConfReq i r p) = trace p @ t"
  by (auto simp: LcpTxConfReq_def Let_def outputs ppp_frame)

lemma ipcp_req_frame [ppp_frame]:
  "dcb_lcp_state (IpcpTxConfReq i p) = dcb_lcp_state p" "dcb_ipcp_state (IpcpTxConfReq i p) = dcb_ipcp_state p"
  "netbufs (IpcpTxConfReq i p) = netbufs p" "netbuf_avail (IpcpTxConfReq i p) = netbuf_avail p"
  "\<exists>t. trace (IpcpTxConfReq i p) = trace p @ t"
  by (auto simp: IpcpTxConfReq_def Let_def outputs ppp_frame)

lemma auth_req_frame [ppp_frame]:
  "dcb_lcp_state (PapTxAuthReq i p) = dcb_lcp_state p" "dcb_ipcp_state (PapTxAuthReq i p) = dcb_ipcp_state p"
  "netbufs (PapTxAuthReq i p) = netbufs p" "netbuf_avail (PapTxAuthReq i p) = netbuf_avail p"
  "\<exists>t. trace (PapTxAuthReq i p) = trace p @ t"
  by (auto simp: PapTxAuthReq_def Let_def outputs ppp_frame)

lemma new_req_frame [ppp_frame]:
  "dcb_lcp_state (LcpNewReq r p) = dcb_lcp_state p" "netbufs (LcpNewReq r p) = netbufs p"
  "dcb_lcp_state (IpcpNewReq p) = dcb_lcp_state p" "netbufs (IpcpNewReq p) = netbufs p"
  "netbuf_avail (LcpNewReq r p) = netbuf_avail p" "netbuf_avail (IpcpNewReq p) = netbuf_avail p"
  by (simp_all add: LcpNewReq_def IpcpNewReq_def Let_def ppp_frame)

lemma new_req_trace: "\<exists>t. trace (LcpNewReq r p) = trace p @ t" "\<exists>t. trace (IpcpNewReq p) = trace p @ t"
  using conf_req_frame(5) [of _ r "next_reqid p"] ipcp_req_frame(5) [of _ "next_reqid p"]
  by (simp_all add: LcpNewReq_def IpcpNewReq_def Let_def ppp_frame)

lemma lower_frame [ppp_frame]:
  "dcb_lcp_state (IpcpLowerDown p) = dcb_lcp_state p" "netbufs (IpcpLowerDown p) = netbufs p"
  "dcb_lcp_state (IpcpLowerUp p) = dcb_lcp_state p" "netbufs (IpcpLowerUp p) = netbufs p"
  "netbuf_avail (IpcpLowerDown p) = netbuf_avail p" "netbuf_avail (IpcpLowerUp p) = netbuf_avail p"
  by (auto simp: IpcpLowerDown_def IpcpLowerUp_def ppp_frame split: ppps.splits)

lemma lower_up_trace: "\<exists>t. trace (IpcpLowerUp p) = trace p @ t"
  using new_req_trace(2) by (auto simp: IpcpLowerUp_def split: ppps.splits)

lemma opened_frame [ppp_frame]:
  "dcb_lcp_state (lcp_opened p) = PPPS_OPENED" "netbufs (lcp_opened p) = netbufs p"
  by (simp_all add: lcp_opened_def Let_def ppp_frame)

lemma opened_trace: "\<exists>t. trace (lcp_opened p) = trace p @ t"
proof -
  let ?p = "emit (SetTxAccm (dcb_accm p)) (p\<lparr>dcb_lcp_state := PPPS_OPENED\<rparr>)"
  have "trace ?p = trace p @ [SetTxAccm (dcb_accm p)]" by (simp add: ppp_frame)
  then show ?thesis
    using auth_req_frame(5) [of _ "next_reqid ?p"] lower_up_trace [of ?p] by (auto simp: lcp_opened_def Let_def ppp_frame)
qed

section \<open>Timeouts\<close>

definition round_state :: "ppps \<Rightarrow> ppps" where
  "round_state s = (if s = PPPS_CLOSING then PPPS_CLOSED else PPPS_STOPPED)"

lemma auth_timeout_frame:
  "r < 9 \<Longrightarrow> dcb_lcp_state (auth_timeout r p) = dcb_lcp_state p"
  "r < 9 \<Longrightarrow> dcb_retries p = r + 1 \<Longrightarrow> dcb_retries (auth_timeout r p) = r + 1"
  "\<not> r < 9 \<Longrightarrow> dcb_lcp_state p = PPPS_STOPPED \<Longrightarrow> dcb_lcp_state (auth_timeout r p) = PPPS_STOPPED"
  by (simp_all add: auth_timeout_def ppp_frame)

lemma ipcp_timeout_frame:
  "dcb_lcp_state (ipcp_timeout r p) = dcb_lcp_state p"
  "r < 9 \<Longrightarrow> dcb_retries p = r + 1 \<Longrightarrow> dcb_retries (ipcp_timeout r p) = r + 1"
  by (simp_all add: ipcp_timeout_def Let_def outputs ppp_frame)

lemma lcp_timeout_step:
  assumes "dcb_lcp_state p \<in> {PPPS_REQSENT, PPPS_ACKSENT, PPPS_CLOSING, PPPS_STOPPING}"
  shows "r < 9 \<Longrightarrow> dcb_lcp_state (lcp_timeout r p) = dcb_lcp_state p \<and> dcb_retries (lcp_timeout r p) = r + 1"
    and "\<not> r < 9 \<Longrightarrow> dcb_lcp_state (lcp_timeout r p) = round_state (dcb_lcp_state p)"
  using assms by (auto simp: lcp_timeout_def round_state_def Let_def outputs ppp_frame)


fun rounds :: "nat \<Rightarrow> ppp \<Rightarrow> ppp" where
  "rounds 0 p = p"
| "rounds (Suc n) p = rounds n (NutPppSm p)"

lemma round_step:
  assumes s: "dcb_lcp_state p \<in> {PPPS_REQSENT, PPPS_ACKSENT, PPPS_CLOSING, PPPS_STOPPING}" and r: "dcb_retries p < 9"
  shows "dcb_lcp_state (NutPppSm p) = dcb_lcp_state p \<and> dcb_retries (NutPppSm p) = dcb_retries p + 1"
proof -
  let ?p = "p\<lparr>new_magic := new_magic p + 1\<rparr>"
  have "dcb_lcp_state (lcp_timeout (dcb_retries p) ?p) = dcb_lcp_state p \<and> dcb_retries (lcp_timeout (dcb_retries p) ?p) = dcb_retries p + 1"
    using lcp_timeout_step(1) [of ?p "dcb_retries p"] s r by simp
  then show ?thesis
    using r by (simp add: NutPppSm_def Let_def auth_timeout_frame ipcp_timeout_frame)
qed

lemma round_last:
  assumes s: "dcb_lcp_state p \<in> {PPPS_REQSENT, PPPS_ACKSENT, PPPS_CLOSING, PPPS_STOPPING}" and r: "\<not> dcb_retries p < 9"
  shows "dcb_lcp_state (NutPppSm p) \<in> {PPPS_STOPPED, round_state (dcb_lcp_state p)}"
  using lcp_timeout_step(2) [of "p\<lparr>new_magic := new_magic p + 1\<rparr>" "dcb_retries p"] s r
  by (simp add: NutPppSm_def Let_def ipcp_timeout_frame auth_timeout_def)

lemma rounds_end:
  assumes "dcb_lcp_state p \<in> {PPPS_REQSENT, PPPS_ACKSENT, PPPS_CLOSING, PPPS_STOPPING}" and "n = 9 - unat (dcb_retries p)"
  shows "dcb_lcp_state (rounds (Suc n) p) \<in> {PPPS_STOPPED, round_state (dcb_lcp_state p)}"
  using assms
proof (induction n arbitrary: p)
  case 0
  then have "\<not> dcb_retries p < 9" by (simp add: word_less_nat_alt)
  then show ?case using round_last 0(1) by simp
next
  case (Suc n)
  then have r: "dcb_retries p < 9" by (simp add: word_less_nat_alt)
  then have "unat (dcb_retries p + 1) = unat (dcb_retries p) + 1"
    by (simp add: word_less_nat_alt unat_word_ariths)
  then have "n = 9 - unat (dcb_retries (NutPppSm p))" using round_step [OF Suc.prems(1) r] Suc.prems(2) by simp
  then show ?case using Suc.IH [of "NutPppSm p"] round_step [OF Suc.prems(1) r] Suc.prems(1) by simp
qed

section \<open>The release of the buffer\<close>

text \<open>What the loops over the options leave alone.\<close>

definition link_view :: "ppp \<Rightarrow> int \<times> ppps \<times> ppps \<times> bool \<times> action list \<times> u8" where
  "link_view p = (netbufs p, dcb_lcp_state p, dcb_ipcp_state p, netbuf_avail p, trace p, dcb_reqid p)"

lemma link_view_update [simp]:
  "link_view (p\<lparr>dcb_rem_mru := m\<rparr>) = link_view p" "link_view (p\<lparr>dcb_accm := a\<rparr>) = link_view p"
  "link_view (p\<lparr>dcb_rem_magic := a\<rparr>) = link_view p" "link_view (p\<lparr>dcb_loc_magic := a\<rparr>) = link_view p"
  "link_view (p\<lparr>dcb_compr := c\<rparr>) = link_view p" "link_view (p\<lparr>dcb_acked := b\<rparr>) = link_view p"
  "link_view (p\<lparr>dcb_local_ip := a\<rparr>) = link_view p" "link_view (p\<lparr>dcb_remote_ip := a\<rparr>) = link_view p"
  "link_view (p\<lparr>dcb_ip_dns1 := a\<rparr>) = link_view p" "link_view (p\<lparr>dcb_ip_dns2 := a\<rparr>) = link_view p"
  "link_view (p\<lparr>dcb_rejects := a\<rparr>) = link_view p"
  by (simp_all add: link_view_def)

lemma link_viewD:
  assumes "link_view p' = link_view p"
  shows "netbufs p' = netbufs p" "dcb_lcp_state p' = dcb_lcp_state p" "dcb_ipcp_state p' = dcb_ipcp_state p"
    "netbuf_avail p' = netbuf_avail p" "trace p' = trace p" "dcb_reqid p' = dcb_reqid p"
  using assms by (simp_all add: link_view_def)

lemma negotiate_frame: "lcp_negotiate xcpo xcpr b p = Some (len, b', p') \<Longrightarrow> link_view p' = link_view p"
  by (auto simp: lcp_negotiate_def bind_eq_Some_conv split: if_splits)

lemma nak_loop_frame:
  assumes "lcp_nak_loop xcpo xcpl xcpr xcps b p = Some r"
  shows "link_view (snd (snd r)) = link_view p"
proof (rule lcp_nak_loop.raw_induct [where P = "\<lambda>_ _ _ _ _ p r. link_view (snd (snd r)) = link_view p", OF _ assms])
  fix loop xcpo xcpl xcpr xcps b p r
  assume IH: "\<And>xcpo xcpl xcpr xcps b p r. loop xcpo xcpl xcpr xcps b p = Some r \<Longrightarrow> link_view (snd (snd r)) = link_view p"
    and r: "(if 2 \<le> xcpl then lcp_negotiate xcpo xcpr b p \<bind> (\<lambda>(len, b1, p1). nak_header xcpo xcpr len b1 \<bind>
        (\<lambda>b2. rd b2 (xcpo + 1) \<bind> (\<lambda>l :: u8. loop (xcpo + unat l) (xcpl - ucast l) (xcpr + unat len) (xcps + len) b2 p1)))
        else Some (xcps, b, p)) = Some r"
  show "link_view (snd (snd r)) = link_view p"
    using r by (cases "2 \<le> xcpl") (auto simp: bind_eq_Some_conv dest!: IH dest: negotiate_frame)
qed

lemma check_ack_frame: "lcp_check_ack xcpo b p = Some p' \<Longrightarrow> link_view p' = link_view p"
  by (auto simp: lcp_check_ack_def bind_eq_Some_conv split: if_splits)

lemma option_loop_frame:
  assumes "option_loop f xcpo xcpl b p = Some r" and "\<And>i b p p'. f i b p = Some p' \<Longrightarrow> link_view p' = link_view p"
  shows "link_view r = link_view p"
proof -
  have "(\<forall>i b p p'. f i b p = Some p' \<longrightarrow> link_view p' = link_view p) \<longrightarrow> link_view r = link_view p"
  proof (rule option_loop.raw_induct [where P = "\<lambda>f xcpo xcpl b p r.
      (\<forall>i b p p'. f i b p = Some p' \<longrightarrow> link_view p' = link_view p) \<longrightarrow> link_view r = link_view p", OF _ assms(1)])
    fix loop f xcpo xcpl b p r
    assume IH: "\<And>f xcpo xcpl b p r. loop f xcpo xcpl b p = Some r \<Longrightarrow>
        (\<forall>i b p p'. f i b p = Some p' \<longrightarrow> link_view p' = link_view p) \<longrightarrow> link_view r = link_view p"
      and r: "(if 2 \<le> xcpl then f xcpo b p \<bind> (\<lambda>p1. rd b (xcpo + 1) \<bind> (\<lambda>l :: u8. loop f (xcpo + unat l) (xcpl - ucast l) b p1))
          else Some p) = Some r"
    show "(\<forall>i b p p'. f i b p = Some p' \<longrightarrow> link_view p' = link_view p) \<longrightarrow> link_view r = link_view p"
      using r IH by (cases "2 \<le> xcpl") (auto simp: bind_eq_Some_conv)
  qed
  then show ?thesis using assms(2) by blast
qed

lemma answer_frame:
  "netbufs (lcp_answer rc xid pl p) = netbufs p - 1"
  "dcb_lcp_state (lcp_answer rc xid pl p) =
     (if dcb_lcp_state p = PPPS_ACKRCVD then (if rc = XCP_CONFACK then PPPS_OPENED else PPPS_ACKRCVD)
      else if rc = XCP_CONFACK then PPPS_ACKSENT else PPPS_REQSENT)"
  by (simp_all add: lcp_answer_def Let_def outputs ppp_frame)

lemma options_in_cases:
  assumes "lcp_options_in xid b sz p = Some p'"
  obtains rc pl p1 where "p' = lcp_answer rc xid pl p1" "link_view p1 = link_view p"
  using assms nak_loop_frame
  by (auto simp: lcp_options_in_def bind_eq_Some_conv split: if_splits)

lemma options_in_releases: "lcp_options_in xid b sz q = Some p' \<Longrightarrow> netbufs p' = netbufs q - 1"
  by (elim options_in_cases) (auto simp: answer_frame dest: link_viewD(1))

lemma conf_req_releases:
  assumes "LcpRxConfReq xid b sz p = Some p'"
  shows "netbufs p' = netbufs p - 1"
proof (cases "dcb_lcp_state p \<in> {PPPS_CLOSED, PPPS_CLOSING, PPPS_STOPPING}")
  case True
  then show ?thesis using assms by (auto simp: LcpRxConfReq_def outputs ppp_frame)
next
  case False
  then obtain q where "lcp_options_in xid b sz q = Some p'" "netbufs q = netbufs p"
    using assms by (cases "dcb_lcp_state p"; simp add: LcpRxConfReq_def; simp add: ppp_frame)
  then show ?thesis using options_in_releases by simp
qed

lemma acked_frame [ppp_frame]: "netbufs (lcp_acked xid p) = netbufs p"
  by (cases "dcb_lcp_state p") (simp_all add: lcp_acked_def outputs ppp_frame)

lemma check_loop_frame: "option_loop lcp_check_ack i n b p = Some p' \<Longrightarrow> link_view p' = link_view p"
  using option_loop_frame check_ack_frame by blast

lemma skip_loop_frame: "option_loop (\<lambda>_ _ p. Some p) i n b p = Some p' \<Longrightarrow> link_view p' = link_view p"
  using option_loop_frame by blast

lemma conf_ack_releases: "LcpRxConfAck xid b sz p = Some p' \<Longrightarrow> netbufs p' = netbufs p - 1"
  by (auto simp: LcpRxConfAck_def bind_eq_Some_conv Let_def ppp_frame
      dest!: check_loop_frame dest: link_viewD(1) split: if_splits)

lemma conf_nak_releases:
  assumes "LcpRxConfNakRej xid b sz rj p = Some p'"
  shows "netbufs p' = netbufs p - 1"
proof (cases "xid \<noteq> dcb_reqid p \<or> dcb_acked p")
  case False
  then obtain p1 where p1: "option_loop (\<lambda>_ _ p. Some p) 0 sz b (p\<lparr>dcb_acked := True\<rparr>) = Some p1"
    using assms by (auto simp: LcpRxConfNakRej_def bind_eq_Some_conv)
  then have "netbufs p1 = netbufs p" using link_viewD(1) [OF skip_loop_frame [OF p1]] by simp
  then show ?thesis using False p1 assms
    by (cases "dcb_lcp_state p1") (auto simp: LcpRxConfNakRej_def Let_def outputs ppp_frame)
qed (use assms in \<open>auto simp: LcpRxConfNakRej_def ppp_frame\<close>)

lemma term_req_releases: "netbufs (LcpRxTermReq xid p) = netbufs p - 1"
  by (simp add: LcpRxTermReq_def Let_def outputs ppp_frame split: ppps.split)

lemma term_ack_releases: "netbufs (LcpRxTermAck p) = netbufs p - 1"
  by (simp add: LcpRxTermAck_def Let_def ppp_frame split: ppps.split)

lemma echo_releases: "LcpRxEchoReq xid b sz p = Some p' \<Longrightarrow> netbufs p' = netbufs p - 1"
  by (auto simp: LcpRxEchoReq_def Let_def outputs ppp_frame bind_eq_Some_conv split: if_splits)

lemma code_rej_releases: "netbufs (LcpRxCodeRej p) = netbufs p - 1"
  by (simp add: LcpRxCodeRej_def Let_def ppp_frame)

section \<open>Entering the opened state\<close>

lemma conf_req_opens:
  assumes "LcpRxConfReq xid b sz p = Some p'" and "dcb_lcp_state p \<noteq> PPPS_OPENED" and "dcb_lcp_state p' = PPPS_OPENED"
  shows "dcb_lcp_state p = PPPS_ACKRCVD"
    and "netbuf_avail p \<Longrightarrow> \<exists>pl t. trace p' = trace p @ Send PPP_LCP XCP_CONFACK xid pl # t"
proof -
  obtain q where q: "lcp_options_in xid b sz q = Some p'" "q = p \<or> dcb_lcp_state q = PPPS_REQSENT"
    using assms by (cases "dcb_lcp_state p"; simp add: LcpRxConfReq_def; force simp: outputs ppp_frame)
  obtain rc pl p1 where p': "p' = lcp_answer rc xid pl p1" and v: "link_view p1 = link_view q"
    using options_in_cases [OF q(1)] by metis
  have a: "dcb_lcp_state p1 = PPPS_ACKRCVD \<and> rc = XCP_CONFACK"
    using assms(3) unfolding p' answer_frame by (auto split: if_splits)
  then have "dcb_lcp_state q = PPPS_ACKRCVD" using link_viewD(2) [OF v] by simp
  then have qp: "q = p" using q(2) by auto
  then show "dcb_lcp_state p = PPPS_ACKRCVD" using \<open>dcb_lcp_state q = PPPS_ACKRCVD\<close> by simp
  have "trace p' = trace (lcp_opened (NutLcpOutput XCP_CONFACK xid (Some pl) p1))"
    using a unfolding p' by (simp add: lcp_answer_def Let_def outputs ppp_frame)
  then show "netbuf_avail p \<Longrightarrow> \<exists>pl t. trace p' = trace p @ Send PPP_LCP XCP_CONFACK xid pl # t"
    using opened_trace [of "NutLcpOutput XCP_CONFACK xid (Some pl) p1"] link_viewD(4,5) [OF v] qp
    by (auto simp: outputs ppp_frame)
qed

lemma conf_ack_opens:
  assumes "LcpRxConfAck xid b sz p = Some p'" and "dcb_lcp_state p \<noteq> PPPS_OPENED" and "dcb_lcp_state p' = PPPS_OPENED"
  shows "dcb_lcp_state p = PPPS_ACKSENT \<and> (xid = dcb_reqid p \<or> dcb_acked p)"
proof -
  obtain p1 where p1: "(if xid = dcb_reqid p \<and> \<not> dcb_acked p then option_loop lcp_check_ack 0 sz b (p\<lparr>dcb_acked := True\<rparr>)
        else Some p) = Some p1"
      and p': "p' = (if dcb_acked p1 then lcp_acked xid (NutNetBufFree p1) else NutNetBufFree p1)"
    using assms(1) by (auto simp: LcpRxConfAck_def bind_eq_Some_conv Let_def ppp_frame split: if_splits)
  have st: "dcb_lcp_state p1 = dcb_lcp_state p"
    using p1 by (auto split: if_splits dest!: check_loop_frame dest: link_viewD(2))
  have "dcb_lcp_state p1 = PPPS_ACKSENT \<and> dcb_acked p1"
    using assms(2,3) st unfolding p' by (cases "dcb_lcp_state p1") (auto simp: lcp_acked_def outputs ppp_frame split: if_splits)
  then show ?thesis using p1 st by (auto split: if_splits)
qed

lemma conf_nak_opens:
  assumes "LcpRxConfNakRej xid b sz rj p = Some p'" and "dcb_lcp_state p \<noteq> PPPS_OPENED"
  shows "dcb_lcp_state p' \<noteq> PPPS_OPENED"
proof (cases "xid \<noteq> dcb_reqid p \<or> dcb_acked p")
  case False
  then obtain p1 where p1: "option_loop (\<lambda>_ _ p. Some p) 0 sz b (p\<lparr>dcb_acked := True\<rparr>) = Some p1"
    using assms by (auto simp: LcpRxConfNakRej_def bind_eq_Some_conv)
  then have "dcb_lcp_state p1 = dcb_lcp_state p" using link_viewD(2) [OF skip_loop_frame [OF p1]] by simp
  then show ?thesis using False p1 assms
    by (cases "dcb_lcp_state p1") (auto simp: LcpRxConfNakRej_def Let_def outputs ppp_frame)
qed (use assms in \<open>auto simp: LcpRxConfNakRej_def ppp_frame\<close>)

lemma others_open:
  assumes "dcb_lcp_state p \<noteq> PPPS_OPENED"
  shows "dcb_lcp_state (LcpRxTermReq xid p) \<noteq> PPPS_OPENED" "dcb_lcp_state (LcpRxTermAck p) \<noteq> PPPS_OPENED"
    "dcb_lcp_state (LcpRxCodeRej p) \<noteq> PPPS_OPENED" "LcpRxEchoReq xid b sz p = Some p' \<Longrightarrow> dcb_lcp_state p' \<noteq> PPPS_OPENED"
  using assms
  by (auto simp: LcpRxTermReq_def LcpRxTermAck_def LcpRxCodeRej_def LcpRxEchoReq_def Let_def outputs ppp_frame split: ppps.split)

end
