(* ===== verification/Nut_Ppp_Options.thy ===== *)
theory Nut_Ppp_Options
  imports Nut_Ppp_In
begin

text \<open>
  Option lists in a buffer: \<open>enc_opts\<close> lays out a list of options the way a packet holds them, and
  the loops of the input handlers are related to functions on that list. A loop over options that
  meets a length of zero does not end.
\<close>

unbundle bit_operations_syntax

section \<open>Option lists\<close>

type_synonym xcp_opt = "u8 \<times> u8 list"

definition len_byte :: "nat \<Rightarrow> u8" where
  "len_byte n = word_of_nat (n + 2)"

fun enc_opts :: "xcp_opt list \<Rightarrow> u8 list" where
  "enc_opts [] = []"
| "enc_opts ((ty, d) # os) = ty # len_byte (length d) # d @ enc_opts os"

lemma unat_len_byte [simp]: "n \<le> 253 \<Longrightarrow> unat (len_byte n) = n + 2"
  by (simp add: len_byte_def unat_of_nat del: of_nat_add of_nat_Suc add_2_eq_Suc')

lemma unat_ucast_byte [simp]: "unat (ucast (l :: u8) :: u16) = unat l"
  using unat_bound(1) [of l] by (simp add: unsigned_ucast_eq take_bit_nat_eq_self)

lemma size_ge: "(2 :: u16) \<le> sz \<longleftrightarrow> 2 \<le> unat sz"
  by (simp add: word_le_nat_alt)

lemma size_sub: "unat l \<le> unat sz \<Longrightarrow> unat (sz - ucast (l :: u8) :: u16) = unat sz - unat l"
  by (simp add: unat_sub word_le_nat_alt)

lemma size_fits: "unat l \<le> unat sz \<Longrightarrow> \<not> sz < (ucast (l :: u8) :: u16)"
  by (simp add: word_less_nat_alt)

lemmas size_simps = size_ge size_sub size_fits

lemma rd_app [simp]:
  "rd (pre @ ty # r) (length pre) = Some ty"
  "rd (pre @ ty # x # r) (Suc (length pre)) = Some x"
  "rd (pre @ ty # x # y # r) (Suc (Suc (length pre))) = Some y"
  "rd (pre @ ty # x # y # z # r) (Suc (Suc (Suc (length pre)))) = Some z"
  "rd (pre @ ty # x # y # z # u # r) (length pre + 4) = Some u"
  "rd (pre @ ty # x # y # z # u # v # r) (length pre + 5) = Some v"
  by (simp_all add: rd_def nth_append)

lemma rd_us_app [simp]: "rd_us (pre @ ty # x # h # l # r) (length pre) = Some (push_bit 8 (ucast h) OR ucast l)"
  by (simp add: rd_us_def numeral_eq_Suc)

lemma rd_ul_app [simp]: "rd_ul (pre @ ty # x # a # b # c # d # r) (length pre) = Some (le32 a b c d)"
  by (simp add: rd_ul_def numeral_2_eq_2 numeral_3_eq_3)

section \<open>Loops that return\<close>

lemma reject_none:
  assumes "unat xcpl = length (enc_opts os)" and "\<And>ty d. (ty, d) \<in> set os \<Longrightarrow> length d \<le> 253"
    and "\<And>ty d pre r. (ty, d) \<in> set os \<Longrightarrow> judge (pre @ enc_opts [(ty, d)] @ r) (length pre) = Some 0"
  shows "reject_loop judge (length pre) xcpl xcpr xcps (pre @ enc_opts os @ rest) = Some (xcps, pre @ enc_opts os @ rest)"
  using assms
proof (induction os arbitrary: pre xcpl)
  case Nil
  then show ?case by (simp add: reject_loop.simps size_simps)
next
  case (Cons o1 os)
  obtain ty d where o1: "o1 = (ty, d)" by fastforce
  have d: "length d \<le> 253" using Cons.prems(2) [of ty d] o1 by simp
  let ?pre = "pre @ enc_opts [(ty, d)]"
  have "judge (pre @ enc_opts [(ty, d)] @ (enc_opts os @ rest)) (length pre) = Some 0"
    using Cons.prems(3) o1 by simp
  moreover have "reject_loop judge (length ?pre) (xcpl - ucast (len_byte (length d))) xcpr xcps (?pre @ enc_opts os @ rest)
      = Some (xcps, ?pre @ enc_opts os @ rest)"
    by (rule Cons.IH) (use Cons.prems d o1 in \<open>auto simp: size_simps\<close>)
  ultimately show ?case
    using Cons.prems(1) d o1 by (subst reject_loop.simps) (simp add: size_simps)
qed

lemma option_loop_fold:
  assumes "unat xcpl = length (enc_opts os)" and "\<And>ty d. (ty, d) \<in> set os \<Longrightarrow> length d \<le> 253"
    and "\<And>ty d pre r q. (ty, d) \<in> set os \<Longrightarrow> f (length pre) (pre @ enc_opts [(ty, d)] @ r) q = Some (g (ty, d) q)"
  shows "option_loop f (length pre) xcpl (pre @ enc_opts os @ rest) p = Some (fold g os p)"
  using assms
proof (induction os arbitrary: pre xcpl p)
  case Nil
  then show ?case by (simp add: option_loop.simps size_simps)
next
  case (Cons o1 os)
  obtain ty d where o1: "o1 = (ty, d)" by fastforce
  have d: "length d \<le> 253" using Cons.prems(2) [of ty d] o1 by simp
  let ?pre = "pre @ enc_opts [(ty, d)]"
  have "f (length pre) (pre @ enc_opts [(ty, d)] @ (enc_opts os @ rest)) p = Some (g (ty, d) p)"
    using Cons.prems(3) o1 by simp
  moreover have "option_loop f (length ?pre) (xcpl - ucast (len_byte (length d))) (?pre @ enc_opts os @ rest) (g (ty, d) p)
      = Some (fold g os (g (ty, d) p))"
    by (rule Cons.IH) (use Cons.prems d o1 in \<open>auto simp: size_simps\<close>)
  ultimately show ?case
    using Cons.prems(1) d o1 by (subst option_loop.simps) (simp add: size_simps)
qed

section \<open>Acceptable options of LCP\<close>

text \<open>
  A maximum receive unit of at least 128, an asynchronous character map, authentication by PAP, and
  a magic number other than those in use here.
\<close>

definition acceptable :: "ppp \<Rightarrow> xcp_opt \<Rightarrow> bool" where
  "acceptable p = (\<lambda>(ty, d).
     (case d of
        [a, b] \<Rightarrow> ty = 1 \<and> 128 \<le> (push_bit 8 (ucast a) OR ucast b :: u16) \<or> ty = 3 \<and> a = 0xC0 \<and> b = 0x23
      | [a, b, c, e] \<Rightarrow> ty = 2 \<or> ty = 5 \<and> le32 a b c e \<noteq> dcb_loc_magic p \<and> le32 a b c e \<noteq> dcb_neg_magic p
      | _ \<Rightarrow> False))"

text \<open>What is learned from an acceptable option.\<close>

definition lcp_learn :: "xcp_opt \<Rightarrow> ppp \<Rightarrow> ppp" where
  "lcp_learn = (\<lambda>(ty, d) p.
     (case d of
        [a, b] \<Rightarrow> if ty = 1 then p\<lparr>dcb_rem_mru := push_bit 8 (ucast a) OR ucast b\<rparr> else p
      | [a, b, c, e] \<Rightarrow> if ty = 2 then p\<lparr>dcb_accm := ntohl (le32 a b c e)\<rparr> else p
      | _ \<Rightarrow> p))"

lemma acceptable_cases:
  assumes "acceptable p (ty, d)"
  obtains a b where "d = [a, b]" "ty = 1" "128 \<le> (push_bit 8 (ucast a) OR ucast b :: u16)"
    | "d = [0xC0, 0x23]" "ty = 3"
    | a b c e where "d = [a, b, c, e]" "ty = 2"
    | a b c e where "d = [a, b, c, e]" "ty = 5" "le32 a b c e \<noteq> dcb_loc_magic p" "le32 a b c e \<noteq> dcb_neg_magic p"
  using assms by (auto simp: acceptable_def split: list.splits)

lemma acceptable_small: "acceptable p (ty, d) \<Longrightarrow> length d \<le> 253"
  by (elim acceptable_cases) auto

lemma acceptable_learn [simp]: "acceptable (lcp_learn x p) = acceptable p"
  by (auto simp: acceptable_def lcp_learn_def fun_eq_iff split: prod.splits list.splits)

lemma acceptable_judge: "acceptable p (ty, d) \<Longrightarrow> lcp_judge (pre @ enc_opts [(ty, d)] @ r) (length pre) = Some 0"
  by (elim acceptable_cases) (simp_all add: lcp_judge_def len_byte_def)

lemma acceptable_negotiate:
  "acceptable p (ty, d) \<Longrightarrow> lcp_negotiate (length pre) xcpr (pre @ enc_opts [(ty, d)] @ r) p
    = Some (0, pre @ enc_opts [(ty, d)] @ r, lcp_learn (ty, d) p)"
  by (elim acceptable_cases) (auto simp: lcp_negotiate_def lcp_learn_def not_less)

lemma nak_none:
  assumes "unat xcpl = length (enc_opts os)" and "\<And>x. x \<in> set os \<Longrightarrow> acceptable p x"
  shows "lcp_nak_loop (length pre) xcpl xcpr xcps (pre @ enc_opts os @ rest) p
    = Some (xcps, pre @ enc_opts os @ rest, fold lcp_learn os p)"
  using assms
proof (induction os arbitrary: pre xcpl p)
  case Nil
  then show ?case by (simp add: lcp_nak_loop.simps size_simps)
next
  case (Cons o1 os)
  obtain ty d where o1: "o1 = (ty, d)" by fastforce
  have a: "acceptable p (ty, d)" and d: "length d \<le> 253" using Cons.prems(2) [of o1] o1 acceptable_small by auto
  let ?pre = "pre @ enc_opts [(ty, d)]"
  have n: "lcp_negotiate (length pre) xcpr (pre @ enc_opts [(ty, d)] @ (enc_opts os @ rest)) p
      = Some (0, pre @ enc_opts [(ty, d)] @ (enc_opts os @ rest), lcp_learn (ty, d) p)"
    by (rule acceptable_negotiate [OF a])
  have "lcp_nak_loop (length ?pre) (xcpl - ucast (len_byte (length d))) xcpr xcps (?pre @ enc_opts os @ rest) (lcp_learn (ty, d) p)
      = Some (xcps, ?pre @ enc_opts os @ rest, fold lcp_learn os (lcp_learn (ty, d) p))"
    by (rule Cons.IH) (use Cons.prems d o1 in \<open>auto simp: size_simps\<close>)
  then show ?case
    using Cons.prems(1) d o1 n by (subst lcp_nak_loop.simps) (simp add: size_simps nak_header_def)
qed

lemma options_in_acceptable:
  assumes "unat sz = length (enc_opts os)" and "\<And>x. x \<in> set os \<Longrightarrow> acceptable p x"
  shows "lcp_options_in xid (enc_opts os @ rest) sz p
    = Some (lcp_answer XCP_CONFACK xid (enc_opts os) (fold lcp_learn os p))"
proof -
  have "reject_loop lcp_judge (length ([] :: u8 list)) sz 0 0 ([] @ enc_opts os @ rest) = Some (0, [] @ enc_opts os @ rest)"
    by (rule reject_none) (use assms acceptable_judge acceptable_small in blast)+
  moreover have "lcp_nak_loop (length ([] :: u8 list)) sz 0 0 ([] @ enc_opts os @ rest) p
      = Some (0, [] @ enc_opts os @ rest, fold lcp_learn os p)"
    by (rule nak_none) (use assms in auto)
  ultimately show ?thesis using assms(1) by (simp add: lcp_options_in_def)
qed

section \<open>Loops that do not return\<close>

lemma reject_loop_zero:
  assumes "rd b (xcpo + 1) = Some 0" and "2 \<le> xcpl" and "judge b xcpo = Some 0"
  shows "reject_loop judge xcpo xcpl xcpr xcps b = None"
proof (rule ccontr)
  assume "reject_loop judge xcpo xcpl xcpr xcps b \<noteq> None"
  then obtain r where r: "reject_loop judge xcpo xcpl xcpr xcps b = Some r" by blast
  have "\<not> (rd b (xcpo + 1) = Some 0 \<and> 2 \<le> xcpl \<and> judge b xcpo = Some 0)"
    by (rule reject_loop.raw_induct [where P = "\<lambda>judge xcpo xcpl xcpr xcps b r.
        \<not> (rd b (xcpo + 1) = Some 0 \<and> 2 \<le> xcpl \<and> judge b xcpo = Some 0)", OF _ r]) auto
  then show False using assms by blast
qed

lemma option_loop_zero:
  assumes "rd b (xcpo + 1) = Some 0" and "2 \<le> xcpl"
  shows "option_loop f xcpo xcpl b p = None"
proof (rule ccontr)
  assume "option_loop f xcpo xcpl b p \<noteq> None"
  then obtain r where r: "option_loop f xcpo xcpl b p = Some r" by blast
  have "\<not> (rd b (xcpo + 1) = Some 0 \<and> 2 \<le> xcpl)"
    by (rule option_loop.raw_induct [where P = "\<lambda>f xcpo xcpl b p r. \<not> (rd b (xcpo + 1) = Some 0 \<and> 2 \<le> xcpl)", OF _ r])
      (auto simp: bind_eq_Some_conv)
  then show False using assms by blast
qed

end
