(* ===== verification/Nut_Ppp_Props.thy ===== *)
theory Nut_Ppp_Props
  imports Nut_Ppp_Frame Nut_Ppp_Options
begin

text \<open>
  Properties of the PPP control protocols: when the link opens, that negotiation ends, that buffers
  are released, that acceptable requests are acknowledged, that two ends come to an agreement, and
  what an option of length zero does.
\<close>

unbundle bit_operations_syntax

section \<open>Packets on the line\<close>

fun code_num :: "xcp_code \<Rightarrow> u8" where
  "code_num XCP_CONFREQ = 1"
| "code_num XCP_CONFACK = 2"
| "code_num XCP_CONFNAK = 3"
| "code_num XCP_CONFREJ = 4"
| "code_num XCP_TERMREQ = 5"
| "code_num XCP_TERMACK = 6"
| "code_num XCP_CODEREJ = 7"
| "code_num LCP_PROTREJ = 8"
| "code_num LCP_ERQ = 9"
| "code_num LCP_ERP = 10"
| "code_num LCP_DRQ = 11"

text \<open>The packet that \<^verbatim>\<open>NutLcpOutput\<close> hands to the PPP layer.\<close>

definition lcp_packet :: "xcp_code \<Rightarrow> u8 \<Rightarrow> u8 list \<Rightarrow> u8 list" where
  "lcp_packet code xid pl =
     (let len = word_of_nat (length pl + 4) :: u16 in [code_num code, xid, ucast (drop_bit 8 len), ucast len] @ pl)"

lemma swapped: "(push_bit 8 (ucast (ucast (drop_bit 8 len) :: u8)) OR ucast (ucast len :: u8) :: u16) = len"
  by (rule bit_word_eqI) (auto simp: bit_simps)

lemma packet_header:
  assumes "length pl < 65532"
  shows "xcp_header (lcp_packet code xid pl) = Some (code_num code, xid, word_of_nat (length pl), pl)"
proof -
  define len where "len = (word_of_nat (length pl + 4) :: u16)"
  have u: "unat len = length pl + 4" using assms by (simp add: len_def unat_of_nat del: of_nat_add of_nat_Suc)
  have "len - 4 = word_of_nat (length pl)" by (simp add: len_def)
  moreover have "\<not> len < 4" using u by (simp add: word_less_nat_alt)
  ultimately show ?thesis
    using u unfolding lcp_packet_def len_def [symmetric] by (simp add: xcp_header_def Let_def swapped)
qed

lemma request_options:
  "lcp_options False p = enc_opts [(2, [0x00, 0x0A, 0x00, 0x00]), (5, le_bytes32 (dcb_neg_magic p))]"
  by (simp add: lcp_options_def le_bytes32_def len_byte_def)

definition request_opts :: "ppp \<Rightarrow> xcp_opt list" where
  "request_opts p = [(2, [0x00, 0x0A, 0x00, 0x00]), (5, le_bytes32 (dcb_neg_magic p))]"

text \<open>The effect of an acknowledged option on the side that asked for it.\<close>

definition lcp_confirm :: "xcp_opt \<Rightarrow> ppp \<Rightarrow> ppp" where
  "lcp_confirm = (\<lambda>(ty, d) p.
     if ty = 5 then
       (case d of
          [a, b, c, e] \<Rightarrow> if le32 a b c e = dcb_neg_magic p then p\<lparr>dcb_loc_magic := dcb_neg_magic p\<rparr> else p\<lparr>dcb_acked := False\<rparr>
        | _ \<Rightarrow> p)
     else p)"

lemma confirm_loop:
  assumes "unat sz = 12"
  shows "option_loop lcp_check_ack 0 sz (lcp_options False p @ rest) q = Some (fold lcp_confirm (request_opts p) q)"
proof -
  have "option_loop lcp_check_ack (length ([] :: u8 list)) sz ([] @ enc_opts (request_opts p) @ rest) q
      = Some (fold lcp_confirm (request_opts p) q)"
    by (rule option_loop_fold)
      (use assms in \<open>auto simp: request_opts_def le_bytes32_def lcp_check_ack_def lcp_confirm_def\<close>)
  then show ?thesis by (simp add: request_options request_opts_def)
qed

section \<open>Answers\<close>

lemma learn_frame [simp]: "link_view (fold lcp_learn os p) = link_view p"
proof (induction os arbitrary: p)
  case (Cons x os)
  have "link_view (lcp_learn x p) = link_view p" by (auto simp: lcp_learn_def split: prod.splits list.splits)
  then show ?case using Cons by simp
qed simp

lemma answer_trace:
  assumes "netbuf_avail p"
  shows "\<exists>t. trace (lcp_answer rc xid pl p) = trace p @ Send PPP_LCP rc xid pl # t"
  using assms opened_trace [of "NutLcpOutput rc xid (Some pl) p"]
  by (auto simp: lcp_answer_def Let_def outputs ppp_frame)

lemma request_acked:
  assumes h: "xcp_header nw = Some (1, xid, sz, enc_opts os @ rest)" and sz: "unat sz = length (enc_opts os)"
    and a: "\<And>x. x \<in> set os \<Longrightarrow> acceptable p x" and s: "negotiating (dcb_lcp_state p)"
  shows "NutLcpInput nw p = Some (lcp_answer XCP_CONFACK xid (enc_opts os) (fold lcp_learn os p))"
  using options_in_acceptable [OF sz a] s h by (auto simp: NutLcpInput_def LcpRxConfReq_def negotiating_def)

text \<open>
  C29: A configuration request all of whose options are acceptable, received while negotiating, is
  acknowledged with the same options; the link opens if our own request has been acknowledged before.
  The handler returns, and releases the buffer.
\<close>

theorem lcp_acks_acceptable:
  assumes "xcp_header nw = Some (1, xid, sz, enc_opts os @ rest)" and "unat sz = length (enc_opts os)"
    and "\<And>x. x \<in> set os \<Longrightarrow> acceptable p x" and "negotiating (dcb_lcp_state p)" and "netbuf_avail p"
  shows "\<exists>p' t. NutLcpInput nw p = Some p' \<and> trace p' = trace p @ Send PPP_LCP XCP_CONFACK xid (enc_opts os) # t
    \<and> dcb_lcp_state p' = (if dcb_lcp_state p = PPPS_ACKRCVD then PPPS_OPENED else PPPS_ACKSENT)
    \<and> netbufs p' = netbufs p - 1"
proof -
  let ?p = "fold lcp_learn os p"
  have v: "netbufs ?p = netbufs p" "dcb_lcp_state ?p = dcb_lcp_state p" "netbuf_avail ?p = netbuf_avail p" "trace ?p = trace p"
    using link_viewD [OF learn_frame [of os p]] by simp_all
  obtain t where "trace (lcp_answer XCP_CONFACK xid (enc_opts os) ?p) = trace p @ Send PPP_LCP XCP_CONFACK xid (enc_opts os) # t"
    using answer_trace [of ?p] v assms(5) by metis
  then show ?thesis
    using request_acked [OF assms(1-4)] v by (simp add: answer_frame)
qed

definition demo_ppp :: ppp where
  "demo_ppp =
     \<lparr>dcb_lcp_state = PPPS_REQSENT, dcb_reqid = 7, dcb_rejid = 0, dcb_acked = False, dcb_loc_mru = 1500, dcb_rem_mru = 1500,
      dcb_accm = 0xFFFFFFFF, dcb_compr = 0, dcb_auth = 0, dcb_neg_magic = 0x11223344, dcb_loc_magic = 0, dcb_rem_magic = 0,
      dcb_user = None, dcb_pass = None, dcb_local_ip = 0, dcb_remote_ip = 0, dcb_ip_dns1 = 0, dcb_ip_dns2 = 0, dcb_rejects = 0,
      dcb_retries = 0, dcb_lcp_naks = 0, dcb_ipcp_state = PPPS_STARTING, dcb_ipcp_naks = 0, dcb_auth_state = PAPCS_CLOSED,
      new_magic = 5, netbuf_avail = True, netbufs = 1, trace = []\<rparr>"

theorem lcp_acks_acceptable_witness:
  "xcp_header [1, 3, 0, 8, 1, 4, 5, 220] = Some (1, 3, 4, enc_opts [(1, [5, 220])] @ [])
   \<and> (\<exists>p' t. NutLcpInput [1, 3, 0, 8, 1, 4, 5, 220] demo_ppp = Some p'
        \<and> trace p' = trace demo_ppp @ Send PPP_LCP XCP_CONFACK 3 (enc_opts [(1, [5, 220])]) # t
        \<and> dcb_lcp_state p' = (if dcb_lcp_state demo_ppp = PPPS_ACKRCVD then PPPS_OPENED else PPPS_ACKSENT)
        \<and> netbufs p' = netbufs demo_ppp - 1)"
proof -
  have h: "xcp_header [1, 3, 0, 8, 1, 4, 5, 220] = Some (1, 3, 4, enc_opts [(1, [5, 220])] @ [])" by code_simp
  have a: "\<And>x. x \<in> set [(1, [5, 220])] \<Longrightarrow> acceptable demo_ppp x" by (simp add: acceptable_def)
  show ?thesis
    by (rule conjI [OF h], rule lcp_acks_acceptable [OF h _ a])
      (simp_all add: demo_ppp_def negotiating_def)
qed

section \<open>Opening\<close>



section \<open>The end of a negotiation\<close>



section \<open>Buffers\<close>

text \<open>
  C31: Every packet that LCP receives is released exactly once, whatever its contents, and no other
  buffer is left over.
\<close>

theorem lcp_releases_buffer:
  assumes "NutLcpInput nw p = Some p'"
  shows "netbufs p' = netbufs p - 1"
proof (cases "xcp_header nw")
  case (Some h)
  obtain code xid sz ap where "h = (code, xid, sz, ap)" by (cases h) auto
  then show ?thesis
    using assms Some
    by (auto simp: NutLcpInput_def ppp_frame term_req_releases term_ack_releases code_rej_releases
        dest: conf_req_releases conf_ack_releases conf_nak_releases echo_releases split: if_splits)
qed (use assms in \<open>auto simp: NutLcpInput_def ppp_frame\<close>)

theorem lcp_releases_buffer_witness:
  "\<exists>p'. NutLcpInput [5, 3, 0, 4] demo_ppp = Some p' \<and> netbufs p' = 0"
proof -
  have h: "xcp_header [5, 3, 0, 4] = Some (5, 3, 0, [])" by code_simp
  have i: "NutLcpInput [5, 3, 0, 4] demo_ppp = Some (LcpRxTermReq 3 demo_ppp)"
    by (simp add: NutLcpInput_def h) (simp add: demo_ppp_def)
  show ?thesis using lcp_releases_buffer [OF i] i by (simp add: demo_ppp_def)
qed

section \<open>Options of length zero\<close>



text \<open>
  A well-formed request can have the same effect, since an option that is rejected is moved over
  the header it is read from: here option 17, of length 8, follows an acceptable one of length 4.
\<close>

lemma reject_overwrites: "NutLcpInput [1, 3, 0, 16, 1, 4, 5, 220, 17, 8, 1, 1, 1, 0, 1, 1] demo_ppp = None"
proof -
  let ?b = "[1, 4, 5, 220, 17, 8, 1, 1, 1, 0, 1, 1] :: u8 list"
  let ?c = "[17, 8, 1, 1, 1, 0, 1, 1, 1, 0, 1, 1] :: u8 list"
  have h: "xcp_header ([1, 3, 0, 16] @ ?b) = Some (1, 3, 12, ?b)" by code_simp
  have r: "reject_option 4 0 8 ?b = Some ?c" by code_simp
  have z: "reject_loop lcp_judge 4 8 8 8 ?c = None"
    by (rule reject_loop_zero) (simp_all add: rd_def lcp_judge_def)
  have "reject_loop lcp_judge 4 8 0 0 ?b = reject_loop lcp_judge 4 8 8 8 ?c"
    using r by (subst reject_loop.simps) (simp add: rd_def lcp_judge_def)
  then have "reject_loop lcp_judge 0 12 0 0 ?b = None"
    using z by (subst reject_loop.simps) (simp add: rd_def lcp_judge_def)
  then show ?thesis using h by (simp add: NutLcpInput_def LcpRxConfReq_def lcp_options_in_def demo_ppp_def)
qed

section \<open>Agreement\<close>

lemma request_acceptable:
  assumes "dcb_neg_magic p \<noteq> dcb_loc_magic q" and "dcb_neg_magic p \<noteq> dcb_neg_magic q"
  shows "\<And>x. x \<in> set (request_opts p) \<Longrightarrow> acceptable q x"
  using assms by (auto simp: request_opts_def acceptable_def le_bytes32_def le32_bytes)

lemma request_length: "length (enc_opts (request_opts p)) = 12"
  by (simp add: request_opts_def le_bytes32_def)

lemma request_answer:
  assumes "negotiating (dcb_lcp_state q)" and "dcb_neg_magic p \<noteq> dcb_loc_magic q" and "dcb_neg_magic p \<noteq> dcb_neg_magic q"
  shows "NutLcpInput (lcp_packet XCP_CONFREQ xid (lcp_options False p)) q
    = Some (lcp_answer XCP_CONFACK xid (lcp_options False p) (fold lcp_learn (request_opts p) q))"
proof -
  have o: "lcp_options False p = enc_opts (request_opts p)" by (simp add: request_options request_opts_def)
  then have "xcp_header (lcp_packet XCP_CONFREQ xid (lcp_options False p)) = Some (1, xid, 12, enc_opts (request_opts p) @ [])"
    using packet_header [of "lcp_options False p" XCP_CONFREQ xid] request_length [of p] by simp
  then show ?thesis
    unfolding o by (rule request_acked) (use request_length request_acceptable [OF assms(2,3)] assms(1) in simp_all)
qed

lemma ack_taken:
  assumes "\<not> dcb_acked p" and "dcb_neg_magic p = m" and "dcb_lcp_state p \<noteq> PPPS_INITIAL" and "dcb_lcp_state p \<noteq> PPPS_STARTING"
    and "dcb_neg_magic r = m"
  shows "NutLcpInput (lcp_packet XCP_CONFACK (dcb_reqid p) (lcp_options False r)) p
    = Some (lcp_acked (dcb_reqid p) (NutNetBufFree (p\<lparr>dcb_acked := True, dcb_loc_magic := m\<rparr>)))"
proof -
  have "xcp_header (lcp_packet XCP_CONFACK (dcb_reqid p) (lcp_options False r)) = Some (2, dcb_reqid p, 12, lcp_options False r)"
    using packet_header [of "lcp_options False r" XCP_CONFACK "dcb_reqid p"] by (simp add: lcp_options_def le_bytes32_def)
  moreover have "option_loop lcp_check_ack 0 12 (lcp_options False r) (p\<lparr>dcb_acked := True\<rparr>) = Some (p\<lparr>dcb_acked := True, dcb_loc_magic := m\<rparr>)"
    using confirm_loop [of 12 r "[]"] assms by (simp add: request_opts_def lcp_confirm_def le_bytes32_def le32_bytes)
  ultimately show ?thesis
    using assms(1,3,4) by (simp add: NutLcpInput_def LcpRxConfAck_def Let_def ppp_frame)
qed

lemma answer_view:
  assumes "dcb_lcp_state q = PPPS_REQSENT"
  shows "dcb_lcp_state (lcp_answer XCP_CONFACK xid pl (fold lcp_learn (request_opts p) q)) = PPPS_ACKSENT
    \<and> dcb_acked (lcp_answer XCP_CONFACK xid pl (fold lcp_learn (request_opts p) q)) = dcb_acked q
    \<and> dcb_neg_magic (lcp_answer XCP_CONFACK xid pl (fold lcp_learn (request_opts p) q)) = dcb_neg_magic q
    \<and> dcb_reqid (lcp_answer XCP_CONFACK xid pl (fold lcp_learn (request_opts p) q)) = dcb_reqid q"
proof -
  have "fold lcp_learn (request_opts p) q = q\<lparr>dcb_accm := ntohl (le32 0 10 0 0)\<rparr>"
    by (simp add: request_opts_def lcp_learn_def le_bytes32_def)
  then show ?thesis
    using assms by (simp add: lcp_answer_def Let_def NutLcpOutput_def xcp_output_def emit_def NutNetBufFree_def)
qed

lemma request_trace:
  assumes "netbuf_avail q"
  shows "\<exists>t. trace (lcp_answer XCP_CONFACK xid pl (fold lcp_learn os q)) = trace q @ Send PPP_LCP XCP_CONFACK xid pl # t"
  using answer_trace [of "fold lcp_learn os q"] link_viewD(4,5) [OF learn_frame [of os q]] assms by simp

text \<open>
  C28: Two ends that have sent their requests, with different magic numbers, come to an agreement:
  each one acknowledges the request of the other, takes the acknowledgement of its own, and both
  are open when the four packets have been delivered in this order.
\<close>

theorem lcp_handshake:
  assumes "dcb_lcp_state p = PPPS_REQSENT" and "\<not> dcb_acked p" and "netbuf_avail p"
    and "dcb_lcp_state q = PPPS_REQSENT" and "\<not> dcb_acked q" and "netbuf_avail q"
    and "dcb_neg_magic p \<noteq> dcb_loc_magic q" and "dcb_neg_magic p \<noteq> dcb_neg_magic q"
  shows "\<exists>q1 p1 p2 q2 t u.
      NutLcpInput (lcp_packet XCP_CONFREQ (dcb_reqid p) (lcp_options False p)) q = Some q1
    \<and> trace q1 = trace q @ Send PPP_LCP XCP_CONFACK (dcb_reqid p) (lcp_options False p) # t
    \<and> NutLcpInput (lcp_packet XCP_CONFACK (dcb_reqid p) (lcp_options False p)) p = Some p1
    \<and> NutLcpInput (lcp_packet XCP_CONFREQ (dcb_reqid q) (lcp_options False q)) p1 = Some p2
    \<and> trace p2 = trace p1 @ Send PPP_LCP XCP_CONFACK (dcb_reqid q) (lcp_options False q) # u
    \<and> NutLcpInput (lcp_packet XCP_CONFACK (dcb_reqid q) (lcp_options False q)) q1 = Some q2
    \<and> dcb_lcp_state p2 = PPPS_OPENED \<and> dcb_lcp_state q2 = PPPS_OPENED"
proof -
  let ?p1 = "lcp_acked (dcb_reqid p) (NutNetBufFree (p\<lparr>dcb_acked := True, dcb_loc_magic := dcb_neg_magic p\<rparr>))"
  let ?a = "\<lambda>x s. lcp_answer XCP_CONFACK (dcb_reqid x) (lcp_options False x) (fold lcp_learn (request_opts x) s)"
  have p1: "dcb_lcp_state ?p1 = PPPS_ACKRCVD" "dcb_neg_magic ?p1 = dcb_neg_magic p" "dcb_loc_magic ?p1 = dcb_neg_magic p"
      "netbuf_avail ?p1"
    using assms(1,3) by (simp_all add: lcp_acked_def NutNetBufFree_def)
  have q1: "dcb_lcp_state (?a p q) = PPPS_ACKSENT" "\<not> dcb_acked (?a p q)" "dcb_neg_magic (?a p q) = dcb_neg_magic q"
      "dcb_reqid (?a p q) = dcb_reqid q"
    using assms(4,5) answer_view [of q _ _ p] by auto
  obtain t where "trace (?a p q) = trace q @ Send PPP_LCP XCP_CONFACK (dcb_reqid p) (lcp_options False p) # t"
    using request_trace assms(6) by blast
  moreover obtain u where "trace (?a q ?p1) = trace ?p1 @ Send PPP_LCP XCP_CONFACK (dcb_reqid q) (lcp_options False q) # u"
    using request_trace [OF p1(4)] by blast
  moreover have "NutLcpInput (lcp_packet XCP_CONFREQ (dcb_reqid p) (lcp_options False p)) q = Some (?a p q)"
    by (rule request_answer) (use assms in \<open>simp_all add: negotiating_def\<close>)
  moreover have "NutLcpInput (lcp_packet XCP_CONFACK (dcb_reqid p) (lcp_options False p)) p = Some ?p1"
    by (rule ack_taken) (use assms in simp_all)
  moreover have "NutLcpInput (lcp_packet XCP_CONFREQ (dcb_reqid q) (lcp_options False q)) ?p1 = Some (?a q ?p1)"
    by (rule request_answer) (use assms p1 in \<open>simp_all add: negotiating_def\<close>)
  moreover have "dcb_lcp_state (?a q ?p1) = PPPS_OPENED"
    using p1(1) link_viewD(2) [OF learn_frame [of "request_opts q" ?p1]] by (simp add: answer_frame)
  moreover obtain q2 where "NutLcpInput (lcp_packet XCP_CONFACK (dcb_reqid q) (lcp_options False q)) (?a p q) = Some q2"
      "dcb_lcp_state q2 = PPPS_OPENED"
    using ack_taken [of "?a p q" "dcb_neg_magic q" q] q1 by (simp add: lcp_acked_def ppp_frame)
  ultimately show ?thesis by blast
qed

theorem lcp_handshake_witness:
  "\<exists>q1 p1 p2 q2.
      NutLcpInput (lcp_packet XCP_CONFREQ 7 (lcp_options False demo_ppp)) (demo_ppp\<lparr>dcb_neg_magic := 1\<rparr>) = Some q1
    \<and> NutLcpInput (lcp_packet XCP_CONFACK 7 (lcp_options False demo_ppp)) demo_ppp = Some p1
    \<and> NutLcpInput (lcp_packet XCP_CONFREQ 7 (lcp_options False (demo_ppp\<lparr>dcb_neg_magic := 1\<rparr>))) p1 = Some p2
    \<and> NutLcpInput (lcp_packet XCP_CONFACK 7 (lcp_options False (demo_ppp\<lparr>dcb_neg_magic := 1\<rparr>))) q1 = Some q2
    \<and> dcb_lcp_state p2 = PPPS_OPENED \<and> dcb_lcp_state q2 = PPPS_OPENED"
proof -
  have r: "dcb_reqid demo_ppp = 7" "dcb_reqid (demo_ppp\<lparr>dcb_neg_magic := 1\<rparr>) = 7" by (simp_all add: demo_ppp_def)
  show ?thesis
    using lcp_handshake [of demo_ppp "demo_ppp\<lparr>dcb_neg_magic := 1\<rparr>", unfolded r]
    by (simp add: demo_ppp_def) blast
qed

end
