(* ===== verification/Nut_Ppp_Ip.thy ===== *)
theory Nut_Ppp_Ip
  imports Nut_Ppp_Props
begin

text \<open>
  IPCP and PAP: the address the peer suggests is adopted and asked for, and what happens to the
  buffers of the packets received.
\<close>

unbundle bit_operations_syntax

text \<open>
  The local address that the peer suggests in a nak of our request is adopted, and a new request
  with this address and the next identifier is sent.
\<close>

theorem ipcp_adopts_address:
  assumes "xcp_header nw = Some (3, dcb_reqid p, 6, [3, 6, a, b, c, d] @ rest)" and "\<not> dcb_acked p"
    and "dcb_ipcp_state p = PPPS_REQSENT \<or> dcb_ipcp_state p = PPPS_ACKSENT" and "le32 a b c d \<noteq> 0" and "netbuf_avail p"
  shows "\<exists>p'. NutIpcpInput nw p = Some p' \<and> dcb_local_ip p' = le32 a b c d \<and> dcb_ipcp_state p' = dcb_ipcp_state p
    \<and> dcb_reqid p' = dcb_reqid p + 1 \<and> netbufs p' = netbufs p - 1
    \<and> trace p' = trace p @ [Send PPP_IPCP XCP_CONFREQ (dcb_reqid p + 1) (ipcp_options (p\<lparr>dcb_local_ip := le32 a b c d\<rparr>))]"
proof -
  let ?q = "p\<lparr>dcb_acked := True\<rparr>" and ?os = "[(3, [a, b, c, d])] :: xcp_opt list"
  have "option_loop (ipcp_take_nak False) (length ([] :: u8 list)) 6 ([] @ enc_opts ?os @ rest) ?q
      = Some (fold (\<lambda>_ q. if le32 a b c d \<noteq> 0 then q\<lparr>dcb_local_ip := le32 a b c d\<rparr> else q) ?os ?q)"
    by (rule option_loop_fold) (auto simp: ipcp_take_nak_def)
  then have "option_loop (ipcp_take_nak False) 0 6 ([3, 6, a, b, c, d] @ rest) ?q = Some (?q\<lparr>dcb_local_ip := le32 a b c d\<rparr>)"
    using assms(4) by (simp add: len_byte_def)
  then have "NutIpcpInput nw p = Some (IpcpNewReq (NutNetBufFree (?q\<lparr>dcb_local_ip := le32 a b c d\<rparr>)))"
    using assms(3) by (elim disjE) (simp_all add: NutIpcpInput_def IpcpRxConfNakRej_def assms(1,2) negotiating_def ppp_frame Let_def)
  then show ?thesis
    using assms(3,5)
    by (auto simp: IpcpNewReq_def IpcpTxConfReq_def next_reqid_def NutNetBufFree_def NutNetBufAlloc_def
        NutIpcpOutput_def xcp_output_def emit_def ipcp_options_def negotiating_def Let_def)
qed

theorem ipcp_adopts_address_witness:
  "\<exists>p'. NutIpcpInput [3, 7, 0, 10, 3, 6, 192, 168, 1, 5] (demo_ppp\<lparr>dcb_ipcp_state := PPPS_REQSENT\<rparr>) = Some p'
     \<and> dcb_local_ip p' = le32 192 168 1 5 \<and> dcb_reqid p' = 8"
proof -
  have h: "xcp_header [3, 7, 0, 10, 3, 6, 192, 168, 1, 5] = Some (3, dcb_reqid (demo_ppp\<lparr>dcb_ipcp_state := PPPS_REQSENT\<rparr>), 6, [3, 6, 192, 168, 1, 5] @ [])"
    by code_simp
  have "le32 192 168 1 5 \<noteq> 0" by code_simp
  then show ?thesis
    using ipcp_adopts_address [OF h] by (simp add: demo_ppp_def) blast
qed

section \<open>Buffers that are not released, or twice\<close>

lemma ipcp_wrong_ack_keeps_buffer: "xid \<noteq> dcb_reqid p \<Longrightarrow> IpcpRxConfAck xid b sz p = Some p"
  by (simp add: IpcpRxConfAck_def)

lemma ipcp_term_ack_keeps_buffer: "netbufs (IpcpRxTermAck p) = netbufs p"
  by (simp add: IpcpRxTermAck_def ppp_frame split: ppps.split)

lemma pap_request_released_twice:
  assumes "xcp_header nw = Some (1, xid, sz, ap)"
  shows "netbufs (NutPapInput nw p) = netbufs p - 2"
  using assms by (simp add: NutPapInput_def PapRxAuthReq_def outputs ppp_frame)

text \<open>A terminate acknowledgement in the opened state restarts negotiation without leaving that state.\<close>

lemma term_ack_stays_open: "dcb_lcp_state p = PPPS_OPENED \<Longrightarrow> dcb_lcp_state (LcpRxTermAck p) = PPPS_OPENED"
  by (simp add: LcpRxTermAck_def Let_def ppp_frame)

end
