(* ===== verification/Nut_Tcp.thy ===== *)
theory Nut_Tcp
  imports Nut_Bytes
begin

text \<open>
  The TCP state machine (\<^verbatim>\<open>net/tcpsm.c\<close>), the output of segments (\<^verbatim>\<open>net/tcpout.c\<close>) and the round trip
  estimator (\<^verbatim>\<open>net/tcputil.c\<close>). The state is the socket, extended by the global variables of the state
  machine, by the list of actions that leave it (segments sent, buffers released, threads woken up)
  and by the environment: \<open>answers\<close> tells for each request whether memory is available or the IP layer
  accepts the segment, \<open>if_mtu\<close> is the route query, \<open>millis\<close> the clock.

  A segment carries its header fields in host byte order; its checksum is computed by the functions
  of \<open>Nut_IpCsum\<close> and is not part of the model. Handlers run to completion, as the state machine thread
  has a higher priority than applications.
\<close>

unbundle bit_operations_syntax

section \<open>State\<close>

datatype tcps = TCPS_CLOSED | TCPS_LISTEN | TCPS_SYN_SENT | TCPS_SYN_RECEIVED | TCPS_ESTABLISHED | TCPS_CLOSE_WAIT
  | TCPS_FIN_WAIT_1 | TCPS_CLOSING | TCPS_LAST_ACK | TCPS_FIN_WAIT_2 | TCPS_TIME_WAIT | TCPS_DESTROY

datatype tcp_error = NoError | EHOSTDOWN | EISCONN | ETIMEDOUT | EALREADY | ENOTCONN | ENETDOWN | ECONNREFUSED | ECONNRESET
  | ENOBUFS | EOPNOTSUPP | EHOSTUNREACH | EINVAL | ENOPROTOOPT

record NETBUF =
  ip_src :: u32
  ip_dst :: u32
  th_sport :: u16
  th_dport :: u16
  th_seq :: u32
  th_ack :: u32
  th_flags :: u8
  th_win :: u16
  th_opt :: "u8 list"
  nb_ap :: "u8 list"
  nb_dl_sz :: nat

definition TH_FIN :: u8 where "TH_FIN = 0x01"
definition TH_SYN :: u8 where "TH_SYN = 0x02"
definition TH_RST :: u8 where "TH_RST = 0x04"
definition TH_PUSH :: u8 where "TH_PUSH = 0x08"
definition TH_ACK :: u8 where "TH_ACK = 0x10"

definition SO_FIN :: u8 where "SO_FIN = 0x01"
definition SO_SYN :: u8 where "SO_SYN = 0x02"
definition SO_FORCE :: u8 where "SO_FORCE = 0x08"
definition SO_ACK :: u8 where "SO_ACK = 0x10"

datatype tq = So_tx_tq | So_rx_tq | So_pc_tq | So_ac_tq | Tcp_in_rdy

datatype tcp_action = TxSegment u32 NETBUF | Release NETBUF | Post tq | Broadcast tq | SelectWakeupRead | SelectWakeupWrite
  | Accepted "u8 list"

record TCPSOCKET =
  so_devocnt :: u16
  so_devobuf :: "u8 list"
  so_devobsz :: u16
  so_state :: tcps
  so_local_addr :: u32
  so_local_port :: u16
  so_remote_addr :: u32
  so_remote_port :: u16
  so_tx_flags :: u8
  so_tx_isn :: u32
  so_tx_una :: u32
  so_tx_nxt :: u32
  so_tx_wl1 :: u32
  so_tx_wl2 :: u32
  so_tx_win :: u16
  so_tx_dup :: u8
  so_tx_nbq :: "NETBUF list"
  so_rx_isn :: u32
  so_rx_nxt :: u32
  so_rx_win :: u16
  so_rx_cnt :: int
  so_rx_bsz :: int
  so_rd_cnt :: int
  so_rx_apc :: int
  so_rx_buf :: "NETBUF list"
  so_rx_nbq :: "NETBUF list"
  so_mss :: u16
  so_rtt_seq :: u32
  so_rtto :: u16
  so_rtsv :: u16
  so_rtsa :: u32
  so_retransmits :: u16
  so_time_wait :: u16
  so_retran_time :: u16
  so_last_error :: tcp_error
  so_pc_tq :: addr
  so_read_to :: u32
  so_write_to :: u32
  so_oos_drop :: u32

record tcp = TCPSOCKET +
  tcp_adv_cnt :: u32
  tcp_run_gc :: bool
  answers :: "nat \<Rightarrow> bool"
  asked :: nat
  if_mtu :: "u32 \<Rightarrow> u16 option"
  millis :: u32
  actions :: "tcp_action list"

definition act :: "tcp_action list \<Rightarrow> tcp \<Rightarrow> tcp" where
  "act xs s = s\<lparr>actions := actions s @ xs\<rparr>"

definition ask :: "tcp \<Rightarrow> bool \<times> tcp" where
  "ask s = (answers s (asked s), s\<lparr>asked := asked s + 1\<rparr>)"

definition set_flags :: "u8 \<Rightarrow> tcp \<Rightarrow> tcp" where
  "set_flags m s = s\<lparr>so_tx_flags := so_tx_flags s OR m\<rparr>"

definition clear_flags :: "u8 \<Rightarrow> tcp \<Rightarrow> tcp" where
  "clear_flags m s = s\<lparr>so_tx_flags := so_tx_flags s AND NOT m\<rparr>"

definition SeqIsBetween :: "u32 \<Rightarrow> u32 \<Rightarrow> u32 \<Rightarrow> bool" where
  "SeqIsBetween x low high \<longleftrightarrow> x - low \<le> high - low"

definition SeqIsAfter :: "u32 \<Rightarrow> u32 \<Rightarrow> bool" where
  "SeqIsAfter x low \<longleftrightarrow> sint (low - x) < 0"

definition retran_now :: "tcp \<Rightarrow> u16" where
  "retran_now s = ucast (millis s) OR 1"

section \<open>Output\<close>

text \<open>The flags and numbers of the next segment, with the changes of the socket they go with.\<close>

definition out_header :: "nat \<Rightarrow> tcp \<Rightarrow> u8 \<times> u32 \<times> tcp" where
  "out_header n s =
     (if n \<noteq> 0 \<or> so_tx_flags s AND SO_ACK \<noteq> 0 then (TH_ACK, so_rx_nxt s, clear_flags SO_ACK s) else (0, 0, s))"

definition out_segment :: "u8 \<Rightarrow> u32 \<Rightarrow> u32 \<Rightarrow> u8 list \<Rightarrow> u8 list \<Rightarrow> tcp \<Rightarrow> NETBUF" where
  "out_segment fl sq ack opt ap s =
     \<lparr>ip_src = so_local_addr s, ip_dst = so_remote_addr s, th_sport = so_local_port s, th_dport = so_remote_port s,
      th_seq = sq, th_ack = ack, th_flags = fl,
      th_win = (if so_rx_win s < so_mss s then 0 else so_rx_win s), th_opt = opt, nb_ap = ap, nb_dl_sz = 0\<rparr>"

text \<open>Segments that have to be acknowledged are queued before they are sent.\<close>

definition out_queue :: "NETBUF \<Rightarrow> tcp \<Rightarrow> tcp" where
  "out_queue nb s =
     (let s1 = (if so_tx_nbq s = [] then s\<lparr>so_retran_time := retran_now s\<rparr> else s);
          s2 = s1\<lparr>so_tx_nbq := so_tx_nbq s1 @ [nb]\<rparr>
      in if so_rtt_seq s2 = 0 then s2\<lparr>so_rtt_seq := th_seq nb\<rparr> else s2)"

definition out_send :: "NETBUF \<Rightarrow> tcp \<Rightarrow> tcp \<times> int" where
  "out_send nb s =
     (case ask s of (ok, s1) \<Rightarrow> if ok then (act [TxSegment (so_remote_addr s1) nb] s1, 0) else (s1, -1))"

definition out_finish :: "nat \<Rightarrow> NETBUF \<Rightarrow> tcp \<Rightarrow> tcp \<times> int" where
  "out_finish n nb s =
     (if n \<noteq> 0 \<or> th_flags nb AND (TH_FIN OR TH_SYN) \<noteq> 0 then
        (case ask (out_queue nb s) of
           (ok, s1) \<Rightarrow> if ok then out_send nb s1 else (s1\<lparr>so_last_error := ENOBUFS\<rparr>, -1))
      else out_send nb s)"

definition NutTcpOutput :: "u8 list \<Rightarrow> tcp \<Rightarrow> tcp \<times> int" where
  "NutTcpOutput data s =
     (let n = length data in
      if n = 0 \<and> so_tx_flags s AND (SO_SYN OR SO_FIN OR SO_FORCE) = 0 then (s, 0)
      else case ask s of (ok, s0) \<Rightarrow>
        if \<not> ok then (s0\<lparr>so_last_error := ENOBUFS\<rparr>, -1)
        else let s1 = clear_flags SO_FORCE s0; sq = so_tx_nxt s1 in
          case out_header n s1 of (fl, ack, s2) \<Rightarrow>
            if so_tx_flags s2 AND SO_SYN \<noteq> 0 then
              (let s3 = (clear_flags SO_SYN s2)\<lparr>so_tx_nxt := sq + 1\<rparr>;
                   mss = so_mss s3
               in out_finish n (out_segment (fl OR TH_SYN) sq ack [2, 4, ucast (drop_bit 8 mss), ucast mss] [] s3) s3)
            else if n \<noteq> 0 then
              (case ask s2 of (ok, s3) \<Rightarrow>
                 if \<not> ok then (s3\<lparr>so_last_error := ENOBUFS\<rparr>, -1)
                 else let s4 = s3\<lparr>so_tx_nxt := sq + word_of_nat n\<rparr>
                      in out_finish n (out_segment (fl OR TH_PUSH) sq ack [] data s4) s4)
            else if so_tx_flags s2 AND SO_FIN \<noteq> 0 then
              (let s3 = (clear_flags SO_FIN s2)\<lparr>so_tx_nxt := sq + 1\<rparr>
               in out_finish n (out_segment (fl OR TH_FIN) sq ack [] [] s3) s3)
            else out_finish n (out_segment fl sq ack [] [] s2) s2)"

definition tcp_out :: "tcp \<Rightarrow> tcp" where
  "tcp_out s = fst (NutTcpOutput [] s)"

text \<open>A reset in answer to a segment; the buffer of the segment is reused.\<close>

definition reject_segment :: "NETBUF \<Rightarrow> NETBUF" where
  "reject_segment nb =
     (let nb1 = nb\<lparr>nb_ap := [], th_opt := [], th_sport := th_dport nb, th_dport := th_sport nb, th_win := 0\<rparr> in
      if th_flags nb AND TH_ACK \<noteq> 0 then nb1\<lparr>th_flags := TH_RST, th_seq := th_ack nb, th_ack := 0\<rparr>
      else nb1\<lparr>th_flags := TH_RST OR TH_ACK, th_seq := 0,
               th_ack := (if th_flags nb AND TH_SYN \<noteq> 0 then th_seq nb + 1 else th_seq nb)\<rparr>)"

definition NutTcpReject :: "NETBUF \<Rightarrow> tcp \<Rightarrow> tcp" where
  "NutTcpReject nb s =
     (if th_flags nb AND TH_RST \<noteq> 0 then act [Release nb] s
      else case ask s of (ok, s1) \<Rightarrow>
        act ((if ok then [TxSegment (ip_src nb) (reject_segment nb)] else []) @ [Release nb]) s1)"

section \<open>Buffers, options and the round trip time\<close>

definition NutTcpDiscardBuffers :: "tcp \<Rightarrow> tcp" where
  "NutTcpDiscardBuffers s =
     act (map Release (so_rx_buf s @ so_tx_nbq s @ so_rx_nbq s)) (s\<lparr>so_rx_buf := [], so_tx_nbq := [], so_rx_nbq := []\<rparr>)"

text \<open>
  Van Jacobson's estimator, in the arithmetic of the source: \<open>m\<close> is a signed 16-bit value, the average
  an unsigned 32-bit one, the variance and the timeout unsigned 16-bit ones.
\<close>

definition NutTcpCalcRtt :: "tcp \<Rightarrow> tcp" where
  "NutTcpCalcRtt s =
     (if so_retran_time s = 0 then s
      else let m = ucast (millis s - ucast (so_retran_time s)) - ucast (drop_bit 3 (so_rtsa s)) :: u16;
               rtsa = so_rtsa s + scast m;
               m1 = (if sint m < 0 then - m else m);
               m2 = m1 - drop_bit 2 (so_rtsv s);
               rtsv = so_rtsv s + m2
           in s\<lparr>so_rtsa := rtsa, so_rtsv := rtsv, so_rtto := ucast (drop_bit 3 rtsa) + rtsv\<rparr>)"

text \<open>
  The options, up to the end mark or the end of the header. Reading beyond the header and a loop that
  does not end are \<open>None\<close>.
\<close>

partial_function (option) input_options :: "u8 list \<Rightarrow> u16 \<Rightarrow> u16 option" where
  "input_options cp mss =
     (case cp of
        [] \<Rightarrow> Some mss
      | c # r \<Rightarrow>
          if c = 0 then Some mss
          else if c = 1 then input_options r mss
          else if c = 2 then
            (case r of
               l # h # b # r' \<Rightarrow>
                 (let v = push_bit 8 (ucast h) OR ucast b :: u16 in input_options r' (if v < mss then v else mss))
             | _ \<Rightarrow> None)
          else (case r of l # _ \<Rightarrow> input_options (drop (unat l) cp) mss | [] \<Rightarrow> None))"

declare input_options.simps [code]

definition NutTcpInputOptions :: "NETBUF \<Rightarrow> tcp \<Rightarrow> tcp option" where
  "NutTcpInputOptions nb s = map_option (\<lambda>v. s\<lparr>so_mss := v\<rparr>) (input_options (th_opt nb) (so_mss s))"

section \<open>Received data\<close>

text \<open>
  \<^verbatim>\<open>NutNetBufCollect\<close> (\<^verbatim>\<open>dev/netbuf.c\<close>): the buffers behind the first are appended to it as long as they fit
  into \<open>limit\<close> bytes, if memory for them is available.
\<close>

fun collect_loop :: "u8 list \<Rightarrow> NETBUF list \<Rightarrow> int \<Rightarrow> u8 list \<times> NETBUF list \<times> NETBUF list" where
  "collect_loop d [] limit = (d, [], [])"
| "collect_loop d (nb # nbs) limit =
     (if limit \<ge> int (length d) + int (length (nb_ap nb))
      then (case collect_loop (d @ nb_ap nb) nbs limit of (d', done, rest) \<Rightarrow> (d', nb # done, rest))
      else (d, [], nb # nbs))"

definition NutNetBufCollect :: "NETBUF \<Rightarrow> NETBUF list \<Rightarrow> int \<Rightarrow> tcp \<Rightarrow> NETBUF list \<times> int \<times> tcp" where
  "NutNetBufCollect nb nbs limit s =
     (case ask s of (ok, s1) \<Rightarrow>
        if ok then
          (case collect_loop (nb_ap nb) nbs limit of
             (d, done, rest) \<Rightarrow> (nb\<lparr>nb_ap := d\<rparr> # rest, int (length done), act (map Release done) s1))
        else (nb # nbs, 0, s1))"

fun collect_walk :: "NETBUF list \<Rightarrow> int \<Rightarrow> int \<Rightarrow> tcp \<Rightarrow> NETBUF list \<times> int \<times> tcp" where
  "collect_walk [] apc cnt s = ([], 0, s)"
| "collect_walk (nbq # nbs) apc cnt s =
     (if length (nb_ap nbq) < 256 then NutNetBufCollect nbq nbs cnt s
      else if apc - 1 < 8 then (nbq # nbs, 0, s)
      else (case collect_walk nbs (apc - 1) (cnt - int (length (nb_ap nbq))) s of (r, n, s') \<Rightarrow> (nbq # r, n, s')))"

definition app_queue :: "NETBUF \<Rightarrow> tcp \<Rightarrow> tcp" where
  "app_queue nb s =
     (let n = length (nb_ap nb) in
      (set_flags SO_ACK
        (s\<lparr>so_rx_buf := so_rx_buf s @ [nb], so_rx_cnt := so_rx_cnt s + int n, so_rx_nxt := so_rx_nxt s + word_of_nat n,
           so_rx_win := (if n \<ge> unat (so_rx_win s) then 0 else so_rx_win s - word_of_nat n)\<rparr>))
        \<lparr>so_rx_apc := so_rx_apc s + 1\<rparr>)"

definition app_collect :: "tcp \<Rightarrow> tcp" where
  "app_collect s =
     (if so_rx_apc s > 8 then
        (case collect_walk (so_rx_buf s) (so_rx_apc s) (so_rx_cnt s) s of
           (r, c, s') \<Rightarrow> s'\<lparr>so_rx_buf := r, so_rx_apc := so_rx_apc s' - c\<rparr>)
      else s)"

definition NutTcpProcessAppData :: "NETBUF \<Rightarrow> tcp \<Rightarrow> tcp" where
  "NutTcpProcessAppData nb s = tcp_out (app_collect (app_queue nb s))"

definition NutTcpProcessSyn :: "NETBUF \<Rightarrow> tcp \<Rightarrow> tcp" where
  "NutTcpProcessSyn nb s =
     (let s1 = s\<lparr>so_local_addr := ip_dst nb, so_remote_port := th_sport nb, so_remote_addr := ip_src nb,
                 so_rx_isn := th_seq nb, so_tx_wl1 := th_seq nb, so_rx_nxt := th_seq nb + 1, so_tx_win := th_win nb\<rparr>
      in case if_mtu s1 (ip_src nb) of
           None \<Rightarrow> s1
         | Some mtu \<Rightarrow>
             let mss = mtu - 20 - 20;
                 s2 = (if so_mss s1 = 0 \<or> so_mss s1 > mss then s1\<lparr>so_mss := mss\<rparr> else s1)
             in if so_devobsz s2 > so_mss s2 then s2\<lparr>so_devobsz := so_mss s2\<rparr> else s2)"

section \<open>Aborting and retransmitting\<close>

definition closed_by_application :: "tcps \<Rightarrow> bool" where
  "closed_by_application st \<longleftrightarrow>
     st \<in> {TCPS_FIN_WAIT_1, TCPS_CLOSING, TCPS_LAST_ACK, TCPS_FIN_WAIT_2, TCPS_TIME_WAIT, TCPS_DESTROY}"

definition NutTcpAbortSocket :: "tcp_error \<Rightarrow> tcp \<Rightarrow> tcp" where
  "NutTcpAbortSocket e s =
     act ([Broadcast So_rx_tq, Broadcast So_tx_tq, Broadcast So_pc_tq, Broadcast So_ac_tq]
          @ (if so_state s \<noteq> TCPS_SYN_SENT then [SelectWakeupRead, SelectWakeupWrite] else []))
       (NutTcpDiscardBuffers
          (s\<lparr>so_last_error := e, so_retran_time := 0, so_time_wait := 0,
             so_state := (if closed_by_application (so_state s) then TCPS_TIME_WAIT else TCPS_CLOSED)\<rparr>))"

definition TCP_RETRIES_MAX :: u16 where "TCP_RETRIES_MAX = 7"
definition TCP_RTTO_MAX :: u16 where "TCP_RTTO_MAX = 20000"

text \<open>Only called while a segment is waiting to be acknowledged; with an empty queue a null pointer is read.\<close>

definition NutTcpStateRetranTimeout :: "tcp \<Rightarrow> tcp \<times> int" where
  "NutTcpStateRetranTimeout s =
     (let s1 = s\<lparr>so_retransmits := so_retransmits s + 1\<rparr> in
      if so_retransmits s > TCP_RETRIES_MAX then (NutTcpAbortSocket ETIMEDOUT s1, -1)
      else case so_tx_nbq s1 of
        [] \<Rightarrow> (s1, -1)
      | nb # nbs \<Rightarrow>
          (case ask s1 of (ok, s2) \<Rightarrow>
             if \<not> ok then (NutTcpAbortSocket ENETDOWN (s2\<lparr>so_tx_nbq := nbs\<rparr>), -1)
             else (act [TxSegment (so_remote_addr s2) nb]
                     (s2\<lparr>so_retran_time := retran_now s2,
                         so_rtto := (if so_rtto s2 < TCP_RTTO_MAX div 2 then push_bit 1 (so_rtto s2) else TCP_RTTO_MAX)\<rparr>), 0)))"

section \<open>Acknowledgements\<close>

definition seg_end :: "NETBUF \<Rightarrow> u32" where
  "seg_end nb = th_seq nb + word_of_nat (length (nb_ap nb)) + (if th_flags nb AND (TH_SYN OR TH_FIN) \<noteq> 0 then 1 else 0)"

fun ack_loop :: "u32 \<Rightarrow> NETBUF list \<Rightarrow> NETBUF list \<times> NETBUF list" where
  "ack_loop h_ack [] = ([], [])"
| "ack_loop h_ack (nb # nbs) =
     (if SeqIsAfter (seg_end nb) h_ack then ([], nb # nbs)
      else case ack_loop h_ack nbs of (done, rest) \<Rightarrow> (nb # done, rest))"

definition ack_window :: "NETBUF \<Rightarrow> tcp \<Rightarrow> tcp" where
  "ack_window th s =
     (if th_ack th = so_tx_una s \<and>
         (SeqIsAfter (th_seq th) (so_tx_wl1 s) \<or> th_seq th = so_tx_wl1 s \<and> \<not> SeqIsAfter (so_tx_wl2 s) (th_ack th))
      then s\<lparr>so_tx_win := th_win th, so_tx_wl1 := th_seq th, so_tx_wl2 := th_ack th\<rparr> else s)"

definition ack_duplicate :: "NETBUF \<Rightarrow> tcp \<Rightarrow> tcp \<times> int" where
  "ack_duplicate th s =
     (if so_tx_nbq s \<noteq> [] \<and> nb_ap th = [] \<and> th_flags th AND (TH_SYN OR TH_FIN) = 0 then
        (let s1 = s\<lparr>so_tx_dup := so_tx_dup s + 1\<rparr> in
         if so_tx_dup s1 \<ge> 3 then (case NutTcpStateRetranTimeout (s1\<lparr>so_tx_dup := 0\<rparr>) of (s2, rc) \<Rightarrow> (s2, if rc \<noteq> 0 then -1 else 0))
         else (s1, 0))
      else (s, 0))"

definition ack_new :: "NETBUF \<Rightarrow> tcp \<Rightarrow> tcp" where
  "ack_new th s =
     (let s1 = s\<lparr>so_tx_dup := 0, so_tx_una := th_ack th, so_tx_win := th_win th\<rparr>;
          s2 = (if so_rtt_seq s1 \<noteq> 0 \<and> SeqIsAfter (th_ack th) (so_rtt_seq s1) then NutTcpCalcRtt s1 else s1)\<lparr>so_rtt_seq := 0\<rparr>
      in case ack_loop (th_ack th) (so_tx_nbq s2) of
           (done, rest) \<Rightarrow>
             act (map Release done)
               (s2\<lparr>so_tx_nbq := rest, so_retran_time := (if rest \<noteq> [] then retran_now s2 else 0), so_retransmits := 0\<rparr>))"

definition NutTcpProcessAck :: "NETBUF \<Rightarrow> tcp \<Rightarrow> tcp \<times> int" where
  "NutTcpProcessAck th s =
     (if SeqIsAfter (th_ack th) (so_tx_nxt s) then (set_flags (SO_ACK OR SO_FORCE) s, 0)
      else let s1 = ack_window th s in
        if SeqIsAfter (so_tx_una s1) (th_ack th) then (s1, 0)
        else if th_ack th = so_tx_una s1 then ack_duplicate th s1
        else (ack_new th s1, 0))"

definition tcp_ack :: "NETBUF \<Rightarrow> tcp \<Rightarrow> tcp" where
  "tcp_ack th s = fst (NutTcpProcessAck th s)"

section \<open>State changes\<close>

text \<open>
  The checks of a state change: whether it is legal, the flags to be set, and whether a segment has
  to be sent.
\<close>

fun state_check :: "tcps \<Rightarrow> tcps \<Rightarrow> (u8 \<times> bool) option" where
  "state_check TCPS_ESTABLISHED st =
     (if st = TCPS_FIN_WAIT_1 then Some (SO_FIN OR SO_ACK, True)
      else if st = TCPS_CLOSE_WAIT then Some (SO_ACK OR SO_FORCE, True)
      else None)"
| "state_check TCPS_LISTEN st =
     (if st = TCPS_SYN_RECEIVED then Some (SO_SYN OR SO_ACK, True)
      else if st = TCPS_DESTROY then Some (0, False)
      else None)"
| "state_check TCPS_SYN_SENT st =
     (if st = TCPS_LISTEN then Some (0, False)
      else if st = TCPS_SYN_RECEIVED then Some (SO_SYN OR SO_ACK, True)
      else if st = TCPS_ESTABLISHED then Some (SO_ACK OR SO_FORCE, True)
      else if st = TCPS_DESTROY then Some (0, False)
      else None)"
| "state_check TCPS_SYN_RECEIVED st =
     (if st = TCPS_LISTEN then Some (0, False)
      else if st = TCPS_ESTABLISHED then Some (0, False)
      else if st = TCPS_FIN_WAIT_1 then Some (SO_FIN, True)
      else if st = TCPS_CLOSE_WAIT then Some (SO_FIN OR SO_ACK, True)
      else None)"
| "state_check TCPS_FIN_WAIT_1 st =
     (if st = TCPS_FIN_WAIT_1 \<or> st = TCPS_FIN_WAIT_2 then Some (0, False)
      else if st = TCPS_CLOSING then Some (SO_ACK OR SO_FORCE, True)
      else if st = TCPS_TIME_WAIT \<or> st = TCPS_DESTROY then Some (0, False)
      else None)"
| "state_check TCPS_FIN_WAIT_2 st =
     (if st = TCPS_DESTROY then Some (0, False)
      else if st = TCPS_TIME_WAIT then Some (SO_ACK OR SO_FORCE, True)
      else None)"
| "state_check TCPS_CLOSE_WAIT st = (if st = TCPS_LAST_ACK then Some (SO_FIN OR SO_ACK, True) else None)"
| "state_check TCPS_CLOSING st = (if st = TCPS_DESTROY \<or> st = TCPS_TIME_WAIT then Some (0, False) else None)"
| "state_check TCPS_LAST_ACK st = (if st = TCPS_DESTROY then Some (0, False) else None)"
| "state_check TCPS_TIME_WAIT st = (if st = TCPS_DESTROY then Some (0, False) else None)"
| "state_check TCPS_CLOSED st =
     (if st = TCPS_LISTEN then Some (0, False)
      else if st = TCPS_SYN_SENT then Some (SO_SYN, True)
      else if st = TCPS_DESTROY then Some (0, False)
      else None)"
| "state_check TCPS_DESTROY st = Some (0, False)"

text \<open>
  An illegal change is refused. From \<^verbatim>\<open>TCPS_FIN_WAIT_2\<close> even an illegal one leaves the flags for an
  acknowledgement set.
\<close>

definition NutTcpStateChange :: "tcps \<Rightarrow> tcp \<Rightarrow> tcp \<times> int" where
  "NutTcpStateChange st s =
     (case state_check (so_state s) st of
        None \<Rightarrow> (if so_state s = TCPS_FIN_WAIT_2 then set_flags (SO_ACK OR SO_FORCE) s else s, -1)
      | Some (fl, txf) \<Rightarrow>
          let s1 = (set_flags fl s)\<lparr>tcp_run_gc := tcp_run_gc s \<or> st = TCPS_DESTROY, so_state := st\<rparr>;
              (s2, orc) = (if txf then NutTcpOutput [] s1 else (s1, 0));
              (s3, rc) = (if orc \<noteq> 0 \<and> st = TCPS_SYN_SENT
                          then (act [Post So_ac_tq] (s2\<lparr>so_last_error := EHOSTDOWN\<rparr>), -1) else (s2, 0))
          in (if st = TCPS_CLOSE_WAIT
              then act [Broadcast So_rx_tq, Broadcast So_pc_tq, Broadcast So_ac_tq, SelectWakeupRead, SelectWakeupWrite] s3
              else s3, rc))"

definition tcp_state :: "tcps \<Rightarrow> tcp \<Rightarrow> tcp" where
  "tcp_state st s = fst (NutTcpStateChange st s)"

definition NutTcpStateCloseEvent :: "tcp \<Rightarrow> tcp \<times> int" where
  "NutTcpStateCloseEvent s =
     (if so_state s \<in> {TCPS_LISTEN, TCPS_SYN_SENT, TCPS_CLOSED} then (tcp_state TCPS_DESTROY s, 0)
      else if so_state s \<in> {TCPS_SYN_RECEIVED, TCPS_ESTABLISHED} then (tcp_state TCPS_FIN_WAIT_1 s, 0)
      else if so_state s = TCPS_CLOSE_WAIT then (tcp_state TCPS_LAST_ACK s, 0)
      else if so_state s = TCPS_DESTROY then (s\<lparr>so_last_error := ENOTCONN\<rparr>, -1)
      else (s\<lparr>so_last_error := EALREADY\<rparr>, -1))"

definition NutTcpStateWindowEvent :: "tcp \<Rightarrow> tcp" where
  "NutTcpStateWindowEvent s = tcp_out (set_flags (SO_ACK OR SO_FORCE) s)"

section \<open>Segments in each state\<close>

definition NutTcpStateListen :: "NETBUF \<Rightarrow> tcp \<Rightarrow> tcp" where
  "NutTcpStateListen nb s =
     (if th_flags nb AND (TH_SYN OR TH_ACK OR TH_RST) = TH_SYN
      then act [Release nb] (tcp_state TCPS_SYN_RECEIVED (NutTcpProcessSyn nb s))
      else NutTcpReject nb s)"

definition NutTcpStateSynSent :: "NETBUF \<Rightarrow> tcp \<Rightarrow> tcp" where
  "NutTcpStateSynSent nb s =
     (let fl = th_flags nb in
      if fl AND TH_ACK \<noteq> 0 \<and> \<not> SeqIsBetween (th_ack nb) (so_tx_isn s + 1) (so_tx_nxt s) then NutTcpReject nb s
      else if fl AND TH_RST \<noteq> 0 then
        act [Release nb] (if fl AND TH_ACK \<noteq> 0 then NutTcpAbortSocket ECONNREFUSED s else s)
      else act [Release nb]
        (if fl AND TH_SYN \<noteq> 0 then
           (let s1 = NutTcpProcessSyn nb s in
            if fl AND TH_ACK \<noteq> 0 then act [Post So_ac_tq] (tcp_state TCPS_ESTABLISHED (tcp_ack nb s1))
            else tcp_state TCPS_SYN_RECEIVED s1)
         else s))"

definition NutTcpStateSynReceived :: "NETBUF \<Rightarrow> tcp \<Rightarrow> tcp" where
  "NutTcpStateSynReceived nb s =
     (let fl = th_flags nb in
      if fl AND TH_RST \<noteq> 0 then
        (let s1 = (if so_pc_tq s \<noteq> 0 then tcp_state TCPS_LISTEN s else NutTcpAbortSocket ECONNREFUSED s);
             s2 = (act [Release nb] s1)\<lparr>so_retran_time := 0\<rparr>
         in NutTcpDiscardBuffers s2)
      else if fl AND TH_SYN \<noteq> 0 then act [Release nb] s
      else if fl AND TH_ACK = 0 then act [Release nb] s
      else if \<not> SeqIsBetween (th_ack nb) (so_tx_una s + 1) (so_tx_nxt s) then NutTcpReject nb s
      else
        (let s1 = tcp_ack nb s;
             s2 = (if nb_ap nb \<noteq> [] then NutTcpProcessAppData nb s1 else act [Release nb] s1)
         in if fl AND TH_FIN \<noteq> 0 then tcp_state TCPS_CLOSE_WAIT (s2\<lparr>so_rx_nxt := so_rx_nxt s2 + 1\<rparr>)
            else act [Post So_pc_tq, Post So_ac_tq] (tcp_state TCPS_ESTABLISHED s2)))"

text \<open>A segment that arrives early is kept, ordered by its sequence number; \<open>None\<close> if there is one with this number.\<close>

fun adv_insert :: "NETBUF \<Rightarrow> NETBUF list \<Rightarrow> NETBUF list option" where
  "adv_insert nb [] = Some [nb]"
| "adv_insert nb (nbq # nbs) =
     (if SeqIsAfter (th_seq nbq) (th_seq nb) then Some (nb # nbq # nbs)
      else if th_seq nb = th_seq nbq then None
      else map_option (\<lambda>r. nbq # r) (adv_insert nb nbs))"

definition adv_size :: "NETBUF \<Rightarrow> u32" where
  "adv_size nb = word_of_nat (nb_dl_sz nb + 20 + 20 + length (nb_ap nb))"

definition tcp_adv_max :: u32 where
  "tcp_adv_max = 3216"

definition tcp_early :: "NETBUF \<Rightarrow> tcp \<Rightarrow> tcp" where
  "tcp_early nb s =
     tcp_out (set_flags (SO_ACK OR SO_FORCE)
       (if nb_ap nb \<noteq> [] then
          (let s1 = s\<lparr>tcp_adv_cnt := tcp_adv_cnt s + adv_size nb\<rparr> in
           if tcp_adv_cnt s1 > tcp_adv_max then act [Release nb] (s1\<lparr>tcp_adv_cnt := tcp_adv_cnt s1 - adv_size nb\<rparr>)
           else case adv_insert nb (so_rx_nbq s1) of
                  None \<Rightarrow> act [Release nb] s1
                | Some q \<Rightarrow> s1\<lparr>so_rx_nbq := q\<rparr>)
        else act [Release nb] s))"

text \<open>What sending and collecting leave alone: everything that has to do with received data.\<close>

definition rx_view :: "tcp \<Rightarrow> _" where
  "rx_view s = (so_rx_nbq s, so_rx_nxt s, so_rx_buf s, so_rx_cnt s, so_rx_isn s, so_state s, tcp_adv_cnt s, so_rx_apc s, so_rd_cnt s)"

lemma rx_view_simps [simp]:
  "rx_view (act xs s) = rx_view s" "rx_view (snd (ask s)) = rx_view s" "rx_view (set_flags m s) = rx_view s"
  "rx_view (clear_flags m s) = rx_view s" "rx_view (s\<lparr>so_tx_nxt := v\<rparr>) = rx_view s" "rx_view (s\<lparr>so_last_error := e\<rparr>) = rx_view s"
  "rx_view (s\<lparr>so_retran_time := t\<rparr>) = rx_view s" "rx_view (s\<lparr>so_tx_nbq := q\<rparr>) = rx_view s" "rx_view (s\<lparr>so_rtt_seq := v\<rparr>) = rx_view s"
  by (simp_all add: rx_view_def act_def ask_def set_flags_def clear_flags_def)

lemma rx_viewD:
  assumes "rx_view s' = rx_view s"
  shows "so_rx_nbq s' = so_rx_nbq s" "so_rx_nxt s' = so_rx_nxt s" "so_rx_buf s' = so_rx_buf s" "so_rx_cnt s' = so_rx_cnt s"
    "so_rx_isn s' = so_rx_isn s" "so_state s' = so_state s" "tcp_adv_cnt s' = tcp_adv_cnt s" "so_rx_apc s' = so_rx_apc s"
    "so_rd_cnt s' = so_rd_cnt s"
  using assms by (simp_all add: rx_view_def)

lemma ask_view: "ask s = (b, s') \<Longrightarrow> rx_view s' = rx_view s"
  using rx_view_simps(2) [of s] by simp

lemma out_header_view: "out_header n s = (fl, a, s') \<Longrightarrow> rx_view s' = rx_view s"
  by (auto simp: out_header_def split: if_splits)

lemma out_send_view: "rx_view (fst (out_send nb s)) = rx_view s"
  by (auto simp: out_send_def split: prod.split dest: ask_view)

lemma out_queue_view: "rx_view (out_queue nb s) = rx_view s"
  by (simp add: out_queue_def Let_def)

lemma out_finish_view: "rx_view (fst (out_finish n nb s)) = rx_view s"
  by (auto simp: out_finish_def out_send_view out_queue_view split: prod.split dest!: ask_view)

lemma output_view: "rx_view (fst (NutTcpOutput data s)) = rx_view s"
  by (auto simp: NutTcpOutput_def Let_def out_finish_view split: prod.split dest!: ask_view out_header_view)

lemma tcp_out_view [simp]: "rx_view (tcp_out s) = rx_view s"
  by (simp add: tcp_out_def output_view)

lemma collect_view: "NutNetBufCollect nb nbs n s = (r, c, s') \<Longrightarrow> rx_view s' = rx_view s"
  by (auto simp: NutNetBufCollect_def split: prod.splits if_splits dest!: ask_view)

lemma collect_walk_view: "collect_walk q apc cnt s = (r, c, s') \<Longrightarrow> rx_view s' = rx_view s"
  by (induction q arbitrary: apc cnt r) (auto split: prod.splits if_splits dest: collect_view)

lemma app_queue_simps [simp]:
  "so_rx_buf (app_queue nb s) = so_rx_buf s @ [nb]" "so_rx_cnt (app_queue nb s) = so_rx_cnt s + int (length (nb_ap nb))"
  "so_rx_nxt (app_queue nb s) = so_rx_nxt s + word_of_nat (length (nb_ap nb))" "so_rx_nbq (app_queue nb s) = so_rx_nbq s"
  "so_state (app_queue nb s) = so_state s" "so_rd_cnt (app_queue nb s) = so_rd_cnt s" "so_rx_isn (app_queue nb s) = so_rx_isn s"
  by (simp_all add: app_queue_def set_flags_def Let_def)

lemma app_collect_simps [simp]:
  "so_rx_cnt (app_collect s) = so_rx_cnt s" "so_rx_nxt (app_collect s) = so_rx_nxt s" "so_rx_nbq (app_collect s) = so_rx_nbq s"
  "so_state (app_collect s) = so_state s" "so_rd_cnt (app_collect s) = so_rd_cnt s" "so_rx_isn (app_collect s) = so_rx_isn s"
proof -
  obtain r c s' where w: "collect_walk (so_rx_buf s) (so_rx_apc s) (so_rx_cnt s) s = (r, c, s')" by (metis prod_cases3)
  note v = rx_viewD [OF collect_walk_view [OF w]]
  show "so_rx_cnt (app_collect s) = so_rx_cnt s" "so_rx_nxt (app_collect s) = so_rx_nxt s" "so_rx_nbq (app_collect s) = so_rx_nbq s"
    "so_state (app_collect s) = so_state s" "so_rd_cnt (app_collect s) = so_rd_cnt s" "so_rx_isn (app_collect s) = so_rx_isn s"
    by (simp_all add: app_collect_def w v)
qed

lemma tcp_out_simps [simp]:
  "so_rx_nbq (tcp_out s) = so_rx_nbq s" "so_rx_nxt (tcp_out s) = so_rx_nxt s" "so_rx_buf (tcp_out s) = so_rx_buf s"
  "so_rx_cnt (tcp_out s) = so_rx_cnt s" "so_rx_isn (tcp_out s) = so_rx_isn s" "so_state (tcp_out s) = so_state s"
  "so_rd_cnt (tcp_out s) = so_rd_cnt s"
  by (rule rx_viewD [OF tcp_out_view])+

lemma app_data_nbq: "so_rx_nbq (NutTcpProcessAppData nb s) = so_rx_nbq s"
  by (simp add: NutTcpProcessAppData_def)

text \<open>The segments received in advance that are due now, and the flags of those that were taken.\<close>

function adv_loop :: "u8 \<Rightarrow> tcp \<Rightarrow> u8 \<times> tcp" where
  "adv_loop fl s =
     (case so_rx_nbq s of
        [] \<Rightarrow> (fl, s)
      | nb # nbs \<Rightarrow>
          if SeqIsAfter (th_seq nb) (so_rx_nxt s) then (fl, s)
          else let s1 = s\<lparr>so_rx_nbq := nbs, tcp_adv_cnt := tcp_adv_cnt s - adv_size nb\<rparr> in
            if th_seq nb = so_rx_nxt s1 then adv_loop (fl OR th_flags nb) (NutTcpProcessAppData nb s1)
            else adv_loop fl (act [Release nb] s1))"
  by pat_completeness auto

termination adv_loop
  by (relation "measure (\<lambda>(fl, s). length (so_rx_nbq s))") (auto simp: app_data_nbq act_def)

declare adv_loop.simps [simp del]

definition NutTcpStateEstablished :: "NETBUF \<Rightarrow> tcp \<Rightarrow> tcp" where
  "NutTcpStateEstablished nb s =
     (let fl = th_flags nb in
      if fl AND TH_RST \<noteq> 0 then NutTcpAbortSocket ECONNRESET (act [Release nb] s)
      else if fl AND TH_SYN \<noteq> 0 then (if th_seq nb \<noteq> so_rx_isn s then NutTcpReject nb s else act [Release nb] s)
      else if fl AND TH_ACK = 0 then act [Release nb] s
      else
        (let s1 = tcp_ack nb s in
         if SeqIsAfter (th_seq nb) (so_rx_nxt s1) then tcp_early nb s1
         else
           (let (fl', s2) =
                  (if th_seq nb \<noteq> so_rx_nxt s1 then
                     (fl, tcp_out (act [Release nb] ((set_flags (SO_ACK OR SO_FORCE) s1)\<lparr>so_oos_drop := so_oos_drop s1 + 1\<rparr>)))
                   else if nb_ap nb \<noteq> [] then
                     (case adv_loop fl (NutTcpProcessAppData nb s1) of (f, s') \<Rightarrow> (f, act [Post So_rx_tq, SelectWakeupRead] s'))
                   else (fl, act [Release nb] s1))
            in if fl' AND TH_FIN \<noteq> 0 then tcp_state TCPS_CLOSE_WAIT (s2\<lparr>so_rx_nxt := so_rx_nxt s2 + 1\<rparr>) else s2)))"

text \<open>Data that arrives after the application has closed the socket.\<close>

definition late_data :: "NETBUF \<Rightarrow> tcp \<Rightarrow> tcp" where
  "late_data nb s =
     (if nb_ap nb \<noteq> [] then act [Post So_rx_tq, SelectWakeupRead] (NutTcpProcessAppData nb s) else act [Release nb] s)"

definition NutTcpStateFinWait1 :: "NETBUF \<Rightarrow> tcp \<Rightarrow> tcp" where
  "NutTcpStateFinWait1 nb s =
     (let fl = th_flags nb in
      if fl AND TH_RST \<noteq> 0 then tcp_state TCPS_DESTROY (act [Release nb] s)
      else if fl AND TH_SYN \<noteq> 0 then NutTcpReject nb s
      else if fl AND TH_ACK = 0 then act [Release nb] s
      else
        (let s1 = tcp_ack nb s;
             s2 = (if so_tx_nxt s1 = so_tx_una s1 then tcp_state TCPS_FIN_WAIT_2 s1 else s1);
             s3 = late_data nb s2
         in if fl AND TH_FIN \<noteq> 0 then
              (let s4 = s3\<lparr>so_rx_nxt := so_rx_nxt s3 + 1, so_time_wait := 0\<rparr> in
               if so_state s4 = TCPS_FIN_WAIT_2 then tcp_state TCPS_TIME_WAIT s4 else tcp_state TCPS_CLOSING s4)
            else s3))"

definition NutTcpStateFinWait2 :: "NETBUF \<Rightarrow> tcp \<Rightarrow> tcp" where
  "NutTcpStateFinWait2 nb s =
     (let fl = th_flags nb in
      if fl AND TH_RST \<noteq> 0 then tcp_state TCPS_DESTROY (act [Release nb] s)
      else if fl AND TH_SYN \<noteq> 0 then NutTcpReject nb s
      else if fl AND TH_ACK = 0 then act [Release nb] s
      else
        (let s1 = late_data nb (tcp_ack nb s)
         in if fl AND TH_FIN \<noteq> 0
            then tcp_state TCPS_TIME_WAIT (s1\<lparr>so_rx_nxt := so_rx_nxt s1 + 1, so_time_wait := 0\<rparr>) else s1))"

definition NutTcpStateCloseWait :: "NETBUF \<Rightarrow> tcp \<Rightarrow> tcp" where
  "NutTcpStateCloseWait nb s =
     (let fl = th_flags nb in
      if fl AND TH_RST \<noteq> 0 then NutTcpAbortSocket ECONNRESET (act [Release nb] s)
      else if fl AND TH_SYN \<noteq> 0 then NutTcpReject nb s
      else act [Release nb] (if fl AND TH_ACK \<noteq> 0 then tcp_ack nb s else s))"

definition NutTcpStateClosing :: "NETBUF \<Rightarrow> tcp \<Rightarrow> tcp" where
  "NutTcpStateClosing nb s =
     (let fl = th_flags nb in
      if fl AND TH_RST \<noteq> 0 then tcp_state TCPS_DESTROY (act [Release nb] s)
      else if fl AND TH_SYN \<noteq> 0 then NutTcpReject nb s
      else if fl AND TH_ACK = 0 then act [Release nb] s
      else
        (let s1 = tcp_ack nb s in
         act [Release nb] (if so_tx_nxt s1 = so_tx_una s1 then tcp_state TCPS_TIME_WAIT (s1\<lparr>so_time_wait := 0\<rparr>) else s1)))"

definition NutTcpStateLastAck :: "NETBUF \<Rightarrow> tcp \<Rightarrow> tcp" where
  "NutTcpStateLastAck nb s =
     (let fl = th_flags nb in
      if fl AND TH_RST \<noteq> 0 then tcp_state TCPS_DESTROY (act [Release nb] s)
      else if fl AND TH_SYN \<noteq> 0 then NutTcpReject nb s
      else if fl AND TH_ACK = 0 then act [Release nb] s
      else
        (let s1 = act [Release nb] (tcp_ack nb s) in
         if so_tx_nxt s1 = so_tx_una s1 then tcp_state TCPS_DESTROY s1 else s1))"

definition NutTcpStateProcess :: "NETBUF \<Rightarrow> tcp \<Rightarrow> tcp" where
  "NutTcpStateProcess nb s =
     (case so_state s of
        TCPS_ESTABLISHED \<Rightarrow>
          (let s1 = NutTcpStateEstablished nb s in
           if so_state s1 \<noteq> TCPS_ESTABLISHED \<or> so_tx_win s1 > so_tx_win s \<or> so_tx_una s1 \<noteq> so_tx_una s
           then act [Broadcast So_tx_tq, SelectWakeupWrite] s1 else s1)
      | TCPS_LISTEN \<Rightarrow> NutTcpStateListen nb s
      | TCPS_SYN_SENT \<Rightarrow> NutTcpStateSynSent nb s
      | TCPS_SYN_RECEIVED \<Rightarrow> NutTcpStateSynReceived nb s
      | TCPS_FIN_WAIT_1 \<Rightarrow> NutTcpStateFinWait1 nb s
      | TCPS_FIN_WAIT_2 \<Rightarrow> NutTcpStateFinWait2 nb s
      | TCPS_CLOSE_WAIT \<Rightarrow> NutTcpStateCloseWait nb s
      | TCPS_CLOSING \<Rightarrow> NutTcpStateClosing nb s
      | TCPS_LAST_ACK \<Rightarrow> NutTcpStateLastAck nb s
      | TCPS_TIME_WAIT \<Rightarrow> act [Release nb] s
      | TCPS_CLOSED \<Rightarrow> NutTcpReject nb s
      | TCPS_DESTROY \<Rightarrow> NutTcpReject nb s)"

end
