(* ===== verification/Nut_Tcp_Sock.thy ===== *)
theory Nut_Tcp_Sock
  imports Nut_Tcp
begin

text \<open>
  Reading from a connected TCP socket (\<^verbatim>\<open>net/tcpsock.c\<close>). A call that has to wait for data gives \<open>ReadWait\<close>;
  it goes on with \<open>NutTcpReceive_woken\<close> when it is woken up or its timeout elapses.
\<close>

unbundle bit_operations_syntax

text \<open>
  A new socket: the memory is cleared, the initial sequence number is the tick counter. The fields of
  the virtual device interface are not modelled.
\<close>

definition TCP_WINSIZE :: u16 where "TCP_WINSIZE = 3216"
definition TCP_MSS :: u16 where "TCP_MSS = 536"

definition NutTcpCreateSocket :: "u32 \<Rightarrow> TCPSOCKET" where
  "NutTcpCreateSocket ticks =
     \<lparr>so_devocnt = 0, so_devobuf = [], so_devobsz = TCP_MSS, so_state = TCPS_CLOSED, so_local_addr = 0, so_local_port = 0, so_remote_addr = 0,
      so_remote_port = 0, so_tx_flags = 0, so_tx_isn = ticks, so_tx_una = ticks, so_tx_nxt = ticks, so_tx_wl1 = 0,
      so_tx_wl2 = 0, so_tx_win = 0, so_tx_dup = 0, so_tx_nbq = [], so_rx_isn = 0, so_rx_nxt = 0, so_rx_win = TCP_WINSIZE,
      so_rx_cnt = 0, so_rx_bsz = uint TCP_WINSIZE, so_rd_cnt = 0, so_rx_apc = 0, so_rx_buf = [], so_rx_nbq = [],
      so_mss = TCP_MSS, so_rtt_seq = 0, so_rtto = 1000, so_rtsv = 1000, so_rtsa = 0, so_retransmits = 0, so_time_wait = 0,
      so_retran_time = 0, so_last_error = NoError, so_pc_tq = 0, so_read_to = 0, so_write_to = 0, so_oos_drop = 0\<rparr>"

text \<open>Global variables and environment that a socket can be attached to: no early segments yet, every request granted.\<close>

definition tcp_start :: "tcp" where
  "tcp_start = TCPSOCKET.extend (NutTcpCreateSocket 0)
     (tcp.fields 0 False (\<lambda>_. True) 0 (\<lambda>_. Some 1500) 0 [])"

datatype received = Received "u8 list" | ReadError | ReadTimeout | ReadWait

text \<open>
  The copy loop: \<open>m\<close> bytes are wanted, the first \<open>rd\<close> bytes of the first buffer are already taken. The result
  holds the bytes copied, the new read position, the size and the list of the buffers used up and the
  buffers that are left. \<open>None\<close> is an access through a null pointer or a copy of negative size.
\<close>

fun receive_loop :: "int \<Rightarrow> int \<Rightarrow> NETBUF list \<Rightarrow> (u8 list \<times> int \<times> int \<times> NETBUF list \<times> NETBUF list) option" where
  "receive_loop m rd [] = (if m > 0 then None else Some ([], rd, 0, [], []))"
| "receive_loop m rd (nb # nbs) =
     (if m \<le> 0 then Some ([], rd, 0, [], nb # nbs)
      else let nb_cnt = int (length (nb_ap nb)) - rd;
               mv = (if m > nb_cnt then nb_cnt else m);
               d = take (nat mv) (drop (nat rd) (nb_ap nb))
           in if mv < 0 \<or> rd < 0 then None
              else if mv \<ge> nb_cnt then
                (case receive_loop (m - mv) 0 nbs of
                   None \<Rightarrow> None
                 | Some (d', rd', c, used, rest) \<Rightarrow> Some (d @ d', rd', rd + mv + c, nb # used, rest))
              else Some (d, rd + mv, 0, [], nb # nbs))"

definition receive_window :: "int \<Rightarrow> tcp \<Rightarrow> tcp" where
  "receive_window n s =
     (if so_state s = TCPS_ESTABLISHED then
        (let i = (if uint (so_rx_win s) + n > so_rx_bsz s then so_rx_bsz s else uint (so_rx_win s) + n);
             s1 = s\<lparr>so_rx_win := word_of_int i\<rparr>
         in if so_rx_win s \<le> so_mss s \<and> i > uint (so_mss s) then NutTcpStateWindowEvent s1 else set_flags SO_ACK s1)
      else s)"

definition receive_data :: "int \<Rightarrow> tcp \<Rightarrow> (received \<times> tcp) option" where
  "receive_data n s =
     (if so_state s \<noteq> TCPS_ESTABLISHED \<and> so_rx_buf s = [] then Some (ReadError, s\<lparr>so_last_error := ENOTCONN\<rparr>)
      else let m = (if n > so_rx_cnt s - so_rd_cnt s then so_rx_cnt s - so_rd_cnt s else n) in
        if m = 0 then Some (Received [], s)
        else case receive_loop m (so_rd_cnt s) (so_rx_buf s) of
          None \<Rightarrow> None
        | Some (d, rd, c, used, rest) \<Rightarrow>
            Some (Received d, receive_window m
              (act (map Release used)
                 (s\<lparr>so_rx_buf := rest, so_rx_cnt := so_rx_cnt s - c, so_rx_apc := so_rx_apc s - int (length used),
                    so_rd_cnt := rd\<rparr>))))"

definition receive_check :: "int \<Rightarrow> tcp \<Rightarrow> (received \<times> tcp) option" where
  "receive_check n s =
     (if so_rx_cnt s - so_rd_cnt s = 0 then
        (if so_state s \<noteq> TCPS_ESTABLISHED then Some (ReadError, s\<lparr>so_last_error := ENOTCONN\<rparr>) else Some (ReadWait, s))
      else receive_data n s)"

definition NutTcpReceive :: "int \<Rightarrow> tcp \<Rightarrow> (received \<times> tcp) option" where
  "NutTcpReceive n s =
     (if so_state s \<noteq> TCPS_ESTABLISHED \<and> so_state s \<noteq> TCPS_CLOSE_WAIT then Some (ReadError, s\<lparr>so_last_error := ENOTCONN\<rparr>)
      else if n = 0 then Some (Received [], s)
      else receive_check n s)"

definition NutTcpReceive_woken :: "bool \<Rightarrow> int \<Rightarrow> tcp \<Rightarrow> (received \<times> tcp) option" where
  "NutTcpReceive_woken timeout n s = (if timeout then Some (ReadTimeout, s) else receive_check n s)"

text \<open>What a socket goes through: segments that arrive, and reads of the application.\<close>

datatype tcp_event = Segment NETBUF | Read int | Woken bool int

definition read_step :: "(received \<times> tcp) option \<Rightarrow> u8 list \<Rightarrow> (tcp \<times> u8 list) option" where
  "read_step r got =
     (case r of None \<Rightarrow> None | Some (Received d, s) \<Rightarrow> Some (s, got @ d) | Some (_, s) \<Rightarrow> Some (s, got))"

fun tcp_step :: "tcp_event \<Rightarrow> tcp \<times> u8 list \<Rightarrow> (tcp \<times> u8 list) option" where
  "tcp_step (Segment nb) (s, got) = map_option (\<lambda>s1. (NutTcpStateProcess nb s1, got)) (NutTcpInputOptions nb s)"
| "tcp_step (Read n) (s, got) = read_step (NutTcpReceive n s) got"
| "tcp_step (Woken timeout n) (s, got) = read_step (NutTcpReceive_woken timeout n s) got"

fun tcp_run :: "tcp_event list \<Rightarrow> tcp \<times> u8 list \<Rightarrow> (tcp \<times> u8 list) option" where
  "tcp_run [] x = Some x"
| "tcp_run (e # es) x = (case tcp_step e x of None \<Rightarrow> None | Some y \<Rightarrow> tcp_run es y)"

end
