(* ===== verification/Nut_Tcp_Stream.thy ===== *)
theory Nut_Tcp_Stream
  imports Nut_Tcp_Sock "HOL-Library.Sublist"
begin

text \<open>
  The receiving side of an established connection puts the byte stream of the peer together: whatever
  segments of the stream arrive, in any order, with losses and repetitions, the data that is kept for
  the application is a contiguous piece of the stream.
\<close>

unbundle bit_operations_syntax

section \<open>Sequence numbers\<close>

lemma seq_after:
  assumes "a < 2 ^ 31" and "b < 2 ^ 31"
  shows "SeqIsAfter (base + word_of_nat a) (base + word_of_nat b) \<longleftrightarrow> b < a"
proof -
  have "sint (word_of_int (int b - int a) :: u32) = int b - int a"
    using assms signed_take_bit_int_eq_self [of 31 "int b - int a"] by (simp add: signed_of_int del: of_int_diff)
  moreover have "(base + word_of_nat b) - (base + word_of_nat a) = (word_of_int (int b - int a) :: u32)" by simp
  ultimately show ?thesis by (simp only: SeqIsAfter_def) linarith
qed

lemma seq_eq:
  assumes "a < 2 ^ 31" and "b < 2 ^ 31"
  shows "base + word_of_nat a = (base + word_of_nat b :: u32) \<longleftrightarrow> a = b"
proof -
  have "unat (word_of_nat a :: u32) = a" "unat (word_of_nat b :: u32) = b"
    using assms by (simp_all add: unat_of_nat)
  then show ?thesis by (metis add_left_cancel)
qed

section \<open>Received data\<close>

definition rx_data :: "tcp \<Rightarrow> u8 list" where
  "rx_data s = concat (map nb_ap (so_rx_buf s))"

lemma collect_loop_data:
  "collect_loop d nbs n = (d', dn, rest) \<Longrightarrow> d' @ concat (map nb_ap rest) = d @ concat (map nb_ap nbs)"
  by (induction nbs arbitrary: d dn) (auto split: if_splits prod.splits)

lemma collect_data:
  "NutNetBufCollect nb nbs n s = (r, c, s') \<Longrightarrow> concat (map nb_ap r) = nb_ap nb @ concat (map nb_ap nbs)"
  by (auto simp: NutNetBufCollect_def split: if_splits prod.splits dest!: collect_loop_data)

lemma collect_walk_data:
  "collect_walk q apc cnt s = (r, c, s') \<Longrightarrow> concat (map nb_ap r) = concat (map nb_ap q)"
  by (induction q arbitrary: apc cnt r) (auto split: if_splits prod.splits dest: collect_data)

lemma collect_rx_data: "rx_data (app_collect s) = rx_data s"
  by (auto simp: app_collect_def rx_data_def split: prod.split dest: collect_walk_data)

lemma app_data:
  "rx_data (NutTcpProcessAppData nb s) = rx_data s @ nb_ap nb"
  "so_rx_nxt (NutTcpProcessAppData nb s) = so_rx_nxt s + word_of_nat (length (nb_ap nb))"
  "so_state (NutTcpProcessAppData nb s) = so_state s"
  using collect_rx_data [of "app_queue nb s"] by (simp_all add: NutTcpProcessAppData_def rx_data_def)

section \<open>Acknowledgements do not touch received data\<close>

lemma rx_view_tx [simp]:
  "rx_view (s\<lparr>so_tx_win := w\<rparr>) = rx_view s" "rx_view (s\<lparr>so_tx_wl1 := v\<rparr>) = rx_view s" "rx_view (s\<lparr>so_tx_wl2 := v\<rparr>) = rx_view s"
  "rx_view (s\<lparr>so_tx_dup := d\<rparr>) = rx_view s" "rx_view (s\<lparr>so_tx_una := v\<rparr>) = rx_view s" "rx_view (s\<lparr>so_retransmits := w\<rparr>) = rx_view s"
  "rx_view (s\<lparr>so_rtsa := v\<rparr>) = rx_view s" "rx_view (s\<lparr>so_rtsv := w\<rparr>) = rx_view s" "rx_view (s\<lparr>so_rtto := w\<rparr>) = rx_view s"
  "rx_view (s\<lparr>so_oos_drop := v\<rparr>) = rx_view s" "rx_view (s\<lparr>so_time_wait := w\<rparr>) = rx_view s"
  by (simp_all add: rx_view_def)

text \<open>A socket that has been aborted has no data left and is closed, or waits if the application has closed it.\<close>

definition aborted :: "tcp \<Rightarrow> tcp \<Rightarrow> bool" where
  "aborted s s' \<longleftrightarrow> so_rx_buf s' = [] \<and> so_rx_nbq s' = [] \<and> so_rd_cnt s' = so_rd_cnt s
     \<and> so_state s' = (if closed_by_application (so_state s) then TCPS_TIME_WAIT else TCPS_CLOSED)"

lemma abort_aborted: "aborted s (NutTcpAbortSocket e s)"
  by (simp add: aborted_def NutTcpAbortSocket_def NutTcpDiscardBuffers_def act_def)

lemma aborted_view: "rx_view s1 = rx_view s \<Longrightarrow> aborted s1 s' \<Longrightarrow> aborted s s'"
  using rx_viewD(6,9) [of s1 s] by (simp add: aborted_def)

lemma ack_window_view [simp]: "rx_view (ack_window th s) = rx_view s"
  by (simp add: ack_window_def)

lemma calc_rtt_view [simp]: "rx_view (NutTcpCalcRtt s) = rx_view s"
  by (simp add: NutTcpCalcRtt_def Let_def)

lemma ack_new_view [simp]: "rx_view (ack_new th s) = rx_view s"
  by (simp add: ack_new_def Let_def split: prod.split)

lemma retran_cases: "rx_view (fst (NutTcpStateRetranTimeout s)) = rx_view s \<or> aborted s (fst (NutTcpStateRetranTimeout s))"
proof -
  have "aborted s (NutTcpAbortSocket e s1)" if "rx_view s1 = rx_view s" for e s1
    using aborted_view [OF that abort_aborted] .
  then show ?thesis
    by (auto simp: NutTcpStateRetranTimeout_def Let_def split: list.split prod.split dest!: ask_view)
qed

lemma ack_duplicate_cases:
  "rx_view (fst (ack_duplicate th s)) = rx_view s \<or> nb_ap th = [] \<and> th_flags th AND (TH_SYN OR TH_FIN) = 0 \<and> aborted s (fst (ack_duplicate th s))"
proof -
  let ?s = "s\<lparr>so_tx_dup := 0\<rparr>"
  have "rx_view (fst (NutTcpStateRetranTimeout ?s)) = rx_view s \<or> aborted s (fst (NutTcpStateRetranTimeout ?s))"
    using retran_cases [of ?s] aborted_view [of ?s s] by auto
  then show ?thesis by (auto simp: ack_duplicate_def Let_def split: prod.split)
qed

lemma tcp_ack_cases:
  obtains "rx_view (tcp_ack th s) = rx_view s"
    | "nb_ap th = []" "th_flags th AND (TH_SYN OR TH_FIN) = 0" "aborted s (tcp_ack th s)"
proof -
  have "rx_view (tcp_ack th s) = rx_view s \<or> nb_ap th = [] \<and> th_flags th AND (TH_SYN OR TH_FIN) = 0 \<and> aborted s (tcp_ack th s)"
    using ack_duplicate_cases [of th "ack_window th s"] aborted_view [OF ack_window_view, of th s "fst (ack_duplicate th (ack_window th s))"]
    by (simp add: tcp_ack_def NutTcpProcessAck_def Let_def) blast
  then show thesis using that by blast
qed

section \<open>The queue of early segments\<close>

text \<open>A segment that is a piece of the stream, at offset \<open>i\<close>; the sequence number \<open>base\<close> is that of offset 0.\<close>

definition seg_at :: "u8 list \<Rightarrow> u32 \<Rightarrow> NETBUF \<Rightarrow> nat \<Rightarrow> bool" where
  "seg_at S base nb i \<longleftrightarrow> th_seq nb = base + word_of_nat i \<and> i + length (nb_ap nb) \<le> length S
     \<and> nb_ap nb = take (length (nb_ap nb)) (drop i S)"

fun early_ok :: "u8 list \<Rightarrow> u32 \<Rightarrow> nat \<Rightarrow> NETBUF list \<Rightarrow> bool" where
  "early_ok S base n [] = True"
| "early_ok S base n (nb # q) = (nb_ap nb \<noteq> [] \<and> (\<exists>i. seg_at S base nb i \<and> n < i \<and> early_ok S base i q))"

lemma early_ok_mono: "early_ok S base n q \<Longrightarrow> m \<le> n \<Longrightarrow> early_ok S base m q"
  by (cases q) (auto intro: le_less_trans)

lemma seg_at_le: "seg_at S base nb i \<Longrightarrow> i \<le> length S"
  by (simp add: seg_at_def)

lemma seg_at_after:
  assumes "seg_at S base nb i" and "length S < 2 ^ 31" and "n \<le> length S"
  shows "SeqIsAfter (th_seq nb) (base + word_of_nat n) \<longleftrightarrow> n < i" "th_seq nb = base + word_of_nat n \<longleftrightarrow> i = n"
    "SeqIsAfter (base + word_of_nat n) (th_seq nb) \<longleftrightarrow> i < n"
proof -
  have b: "i < 2 ^ 31" "n < 2 ^ 31" using assms seg_at_le [OF assms(1)] by linarith+
  have e: "th_seq nb = base + word_of_nat i" using assms(1) by (simp add: seg_at_def)
  show "SeqIsAfter (th_seq nb) (base + word_of_nat n) \<longleftrightarrow> n < i" "th_seq nb = base + word_of_nat n \<longleftrightarrow> i = n"
    "SeqIsAfter (base + word_of_nat n) (th_seq nb) \<longleftrightarrow> i < n"
    unfolding e by (rule seq_after [OF b] seq_eq [OF b] seq_after [OF b(2,1)])+
qed

lemma adv_insert_ok:
  assumes "early_ok S base n q" "seg_at S base nb j" "n < j" "length S < 2 ^ 31" "adv_insert nb q = Some q'" "nb_ap nb \<noteq> []"
  shows "early_ok S base n q'"
  using assms
proof (induction q arbitrary: n q')
  case (Cons nbq nbs)
  obtain i where i: "seg_at S base nbq i" "n < i" "early_ok S base i nbs" "nb_ap nbq \<noteq> []" using Cons.prems(1) by auto
  have e: "th_seq nb = base + word_of_nat j" using Cons.prems(2) by (simp add: seg_at_def)
  note c = seg_at_after [OF i(1) Cons.prems(4) seg_at_le [OF Cons.prems(2)], folded e]
  show ?case
  proof (cases "j < i")
    case True
    then have "q' = nb # nbq # nbs" using Cons.prems(5) c by simp
    moreover have "early_ok S base j (nbq # nbs)" using i True by auto
    ultimately show ?thesis using Cons.prems(2,3,6) by auto
  next
    case False
    then have ij: "i < j" using Cons.prems(5) c by (auto split: if_splits)
    then obtain r where r: "adv_insert nb nbs = Some r" "q' = nbq # r" using Cons.prems(5) c by auto
    have "early_ok S base i r" using Cons.IH [OF i(3) Cons.prems(2) ij Cons.prems(4) r(1) Cons.prems(6)] .
    then show ?thesis using i r by auto
  qed
qed auto

section \<open>The buffers of received data\<close>

text \<open>
  No buffer is empty, the counter is the size of the buffers, and the read position is in the first.
\<close>

fun read_pos_ok :: "int \<Rightarrow> NETBUF list \<Rightarrow> bool" where
  "read_pos_ok rd [] = (rd = 0)"
| "read_pos_ok rd (nb # q) = (0 \<le> rd \<and> rd < int (length (nb_ap nb)))"

definition buf_ok :: "tcp \<Rightarrow> bool" where
  "buf_ok s \<longleftrightarrow> so_rx_cnt s = int (length (rx_data s)) \<and> read_pos_ok (so_rd_cnt s) (so_rx_buf s) \<and> [] \<notin> nb_ap ` set (so_rx_buf s)"

lemma buf_view: "rx_view s' = rx_view s \<Longrightarrow> buf_ok s' = buf_ok s"
  using rx_viewD(3,4,9) [of s' s] by (simp add: buf_ok_def rx_data_def)

lemma collect_loop_sub: "collect_loop d nbs n = (d', dn, rest) \<Longrightarrow> set rest \<subseteq> set nbs \<and> length d \<le> length d'"
  by (induction nbs arbitrary: d dn) (force split: if_splits prod.splits)+

lemma collect_pos:
  assumes "NutNetBufCollect nb nbs n s = (r, c, s')" "read_pos_ok rd (nb # nbs)" "[] \<notin> nb_ap ` set (nb # nbs)"
  shows "read_pos_ok rd r \<and> [] \<notin> nb_ap ` set r"
  using assms by (auto simp: NutNetBufCollect_def image_iff subset_iff split: if_splits prod.splits dest!: collect_loop_sub)

lemma collect_walk_pos:
  assumes "collect_walk q apc cnt s = (r, c, s')" "read_pos_ok rd q" "[] \<notin> nb_ap ` set q"
  shows "read_pos_ok rd r \<and> [] \<notin> nb_ap ` set r"
  using assms
proof (induction q arbitrary: apc cnt r rd)
  case (Cons nbq nbs)
  show ?case
  proof (cases "length (nb_ap nbq) < 256 \<or> apc - 1 < 8")
    case True
    then show ?thesis using Cons.prems collect_pos [of nbq nbs cnt s r c s' rd] by (auto split: if_splits)
  next
    case False
    then obtain r' where r': "collect_walk nbs (apc - 1) (cnt - int (length (nb_ap nbq))) s = (r', c, s')" "r = nbq # r'"
      using Cons.prems(1) by (auto split: prod.splits)
    have "read_pos_ok 0 nbs" using Cons.prems(3) by (cases nbs) auto
    then show ?thesis using Cons.IH [OF r'(1)] Cons.prems r'(2) by auto
  qed
qed auto

lemma read_pos_snoc: "read_pos_ok rd q \<Longrightarrow> nb_ap nb \<noteq> [] \<Longrightarrow> read_pos_ok rd (q @ [nb])"
  by (cases q) auto

lemma app_data_buf:
  assumes "buf_ok s" and "nb_ap nb \<noteq> []"
  shows "buf_ok (NutTcpProcessAppData nb s)"
proof -
  have q: "read_pos_ok (so_rd_cnt s) (so_rx_buf s @ [nb])" "[] \<notin> nb_ap ` set (so_rx_buf s @ [nb])"
    using assms by (auto simp: buf_ok_def intro: read_pos_snoc)
  have "read_pos_ok (so_rd_cnt s) (so_rx_buf (app_collect (app_queue nb s))) \<and> [] \<notin> nb_ap ` set (so_rx_buf (app_collect (app_queue nb s)))"
    using q collect_walk_pos [OF _ q] by (auto simp: app_collect_def split: prod.split)
  then show ?thesis using assms(1) by (simp add: buf_ok_def app_data(1)) (simp add: NutTcpProcessAppData_def)
qed

section \<open>The stream\<close>

text \<open>
  The first \<open>n\<close> bytes of the stream have been received in order: \<open>pre\<close> are those in buffers that the
  application has used up, the others are kept. Every early segment is a piece of the stream beyond.
\<close>

definition stream_ok :: "u8 list \<Rightarrow> u32 \<Rightarrow> u8 list \<Rightarrow> nat \<Rightarrow> tcp \<Rightarrow> bool" where
  "stream_ok S base pre n s \<longleftrightarrow>
     n \<le> length S \<and> so_rx_nxt s = base + word_of_nat n \<and> pre @ rx_data s = take n S \<and> buf_ok s"

lemma stream_view: "rx_view s' = rx_view s \<Longrightarrow> stream_ok S base pre n s' = stream_ok S base pre n s"
  using rx_viewD(2,3) [of s' s] buf_view [of s' s] by (simp add: stream_ok_def rx_data_def)

lemma app_data_stream:
  assumes "stream_ok S base pre n s" and "seg_at S base nb n" and "nb_ap nb \<noteq> []"
  shows "stream_ok S base pre (n + length (nb_ap nb)) (NutTcpProcessAppData nb s)"
proof -
  have "pre @ rx_data s @ nb_ap nb = take n S @ take (length (nb_ap nb)) (drop n S)"
    using assms unfolding stream_ok_def seg_at_def by (metis append_assoc)
  then show ?thesis using assms by (simp add: stream_ok_def seg_at_def app_data app_data_buf take_add add.assoc)
qed

lemma app_data_rd: "so_rd_cnt (NutTcpProcessAppData nb s) = so_rd_cnt s"
  by (simp add: NutTcpProcessAppData_def)

lemma adv_loop_stream:
  assumes "stream_ok S base pre n s" "early_ok S base m (so_rx_nbq s)" "length S < 2 ^ 31"
  shows "\<exists>n'. n \<le> n' \<and> stream_ok S base pre n' (snd (adv_loop fl s)) \<and> early_ok S base n' (so_rx_nbq (snd (adv_loop fl s)))
    \<and> so_state (snd (adv_loop fl s)) = so_state s \<and> so_rd_cnt (snd (adv_loop fl s)) = so_rd_cnt s"
  using assms
proof (induction fl s arbitrary: n m rule: adv_loop.induct)
  case (1 fl s)
  show ?case
  proof (cases "so_rx_nbq s")
    case Nil
    then show ?thesis using "1.prems" by (auto simp: adv_loop.simps [of fl s])
  next
    case (Cons nb nbs)
    then obtain i where i: "seg_at S base nb i" "m < i" "early_ok S base i nbs" and ne: "nb_ap nb \<noteq> []" using "1.prems"(2) by auto
    have nx: "so_rx_nxt s = base + word_of_nat n" "n \<le> length S" using "1.prems"(1) by (auto simp: stream_ok_def)
    note c = seg_at_after [OF i(1) "1.prems"(3) nx(2), folded nx(1)]
    let ?s1 = "s\<lparr>so_rx_nbq := nbs, tcp_adv_cnt := tcp_adv_cnt s - adv_size nb\<rparr>"
    have s1: "stream_ok S base pre n ?s1" using "1.prems"(1) by (simp add: stream_ok_def rx_data_def buf_ok_def)
    consider "n < i" | "i = n" | "i < n" by linarith
    then show ?thesis
    proof cases
      case 1
      then show ?thesis using "1.prems" Cons i ne c by (auto simp: adv_loop.simps [of fl s])
    next
      case 2
      have u: "adv_loop fl s = adv_loop (fl OR th_flags nb) (NutTcpProcessAppData nb ?s1)"
        using Cons c 2 by (simp add: adv_loop.simps [of fl s])
      have a: "stream_ok S base pre (n + length (nb_ap nb)) (NutTcpProcessAppData nb ?s1)"
        using app_data_stream [OF s1 _ ne] i(1) 2 by simp
      have "early_ok S base i (so_rx_nbq (NutTcpProcessAppData nb ?s1))" using i(3) by (simp add: app_data_nbq)
      from "1.IH"(1) [OF Cons _ refl _ a this "1.prems"(3)] obtain n' where
        "n + length (nb_ap nb) \<le> n'" "stream_ok S base pre n' (snd (adv_loop fl s))" "early_ok S base n' (so_rx_nbq (snd (adv_loop fl s)))"
        "so_state (snd (adv_loop fl s)) = so_state (NutTcpProcessAppData nb ?s1)"
        "so_rd_cnt (snd (adv_loop fl s)) = so_rd_cnt (NutTcpProcessAppData nb ?s1)"
        unfolding u using c 2 by auto
      moreover have "so_state (NutTcpProcessAppData nb ?s1) = so_state s" "so_rd_cnt (NutTcpProcessAppData nb ?s1) = so_rd_cnt s"
        by (simp_all add: app_data(3) app_data_rd)
      ultimately show ?thesis by (intro exI [of _ n']) simp
    next
      case 3
      have u: "adv_loop fl s = adv_loop fl (act [Release nb] ?s1)" using Cons c 3 by (simp add: adv_loop.simps [of fl s])
      have a: "stream_ok S base pre n (act [Release nb] ?s1)" using s1 by (simp only: stream_view [OF rx_view_simps(1)])
      have "early_ok S base i (so_rx_nbq (act [Release nb] ?s1))" using i(3) by (simp add: act_def)
      from "1.IH"(2) [OF Cons _ refl _ a this "1.prems"(3)] show ?thesis
        unfolding u using c 3 by (auto simp: act_def)
    qed
  qed
qed

text \<open>The invariant of a connection from the moment it is established.\<close>

definition connection_ok :: "u8 list \<Rightarrow> u32 \<Rightarrow> u8 list \<Rightarrow> nat \<Rightarrow> tcp \<Rightarrow> bool" where
  "connection_ok S base pre n s \<longleftrightarrow>
     so_state s = TCPS_ESTABLISHED \<and> stream_ok S base pre n s \<and> early_ok S base n (so_rx_nbq s)
     \<or> so_state s = TCPS_CLOSE_WAIT \<and> n \<le> length S \<and> pre @ rx_data s = take n S \<and> buf_ok s
     \<or> so_state s = TCPS_CLOSED \<and> so_rx_buf s = []"

lemma connection_view: "rx_view s' = rx_view s \<Longrightarrow> connection_ok S base pre n s' = connection_ok S base pre n s"
  using rx_viewD [of s' s] buf_view [of s' s] stream_view [of s' s] by (simp add: connection_ok_def rx_data_def)

lemma connection_simps [simp]:
  "connection_ok S base pre n (act xs s) = connection_ok S base pre n s"
  "connection_ok S base pre n (set_flags m s) = connection_ok S base pre n s"
  "connection_ok S base pre n (tcp_out s) = connection_ok S base pre n s"
  by (rule connection_view, simp)+

lemma rd_simps [simp]: "so_rd_cnt (act xs s) = so_rd_cnt s" "so_rd_cnt (set_flags m s) = so_rd_cnt s"
  by (simp_all add: act_def set_flags_def)

lemma close_wait_change:
  assumes "so_state s = TCPS_ESTABLISHED"
  shows "so_state (tcp_state TCPS_CLOSE_WAIT s) = TCPS_CLOSE_WAIT" "so_rx_buf (tcp_state TCPS_CLOSE_WAIT s) = so_rx_buf s"
    "so_rx_cnt (tcp_state TCPS_CLOSE_WAIT s) = so_rx_cnt s" "so_rd_cnt (tcp_state TCPS_CLOSE_WAIT s) = so_rd_cnt s"
proof -
  let ?s1 = "(set_flags (SO_ACK OR SO_FORCE) s)\<lparr>tcp_run_gc := tcp_run_gc s, so_state := TCPS_CLOSE_WAIT\<rparr>"
  have "rx_view (tcp_state TCPS_CLOSE_WAIT s) = rx_view ?s1"
    using assms output_view [of "[]" ?s1] by (auto simp: tcp_state_def NutTcpStateChange_def Let_def split: prod.split)
  note v = rx_viewD [OF this]
  show "so_state (tcp_state TCPS_CLOSE_WAIT s) = TCPS_CLOSE_WAIT" "so_rx_buf (tcp_state TCPS_CLOSE_WAIT s) = so_rx_buf s"
    "so_rx_cnt (tcp_state TCPS_CLOSE_WAIT s) = so_rx_cnt s" "so_rd_cnt (tcp_state TCPS_CLOSE_WAIT s) = so_rd_cnt s"
    using v by (simp_all add: set_flags_def)
qed

lemma fin_ok:
  assumes "so_state s = TCPS_ESTABLISHED" "stream_ok S base pre n s" "early_ok S base n (so_rx_nbq s)"
  shows "connection_ok S base pre n (if fin then tcp_state TCPS_CLOSE_WAIT (s\<lparr>so_rx_nxt := v\<rparr>) else s)
    \<and> so_rd_cnt (if fin then tcp_state TCPS_CLOSE_WAIT (s\<lparr>so_rx_nxt := v\<rparr>) else s) = so_rd_cnt s"
  using assms close_wait_change [of "s\<lparr>so_rx_nxt := v\<rparr>"]
  by (simp add: connection_ok_def stream_ok_def rx_data_def buf_ok_def)

lemma tcp_early_ok:
  assumes "so_state s = TCPS_ESTABLISHED" "stream_ok S base pre n s" "early_ok S base n (so_rx_nbq s)"
    and "seg_at S base nb i" "n < i" "length S < 2 ^ 31"
  shows "connection_ok S base pre n (tcp_early nb s) \<and> so_rd_cnt (tcp_early nb s) = so_rd_cnt s"
proof -
  have ins: "early_ok S base n q" if "adv_insert nb (so_rx_nbq s) = Some q" "nb_ap nb \<noteq> []" for q
    using adv_insert_ok [OF assms(3-6) that] .
  have "connection_ok S base pre n s" "connection_ok S base pre n (s\<lparr>tcp_adv_cnt := c\<rparr>)"
    "early_ok S base n q \<Longrightarrow> connection_ok S base pre n (s\<lparr>tcp_adv_cnt := c, so_rx_nbq := q\<rparr>)" for c q
    using assms(1-3) by (simp_all add: connection_ok_def stream_ok_def rx_data_def buf_ok_def)
  then show ?thesis using ins by (simp add: tcp_early_def Let_def split: option.split)
qed

text \<open>Acknowledgement, data and FIN of a segment that is not early.\<close>

definition est_data :: "NETBUF \<Rightarrow> tcp \<Rightarrow> u8 \<times> tcp" where
  "est_data nb s =
     (if th_seq nb \<noteq> so_rx_nxt s then
        (th_flags nb, tcp_out (act [Release nb] ((set_flags (SO_ACK OR SO_FORCE) s)\<lparr>so_oos_drop := so_oos_drop s + 1\<rparr>)))
      else if nb_ap nb \<noteq> [] then
        (case adv_loop (th_flags nb) (NutTcpProcessAppData nb s) of (f, s') \<Rightarrow> (f, act [Post So_rx_tq, SelectWakeupRead] s'))
      else (th_flags nb, act [Release nb] s))"

lemma established_ack:
  assumes "th_flags nb AND TH_RST = 0" "th_flags nb AND TH_SYN = 0" "th_flags nb AND TH_ACK \<noteq> 0"
  shows "NutTcpStateEstablished nb s =
    (let s1 = tcp_ack nb s in
     if SeqIsAfter (th_seq nb) (so_rx_nxt s1) then tcp_early nb s1
     else case est_data nb s1 of (fl', s2) \<Rightarrow>
       if fl' AND TH_FIN \<noteq> 0 then tcp_state TCPS_CLOSE_WAIT (s2\<lparr>so_rx_nxt := so_rx_nxt s2 + 1\<rparr>) else s2)"
  using assms by (simp add: NutTcpStateEstablished_def est_data_def Let_def)

lemma reject_view [simp]: "rx_view (NutTcpReject nb s) = rx_view s"
  by (auto simp: NutTcpReject_def split: prod.split dest: ask_view)

lemma established_other:
  assumes "\<not> (th_flags nb AND TH_RST = 0 \<and> th_flags nb AND TH_SYN = 0 \<and> th_flags nb AND TH_ACK \<noteq> 0)"
  shows "rx_view (NutTcpStateEstablished nb s) = rx_view s \<or> aborted s (NutTcpStateEstablished nb s)"
proof -
  have "aborted s (NutTcpAbortSocket ECONNRESET (act [Release nb] s))"
    by (rule aborted_view [OF _ abort_aborted]) simp
  then show ?thesis using assms by (simp add: NutTcpStateEstablished_def Let_def)
qed

lemma aborted_closed:
  "aborted s s' \<Longrightarrow> so_state s = TCPS_ESTABLISHED \<Longrightarrow> connection_ok S base pre n s' \<and> so_rd_cnt s' = so_rd_cnt s"
  by (simp add: aborted_def connection_ok_def closed_by_application_def)

lemma established_empty:
  assumes "th_flags nb AND TH_RST = 0" "th_flags nb AND TH_SYN = 0" "th_flags nb AND TH_ACK \<noteq> 0"
    and "nb_ap nb = []" "th_flags nb AND TH_FIN = 0"
  shows "rx_view (NutTcpStateEstablished nb s) = rx_view (tcp_ack nb s)"
  using assms(4,5) by (simp add: established_ack [OF assms(1-3)] Let_def est_data_def tcp_early_def)

lemma est_data_ok:
  assumes "stream_ok S base pre n s" "early_ok S base n (so_rx_nbq s)" "seg_at S base nb i" "i \<le> n" "length S < 2 ^ 31"
  shows "\<exists>n'. (if i = n then n + length (nb_ap nb) else n) \<le> n' \<and> stream_ok S base pre n' (snd (est_data nb s))
    \<and> early_ok S base n' (so_rx_nbq (snd (est_data nb s)))
    \<and> so_state (snd (est_data nb s)) = so_state s \<and> so_rd_cnt (snd (est_data nb s)) = so_rd_cnt s"
proof -
  have nx: "so_rx_nxt s = base + word_of_nat n" "n \<le> length S" using assms(1) by (auto simp: stream_ok_def)
  note c = seg_at_after [OF assms(3,5) nx(2), folded nx(1)]
  show ?thesis
  proof (cases "i = n \<and> nb_ap nb \<noteq> []")
    case True
    let ?a = "NutTcpProcessAppData nb s"
    have "stream_ok S base pre (n + length (nb_ap nb)) ?a" "early_ok S base n (so_rx_nbq ?a)"
      using app_data_stream [OF assms(1)] assms(2,3) True by (simp_all add: app_data_nbq)
    from adv_loop_stream [OF this assms(5), of "th_flags nb"] obtain n' where
      n': "n + length (nb_ap nb) \<le> n'" "stream_ok S base pre n' (snd (adv_loop (th_flags nb) ?a))"
        "early_ok S base n' (so_rx_nbq (snd (adv_loop (th_flags nb) ?a)))" "so_state (snd (adv_loop (th_flags nb) ?a)) = so_state s"
        "so_rd_cnt (snd (adv_loop (th_flags nb) ?a)) = so_rd_cnt s"
      by (auto simp: app_data(3) app_data_rd)
    obtain f s' where fs: "adv_loop (th_flags nb) ?a = (f, s')" by fastforce
    have "rx_view (snd (est_data nb s)) = rx_view s'" using True c fs by (simp add: est_data_def)
    from rx_viewD [OF this] stream_view [OF this] show ?thesis using n' fs True by (intro exI [of _ n']) simp
  next
    case False
    then have "rx_view (snd (est_data nb s)) = rx_view s" using c by (auto simp: est_data_def)
    from rx_viewD [OF this] stream_view [OF this] show ?thesis using assms False by (intro exI [of _ n]) auto
  qed
qed

lemma established_ok:
  assumes "so_state s = TCPS_ESTABLISHED" "stream_ok S base pre n s" "early_ok S base n (so_rx_nbq s)"
    and seg: "seg_at S base nb i" and S: "length S < 2 ^ 31"
  shows "\<exists>n' \<ge> n. connection_ok S base pre n' (NutTcpStateEstablished nb s) \<and> so_rd_cnt (NutTcpStateEstablished nb s) = so_rd_cnt s"
proof -
  have c0: "connection_ok S base pre n s" using assms by (simp add: connection_ok_def)
  let ?s1 = "tcp_ack nb s"
  show ?thesis
  proof (cases "th_flags nb AND TH_RST = 0 \<and> th_flags nb AND TH_SYN = 0 \<and> th_flags nb AND TH_ACK \<noteq> 0")
    case False
    then show ?thesis using established_other [OF False, of s] connection_view rx_viewD(9) aborted_closed assms(1) c0 by blast
  next
    case True
    then have ack: "th_flags nb AND TH_RST = 0" "th_flags nb AND TH_SYN = 0" "th_flags nb AND TH_ACK \<noteq> 0" by auto
    show ?thesis
    proof (cases rule: tcp_ack_cases [of nb s])
      case 1
      have s1: "so_state ?s1 = TCPS_ESTABLISHED" "so_rd_cnt ?s1 = so_rd_cnt s" "so_rx_nbq ?s1 = so_rx_nbq s"
        using rx_viewD [OF 1] assms(1) by simp_all
      have st: "stream_ok S base pre n ?s1" using assms(2) stream_view [OF 1] by simp
      have q: "early_ok S base n (so_rx_nbq ?s1)" using assms(3) s1 by simp
      have nx: "so_rx_nxt ?s1 = base + word_of_nat n" "n \<le> length S" using st by (auto simp: stream_ok_def)
      note c = seg_at_after [OF seg S nx(2), folded nx(1)]
      show ?thesis
      proof (cases "n < i")
        case True
        then show ?thesis using tcp_early_ok [OF s1(1) st q seg True S] s1 c by (auto simp: established_ack [OF ack] Let_def)
      next
        case False
        then obtain n' where n': "n \<le> n'" "stream_ok S base pre n' (snd (est_data nb ?s1))"
          "early_ok S base n' (so_rx_nbq (snd (est_data nb ?s1)))" "so_state (snd (est_data nb ?s1)) = TCPS_ESTABLISHED"
          "so_rd_cnt (snd (est_data nb ?s1)) = so_rd_cnt s"
          using est_data_ok [OF st q seg _ S] s1 by (auto split: if_splits dest: add_leD1)
        have "NutTcpStateEstablished nb s =
          (if fst (est_data nb ?s1) AND TH_FIN \<noteq> 0
           then tcp_state TCPS_CLOSE_WAIT ((snd (est_data nb ?s1))\<lparr>so_rx_nxt := so_rx_nxt (snd (est_data nb ?s1)) + 1\<rparr>)
           else snd (est_data nb ?s1))"
          using False c by (simp add: established_ack [OF ack] Let_def split_beta)
        then show ?thesis using fin_ok [OF n'(4,2,3), of "fst (est_data nb ?s1) AND TH_FIN \<noteq> 0"] n'(1,5) by (intro exI [of _ n']) simp
      qed
    next
      case 2
      have "th_flags nb AND TH_FIN = 0" using 2(2) by (simp add: bit.conj_disj_distrib or_eq_0_iff)
      from established_empty [OF ack 2(1) this] have v: "rx_view (NutTcpStateEstablished nb s) = rx_view ?s1" .
      then show ?thesis using aborted_closed [OF 2(3) assms(1)] connection_view [OF v] rx_viewD(9) [OF v] by auto
    qed
  qed
qed

lemma close_wait_ok:
  assumes "so_state s = TCPS_CLOSE_WAIT" "connection_ok S base pre n s"
  shows "connection_ok S base pre n (NutTcpStateCloseWait nb s) \<and> so_rd_cnt (NutTcpStateCloseWait nb s) = so_rd_cnt s"
proof -
  have ab: "connection_ok S base pre n s' \<and> so_rd_cnt s' = so_rd_cnt s" if "aborted s s'" for s'
    using that assms(1) by (simp add: aborted_def connection_ok_def closed_by_application_def)
  have "aborted s (NutTcpAbortSocket ECONNRESET (act [Release nb] s))"
    by (rule aborted_view [OF _ abort_aborted]) simp
  moreover have "connection_ok S base pre n (tcp_ack nb s) \<and> so_rd_cnt (tcp_ack nb s) = so_rd_cnt s"
    using ab connection_view rx_viewD(9) assms(2) by (cases rule: tcp_ack_cases [of nb s]) blast+
  moreover have "connection_ok S base pre n (NutTcpReject nb s) \<and> so_rd_cnt (NutTcpReject nb s) = so_rd_cnt s"
    using connection_view [OF reject_view] rx_viewD(9) [OF reject_view] assms(2) by blast
  ultimately show ?thesis using assms(2) ab by (simp add: NutTcpStateCloseWait_def Let_def)
qed

lemma process_ok:
  assumes "connection_ok S base pre n s" "seg_at S base nb i" "length S < 2 ^ 31"
  shows "\<exists>n' \<ge> n. connection_ok S base pre n' (NutTcpStateProcess nb s) \<and> so_rd_cnt (NutTcpStateProcess nb s) = so_rd_cnt s"
proof -
  consider "so_state s = TCPS_ESTABLISHED" "stream_ok S base pre n s" "early_ok S base n (so_rx_nbq s)"
    | "so_state s = TCPS_CLOSE_WAIT" | "so_state s = TCPS_CLOSED"
    using assms(1) by (auto simp: connection_ok_def)
  then show ?thesis
  proof cases
    case 1
    then show ?thesis using established_ok [OF 1 assms(2,3)] by (auto simp: NutTcpStateProcess_def Let_def)
  next
    case 2
    then show ?thesis using close_wait_ok [OF 2 assms(1)] by (auto simp: NutTcpStateProcess_def)
  next
    case 3
    then show ?thesis using connection_view [OF reject_view] rx_viewD(9) [OF reject_view] assms(1)
      by (auto simp: NutTcpStateProcess_def)
  qed
qed

section \<open>Reading\<close>

lemma receive_loop_spec:
  assumes "read_pos_ok rd q" "[] \<notin> nb_ap ` set q" "0 \<le> m" "m + rd \<le> int (length (concat (map nb_ap q)))"
  shows "\<exists>d rd' used rest. receive_loop m rd q = Some (d, rd', int (length (concat (map nb_ap used))), used, rest)
    \<and> q = used @ rest \<and> read_pos_ok rd' rest \<and> length d = nat m
    \<and> take (nat rd) (concat (map nb_ap q)) @ d = concat (map nb_ap used) @ take (nat rd') (concat (map nb_ap rest))"
  using assms
proof (induction q arbitrary: m rd)
  case Nil
  then show ?case by auto
next
  case (Cons nb nbs)
  let ?l = "length (nb_ap nb)"
  have rd: "0 \<le> rd" "rd < int ?l" using Cons.prems(1) by auto
  show ?case
  proof (cases "m < int ?l - rd")
    case True
    then have "length (take (nat m) (drop (nat rd) (nb_ap nb))) = nat m" "nat rd + nat m = nat (rd + m)" "nat (rd + m) \<le> ?l" "nat rd \<le> ?l"
      using rd Cons.prems(3) by auto
    then show ?thesis using True rd Cons.prems(3)
      by (cases "m = 0") (auto simp: take_add [symmetric] intro!: exI [of _ "nb # nbs"])
  next
    case False
    have "read_pos_ok 0 nbs" using Cons.prems(2) by (cases nbs) auto
    from Cons.IH [OF this, of "m - (int ?l - rd)"] obtain d rd' used rest where
      r: "receive_loop (m - (int ?l - rd)) 0 nbs = Some (d, rd', int (length (concat (map nb_ap used))), used, rest)"
      "nbs = used @ rest" "read_pos_ok rd' rest" "length d = nat (m - (int ?l - rd))"
      "d = concat (map nb_ap used) @ take (nat rd') (concat (map nb_ap rest))"
      using Cons.prems False by auto
    have mv: "(if m > int ?l - rd then int ?l - rd else m) = int ?l - rd" "\<not> m \<le> 0" using False rd by auto
    have "take (nat (int ?l - rd)) (drop (nat rd) (nb_ap nb)) = drop (nat rd) (nb_ap nb)" using rd by simp
    then have "receive_loop m rd (nb # nbs) =
      Some (drop (nat rd) (nb_ap nb) @ d, rd', int (length (concat (map nb_ap (nb # used)))), nb # used, rest)"
      using rd r(1) mv(2) by (simp add: Let_def mv(1))
    moreover have "nat m = length (drop (nat rd) (nb_ap nb) @ d)" using r(4) False rd by simp
    moreover have "take (nat rd) (nb_ap nb) @ drop (nat rd) (nb_ap nb) = nb_ap nb" by simp
    ultimately show ?thesis using r(2,3,5) rd by (intro exI [of _ "drop (nat rd) (nb_ap nb) @ d"] exI [of _ rd']) auto
  qed
qed

lemma window_view: "rx_view (receive_window n s) = rx_view s"
proof -
  have "rx_view (s\<lparr>so_rx_win := w\<rparr>) = rx_view s" for w by (simp add: rx_view_def)
  then show ?thesis by (simp add: receive_window_def Let_def NutTcpStateWindowEvent_def)
qed

text \<open>
  What has been read so far, for a connection that is open: the buffers used up and the beginning of
  the data kept.
\<close>

definition reading_ok :: "u8 list \<Rightarrow> u32 \<Rightarrow> u8 list \<Rightarrow> nat \<Rightarrow> tcp \<Rightarrow> bool" where
  "reading_ok S base got n s \<longleftrightarrow>
     (\<exists>pre. connection_ok S base pre n s \<and>
        (if so_state s = TCPS_CLOSED then prefix got S else got = pre @ take (nat (so_rd_cnt s)) (rx_data s)))"

lemma reading_prefix: "reading_ok S base got n s \<Longrightarrow> prefix got S"
proof -
  have "prefix (pre @ take k d) S" if "pre @ d = take n S" for pre k d
    by (metis that append_assoc append_take_drop_id prefix_def)
  then show "reading_ok S base got n s \<Longrightarrow> prefix got S"
    by (auto simp: reading_ok_def connection_ok_def stream_ok_def split: if_splits)
qed

lemma reading_view: "rx_view s' = rx_view s \<Longrightarrow> reading_ok S base got n s' = reading_ok S base got n s"
  using rx_viewD(3,6,9) [of s' s] connection_view [of s' s] by (simp add: reading_ok_def rx_data_def)

lemma receive_data_ok:
  assumes "reading_ok S base got n s" "0 \<le> k" "so_rx_cnt s - so_rd_cnt s \<noteq> 0"
  shows "\<exists>d s'. receive_data k s = Some (Received d, s') \<and> reading_ok S base (got @ d) n s' \<or> receive_data k s = Some (ReadError, s') \<and> rx_view s' = rx_view s"
proof (cases "so_state s = TCPS_CLOSED")
  case True
  then show ?thesis using assms(1) by (auto simp: receive_data_def reading_ok_def connection_ok_def)
next
  case False
  then obtain pre where c: "connection_ok S base pre n s" and got: "got = pre @ take (nat (so_rd_cnt s)) (rx_data s)"
    using assms(1) by (auto simp: reading_ok_def)
  have b: "read_pos_ok (so_rd_cnt s) (so_rx_buf s)" "[] \<notin> nb_ap ` set (so_rx_buf s)" "so_rx_cnt s = int (length (rx_data s))"
    using c False by (auto simp: connection_ok_def stream_ok_def buf_ok_def)
  have rd: "so_rd_cnt s < so_rx_cnt s" "so_rx_buf s \<noteq> []"
    using b assms(3) by (cases "so_rx_buf s"; force simp: rx_data_def)+
  let ?m = "if k > so_rx_cnt s - so_rd_cnt s then so_rx_cnt s - so_rd_cnt s else k"
  have "0 \<le> ?m" "?m + so_rd_cnt s \<le> int (length (concat (map nb_ap (so_rx_buf s))))"
    using assms(2) rd b(3) by (auto simp: rx_data_def)
  from receive_loop_spec [OF b(1,2) this] obtain d rd' used rest where
    r: "receive_loop ?m (so_rd_cnt s) (so_rx_buf s) = Some (d, rd', int (length (concat (map nb_ap used))), used, rest)"
      "so_rx_buf s = used @ rest" "read_pos_ok rd' rest"
      "take (nat (so_rd_cnt s)) (rx_data s) @ d = concat (map nb_ap used) @ take (nat rd') (concat (map nb_ap rest))"
    by (auto simp: rx_data_def)
  let ?s2 = "s\<lparr>so_rx_buf := rest, so_rx_cnt := so_rx_cnt s - int (length (concat (map nb_ap used))),
               so_rx_apc := so_rx_apc s - int (length used), so_rd_cnt := rd'\<rparr>"
  have "buf_ok ?s2" using b r by (auto simp: buf_ok_def rx_data_def)
  then have "connection_ok S base (pre @ concat (map nb_ap used)) n ?s2"
    using c False r(2) by (auto simp: connection_ok_def stream_ok_def rx_data_def)
  then have s2: "reading_ok S base (got @ d) n ?s2"
    using False r(4) got by (auto simp: reading_ok_def rx_data_def intro!: exI [of _ "pre @ concat (map nb_ap used)"])
  have "reading_ok S base (got @ d) n (receive_window ?m (act (map Release used) ?s2))"
    using s2 reading_view [OF window_view] reading_view [OF rx_view_simps(1)] by blast
  then show ?thesis using rd r(1) assms(1) by (auto simp: receive_data_def Let_def)
qed

lemma reading_error [simp]: "reading_ok S base got n (s\<lparr>so_last_error := e\<rparr>) = reading_ok S base got n s"
  by (rule reading_view) simp

lemma receive_check_ok:
  assumes "reading_ok S base got n s" "0 \<le> k"
  shows "\<exists>s' got'. read_step (receive_check k s) got = Some (s', got') \<and> reading_ok S base got' n s'"
proof (cases "so_rx_cnt s - so_rd_cnt s = 0")
  case True
  then show ?thesis using assms(1) by (simp add: receive_check_def read_step_def)
next
  case False
  from receive_data_ok [OF assms False] obtain d s' where
    "receive_data k s = Some (Received d, s') \<and> reading_ok S base (got @ d) n s'
     \<or> receive_data k s = Some (ReadError, s') \<and> reading_ok S base got n s'"
    using reading_view [THEN iffD2, OF _ assms(1)] by metis
  then show ?thesis using False by (auto simp: receive_check_def read_step_def)
qed

text \<open>The events of a connection whose peer sends the stream \<open>S\<close>.\<close>

fun event_ok :: "u8 list \<Rightarrow> u32 \<Rightarrow> tcp_event \<Rightarrow> bool" where
  "event_ok S base (Segment nb) = ((\<exists>i. seg_at S base nb i) \<and> (\<forall>m. input_options (th_opt nb) m \<noteq> None))"
| "event_ok S base (Read k) = (0 \<le> k)"
| "event_ok S base (Woken timeout k) = (0 \<le> k)"

lemma segment_ok:
  assumes "reading_ok S base got n s" "seg_at S base nb i" "length S < 2 ^ 31"
  shows "\<exists>n' \<ge> n. reading_ok S base got n' (NutTcpStateProcess nb s)"
proof -
  obtain pre where c: "connection_ok S base pre n s"
    and got: "so_state s = TCPS_CLOSED \<or> got = pre @ take (nat (so_rd_cnt s)) (rx_data s)"
    using assms(1) by (auto simp: reading_ok_def split: if_splits)
  let ?s = "NutTcpStateProcess nb s"
  obtain n' where n': "n \<le> n'" "connection_ok S base pre n' ?s" "so_rd_cnt ?s = so_rd_cnt s"
    using process_ok [OF c assms(2,3)] by auto
  consider "so_state s = TCPS_CLOSED" | "so_state ?s = TCPS_CLOSED" | "so_state s \<noteq> TCPS_CLOSED" "so_state ?s \<noteq> TCPS_CLOSED" by blast
  then show ?thesis
  proof cases
    case 1
    then show ?thesis using reading_view [OF reject_view] assms(1) by (auto simp: NutTcpStateProcess_def)
  next
    case 2
    then show ?thesis using n' reading_prefix [OF assms(1)] by (auto simp: reading_ok_def)
  next
    case 3
    have d: "pre @ rx_data s = take n S" "buf_ok s" "pre @ rx_data ?s = take n' S"
      using c n'(2) 3 by (auto simp: connection_ok_def stream_ok_def)
    then have "prefix (pre @ rx_data s) (pre @ rx_data ?s)" using n'(1) by (metis min.absorb1 take_is_prefix take_take)
    then obtain e where e: "rx_data ?s = rx_data s @ e" by (auto simp: prefix_def)
    have "nat (so_rd_cnt s) \<le> length (rx_data s)" using d(2) by (cases "so_rx_buf s") (auto simp: buf_ok_def rx_data_def)
    then show ?thesis using n' 3 got e by (auto simp: reading_ok_def)
  qed
qed

lemma step_ok:
  assumes "reading_ok S base got n s" "event_ok S base e" "length S < 2 ^ 31"
  shows "\<exists>s' got' n'. tcp_step e (s, got) = Some (s', got') \<and> n \<le> n' \<and> reading_ok S base got' n' s'"
proof (cases e)
  case (Segment nb)
  then obtain v i where v: "input_options (th_opt nb) (so_mss s) = Some v" and i: "seg_at S base nb i" using assms(2) by fastforce
  have "rx_view (s\<lparr>so_mss := v\<rparr>) = rx_view s" by (simp add: rx_view_def)
  then have "reading_ok S base got n (s\<lparr>so_mss := v\<rparr>)" using assms(1) reading_view by blast
  from segment_ok [OF this i assms(3)] show ?thesis using Segment v by (auto simp: NutTcpInputOptions_def)
next
  case (Read k)
  then show ?thesis using receive_check_ok [OF assms(1), of k] assms by (auto simp: NutTcpReceive_def read_step_def)
next
  case (Woken timeout k)
  then show ?thesis using receive_check_ok [OF assms(1), of k] assms by (auto simp: NutTcpReceive_woken_def read_step_def)
qed

lemma run_ok:
  assumes "reading_ok S base got n s" "\<forall>e \<in> set es. event_ok S base e" "length S < 2 ^ 31"
  shows "\<exists>s' got' n'. tcp_run es (s, got) = Some (s', got') \<and> n \<le> n' \<and> reading_ok S base got' n' s'"
  using assms
proof (induction es arbitrary: s got n)
  case (Cons e es)
  have e: "event_ok S base e" "\<forall>e \<in> set es. event_ok S base e" using Cons.prems(2) by simp_all
  obtain s1 got1 n1 where 1: "tcp_step e (s, got) = Some (s1, got1)" "n \<le> n1" "reading_ok S base got1 n1 s1"
    using step_ok [OF Cons.prems(1) e(1) Cons.prems(3)] by blast
  obtain s2 got2 n2 where "tcp_run es (s1, got1) = Some (s2, got2)" "n1 \<le> n2" "reading_ok S base got2 n2 s2"
    using Cons.IH [OF 1(3) e(2) Cons.prems(3)] by blast
  then show ?case using 1 by (intro exI [of _ s2] exI [of _ got2] exI [of _ n2]) simp
qed auto

section \<open>Properties\<close>

text \<open>C19: whatever pieces of the peer's byte stream arrive on an established connection, in any order, lost,
  repeated or overlapping, and however the application reads in between, the run does not crash, the
  bytes that the application gets are the beginning of the stream; and while the connection stays
  established, the bytes read and the bytes kept together are exactly the stream up to the next
  sequence number expected.\<close>

theorem tcp_stream_in_order:
  assumes "length S < 2 ^ 31" and "so_state s = TCPS_ESTABLISHED" and "so_rx_nxt s = base"
    and "so_rx_buf s = []" and "so_rx_nbq s = []" and "so_rx_cnt s = 0" and "so_rd_cnt s = 0"
    and "\<forall>e \<in> set es. event_ok S base e"
  shows "\<exists>s' got. tcp_run es (s, []) = Some (s', got) \<and> prefix got S \<and>
    (so_state s' = TCPS_ESTABLISHED \<longrightarrow>
       (\<exists>n \<le> length S. so_rx_nxt s' = base + word_of_nat n \<and> got @ drop (nat (so_rd_cnt s')) (rx_data s') = take n S))"
proof -
  have "reading_ok S base [] 0 s"
    using assms by (auto simp: reading_ok_def connection_ok_def stream_ok_def buf_ok_def rx_data_def intro!: exI [of _ "[]"])
  from run_ok [OF this assms(8,1)] obtain s' got n where
    r: "tcp_run es (s, []) = Some (s', got)" "reading_ok S base got n s'" by blast
  have "n \<le> length S \<and> so_rx_nxt s' = base + word_of_nat n \<and> got @ drop (nat (so_rd_cnt s')) (rx_data s') = take n S"
    if "so_state s' = TCPS_ESTABLISHED"
    using r(2) that by (auto simp: reading_ok_def connection_ok_def stream_ok_def)
  then show ?thesis using r reading_prefix [OF r(2)] by blast
qed

text \<open>Two segments in the wrong order, then a repetition, with reads in between.\<close>

definition stream_segment :: "u32 \<Rightarrow> u8 list \<Rightarrow> NETBUF" where
  "stream_segment sq d =
     \<lparr>ip_src = 1, ip_dst = 2, th_sport = 3, th_dport = 4, th_seq = sq, th_ack = 0, th_flags = TH_ACK, th_win = 0,
      th_opt = [], nb_ap = d, nb_dl_sz = 14\<rparr>"

definition stream_events :: "tcp_event list" where
  "stream_events =
     [Segment (stream_segment 1 [30, 40, 50]), Read 2, Segment (stream_segment 0xFFFFFFFF [10, 20]), Woken False 2,
      Segment (stream_segment 1 [30, 40, 50]), Read 10]"

lemma stream_events_ok: "\<forall>e \<in> set stream_events. event_ok [10, 20, 30, 40, 50] 0xFFFFFFFF e"
proof -
  have "input_options [] m \<noteq> None" for m by (simp add: input_options.simps)
  moreover have "seg_at [10, 20, 30, 40, 50] 0xFFFFFFFF (stream_segment 1 [30, 40, 50]) 2"
    "seg_at [10, 20, 30, 40, 50] 0xFFFFFFFF (stream_segment 0xFFFFFFFF [10, 20]) 0"
    by (simp_all add: seg_at_def stream_segment_def)
  ultimately show ?thesis by (auto simp: stream_events_def stream_segment_def)
qed

theorem tcp_stream_in_order_witness:
  "\<exists>s' got. tcp_run stream_events (tcp_start\<lparr>so_state := TCPS_ESTABLISHED, so_rx_nxt := 0xFFFFFFFF\<rparr>, []) = Some (s', got)
     \<and> prefix got [10, 20, 30, 40, 50] \<and> got = [10, 20, 30, 40, 50]"
proof -
  let ?s = "tcp_start\<lparr>so_state := TCPS_ESTABLISHED, so_rx_nxt := 0xFFFFFFFF\<rparr>"
  have "so_rx_buf ?s = []" "so_rx_nbq ?s = []" "so_rx_cnt ?s = 0" "so_rd_cnt ?s = 0"
    by (simp_all add: tcp_start_def NutTcpCreateSocket_def TCPSOCKET.extend_def tcp.fields_def)
  from tcp_stream_in_order [OF _ _ _ this stream_events_ok] obtain s' got where
    r: "tcp_run stream_events (?s, []) = Some (s', got)" "prefix got [10, 20, 30, 40, 50]" by auto
  have "map_option snd (tcp_run stream_events (?s, [])) = Some [10, 20, 30, 40, 50]" by code_simp
  then show ?thesis using r by auto
qed

end
