(* ===== verification/Nut_Tcp_Sys.thy ===== *)
theory Nut_Tcp_Sys
  imports Nut_Tcp_Sock
begin

text \<open>
  The TCP system: the list of sockets, the backlog of connection requests, the queue of incoming
  segments and the state machine thread that serves them (\<^verbatim>\<open>net/tcpsm.c\<close>, \<^verbatim>\<open>net/tcpsock.c\<close>). A pointer to
  a socket is its position in the list. A handler runs on one socket together with the global variables.
\<close>

unbundle bit_operations_syntax

section \<open>State\<close>

type_synonym tcp_env = "unit tcp_ext"

record tcp_sys =
  tcpSocketList :: "TCPSOCKET list"
  tcp_env :: tcp_env
  tcp_backlog :: "(NETBUF \<times> nat) option list"
  tcp_in_nbq :: "NETBUF list"
  tcp_in_cnt :: u16
  tcpThread :: bool
  last_local_port :: u16

definition with_socket :: "nat \<Rightarrow> (tcp \<Rightarrow> tcp) \<Rightarrow> tcp_sys \<Rightarrow> tcp_sys" where
  "with_socket i f S =
     (let s = f (TCPSOCKET.extend (tcpSocketList S ! i) (tcp_env S))
      in S\<lparr>tcpSocketList := (tcpSocketList S)[i := TCPSOCKET.truncate s], tcp_env := TCPSOCKET.more s\<rparr>)"

text \<open>What is done to no socket: the handler only sees the global variables.\<close>

definition with_env :: "(tcp \<Rightarrow> tcp) \<Rightarrow> tcp_sys \<Rightarrow> tcp_sys" where
  "with_env f S = S\<lparr>tcp_env := TCPSOCKET.more (f (TCPSOCKET.extend (NutTcpCreateSocket 0) (tcp_env S)))\<rparr>"

fun first_index :: "('a \<Rightarrow> bool) \<Rightarrow> 'a list \<Rightarrow> nat option" where
  "first_index P [] = None"
| "first_index P (x # xs) = (if P x then Some 0 else map_option Suc (first_index P xs))"

section \<open>Finding the socket of a segment\<close>

definition connected_to :: "u16 \<Rightarrow> u16 \<Rightarrow> u32 \<Rightarrow> TCPSOCKET \<Rightarrow> bool" where
  "connected_to lport rport raddr sp \<longleftrightarrow>
     so_local_port sp = lport \<and> so_remote_addr sp = raddr \<and> so_remote_port sp = rport
     \<and> so_state sp \<noteq> TCPS_CLOSED \<and> so_state sp \<noteq> TCPS_DESTROY"

definition listening_on :: "u16 \<Rightarrow> TCPSOCKET \<Rightarrow> bool" where
  "listening_on lport sp \<longleftrightarrow> so_state sp = TCPS_LISTEN \<and> so_local_port sp = lport"

definition NutTcpFindSocket :: "u16 \<Rightarrow> u16 \<Rightarrow> u32 \<Rightarrow> TCPSOCKET list \<Rightarrow> nat option" where
  "NutTcpFindSocket lport rport raddr sl =
     (case first_index (connected_to lport rport raddr) sl of
        Some i \<Rightarrow> Some i
      | None \<Rightarrow> first_index (listening_on lport) sl)"

section \<open>Backlog\<close>

definition TCP_BACKLOG_TIME :: nat where "TCP_BACKLOG_TIME = 5"

text \<open>
  One pass over the backlog: the position of an entry from the same remote port, or the first free one
  if there is any.
\<close>

fun backlog_scan :: "NETBUF \<Rightarrow> nat \<Rightarrow> nat option \<Rightarrow> (NETBUF \<times> nat) option list \<Rightarrow> nat + nat option" where
  "backlog_scan nb i n [] = Inr n"
| "backlog_scan nb i n (None # bl) = backlog_scan nb (i + 1) (if n = None then Some i else n) bl"
| "backlog_scan nb i n (Some (b, t) # bl) =
     (if ip_src b = ip_src nb \<and> th_sport b = th_sport nb then Inl i else backlog_scan nb (i + 1) n bl)"

definition entry_release :: "(NETBUF \<times> nat) option \<Rightarrow> tcp_action list" where
  "entry_release e = (case e of None \<Rightarrow> [] | Some (b, t) \<Rightarrow> [Release b])"

definition NutTcpBacklogAdd :: "NETBUF \<Rightarrow> tcp_sys \<Rightarrow> tcp_sys \<times> int" where
  "NutTcpBacklogAdd nb S =
     (if th_flags nb AND (TH_SYN OR TH_ACK OR TH_RST) = TH_SYN then
        (case backlog_scan nb 0 None (tcp_backlog S) of
           Inl i \<Rightarrow>
             (let S1 = with_env (act (entry_release (tcp_backlog S ! i))) S
              in (S1\<lparr>tcp_backlog := (tcp_backlog S)[i := None]\<rparr>, -1))
         | Inr (Some n) \<Rightarrow> (S\<lparr>tcp_backlog := (tcp_backlog S)[n := Some (nb, 0)]\<rparr>, 0)
         | Inr None \<Rightarrow> (S, -1))
      else (S, -1))"

text \<open>The oldest request for a port.\<close>

fun backlog_oldest :: "u16 \<Rightarrow> nat \<Rightarrow> (nat \<times> nat) option \<Rightarrow> (NETBUF \<times> nat) option list \<Rightarrow> nat option" where
  "backlog_oldest port i best [] = map_option fst best"
| "backlog_oldest port i best (None # bl) = backlog_oldest port (i + 1) best bl"
| "backlog_oldest port i best (Some (b, t) # bl) =
     backlog_oldest port (i + 1)
       (if th_dport b = port \<and> (case best of None \<Rightarrow> True | Some (n, tn) \<Rightarrow> t > tn) then Some (i, t) else best) bl"

definition backlog_take :: "nat option \<Rightarrow> tcp_sys \<Rightarrow> NETBUF option \<times> tcp_sys" where
  "backlog_take n S =
     (case n of
        None \<Rightarrow> (None, S)
      | Some n \<Rightarrow> (map_option fst (tcp_backlog S ! n), S\<lparr>tcp_backlog := (tcp_backlog S)[n := None]\<rparr>))"

definition NutTcpBacklogCheck :: "u16 \<Rightarrow> tcp_sys \<Rightarrow> NETBUF option \<times> tcp_sys" where
  "NutTcpBacklogCheck port S = backlog_take (backlog_oldest port 0 None (tcp_backlog S)) S"

fun backlog_age :: "nat \<Rightarrow> nat option \<Rightarrow> (NETBUF \<times> nat) option list \<Rightarrow> (NETBUF \<times> nat) option list \<times> nat option" where
  "backlog_age i n [] = ([], n)"
| "backlog_age i n (None # bl) = (case backlog_age (i + 1) n bl of (r, m) \<Rightarrow> (None # r, m))"
| "backlog_age i n (Some (b, t) # bl) =
     (if t < TCP_BACKLOG_TIME
      then (case backlog_age (i + 1) n bl of (r, m) \<Rightarrow> (Some (b, t + 1) # r, m))
      else (case backlog_age (i + 1) (Some i) bl of (r, m) \<Rightarrow> (Some (b, t) # r, m)))"

definition NutTcpBacklogTimer :: "tcp_sys \<Rightarrow> NETBUF option \<times> tcp_sys" where
  "NutTcpBacklogTimer S =
     (case backlog_age 0 None (tcp_backlog S) of (bl, n) \<Rightarrow> backlog_take n (S\<lparr>tcp_backlog := bl\<rparr>))"

section \<open>Opening connections\<close>

text \<open>
  Opening is split where the caller has to wait; it goes on when it is woken up or its timeout elapses.
\<close>

datatype open_result = OpenDone int | OpenWait

definition tcp_segment :: "NETBUF \<Rightarrow> tcp \<Rightarrow> tcp option" where
  "tcp_segment nb s = map_option (NutTcpStateProcess nb) (NutTcpInputOptions nb s)"

definition socket_segment :: "nat \<Rightarrow> NETBUF \<Rightarrow> tcp_sys \<Rightarrow> tcp_sys option" where
  "socket_segment i nb S =
     (case tcp_segment nb (TCPSOCKET.extend (tcpSocketList S ! i) (tcp_env S)) of
        None \<Rightarrow> None
      | Some s \<Rightarrow> Some (with_socket i (\<lambda>_. s) S))"

definition NutTcpStatePassiveOpenEvent :: "nat \<Rightarrow> tcp_sys \<Rightarrow> (open_result \<times> tcp_sys) option" where
  "NutTcpStatePassiveOpenEvent i S =
     (if so_state (tcpSocketList S ! i) \<noteq> TCPS_CLOSED
      then Some (OpenDone (-1), with_socket i (\<lambda>s. s\<lparr>so_last_error := EISCONN\<rparr>) S)
      else let S1 = with_socket i (tcp_state TCPS_LISTEN) S in
        case NutTcpBacklogCheck (so_local_port (tcpSocketList S1 ! i)) S1 of
          (None, S2) \<Rightarrow> Some (OpenWait, S2)
        | (Some nb, S2) \<Rightarrow> map_option (\<lambda>S3. (OpenDone 0, S3)) (socket_segment i nb S2))"

definition NutTcpStatePassiveOpenEvent_woken :: "bool \<Rightarrow> nat \<Rightarrow> tcp_sys \<Rightarrow> open_result \<times> tcp_sys" where
  "NutTcpStatePassiveOpenEvent_woken timeout i S =
     (if timeout then (OpenDone (-1), with_socket i (\<lambda>s. s\<lparr>so_state := TCPS_CLOSED, so_last_error := ETIMEDOUT\<rparr>) S)
      else (OpenDone 0, S))"

definition NutTcpAccept :: "nat \<Rightarrow> u16 \<Rightarrow> tcp_sys \<Rightarrow> (open_result \<times> tcp_sys) option" where
  "NutTcpAccept i port S = NutTcpStatePassiveOpenEvent i (with_socket i (\<lambda>s. s\<lparr>so_local_port := port\<rparr>) S)"

definition open_check :: "nat \<Rightarrow> tcp_sys \<Rightarrow> open_result" where
  "open_check i S = OpenDone (if so_state (tcpSocketList S ! i) \<in> {TCPS_ESTABLISHED, TCPS_CLOSE_WAIT} then 0 else -1)"

definition NutTcpStateActiveOpenEvent :: "nat \<Rightarrow> tcp_sys \<Rightarrow> open_result \<times> tcp_sys" where
  "NutTcpStateActiveOpenEvent i S =
     (let S1 = with_socket i (tcp_state TCPS_SYN_SENT) S
      in if so_state (tcpSocketList S1 ! i) = TCPS_SYN_SENT then (OpenWait, S1) else (open_check i S1, S1))"

definition NutTcpStateActiveOpenEvent_woken :: "bool \<Rightarrow> nat \<Rightarrow> tcp_sys \<Rightarrow> open_result \<times> tcp_sys" where
  "NutTcpStateActiveOpenEvent_woken timeout i S =
     (if timeout then (OpenDone (-1), with_socket i (NutTcpAbortSocket ETIMEDOUT) S) else (open_check i S, S))"

text \<open>
  An unused local port. The port moves on by an odd step in the range of dynamic ports; \<open>clk k\<close> is what the
  clock shows in round \<open>k\<close> of the search. \<open>None\<close> is a search that does not end. Ports are in host byte order.
\<close>

definition next_port :: "u16 \<Rightarrow> u16 \<Rightarrow> u16" where
  "next_port ticks p = (if p \<noteq> 0 then p + ((ticks AND 0x000F) OR 1) else ticks) OR 0xC000"

partial_function (option) find_port :: "(nat \<Rightarrow> u16) \<Rightarrow> nat \<Rightarrow> u16 list \<Rightarrow> u16 \<Rightarrow> u16 option" where
  "find_port clk k used p =
     (let q = next_port (clk k) p in if q \<in> set used then find_port clk (k + 1) used q else Some q)"

declare find_port.simps [code]

definition NutTcpConnect :: "(nat \<Rightarrow> u16) \<Rightarrow> nat \<Rightarrow> u32 \<Rightarrow> u16 \<Rightarrow> u32 option \<Rightarrow> tcp_sys \<Rightarrow> (open_result \<times> tcp_sys) option" where
  "NutTcpConnect clk i addr port local S =
     (if so_state (tcpSocketList S ! i) = TCPS_LISTEN
      then Some (OpenDone (-1), with_socket i (\<lambda>s. s\<lparr>so_last_error := EOPNOTSUPP\<rparr>) S)
      else if so_state (tcpSocketList S ! i) \<noteq> TCPS_CLOSED
      then Some (OpenDone (-1), with_socket i (\<lambda>s. s\<lparr>so_last_error := EISCONN\<rparr>) S)
      else
        case find_port clk 0 (map so_local_port (tcpSocketList S)) (last_local_port S) of
          None \<Rightarrow> None
        | Some p \<Rightarrow>
            (let S1 = with_socket i (\<lambda>s. s\<lparr>so_local_port := p, so_remote_port := port, so_remote_addr := addr\<rparr>)
                        (S\<lparr>last_local_port := p\<rparr>)
             in case local of
                  None \<Rightarrow> Some (OpenDone (-1), with_socket i (\<lambda>s. s\<lparr>so_last_error := EHOSTUNREACH\<rparr>) S1)
                | Some ip \<Rightarrow> Some (NutTcpStateActiveOpenEvent i (with_socket i (\<lambda>s. s\<lparr>so_local_addr := ip\<rparr>) S1))))"

section \<open>The state machine thread\<close>

definition NutTcpGarbadgeCollect :: "tcp_sys \<Rightarrow> tcp_sys" where
  "NutTcpGarbadgeCollect S =
     (let dead = filter (\<lambda>sp. so_state sp = TCPS_DESTROY) (tcpSocketList S);
          S1 = with_env (act (map Release (concat (map (\<lambda>sp. so_rx_buf sp @ so_tx_nbq sp @ so_rx_nbq sp) dead)))) S
      in S1\<lparr>tcpSocketList := filter (\<lambda>sp. so_state sp \<noteq> TCPS_DESTROY) (tcpSocketList S)\<rparr>)"

text \<open>The timers of one socket, and whether the loop over the sockets ends here.\<close>

definition sm_socket :: "tcp \<Rightarrow> tcp \<times> bool" where
  "sm_socket s =
     (let s1 = (if so_tx_flags s AND SO_ACK \<noteq> 0 then tcp_out (set_flags SO_FORCE s) else s);
          s2 = (if so_tx_nbq s1 \<noteq> [] \<and> so_retran_time s1 \<noteq> 0 \<and>
                   ucast (millis s1) - (so_retran_time s1 AND NOT 1) \<ge> so_rtto s1
                then fst (NutTcpStateRetranTimeout s1) else s1);
          s3 = s2\<lparr>so_time_wait := so_time_wait s2 + 1\<rparr>
      in if so_state s2 = TCPS_TIME_WAIT \<or> so_state s2 = TCPS_FIN_WAIT_2 then
           (if so_time_wait s2 \<ge> 9 then (tcp_state TCPS_DESTROY s3, True) else (s3, False))
         else if so_state s2 = TCPS_SYN_RECEIVED then
           (if so_time_wait s2 \<ge> 45 then (s3\<lparr>so_state := TCPS_LISTEN, so_time_wait := 0\<rparr>, False) else (s3, False))
         else (s2, False))"

fun sm_sockets :: "nat list \<Rightarrow> tcp_sys \<Rightarrow> tcp_sys" where
  "sm_sockets [] S = S"
| "sm_sockets (i # is) S =
     (case sm_socket (TCPSOCKET.extend (tcpSocketList S ! i) (tcp_env S)) of
        (s, brk) \<Rightarrow> let S1 = with_socket i (\<lambda>_. s) S in if brk then S1 else sm_sockets is S1)"

definition sm_timers :: "tcp_sys \<Rightarrow> tcp_sys" where
  "sm_timers S =
     (case NutTcpBacklogTimer S of
        (nb, S1) \<Rightarrow>
          let S2 = (case nb of None \<Rightarrow> S1 | Some nb \<Rightarrow> with_env (NutTcpReject nb) S1)
          in sm_sockets [0 ..< length (tcpSocketList S2)] S2)"

definition sm_segment :: "NETBUF \<Rightarrow> tcp_sys \<Rightarrow> tcp_sys option" where
  "sm_segment nb S =
     (case NutTcpFindSocket (th_dport nb) (th_sport nb) (ip_src nb) (tcpSocketList S) of
        Some i \<Rightarrow> socket_segment i nb S
      | None \<Rightarrow>
          (case NutTcpBacklogAdd nb S of
             (S1, rc) \<Rightarrow> Some (if rc = 0 then S1 else with_env (NutTcpReject nb) S1)))"

fun sm_segments :: "NETBUF list \<Rightarrow> tcp_sys \<Rightarrow> tcp_sys option" where
  "sm_segments [] S = Some S"
| "sm_segments (nb # nbs) S = (case sm_segment nb S of None \<Rightarrow> None | Some S1 \<Rightarrow> sm_segments nbs S1)"

text \<open>One round of the endless loop; \<open>timers\<close> tells whether the wait for a segment ran out, or it was time for the timers anyway.\<close>

definition NutTcpSm :: "bool \<Rightarrow> tcp_sys \<Rightarrow> tcp_sys option" where
  "NutTcpSm timers S =
     (let run_gc = tcp_run_gc (TCPSOCKET.extend (NutTcpCreateSocket 0) (tcp_env S));
          S1 = (if run_gc then NutTcpGarbadgeCollect (with_env (\<lambda>s. s\<lparr>tcp_run_gc := False\<rparr>) S) else S)
      in if timers then Some (sm_timers S1)
         else sm_segments (tcp_in_nbq S1) (S1\<lparr>tcp_in_nbq := [], tcp_in_cnt := 0\<rparr>))"

text \<open>A segment from the IP layer. \<open>avail\<close> is the free heap, \<open>tp\<close> the size of the headers.\<close>

definition NutTcpStateMachine :: "nat \<Rightarrow> NETBUF \<Rightarrow> nat \<Rightarrow> tcp_sys \<Rightarrow> tcp_sys" where
  "NutTcpStateMachine avail nb hdr S =
     (if \<not> tcpThread S then with_env (NutTcpReject nb) S
      else if tcp_in_nbq S = [] then with_env (act [Post Tcp_in_rdy]) (S\<lparr>tcp_in_nbq := [nb]\<rparr>)
      else let sz = word_of_nat (hdr + length (nb_ap nb)) :: u16 in
        if unat (tcp_in_cnt S) + unat sz + 2048 < avail
        then with_env (act [Post Tcp_in_rdy]) (S\<lparr>tcp_in_cnt := tcp_in_cnt S + sz, tcp_in_nbq := tcp_in_nbq S @ [nb]\<rparr>)
        else with_env (act [Release nb]) S)"

end
