(* ===== verification/Nut_Tcp_Open.thy ===== *)
theory Nut_Tcp_Open
  imports Nut_Tcp_Stream Nut_Tcp_Sys
begin

text \<open>
  The changes of the connection state that a segment can cause.
\<close>

unbundle bit_operations_syntax

lemma change_state: "so_state (tcp_state st s) = so_state s \<or> so_state (tcp_state st s) = st"
proof -
  have o: "so_state s2 = so_state s1" if "NutTcpOutput data s1 = (s2, rc)" for data s1 s2 rc
    using rx_viewD(6) [OF output_view [of data s1]] that by simp
  have "so_state (set_flags m t) = so_state t" "so_state (act xs t) = so_state t" for m t xs
    by (simp_all add: set_flags_def act_def)
  then show ?thesis
    by (auto simp: tcp_state_def NutTcpStateChange_def Let_def split: option.split prod.split dest!: o)
qed

lemma change_legal: "state_check (so_state s) st = Some v \<Longrightarrow> so_state (tcp_state st s) = st"
proof -
  have o: "so_state s2 = so_state s1" if "NutTcpOutput data s1 = (s2, rc)" for data s1 s2 rc
    using rx_viewD(6) [OF output_view [of data s1]] that by simp
  have "so_state (act xs t) = so_state t" for t xs by (simp add: act_def)
  then show "state_check (so_state s) st = Some v \<Longrightarrow> so_state (tcp_state st s) = st"
    by (auto simp: tcp_state_def NutTcpStateChange_def Let_def split: prod.split dest!: o)
qed

lemma state_simps [simp]:
  "so_state (act xs s) = so_state s" "so_state (set_flags m s) = so_state s" "so_state (NutTcpReject nb s) = so_state s"
  "so_state (NutTcpDiscardBuffers s) = so_state s" "so_state (NutTcpProcessSyn nb s) = so_state s"
  "so_state (late_data nb s) = so_state s"
  using rx_viewD(6) [OF reject_view]
  by (simp_all add: act_def set_flags_def NutTcpDiscardBuffers_def NutTcpProcessSyn_def Let_def late_data_def app_data(3) split: option.split)

lemma abort_state [simp]: "so_state (NutTcpAbortSocket e s) \<noteq> TCPS_ESTABLISHED"
  by (simp add: NutTcpAbortSocket_def)

lemma ack_state: "so_state (tcp_ack nb s) = so_state s \<or> so_state (tcp_ack nb s) \<in> {TCPS_CLOSED, TCPS_TIME_WAIT}"
proof (cases rule: tcp_ack_cases [of nb s])
  case 1
  then show ?thesis by (auto dest: rx_viewD(6))
next
  case 2
  then show ?thesis by (auto simp: aborted_def)
qed

lemma change_not_established:
  "st \<noteq> TCPS_ESTABLISHED \<Longrightarrow> so_state s \<noteq> TCPS_ESTABLISHED \<Longrightarrow> so_state (tcp_state st s) \<noteq> TCPS_ESTABLISHED"
  using change_state [of st s] by auto

lemma ack_not_established: "so_state s \<noteq> TCPS_ESTABLISHED \<Longrightarrow> so_state (tcp_ack nb s) \<noteq> TCPS_ESTABLISHED"
  using ack_state [of nb s] by auto

lemmas not_established = change_not_established ack_not_established

lemma fin_wait_not_established:
  assumes "so_state s \<noteq> TCPS_ESTABLISHED"
  shows "so_state (NutTcpStateListen nb s) \<noteq> TCPS_ESTABLISHED" "so_state (NutTcpStateFinWait2 nb s) \<noteq> TCPS_ESTABLISHED"
    "so_state (NutTcpStateCloseWait nb s) \<noteq> TCPS_ESTABLISHED" "so_state (NutTcpStateClosing nb s) \<noteq> TCPS_ESTABLISHED"
    "so_state (NutTcpStateLastAck nb s) \<noteq> TCPS_ESTABLISHED" "so_state (NutTcpStateFinWait1 nb s) \<noteq> TCPS_ESTABLISHED"
  using assms
  by (auto simp: NutTcpStateListen_def NutTcpStateFinWait2_def NutTcpStateCloseWait_def NutTcpStateClosing_def
      NutTcpStateLastAck_def NutTcpStateFinWait1_def Let_def not_established)


lemma opens_only:
  assumes "so_state s \<noteq> TCPS_ESTABLISHED" and "so_state (NutTcpStateProcess nb s) = TCPS_ESTABLISHED"
  shows "th_flags nb AND TH_ACK \<noteq> 0 \<and> th_flags nb AND TH_RST = 0 \<and>
    (so_state s = TCPS_SYN_SENT \<and> th_flags nb AND TH_SYN \<noteq> 0 \<and> SeqIsBetween (th_ack nb) (so_tx_isn s + 1) (so_tx_nxt s)
     \<or> so_state s = TCPS_SYN_RECEIVED \<and> th_flags nb AND TH_SYN = 0 \<and> th_flags nb AND TH_FIN = 0
       \<and> SeqIsBetween (th_ack nb) (so_tx_una s + 1) (so_tx_nxt s))"
proof -
  have sent: ?thesis if st: "so_state s = TCPS_SYN_SENT" and e: "so_state (NutTcpStateSynSent nb s) = TCPS_ESTABLISHED"
    using e change_not_established [of TCPS_SYN_RECEIVED "NutTcpProcessSyn nb s"]
    by (auto simp: NutTcpStateSynSent_def Let_def st split: if_splits)
  have recvd: ?thesis if st: "so_state s = TCPS_SYN_RECEIVED" and e: "so_state (NutTcpStateSynReceived nb s) = TCPS_ESTABLISHED"
  proof -
    have "so_state (tcp_ack nb s) \<noteq> TCPS_ESTABLISHED" using st by (simp add: ack_not_established)
    then have "so_state (tcp_state TCPS_CLOSE_WAIT ((if nb_ap nb \<noteq> [] then NutTcpProcessAppData nb (tcp_ack nb s)
        else act [Release nb] (tcp_ack nb s))\<lparr>so_rx_nxt := v\<rparr>)) \<noteq> TCPS_ESTABLISHED" for v
      by (intro change_not_established) (simp_all add: app_data(3))
    then show ?thesis using e change_not_established [of TCPS_LISTEN s]
      by (auto simp: NutTcpStateSynReceived_def Let_def st split: if_splits)
  qed
  show ?thesis using assms fin_wait_not_established [OF assms(1), of nb] sent recvd
    by (auto simp: NutTcpStateProcess_def split: tcps.splits)
qed

section \<open>The numbers of our own SYN while a connection is opened\<close>

text \<open>
  What a step leaves alone: the numbers of the sending side, a SYN or FIN that is still to be sent, and
  the answers of the environment. Requests and actions only become more.
\<close>

definition follows :: "tcp \<Rightarrow> tcp \<Rightarrow> bool" where
  "follows s s' \<longleftrightarrow> so_tx_isn s' = so_tx_isn s \<and> so_tx_una s' = so_tx_una s \<and> so_tx_nxt s' = so_tx_nxt s
     \<and> so_tx_flags s' AND (SO_SYN OR SO_FIN) = so_tx_flags s AND (SO_SYN OR SO_FIN)
     \<and> answers s' = answers s \<and> asked s \<le> asked s' \<and> set (actions s) \<subseteq> set (actions s')"

lemma follows_refl [simp, intro]: "follows s s"
  by (simp add: follows_def)

lemma follows_trans [trans]: "follows s s1 \<Longrightarrow> follows s1 s2 \<Longrightarrow> follows s s2"
  by (auto simp: follows_def)

lemma follows_ask: "ask s1 = (b, s2) \<Longrightarrow> follows s s1 \<Longrightarrow> follows s s2"
  by (auto simp: follows_def ask_def)

lemma word_masks:
  fixes w m k :: u8
  assumes "m AND k = 0"
  shows "(w OR m) AND k = w AND k" "(w AND NOT m) AND k = w AND k"
proof -
  have "\<not> (bit m n \<and> bit k n)" for n using assms by (metis bit_and_iff bit_0_eq bot_apply bot_bool_def)
  then show "(w OR m) AND k = w AND k" "(w AND NOT m) AND k = w AND k" by (auto simp: bit_eq_iff bit_simps dest: bit_imp_le_length)
qed

abbreviation pending :: "tcp \<Rightarrow> u8" where
  "pending s \<equiv> so_tx_flags s AND (SO_SYN OR SO_FIN)"

lemma pending_simps [simp]:
  "pending (set_flags (SO_ACK OR SO_FORCE) s) = pending s" "pending (set_flags SO_ACK s) = pending s" "pending (set_flags SO_FORCE s) = pending s"
  "pending (clear_flags SO_ACK s) = pending s" "pending (clear_flags SO_FORCE s) = pending s" "pending (set_flags 0 s) = pending s"
proof -
  have d: "(SO_ACK OR SO_FORCE) AND (SO_SYN OR SO_FIN) = 0" "SO_ACK AND (SO_SYN OR SO_FIN) = 0" "SO_FORCE AND (SO_SYN OR SO_FIN) = 0"
    by (simp_all add: SO_ACK_def SO_FORCE_def SO_SYN_def SO_FIN_def)
  show "pending (set_flags (SO_ACK OR SO_FORCE) s) = pending s" "pending (set_flags SO_ACK s) = pending s" "pending (set_flags SO_FORCE s) = pending s"
    "pending (clear_flags SO_ACK s) = pending s" "pending (clear_flags SO_FORCE s) = pending s" "pending (set_flags 0 s) = pending s"
    by (simp_all add: set_flags_def clear_flags_def word_masks d)
qed

lemma and_or_zero:
  fixes w :: u8
  assumes "w AND (a OR b) = 0"
  shows "w AND a = 0" "w AND b = 0"
proof -
  have "\<not> bit w n" if "bit (a OR b) n" for n using assms that by (metis bit_and_iff bit_0_eq bot_apply bot_bool_def)
  then show "w AND a = 0" "w AND b = 0" by (auto simp: bit_eq_iff bit_simps)
qed

lemmas pending_none = and_or_zero [where w = "so_tx_flags _" and a = SO_SYN and b = SO_FIN]

lemma follows_act [simp]: "follows s s1 \<Longrightarrow> follows s (act xs s1)"
  by (auto simp: follows_def act_def)

lemma follows_set_flags [simp]:
  "follows s s1 \<Longrightarrow> follows s (set_flags (SO_ACK OR SO_FORCE) s1)" "follows s s1 \<Longrightarrow> follows s (set_flags SO_ACK s1)"
  "follows s s1 \<Longrightarrow> follows s (set_flags SO_FORCE s1)" "follows s s1 \<Longrightarrow> follows s (set_flags 0 s1)"
  "follows s s1 \<Longrightarrow> follows s (clear_flags SO_ACK s1)" "follows s s1 \<Longrightarrow> follows s (clear_flags SO_FORCE s1)"
  using pending_simps [of s1] by (simp_all add: follows_def) (simp_all add: set_flags_def clear_flags_def)

lemma follows_updates [simp]:
  "follows s (s1\<lparr>so_last_error := e\<rparr>) = follows s s1" "follows s (s1\<lparr>so_retran_time := t\<rparr>) = follows s s1"
  "follows s (s1\<lparr>so_tx_nbq := q\<rparr>) = follows s s1" "follows s (s1\<lparr>so_state := st\<rparr>) = follows s s1"
  "follows s (s1\<lparr>so_tx_win := w\<rparr>) = follows s s1" "follows s (s1\<lparr>so_tx_wl1 := v\<rparr>) = follows s s1" "follows s (s1\<lparr>so_tx_wl2 := v\<rparr>) = follows s s1"
  "follows s (s1\<lparr>so_tx_dup := d\<rparr>) = follows s s1" "follows s (s1\<lparr>so_rtt_seq := v\<rparr>) = follows s s1" "follows s (s1\<lparr>so_rtto := w\<rparr>) = follows s s1"
  "follows s (s1\<lparr>so_retransmits := w\<rparr>) = follows s s1" "follows s (s1\<lparr>so_time_wait := w\<rparr>) = follows s s1"
  "follows s (s1\<lparr>so_rx_buf := q\<rparr>) = follows s s1" "follows s (s1\<lparr>so_rx_nbq := q\<rparr>) = follows s s1" "follows s (s1\<lparr>tcp_run_gc := g\<rparr>) = follows s s1"
  "follows s (s1\<lparr>so_mss := w\<rparr>) = follows s s1" "follows s (s1\<lparr>so_devobsz := w\<rparr>) = follows s s1"
  by (simp_all add: follows_def)

lemma follows_out_send: "follows s s1 \<Longrightarrow> follows s (fst (out_send nb s1))"
  by (auto simp: out_send_def split: prod.split dest: follows_ask)

lemma follows_out_queue [simp]: "follows s s1 \<Longrightarrow> follows s (out_queue nb s1)"
  by (simp add: out_queue_def Let_def)

lemma follows_out_finish: "follows s s1 \<Longrightarrow> follows s (fst (out_finish n nb s1))"
  using follows_ask [OF _ follows_out_queue, of nb s1 _ _ s]
  by (auto simp: out_finish_def split: prod.split intro: follows_out_send)

lemma follows_out_header: "out_header n s1 = (fl, a, s2) \<Longrightarrow> follows s s1 \<Longrightarrow> follows s s2"
  by (auto simp: out_header_def split: if_splits)

text \<open>With neither SYN nor FIN to be sent, output without data changes no number.\<close>

lemma follows_tcp_out:
  assumes "pending s = 0"
  shows "follows s (tcp_out s)"
proof -
  have f: "so_tx_flags s2 AND SO_SYN = 0" "so_tx_flags s2 AND SO_FIN = 0" if "follows s s2" for s2
    using that assms pending_none [of s2] by (simp_all add: follows_def)
  show ?thesis
    by (auto simp: tcp_out_def NutTcpOutput_def Let_def f intro!: follows_out_finish split: prod.split dest!: follows_ask [OF _ follows_refl] follows_out_header [where s = s])
qed

lemma follows_reject [simp]: "follows s s1 \<Longrightarrow> follows s (NutTcpReject nb s1)"
  by (auto simp: NutTcpReject_def split: prod.split dest: follows_ask)

lemma follows_discard [simp]: "follows s s1 \<Longrightarrow> follows s (NutTcpDiscardBuffers s1)"
  by (simp add: NutTcpDiscardBuffers_def)

lemma follows_abort [simp]: "follows s s1 \<Longrightarrow> follows s (NutTcpAbortSocket e s1)"
  by (simp add: NutTcpAbortSocket_def)

lemma follows_retran: "follows s s1 \<Longrightarrow> follows s (fst (NutTcpStateRetranTimeout s1))"
  by (auto simp: NutTcpStateRetranTimeout_def Let_def split: list.split prod.split dest!: follows_ask [where s = s])

lemma follows_syn [simp]: "follows s s1 \<Longrightarrow> follows s (NutTcpProcessSyn nb s1)"
  by (simp add: NutTcpProcessSyn_def Let_def follows_def split: option.split)

text \<open>An acknowledgement moves the numbers only where it leaves the state alone.\<close>

lemma ack_follows: "rx_view (tcp_ack nb s) = rx_view s \<or> follows s (tcp_ack nb s)"
proof -
  have w: "follows s (ack_window nb s)" by (simp add: ack_window_def)
  then have "follows s (fst (ack_duplicate nb (ack_window nb s)))"
    using follows_retran [of s "(ack_window nb s)\<lparr>so_tx_dup := 0\<rparr>"] by (auto simp: ack_duplicate_def Let_def split: prod.split)
  then show ?thesis by (simp add: tcp_ack_def NutTcpProcessAck_def Let_def)
qed

text \<open>No request for memory and no segment for the IP layer has been refused so far.\<close>

definition granted :: "tcp \<Rightarrow> bool" where
  "granted s \<longleftrightarrow> (\<forall>n < asked s. answers s n)"

lemma granted_code [code]: "granted s \<longleftrightarrow> list_all (answers s) [0 ..< asked s]"
  by (auto simp: granted_def list_all_iff)

definition our_syn :: "tcp \<Rightarrow> u32 \<Rightarrow> bool" where
  "our_syn s x \<longleftrightarrow> (\<exists>a nb. TxSegment a nb \<in> set (actions s) \<and> th_flags nb AND TH_SYN \<noteq> 0 \<and> th_seq nb = x)"

lemma follows_granted: "follows s s' \<Longrightarrow> granted s' \<Longrightarrow> granted s"
  by (simp add: follows_def granted_def)

lemma follows_syn_sent: "follows s s' \<Longrightarrow> our_syn s x \<Longrightarrow> our_syn s' x"
  by (auto simp: follows_def our_syn_def)

lemma granted_ask: "ask s = (b, s1) \<Longrightarrow> follows s1 s' \<Longrightarrow> granted s' \<Longrightarrow> b"
  by (auto simp: ask_def follows_def granted_def)

lemma finish_sends:
  assumes "granted (fst (out_finish n nb s))" and "th_flags nb AND TH_SYN \<noteq> 0"
  shows "our_syn (fst (out_finish n nb s)) (th_seq nb)"
proof -
  have f: "th_flags nb AND (TH_FIN OR TH_SYN) \<noteq> 0" using assms(2) and_or_zero(2) by blast
  obtain b s1 where 1: "ask (out_queue nb s) = (b, s1)" by fastforce
  obtain b' s2 where 2: "ask s1 = (b', s2)" by fastforce
  have "b" "b'" using assms(1) f 1 2 by (auto simp: out_finish_def out_send_def granted_def act_def ask_def split: if_splits)
  then show ?thesis using assms(2) f 1 2 by (auto simp: out_finish_def out_send_def our_syn_def act_def)
qed

text \<open>A SYN goes out with the next number, unless a request is refused.\<close>

definition syn_segment :: "tcp \<Rightarrow> NETBUF \<times> tcp" where
  "syn_segment s =
     (case out_header 0 (clear_flags SO_FORCE s) of (fl, ack, s2) \<Rightarrow>
        let s3 = (clear_flags SO_SYN s2)\<lparr>so_tx_nxt := so_tx_nxt s + 1\<rparr>
        in (out_segment (fl OR TH_SYN) (so_tx_nxt s) ack [2, 4, ucast (drop_bit 8 (so_mss s3)), ucast (so_mss s3)] [] s3, s3))"

lemma syn_pending:
  assumes "pending s = SO_SYN"
  shows "so_tx_flags s AND SO_SYN \<noteq> 0" "so_tx_flags s AND (SO_SYN OR SO_FIN OR SO_FORCE) \<noteq> 0" "pending (clear_flags SO_SYN s) = 0"
proof -
  have "pending s AND SO_SYN \<noteq> 0" using assms by (simp add: SO_SYN_def)
  moreover have "pending s AND SO_SYN = (so_tx_flags s AND SO_SYN) AND (SO_SYN OR SO_FIN)" by (simp add: ac_simps)
  ultimately show n: "so_tx_flags s AND SO_SYN \<noteq> 0" by (metis zero_and_eq)
  show "so_tx_flags s AND (SO_SYN OR SO_FIN OR SO_FORCE) \<noteq> 0" using n and_or_zero(1) by metis
  have "pending (clear_flags SO_SYN s) = pending s AND NOT SO_SYN" by (simp add: clear_flags_def ac_simps)
  then show "pending (clear_flags SO_SYN s) = 0" using assms by simp
qed

lemma syn_output:
  assumes "pending s = SO_SYN"
  shows "tcp_out s = (case ask s of (ok, s0) \<Rightarrow> if ok then fst (case syn_segment s0 of (nb, s3) \<Rightarrow> out_finish 0 nb s3) else s0\<lparr>so_last_error := ENOBUFS\<rparr>)"
proof -
  have "so_tx_flags s2 AND SO_SYN \<noteq> 0" if "ask s = (b, s0)" "out_header 0 (clear_flags SO_FORCE s0) = (fl, a, s2)" for b s0 fl a s2
    using syn_pending(1) [of s2] assms follows_out_header [OF that(2) follows_set_flags(6) [OF follows_ask [OF that(1) follows_refl]]]
    by (simp add: follows_def)
  then show ?thesis using syn_pending(2) [OF assms]
    by (auto simp: tcp_out_def NutTcpOutput_def Let_def syn_segment_def clear_flags_def split: prod.split)
qed

lemma syn_segment_spec:
  assumes "syn_segment s = (nb, s3)" and "pending s = SO_SYN"
  shows "follows s (s3\<lparr>so_tx_nxt := so_tx_nxt s, so_tx_flags := so_tx_flags s\<rparr>)" "so_tx_nxt s3 = so_tx_nxt s + 1" "pending s3 = 0"
    "th_seq nb = so_tx_nxt s" "th_flags nb AND TH_SYN \<noteq> 0"
proof -
  obtain fl a s2 where h: "out_header 0 (clear_flags SO_FORCE s) = (fl, a, s2)" by (metis prod_cases3)
  have f: "follows s s2" by (rule follows_out_header [OF h]) simp
  have e: "s3 = (clear_flags SO_SYN s2)\<lparr>so_tx_nxt := so_tx_nxt s + 1\<rparr>" "th_seq nb = so_tx_nxt s" "th_flags nb = fl OR TH_SYN"
    using assms(1) h by (auto simp: syn_segment_def Let_def out_segment_def)
  show "follows s (s3\<lparr>so_tx_nxt := so_tx_nxt s, so_tx_flags := so_tx_flags s\<rparr>)" "so_tx_nxt s3 = so_tx_nxt s + 1" "th_seq nb = so_tx_nxt s"
    using f e by (simp_all add: follows_def clear_flags_def)
  have "(fl OR TH_SYN) AND TH_SYN = TH_SYN" by (auto simp: bit_eq_iff bit_simps)
  then show "th_flags nb AND TH_SYN \<noteq> 0" using e(3) by (simp add: TH_SYN_def)
  show "pending s3 = 0" using syn_pending(3) [of s2] f assms(2) e(1) by (simp add: follows_def)
qed

lemma syn_goes_out:
  assumes "pending s = SO_SYN" and "granted (tcp_out s)"
  shows "granted s \<and> so_tx_isn (tcp_out s) = so_tx_isn s \<and> so_tx_una (tcp_out s) = so_tx_una s \<and> so_tx_nxt (tcp_out s) = so_tx_nxt s + 1
    \<and> pending (tcp_out s) = 0 \<and> our_syn (tcp_out s) (so_tx_nxt s) \<and> set (actions s) \<subseteq> set (actions (tcp_out s))"
proof -
  obtain b s0 where a: "ask s = (b, s0)" by fastforce
  then have f0: "follows s s0" by (rule follows_ask) simp
  have b using assms a by (auto simp: syn_output granted_def ask_def split: if_splits)
  obtain nb s3 where g: "syn_segment s0 = (nb, s3)" by fastforce
  have o: "tcp_out s = fst (out_finish 0 nb s3)" using \<open>b\<close> a g by (simp add: syn_output [OF assms(1)])
  have p: "pending s0 = SO_SYN" using f0 assms(1) by (simp add: follows_def)
  note s = syn_segment_spec [OF g p]
  have "follows s3 (tcp_out s)" unfolding o by (rule follows_out_finish) simp
  moreover have "our_syn (tcp_out s) (th_seq nb)" unfolding o by (rule finish_sends [OF assms(2) [unfolded o] s(5)])
  ultimately show ?thesis using f0 s(1-4) assms(2) by (auto simp: follows_def granted_def)
qed

section \<open>Opening a connection\<close>

text \<open>
  The life of a socket from its creation until a connection is established or closed again by one side: calls of
  \<^verbatim>\<open>NutTcpConnect\<close> and \<^verbatim>\<open>NutTcpAccept\<close>, their timeouts, segments, the timers, and whatever else does not touch the
  sending side. The actions are those of this socket.
\<close>

abbreviation opening_states :: "tcps set" where
  "opening_states \<equiv> {TCPS_CLOSED, TCPS_LISTEN, TCPS_SYN_SENT, TCPS_SYN_RECEIVED}"

inductive being_opened :: "tcp \<Rightarrow> bool" where
  create: "being_opened (TCPSOCKET.extend (NutTcpCreateSocket ticks) env)"
| connect: "being_opened s \<Longrightarrow> so_state s = TCPS_CLOSED \<Longrightarrow>
    being_opened (tcp_state TCPS_SYN_SENT (s\<lparr>so_local_port := p, so_remote_port := q, so_remote_addr := a, so_local_addr := l\<rparr>))"
| connect_timeout: "being_opened s \<Longrightarrow> being_opened (NutTcpAbortSocket ETIMEDOUT s)"
| accept: "being_opened s \<Longrightarrow> so_state s = TCPS_CLOSED \<Longrightarrow> being_opened (tcp_state TCPS_LISTEN (s\<lparr>so_local_port := p\<rparr>))"
| accept_timeout: "being_opened s \<Longrightarrow> being_opened (s\<lparr>so_state := TCPS_CLOSED, so_last_error := ETIMEDOUT\<rparr>)"
| segment: "being_opened s \<Longrightarrow> tcp_segment nb s = Some s' \<Longrightarrow> so_state s' \<in> opening_states \<Longrightarrow> being_opened s'"
| timers: "being_opened s \<Longrightarrow> being_opened (fst (sm_socket s))"
| other: "being_opened s \<Longrightarrow> follows s s' \<Longrightarrow> so_state s' = so_state s \<Longrightarrow> actions s' = actions s \<Longrightarrow> so_tx_nbq s' = so_tx_nbq s \<Longrightarrow> being_opened s'"

text \<open>
  As long as nothing was refused: nothing is acknowledged yet, and every number from the initial one up to
  the next one to be sent belongs to a SYN of ours that was sent.
\<close>

definition syns_sent :: "tcp \<Rightarrow> bool" where
  "syns_sent s \<longleftrightarrow> so_tx_una s = so_tx_isn s \<and> pending s = 0 \<and> (\<forall>x. x - so_tx_isn s < so_tx_nxt s - so_tx_isn s \<longrightarrow> our_syn s x)"

definition syn_outstanding :: "tcp \<Rightarrow> bool" where
  "syn_outstanding s \<longleftrightarrow> (\<forall>x. x - so_tx_isn s \<le> so_tx_nxt s - 1 - so_tx_isn s \<longrightarrow> our_syn s x)"

definition opening_inv :: "tcp \<Rightarrow> bool" where
  "opening_inv s \<longleftrightarrow> so_state s \<in> opening_states \<and>
     (granted s \<longrightarrow> syns_sent s \<and> (so_state s \<in> {TCPS_SYN_SENT, TCPS_SYN_RECEIVED} \<longrightarrow> syn_outstanding s))"

lemma inv_follows:
  assumes "opening_inv s" and "follows s s'" and "so_state s' \<in> {so_state s, TCPS_CLOSED, TCPS_LISTEN}"
  shows "opening_inv s'"
proof -
  note g = follows_granted [OF assms(2)] and o = follows_syn_sent [OF assms(2)]
  have n: "so_tx_isn s' = so_tx_isn s" "so_tx_una s' = so_tx_una s" "so_tx_nxt s' = so_tx_nxt s" "pending s' = pending s"
    using assms(2) by (simp_all add: follows_def)
  have "syns_sent s \<Longrightarrow> syns_sent s'" "syn_outstanding s \<Longrightarrow> syn_outstanding s'"
    using o by (auto simp: syns_sent_def syn_outstanding_def n)
  then show ?thesis using assms(1,3) g by (auto simp: opening_inv_def)
qed

lemma word_less_succ: "(x :: u32) \<le> y" if "x < y + 1"
proof (cases "y + 1 = 0")
  case False
  then have "unat (y + 1) = unat y + 1" using unatSuc [of y] by (simp add: add.commute)
  then show ?thesis using that by (simp add: word_less_nat_alt word_le_nat_alt)
qed (use that in simp)

lemma syn_extends:
  assumes "syns_sent s" and "so_tx_isn s' = so_tx_isn s" "so_tx_una s' = so_tx_una s" "so_tx_nxt s' = so_tx_nxt s + 1" "pending s' = 0"
    "our_syn s' (so_tx_nxt s)" "set (actions s) \<subseteq> set (actions s')"
  shows "syns_sent s'" "syn_outstanding s'"
proof -
  have o: "our_syn s x \<Longrightarrow> our_syn s' x" for x using assms(7) by (auto simp: our_syn_def)
  have u: "our_syn s' x" if "x - so_tx_isn s \<le> so_tx_nxt s - so_tx_isn s" for x
  proof (cases "x = so_tx_nxt s")
    case False
    then have "x - so_tx_isn s \<noteq> so_tx_nxt s - so_tx_isn s" by simp
    then show ?thesis using that assms(1) o by (simp add: syns_sent_def order.order_iff_strict)
  qed (simp add: assms(6))
  then show "syn_outstanding s'" by (simp add: syn_outstanding_def assms(2,4))
  have "x - so_tx_isn s \<le> so_tx_nxt s - so_tx_isn s" if l: "x - so_tx_isn s < so_tx_nxt s + 1 - so_tx_isn s" for x
  proof -
    have e: "so_tx_nxt s + 1 - so_tx_isn s = (so_tx_nxt s - so_tx_isn s) + 1" by simp
    from l show ?thesis unfolding e by (rule word_less_succ)
  qed
  then show "syns_sent s'" using u assms(1-5) by (simp add: syns_sent_def)
qed

lemma out_granted: "granted (tcp_out s) \<Longrightarrow> granted s"
proof -
  define P where "P s' \<longleftrightarrow> answers s' = answers s \<and> asked s \<le> asked s'" for s' :: tcp
  have f: "P (fst (out_finish n nb s3))" if "P s3" for n nb s3
    using that follows_out_finish [of s3 s3 n nb] by (auto simp: P_def follows_def)
  have h: "P s3" if "out_header n s2 = (fl, a, s3)" "P s2" for n s2 fl a s3
    using that follows_out_header [OF that(1) follows_refl] by (auto simp: P_def follows_def)
  have a: "P s2" if "ask s1 = (b, s2)" "P s1" for s1 b s2 using that by (auto simp: P_def ask_def)
  have u: "P (clear_flags m s1) = P s1" "P (s1\<lparr>so_tx_nxt := v\<rparr>) = P s1" "P (s1\<lparr>so_last_error := e\<rparr>) = P s1" "P s" for m s1 v e
    by (simp_all add: P_def clear_flags_def)
  have "P (tcp_out s)"
    by (auto simp: tcp_out_def NutTcpOutput_def Let_def u intro!: f split: prod.split dest!: a h)
  then show "granted (tcp_out s) \<Longrightarrow> granted s" by (simp add: P_def granted_def)
qed

lemma inv_syn:
  assumes "opening_inv s" and "state_check (so_state s) st = Some (fl, True)" and "fl = SO_SYN \<or> fl = SO_SYN OR SO_ACK"
    and "st = TCPS_SYN_SENT \<or> st = TCPS_SYN_RECEIVED"
  shows "opening_inv (tcp_state st s)"
proof -
  let ?s1 = "(set_flags fl s)\<lparr>tcp_run_gc := tcp_run_gc s, so_state := st\<rparr>"
  have f: "follows (tcp_out ?s1) (tcp_state st s)" and st: "so_state (tcp_state st s) = st"
    using assms(2,4) rx_viewD(6) [OF tcp_out_view, of ?s1] by (auto simp: tcp_state_def NutTcpStateChange_def Let_def tcp_out_def split: prod.split)
  have "syns_sent (tcp_state st s) \<and> syn_outstanding (tcp_state st s)" if g: "granted (tcp_state st s)"
  proof -
    have c: "(w OR (SO_SYN OR SO_ACK)) AND (SO_SYN OR SO_FIN) = (w OR SO_SYN) AND (SO_SYN OR SO_FIN)" for w
      using word_masks(1) [of SO_ACK "SO_SYN OR SO_FIN" "w OR SO_SYN"] by (simp add: SO_ACK_def SO_SYN_def SO_FIN_def ac_simps)
    have d: "(w OR SO_SYN) AND (SO_SYN OR SO_FIN) = (w AND (SO_SYN OR SO_FIN)) OR SO_SYN" for w
      by (auto simp: bit_eq_iff bit_simps)
    have p: "pending ?s1 = pending s OR SO_SYN" using assms(3) by (auto simp: set_flags_def c d)
    have o: "granted (tcp_out ?s1)" by (rule follows_granted [OF f g])
    then have "granted s" using out_granted [OF o] by (simp add: granted_def set_flags_def)
    then have i: "syns_sent s" using assms(1) by (simp add: opening_inv_def)
    then have "pending ?s1 = SO_SYN" using p by (simp add: syns_sent_def)
    from syn_goes_out [OF this o] f show ?thesis
      using syn_extends [OF i, of "tcp_state st s"] follows_syn_sent [OF f] by (auto simp: follows_def set_flags_def)
  qed
  then show ?thesis using assms(4) st by (auto simp: opening_inv_def)
qed


lemma abort_closed: "so_state s \<in> opening_states \<Longrightarrow> so_state (NutTcpAbortSocket e s) = TCPS_CLOSED"
  using abort_aborted [of s e] by (auto simp: aborted_def closed_by_application_def)

lemma synsent_inv:
  assumes "opening_inv s" "so_state s = TCPS_SYN_SENT" "so_state (NutTcpStateSynSent nb s) \<in> opening_states"
  shows "opening_inv (NutTcpStateSynSent nb s)"
proof -
  let ?s1 = "NutTcpProcessSyn nb s"
  have i: "opening_inv ?s1" by (rule inv_follows [OF assms(1)]) simp_all
  have "opening_inv (tcp_state TCPS_SYN_RECEIVED ?s1)" by (rule inv_syn [OF i, of _ "SO_SYN OR SO_ACK"]) (simp_all add: assms(2))
  then have r: "opening_inv (act [Release nb] (tcp_state TCPS_SYN_RECEIVED ?s1))" by (rule inv_follows) simp_all
  have "so_state (act xs (tcp_state TCPS_ESTABLISHED (tcp_ack nb ?s1))) \<notin> opening_states" if "th_flags nb AND TH_SYN \<noteq> 0" for xs
  proof -
    have "th_flags nb AND (TH_SYN OR TH_FIN) \<noteq> 0" using that and_or_zero(1) by blast
    then have "so_state (tcp_ack nb ?s1) = TCPS_SYN_SENT"
      using assms(2) rx_viewD(6) [of "tcp_ack nb ?s1" ?s1] by (cases rule: tcp_ack_cases [of nb ?s1]) auto
    then have "so_state (tcp_state TCPS_ESTABLISHED (tcp_ack nb ?s1)) = TCPS_ESTABLISHED" by (intro change_legal) simp
    then show ?thesis by simp
  qed
  then show ?thesis
    using assms r abort_closed [of s] by (auto simp: NutTcpStateSynSent_def Let_def split: if_splits intro: inv_follows [OF assms(1)])
qed

lemma follows_listen: "so_state s = TCPS_CLOSED \<or> so_state s = TCPS_SYN_RECEIVED \<Longrightarrow> follows s (tcp_state TCPS_LISTEN s)"
  by (auto simp: tcp_state_def NutTcpStateChange_def)

lemma synreceived_inv:
  assumes "opening_inv s" "so_state s = TCPS_SYN_RECEIVED" "so_state (NutTcpStateSynReceived nb s) \<in> opening_states"
  shows "opening_inv (NutTcpStateSynReceived nb s)"
proof -
  let ?s1 = "tcp_ack nb s"
  let ?s2 = "if nb_ap nb \<noteq> [] then NutTcpProcessAppData nb ?s1 else act [Release nb] ?s1"
  let ?r = "if th_flags nb AND TH_FIN \<noteq> 0 then tcp_state TCPS_CLOSE_WAIT (?s2\<lparr>so_rx_nxt := so_rx_nxt ?s2 + 1\<rparr>)
    else act [Post So_pc_tq, Post So_ac_tq] (tcp_state TCPS_ESTABLISHED ?s2)"
  have a: "opening_inv ?r" if r: "so_state ?r \<in> opening_states"
  proof (cases "rx_view ?s1 = rx_view s")
    case True
    then have "so_state ?s2 = TCPS_SYN_RECEIVED" using assms(2) rx_viewD(6) [OF True] by (simp add: app_data(3))
    then have "so_state (tcp_state TCPS_CLOSE_WAIT (?s2\<lparr>so_rx_nxt := so_rx_nxt ?s2 + 1\<rparr>)) = TCPS_CLOSE_WAIT"
      "so_state (tcp_state TCPS_ESTABLISHED ?s2) = TCPS_ESTABLISHED" by (intro change_legal, simp)+
    then show ?thesis using r by (simp only: state_simps split: if_splits) simp_all
  next
    case False
    then have f: "follows s ?s1" and c: "nb_ap nb = []" "th_flags nb AND (TH_SYN OR TH_FIN) = 0" "aborted s ?s1"
      using ack_follows [of nb s] tcp_ack_cases [of nb s] by blast+
    have "th_flags nb AND TH_FIN = 0" using c(2) and_or_zero(2) by blast
    moreover have "so_state ?s1 = TCPS_CLOSED" using c(3) assms(2) by (simp add: aborted_def closed_by_application_def)
    ultimately have "?r = act [Post So_pc_tq, Post So_ac_tq] (act [Release nb] ?s1)" "so_state ?r = TCPS_CLOSED"
      using c(1) by (simp_all add: tcp_state_def NutTcpStateChange_def)
    then show ?thesis using f by (intro inv_follows [OF assms(1)]) auto
  qed
  have l: "opening_inv (NutTcpDiscardBuffers ((act [Release nb] s1)\<lparr>so_retran_time := 0\<rparr>))"
    if "follows s s1" "so_state s1 \<in> {TCPS_CLOSED, TCPS_LISTEN}" for s1
    using that by (intro inv_follows [OF assms(1)]) auto
  have "so_state (tcp_state TCPS_LISTEN s) = TCPS_LISTEN" by (rule change_legal) (simp add: assms(2))
  moreover have "so_state (NutTcpAbortSocket e s) = TCPS_CLOSED" for e by (rule abort_closed) (simp add: assms(2))
  ultimately show ?thesis
    using assms(2,3) a by (auto simp: NutTcpStateSynReceived_def Let_def follows_listen split: if_splits intro!: l intro: inv_follows [OF assms(1)])
qed

lemma segment_inv:
  assumes "opening_inv s" "tcp_segment nb s = Some s'" "so_state s' \<in> opening_states"
  shows "opening_inv s'"
proof -
  obtain v where s': "s' = NutTcpStateProcess nb (s\<lparr>so_mss := v\<rparr>)" using assms(2) by (auto simp: tcp_segment_def NutTcpInputOptions_def)
  let ?s = "s\<lparr>so_mss := v\<rparr>"
  have i: "opening_inv ?s" by (rule inv_follows [OF assms(1)]) simp_all
  have "opening_inv (NutTcpStateListen nb ?s)" if "so_state s = TCPS_LISTEN"
  proof -
    have "opening_inv (NutTcpProcessSyn nb ?s)" by (rule inv_follows [OF i]) simp_all
    then have "opening_inv (tcp_state TCPS_SYN_RECEIVED (NutTcpProcessSyn nb ?s))"
      by (rule inv_syn [where fl = "SO_SYN OR SO_ACK"]) (simp_all add: that)
    then have "opening_inv (act [Release nb] (tcp_state TCPS_SYN_RECEIVED (NutTcpProcessSyn nb ?s)))" by (rule inv_follows) simp_all
    then show ?thesis using inv_follows [OF i, of "NutTcpReject nb ?s"] by (simp add: NutTcpStateListen_def)
  qed
  moreover have "opening_inv (NutTcpReject nb ?s)" by (rule inv_follows [OF i]) simp_all
  ultimately show ?thesis
    using assms(1,3) i synsent_inv [OF i, of nb] synreceived_inv [OF i, of nb]
    by (auto simp: s' NutTcpStateProcess_def opening_inv_def [of s] split: tcps.splits)
qed


lemma out_inv: "opening_inv s \<Longrightarrow> opening_inv (tcp_out s)"
proof -
  assume i: "opening_inv s"
  show ?thesis
  proof (cases "granted (tcp_out s)")
    case True
    then have "pending s = 0" using i out_granted [OF True] by (simp add: opening_inv_def syns_sent_def)
    then show ?thesis by (intro inv_follows [OF i follows_tcp_out]) simp_all
  qed (use i in \<open>simp add: opening_inv_def\<close>)
qed

lemma timers_inv:
  assumes "opening_inv s"
  shows "opening_inv (fst (sm_socket s))"
proof -
  define s1 where "s1 = (if so_tx_flags s AND SO_ACK \<noteq> 0 then tcp_out (set_flags SO_FORCE s) else s)"
  define s2 where "s2 = (if so_tx_nbq s1 \<noteq> [] \<and> so_retran_time s1 \<noteq> 0 \<and> ucast (millis s1) - (so_retran_time s1 AND NOT 1) \<ge> so_rtto s1
    then fst (NutTcpStateRetranTimeout s1) else s1)"
  have "opening_inv (set_flags SO_FORCE s)" by (rule inv_follows [OF assms]) simp_all
  then have 1: "opening_inv s1" using assms out_inv by (simp add: s1_def)
  have "so_state s1 \<in> opening_states" using 1 by (simp add: opening_inv_def)
  then have "so_state (fst (NutTcpStateRetranTimeout s1)) \<in> {so_state s1, TCPS_CLOSED}"
    using retran_cases [of s1] rx_viewD(6) [of "fst (NutTcpStateRetranTimeout s1)" s1] by (auto simp: aborted_def closed_by_application_def)
  then have 2: "opening_inv s2" using 1 inv_follows [OF 1 follows_retran [OF follows_refl]] by (auto simp: s2_def)
  then have st: "so_state s2 \<in> opening_states" by (simp add: opening_inv_def)
  have "fst (sm_socket s) \<in> {s2, s2\<lparr>so_time_wait := so_time_wait s2 + 1\<rparr>, s2\<lparr>so_time_wait := so_time_wait s2 + 1, so_state := TCPS_LISTEN, so_time_wait := 0\<rparr>}"
    using st unfolding sm_socket_def Let_def s1_def [symmetric] s2_def [symmetric] by auto
  then show ?thesis using 2 by (auto intro!: inv_follows [OF 2])
qed

lemma opening_invariant: "being_opened s \<Longrightarrow> opening_inv s"
proof (induction rule: being_opened.induct)
  case (create ticks env)
  then show ?case by (simp add: opening_inv_def syns_sent_def NutTcpCreateSocket_def TCPSOCKET.defs)
next
  case (connect s l a q p)
  let ?s = "s\<lparr>so_local_port := p, so_remote_port := q, so_remote_addr := a, so_local_addr := l\<rparr>"
  have "opening_inv ?s" by (rule inv_follows [OF connect.IH]) (simp_all add: follows_def)
  then show ?case by (rule inv_syn [where fl = SO_SYN]) (simp_all add: connect.hyps)
next
  case (connect_timeout s)
  then show ?case using abort_closed [of s] by (intro inv_follows [OF connect_timeout.IH]) (simp_all add: opening_inv_def)
next
  case (accept s p)
  let ?s = "s\<lparr>so_local_port := p\<rparr>"
  have "opening_inv ?s" by (rule inv_follows [OF accept.IH]) (simp_all add: follows_def)
  moreover have "so_state (tcp_state TCPS_LISTEN ?s) = TCPS_LISTEN" by (rule change_legal) (simp add: accept.hyps)
  ultimately show ?case using accept.hyps by (auto intro!: inv_follows [of ?s] follows_listen)
next
  case (accept_timeout s)
  show ?case by (rule inv_follows [OF accept_timeout.IH]) simp_all
next
  case (segment s nb s')
  then show ?case using segment_inv by blast
next
  case (timers s)
  then show ?case using timers_inv by blast
next
  case (other s s')
  then show ?case using inv_follows by auto
qed


definition syn_ack :: NETBUF where
  "syn_ack = (stream_segment 77 [])\<lparr>th_flags := TH_SYN OR TH_ACK, th_ack := 1\<rparr>"



section \<open>Departures from the documentation and the protocol\<close>

definition est_start :: tcp where
  "est_start = tcp_start\<lparr>so_state := TCPS_ESTABLISHED, so_rx_nxt := 100\<rparr>"

text \<open>
  Where there is no memory for the answer to the first SYN, \<^verbatim>\<open>SYN_RECEIVED\<close> is entered with nothing sent, and any
  acknowledgement number opens the connection.
\<close>

lemma opens_without_syn:
  "let s = NutTcpStateProcess ((stream_segment 77 [])\<lparr>th_flags := TH_SYN\<rparr>) (tcp_start\<lparr>so_state := TCPS_LISTEN, answers := \<lambda>n. n \<noteq> 0\<rparr>);
       s' = NutTcpStateProcess ((stream_segment 78 [])\<lparr>th_ack := 12345\<rparr>) s
   in so_state s = TCPS_SYN_RECEIVED \<and> actions s = [Release ((stream_segment 77 [])\<lparr>th_flags := TH_SYN\<rparr>)] \<and> so_state s' = TCPS_ESTABLISHED"
  by code_simp

text \<open>When both sides open at the same time, the SYN that goes out with the acknowledgement has a number of its own.\<close>

lemma second_syn_renumbered:
  "let s = tcp_state TCPS_SYN_SENT tcp_start; s' = NutTcpStateProcess ((stream_segment 77 [])\<lparr>th_flags := TH_SYN\<rparr>) s
   in map th_seq (so_tx_nbq s') = [0, 1] \<and> list_all (\<lambda>nb. th_flags nb AND TH_SYN \<noteq> 0) (so_tx_nbq s') \<and> so_tx_nxt s' = 2"
  by code_simp

text \<open>A second copy of an early segment is released, but still counted: the space for early segments shrinks for ever.\<close>

lemma early_copy_counted:
  "let s1 = NutTcpStateProcess (stream_segment 200 [1, 2]) est_start; s2 = NutTcpStateProcess (stream_segment 200 [1, 2]) s1
   in so_rx_nbq s2 = so_rx_nbq s1 \<and> tcp_adv_cnt s1 = 56 \<and> tcp_adv_cnt s2 = 112"
  by code_simp

text \<open>A FIN closes the connection of the peer even if the segment that carries it is an old one.\<close>

lemma old_fin_closes:
  "so_state (NutTcpStateProcess ((stream_segment 50 [])\<lparr>th_flags := TH_ACK OR TH_FIN\<rparr>) est_start) = TCPS_CLOSE_WAIT"
  by code_simp

text \<open>After the application has closed its side, data is taken whatever its sequence number is.\<close>

lemma late_data_any_number:
  "rx_data (NutTcpStateProcess (stream_segment 7000 [1, 2]) (est_start\<lparr>so_state := TCPS_FIN_WAIT_2\<rparr>)) = [1, 2]"
  by code_simp

text \<open>A FIN that comes with the acknowledgement of our SYN is answered with a FIN, though the application has not closed.\<close>

lemma syn_received_sends_fin:
  "let s = NutTcpStateProcess ((stream_segment 100 [])\<lparr>th_flags := TH_ACK OR TH_FIN, th_ack := 1\<rparr>) (tcp_start\<lparr>so_state := TCPS_SYN_RECEIVED, so_tx_nxt := 1\<rparr>)
   in so_state s = TCPS_CLOSE_WAIT \<and> (\<exists>nb \<in> set (so_tx_nbq s). th_flags nb AND TH_FIN \<noteq> 0)"
  by code_simp

text \<open>A socket that waits to be destroyed changes its state like any other.\<close>

lemma destroy_state_changes: "so_state (tcp_state st s) = st" if "so_state s = TCPS_DESTROY" "st \<noteq> TCPS_CLOSE_WAIT" "st \<noteq> TCPS_SYN_SENT"
  using that by (simp add: tcp_state_def NutTcpStateChange_def Let_def set_flags_def)

text \<open>An option of length zero, of a kind the stack does not know, is read for ever.\<close>

lemma zero_tcp_option_hangs:
  assumes "c \<noteq> 0" "c \<noteq> 1" "c \<noteq> 2"
  shows "input_options (c # 0 # r) mss = None"
proof -
  have "cp = c # 0 # r \<longrightarrow> False" if "input_options cp mss = Some v" for cp mss v
    by (rule input_options.raw_induct [where P = "\<lambda>cp mss v. cp = c # 0 # r \<longrightarrow> False", OF _ that])
      (use assms in \<open>auto split: list.splits if_splits, blast+\<close>)
  then show ?thesis by (cases "input_options (c # 0 # r) mss") auto
qed

end
