(* ===== verification/Nut_Tcp_Send.thy ===== *)
theory Nut_Tcp_Send
  imports Nut_Tcp_Stream
begin

text \<open>
  The sending side: the queue of segments waiting to be acknowledged holds exactly the sequence space
  that has been sent and is not acknowledged, so nothing that may have to be sent again is lost.
\<close>

unbundle bit_operations_syntax

section \<open>The retransmission queue\<close>

definition seg_len :: "NETBUF \<Rightarrow> nat" where
  "seg_len nb = length (nb_ap nb) + (if th_flags nb AND (TH_SYN OR TH_FIN) \<noteq> 0 then 1 else 0)"

abbreviation tx_size :: "NETBUF list \<Rightarrow> nat" where
  "tx_size q \<equiv> sum_list (map seg_len q)"

lemma seg_end_len: "seg_end nb = th_seq nb + word_of_nat (seg_len nb)"
  by (simp add: seg_end_def seg_len_def)

fun chained :: "u32 \<Rightarrow> NETBUF list \<Rightarrow> u32 \<Rightarrow> bool" where
  "chained a [] b = (a = b)"
| "chained a (nb # q) b = (th_seq nb = a \<and> 0 < seg_len nb \<and> chained (a + word_of_nat (seg_len nb)) q b)"

lemma chained_size: "chained a q b \<Longrightarrow> b = a + word_of_nat (tx_size q)"
proof (induction q arbitrary: a)
  case (Cons nb q)
  then have "b = (a + word_of_nat (seg_len nb)) + word_of_nat (tx_size q)" by simp
  then show ?case by (simp add: add.assoc)
qed simp

lemma chained_append: "chained a (p @ q) b \<longleftrightarrow> (\<exists>c. chained a p c \<and> chained c q b)"
  by (induction p arbitrary: a) auto

text \<open>The queue reaches from the segment that holds the first unacknowledged number to the next number to be sent.\<close>

fun una_in :: "nat \<Rightarrow> NETBUF list \<Rightarrow> bool" where
  "una_in k [] = (k = 0)"
| "una_in k (nb # q) = (k < seg_len nb)"

definition tx_ok :: "tcp \<Rightarrow> bool" where
  "tx_ok s \<longleftrightarrow> tx_size (so_tx_nbq s) < 2 ^ 31 \<and>
     (\<exists>k. una_in k (so_tx_nbq s) \<and> chained (so_tx_una s - word_of_nat k) (so_tx_nbq s) (so_tx_nxt s))"

section \<open>Acknowledgements\<close>

lemma sint_nonneg: "\<not> sint (w :: u32) < 0 \<Longrightarrow> unat w < 2 ^ 31"
proof (rule ccontr)
  assume w: "\<not> sint w < 0" "\<not> unat w < 2 ^ 31"
  have "int (2 ^ 31) \<le> int (unat w)" using w(2) by (simp only: of_nat_le_iff not_less)
  then have l: "2 ^ 31 \<le> uint w" by simp
  have b: "uint w < 2 ^ 32" using unsigned_less [of w] by simp
  have "(word_of_int (uint w - 2 ^ 32) :: u32) = w" by simp
  moreover have "sint (word_of_int (uint w - 2 ^ 32) :: u32) = uint w - 2 ^ 32"
    using l b signed_take_bit_int_eq_self [of 31 "uint w - 2 ^ 32"] by (simp add: signed_of_int del: of_int_diff)
  ultimately have "sint w = uint w - 2 ^ 32" by (simp only:)
  then show False using w b by simp
qed

lemma ack_loop_spec:
  assumes "chained a q b" "tx_size q < 2 ^ 31" "j \<le> tx_size q" "ack_loop (a + word_of_nat j) q = (dn, rest)"
  shows "q = dn @ rest \<and> tx_size dn \<le> j \<and> chained (a + word_of_nat (tx_size dn)) rest b \<and> una_in (j - tx_size dn) rest"
  using assms
proof (induction q arbitrary: a j dn)
  case (Cons nb q)
  have "SeqIsAfter (seg_end nb) (a + word_of_nat j) \<longleftrightarrow> j < seg_len nb"
    using Cons.prems seq_after [of "seg_len nb" j a] by (simp add: seg_end_len)
  then show ?case
  proof (cases "j < seg_len nb")
    case False
    then obtain dn' where d: "ack_loop (a + word_of_nat j) q = (dn', rest)" "dn = nb # dn'"
      using Cons.prems(4) \<open>_ \<longleftrightarrow> j < seg_len nb\<close> by (auto split: prod.splits)
    let ?a = "a + word_of_nat (seg_len nb)" and ?j = "j - seg_len nb"
    have "?a + word_of_nat ?j = a + word_of_nat j" using False by (simp add: add.assoc flip: of_nat_add)
    then have l: "ack_loop (?a + word_of_nat ?j) q = (dn', rest)" using d(1) by (simp only:)
    have i: "q = dn' @ rest \<and> tx_size dn' \<le> ?j \<and> chained (?a + word_of_nat (tx_size dn')) rest b \<and> una_in (?j - tx_size dn') rest"
      using Cons.prems(1-3) by (intro Cons.IH [OF _ _ _ l]) auto
    moreover have "tx_size dn = seg_len nb + tx_size dn'" using d(2) by simp
    ultimately show ?thesis using False d(2) by (auto simp: add.assoc)
  qed (use Cons.prems in auto)
qed auto

lemma tx_window:
  assumes "tx_ok s" "\<not> SeqIsAfter a (so_tx_nxt s)" "\<not> SeqIsAfter (so_tx_una s) a"
  shows "\<exists>x k. a = so_tx_una s + word_of_nat x \<and> k + x \<le> tx_size (so_tx_nbq s) \<and> una_in k (so_tx_nbq s)
    \<and> chained (so_tx_una s - word_of_nat k) (so_tx_nbq s) (so_tx_nxt s)"
proof -
  obtain k where k: "una_in k (so_tx_nbq s)" "chained (so_tx_una s - word_of_nat k) (so_tx_nbq s) (so_tx_nxt s)"
    and T: "tx_size (so_tx_nbq s) < 2 ^ 31" using assms(1) by (auto simp: tx_ok_def)
  let ?T = "tx_size (so_tx_nbq s)" and ?x = "unat (a - so_tx_una s)"
  have kT: "k \<le> ?T" using k(1) by (cases "so_tx_nbq s") auto
  have a: "a = so_tx_una s + word_of_nat ?x" by simp
  have nx: "so_tx_nxt s = so_tx_una s + word_of_nat (?T - k)"
    using chained_size [OF k(2)] kT by (simp add: of_nat_diff)
  have "?x < 2 ^ 31" using assms(3) sint_nonneg by (simp add: SeqIsAfter_def)
  then have "?x \<le> ?T - k" using assms(2) seq_after [of ?x "?T - k" "so_tx_una s"] T nx a by (simp add: not_less)
  then show ?thesis using a k kT by (intro exI [of _ ?x] exI [of _ k]) auto
qed

text \<open>What of the sending side receiving and the clock leave alone.\<close>

definition tx_view :: "tcp \<Rightarrow> _" where
  "tx_view s = (so_tx_nbq s, so_tx_nxt s, so_tx_una s)"

lemma tx_view_simps [simp]:
  "tx_view (act xs s) = tx_view s" "tx_view (snd (ask s)) = tx_view s" "tx_view (set_flags m s) = tx_view s"
  "tx_view (clear_flags m s) = tx_view s" "tx_view (s\<lparr>so_last_error := e\<rparr>) = tx_view s" "tx_view (s\<lparr>so_retran_time := t\<rparr>) = tx_view s"
  "tx_view (s\<lparr>so_tx_dup := d\<rparr>) = tx_view s" "tx_view (s\<lparr>so_retransmits := w\<rparr>) = tx_view s" "tx_view (s\<lparr>so_rtto := w\<rparr>) = tx_view s"
  by (simp_all add: tx_view_def act_def ask_def set_flags_def clear_flags_def)

lemma tx_ok_view: "tx_view s' = tx_view s \<Longrightarrow> tx_ok s' = tx_ok s"
  by (simp add: tx_ok_def tx_view_def)

lemma ask_tx_view: "ask s = (b, s') \<Longrightarrow> tx_view s' = tx_view s"
  using tx_view_simps(2) [of s] by simp

lemma ack_window_tx [simp]: "tx_view (ack_window th s) = tx_view s"
  by (simp add: ack_window_def tx_view_def)

lemma retran_tx: "tx_view (fst (NutTcpStateRetranTimeout s)) = tx_view s \<or> aborted s (fst (NutTcpStateRetranTimeout s))"
proof -
  have ab: "aborted s (NutTcpAbortSocket e s1)" if "rx_view s1 = rx_view s" for e s1
    using aborted_view [OF that abort_aborted] .
  obtain ok s2 where a: "ask (s\<lparr>so_retransmits := so_retransmits s + 1\<rparr>) = (ok, s2)" by fastforce
  have "tx_view s2 = tx_view s" "rx_view (s2\<lparr>so_tx_nbq := nbs\<rparr>) = rx_view s" for nbs
    using ask_tx_view [OF a] ask_view [OF a] by simp_all
  then show ?thesis using ab by (simp add: NutTcpStateRetranTimeout_def Let_def a split: list.split)
qed

lemma ack_duplicate_tx: "tx_view (fst (ack_duplicate th s)) = tx_view s \<or> aborted s (fst (ack_duplicate th s))"
proof -
  let ?s = "s\<lparr>so_tx_dup := 0\<rparr>"
  have "tx_view (fst (NutTcpStateRetranTimeout ?s)) = tx_view s \<or> aborted s (fst (NutTcpStateRetranTimeout ?s))"
    using retran_tx [of ?s] aborted_view [of ?s s] by auto
  then show ?thesis by (auto simp: ack_duplicate_def Let_def split: prod.split)
qed

lemma ack_new_tx:
  assumes "ack_loop (th_ack th) (so_tx_nbq s) = (dn, rest)"
  shows "tx_view (ack_new th s) = (rest, so_tx_nxt s, th_ack th)"
proof -
  have "tx_view (NutTcpCalcRtt t) = tx_view t" for t by (simp add: NutTcpCalcRtt_def Let_def tx_view_def)
  then have c: "so_tx_nbq (NutTcpCalcRtt t) = so_tx_nbq t" "so_tx_nxt (NutTcpCalcRtt t) = so_tx_nxt t"
    "so_tx_una (NutTcpCalcRtt t) = so_tx_una t" for t by (simp_all add: tx_view_def)
  show ?thesis using assms by (simp add: ack_new_def Let_def tx_view_def act_def c)
qed

lemma ack_new_ok:
  assumes "tx_ok s" "\<not> SeqIsAfter (th_ack th) (so_tx_nxt s)" "\<not> SeqIsAfter (so_tx_una s) (th_ack th)"
  shows "tx_ok (ack_new th s) \<and> so_tx_una (ack_new th s) = th_ack th \<and> (\<exists>dn. so_tx_nbq s = dn @ so_tx_nbq (ack_new th s)
    \<and> (\<forall>nb \<in> set dn. \<not> SeqIsAfter (seg_end nb) (th_ack th)))"
proof -
  obtain x k where x: "th_ack th = so_tx_una s + word_of_nat x" "k + x \<le> tx_size (so_tx_nbq s)"
    "chained (so_tx_una s - word_of_nat k) (so_tx_nbq s) (so_tx_nxt s)"
    using tx_window [OF assms] by blast
  have T: "tx_size (so_tx_nbq s) < 2 ^ 31" using assms(1) by (simp add: tx_ok_def)
  obtain dn rest where l: "ack_loop (th_ack th) (so_tx_nbq s) = (dn, rest)" by fastforce
  have a: "th_ack th = (so_tx_una s - word_of_nat k) + word_of_nat (k + x)" using x(1) by simp
  note sp = ack_loop_spec [OF x(3) T x(2) l [unfolded a]]
  let ?k = "k + x - tx_size dn"
  have eq: "so_tx_una s - word_of_nat k + word_of_nat (tx_size dn) = th_ack th - word_of_nat ?k"
    using sp x(1) by (simp add: of_nat_diff)
  have "tx_size rest < 2 ^ 31" using sp T by auto
  then have "tx_size rest < 2 ^ 31 \<and> una_in ?k rest \<and> chained (th_ack th - word_of_nat ?k) rest (so_tx_nxt s)"
    using sp unfolding eq by blast
  moreover have "so_tx_nbq (ack_new th s) = rest" "so_tx_nxt (ack_new th s) = so_tx_nxt s" "so_tx_una (ack_new th s) = th_ack th"
    using ack_new_tx [OF l] by (simp_all add: tx_view_def)
  moreover have "\<forall>nb \<in> set dn. \<not> SeqIsAfter (seg_end nb) h" if "ack_loop h q = (dn, rest)" for h q
    using that by (induction q arbitrary: dn) (auto split: if_splits prod.splits)
  ultimately show ?thesis using sp l by (auto simp: tx_ok_def)
qed

section \<open>Output\<close>

lemma out_send_tx: "tx_view (fst (out_send nb s)) = tx_view s"
  by (auto simp: out_send_def split: prod.split dest: ask_tx_view)

lemma out_queue_tx: "tx_view (out_queue nb s) = (so_tx_nbq s @ [nb], so_tx_nxt s, so_tx_una s)"
  by (simp add: out_queue_def Let_def tx_view_def)

lemma out_finish_tx:
  "tx_view (fst (out_finish n nb s)) =
     (so_tx_nbq s @ (if n \<noteq> 0 \<or> th_flags nb AND (TH_FIN OR TH_SYN) \<noteq> 0 then [nb] else []), so_tx_nxt s, so_tx_una s)"
proof -
  obtain ok s1 where a: "ask (out_queue nb s) = (ok, s1)" by fastforce
  have "tx_view s1 = (so_tx_nbq s @ [nb], so_tx_nxt s, so_tx_una s)" using ask_tx_view [OF a] out_queue_tx by simp
  moreover have "tx_view s = (so_tx_nbq s, so_tx_nxt s, so_tx_una s)" by (simp add: tx_view_def)
  ultimately show ?thesis by (simp add: out_finish_def a out_send_tx)
qed

text \<open>A segment is appended with the sequence number that is next, and the next number moves on by its length.\<close>

definition tx_adds :: "nat \<Rightarrow> tcp \<Rightarrow> tcp \<Rightarrow> bool" where
  "tx_adds m s s' \<longleftrightarrow> tx_view s' = tx_view s \<or>
     (\<exists>nb. th_seq nb = so_tx_nxt s \<and> 0 < seg_len nb \<and> seg_len nb \<le> m
        \<and> tx_view s' = (so_tx_nbq s @ [nb], so_tx_nxt s + word_of_nat (seg_len nb), so_tx_una s))"

lemma tx_adds_ok:
  assumes "tx_ok s" "tx_adds m s s'" "tx_size (so_tx_nbq s) + m < 2 ^ 31"
  shows "tx_ok s'"
proof -
  have "tx_ok s'" if nb: "th_seq nb = so_tx_nxt s" "0 < seg_len nb" "seg_len nb \<le> m"
    "tx_view s' = (so_tx_nbq s @ [nb], so_tx_nxt s + word_of_nat (seg_len nb), so_tx_una s)" for nb
  proof -
    obtain k where k: "una_in k (so_tx_nbq s)" "chained (so_tx_una s - word_of_nat k) (so_tx_nbq s) (so_tx_nxt s)"
      using assms(1) by (auto simp: tx_ok_def)
    have "una_in k (so_tx_nbq s @ [nb])" using k(1) nb(2) by (cases "so_tx_nbq s") auto
    then show ?thesis using nb k assms(3) by (auto simp: tx_ok_def tx_view_def chained_append intro!: exI [of _ k])
  qed
  then show ?thesis using assms(1,2) tx_ok_view [of s' s] unfolding tx_adds_def by blast
qed

lemma out_segment_len:
  "fl = 0 \<or> fl = TH_ACK \<Longrightarrow> seg_len (out_segment (fl OR TH_SYN) sq a opt [] s) = 1"
  "fl = 0 \<or> fl = TH_ACK \<Longrightarrow> seg_len (out_segment (fl OR TH_FIN) sq a opt [] s) = 1"
  "fl = 0 \<or> fl = TH_ACK \<Longrightarrow> seg_len (out_segment (fl OR TH_PUSH) sq a opt d s) = length d"
  by (auto simp: seg_len_def out_segment_def TH_SYN_def TH_FIN_def TH_ACK_def TH_PUSH_def)

lemma out_header_flags: "out_header n s = (fl, a, s') \<Longrightarrow> (fl = 0 \<or> fl = TH_ACK) \<and> tx_view s' = tx_view s"
  by (auto simp: out_header_def split: if_splits)

lemma out_finish_adds:
  assumes "tx_view s1 = tx_view s" "th_seq nb = so_tx_nxt s" "0 < seg_len nb" "seg_len nb \<le> m"
    and "n \<noteq> 0 \<or> th_flags nb AND (TH_FIN OR TH_SYN) \<noteq> 0"
  shows "tx_adds m s (fst (out_finish n nb (s1\<lparr>so_tx_nxt := so_tx_nxt s + word_of_nat (seg_len nb)\<rparr>)))"
proof -
  have "so_tx_nbq s1 = so_tx_nbq s" "so_tx_una s1 = so_tx_una s" using assms(1) by (simp_all add: tx_view_def)
  then show ?thesis using assms(2-5) by (auto simp: tx_adds_def out_finish_tx)
qed

lemma output_adds: "tx_adds (length data + 1) s (fst (NutTcpOutput data s))"
proof -
  obtain ok s0 where a: "ask s = (ok, s0)" by fastforce
  let ?s1 = "clear_flags SO_FORCE s0"
  obtain fl ack s2 where h: "out_header (length data) ?s1 = (fl, ack, s2)" by (metis prod_cases3)
  obtain ok3 s3 where a3: "ask s2 = (ok3, s3)" by fastforce
  have v: "tx_view s0 = tx_view s" "tx_view s2 = tx_view s" "tx_view s3 = tx_view s"
    "tx_view (clear_flags SO_SYN s2) = tx_view s" "tx_view (clear_flags SO_FIN s2) = tx_view s"
    using ask_tx_view [OF a] ask_tx_view [OF a3] out_header_flags [OF h] by simp_all
  have fl: "fl = 0 \<or> fl = TH_ACK" using out_header_flags [OF h] by simp
  have nx: "so_tx_nxt ?s1 = so_tx_nxt s" using v(1) by (simp add: tx_view_def clear_flags_def)
  note len = out_segment_len [OF fl]
  have sq: "th_seq (out_segment f (so_tx_nxt s) c opt d t) = so_tx_nxt s" "th_flags (out_segment f (so_tx_nxt s) c opt d t) = f" for f c opt d t
    by (simp_all add: out_segment_def)
  let ?n = "length data" and ?m = "length data + 1"
  have fin: "(fl OR TH_SYN) AND (TH_FIN OR TH_SYN) \<noteq> 0" "(fl OR TH_FIN) AND (TH_FIN OR TH_SYN) \<noteq> 0"
    "fl AND (TH_FIN OR TH_SYN) = 0" using fl by (auto simp: TH_SYN_def TH_FIN_def TH_ACK_def)
  have syn: "tx_adds ?m s (fst (out_finish ?n (out_segment (fl OR TH_SYN) (so_tx_nxt s) c opt [] t) ((clear_flags SO_SYN s2)\<lparr>so_tx_nxt := so_tx_nxt s + 1\<rparr>)))" for c opt t
    using out_finish_adds [OF v(4), of "out_segment (fl OR TH_SYN) (so_tx_nxt s) c opt [] t" ?m ?n] fin(1) by (simp add: sq len)
  have fin': "tx_adds ?m s (fst (out_finish ?n (out_segment (fl OR TH_FIN) (so_tx_nxt s) c opt [] t) ((clear_flags SO_FIN s2)\<lparr>so_tx_nxt := so_tx_nxt s + 1\<rparr>)))" for c opt t
    using out_finish_adds [OF v(5), of "out_segment (fl OR TH_FIN) (so_tx_nxt s) c opt [] t" ?m ?n] fin(2) by (simp add: sq len)
  have dat: "tx_adds ?m s (fst (out_finish ?n (out_segment (fl OR TH_PUSH) (so_tx_nxt s) c opt data t) (s3\<lparr>so_tx_nxt := so_tx_nxt s + word_of_nat ?n\<rparr>)))"
    if "?n \<noteq> 0" for c opt t
    using out_finish_adds [OF v(3), of "out_segment (fl OR TH_PUSH) (so_tx_nxt s) c opt data t" ?m ?n] that by (simp add: sq len)
  have ack: "tx_view (fst (out_finish 0 (out_segment fl (so_tx_nxt s) c opt [] t) s2)) = tx_view s" for c opt t
    using fin(3) v(2) by (simp add: out_finish_tx sq) (simp add: tx_view_def)
  have same: "tx_view s' = tx_view s \<Longrightarrow> tx_adds ?m s s'" for s' by (simp add: tx_adds_def)
  show ?thesis
    using syn fin' dat ack v same by (auto simp: NutTcpOutput_def Let_def a h a3 nx split: if_splits)
qed

section \<open>Property\<close>

lemma duplicate_una: "so_tx_una (fst (ack_duplicate th s)) = so_tx_una s"
proof -
  have "so_tx_una (fst (NutTcpStateRetranTimeout t)) = so_tx_una t" for t
    by (simp add: NutTcpStateRetranTimeout_def NutTcpAbortSocket_def NutTcpDiscardBuffers_def act_def ask_def Let_def split: list.split)
  then show ?thesis by (simp add: ack_duplicate_def Let_def split_beta)
qed

text \<open>The ways an acknowledgement goes: nothing of the queue changes, it is a duplicate, or it acknowledges something new.\<close>

lemma tcp_ack_tx_cases:
  obtains (same) "tx_view (tcp_ack th s) = tx_view s"
    | (dup) "th_ack th = so_tx_una s" "so_tx_una (tcp_ack th s) = so_tx_una s" "aborted s (tcp_ack th s)"
    | (new) s1 where "tx_view s1 = tx_view s" "tcp_ack th s = ack_new th s1" "\<not> SeqIsAfter (th_ack th) (so_tx_nxt s)"
        "\<not> SeqIsAfter (so_tx_una s) (th_ack th)"
proof -
  let ?s1 = "ack_window th s"
  have v: "so_tx_una ?s1 = so_tx_una s" using ack_window_tx [of th s] by (simp add: tx_view_def)
  consider "SeqIsAfter (th_ack th) (so_tx_nxt s)" | "\<not> SeqIsAfter (th_ack th) (so_tx_nxt s)" "SeqIsAfter (so_tx_una s) (th_ack th)"
    | "\<not> SeqIsAfter (th_ack th) (so_tx_nxt s)" "\<not> SeqIsAfter (so_tx_una s) (th_ack th)" "th_ack th = so_tx_una s"
    | "\<not> SeqIsAfter (th_ack th) (so_tx_nxt s)" "\<not> SeqIsAfter (so_tx_una s) (th_ack th)" "th_ack th \<noteq> so_tx_una s" by blast
  then show thesis
  proof cases
    case 1
    then show ?thesis by (intro same) (simp add: tcp_ack_def NutTcpProcessAck_def)
  next
    case 2
    then show ?thesis by (intro same) (simp add: tcp_ack_def NutTcpProcessAck_def Let_def v)
  next
    case 3
    then have "tcp_ack th s = fst (ack_duplicate th ?s1)" by (simp add: tcp_ack_def NutTcpProcessAck_def Let_def v)
    then show ?thesis using ack_duplicate_tx [of th ?s1] duplicate_una [of th ?s1] v 3(3) aborted_view [OF ack_window_view] same dup
      by (metis ack_window_tx)
  next
    case 4
    then show ?thesis by (intro new [of ?s1]) (simp_all add: tcp_ack_def NutTcpProcessAck_def Let_def v)
  qed
qed

text \<open>C21: the retransmission queue of a socket covers exactly the sequence numbers that are sent and not
  acknowledged. Sending a segment keeps this, whether or not memory is available and the IP layer takes
  the segment. An acknowledgement keeps it unless the connection is aborted, which only a duplicate one
  can cause; what it removes from the queue is acknowledged completely, and the first unacknowledged
  number only moves to one that the peer has acknowledged and that has been sent.\<close>

theorem tcp_unacked_kept:
  assumes "tx_ok s"
  shows "(tx_size (so_tx_nbq s) + length data + 1 < 2 ^ 31 \<longrightarrow> tx_ok (fst (NutTcpOutput data s)))
    \<and> (tx_ok (tcp_ack th s) \<or> th_ack th = so_tx_una s \<and> aborted s (tcp_ack th s))
    \<and> (so_tx_una (tcp_ack th s) \<noteq> so_tx_una s \<longrightarrow>
         so_tx_una (tcp_ack th s) = th_ack th
         \<and> (\<exists>x k. th_ack th = so_tx_una s + word_of_nat x \<and> so_tx_nxt s = th_ack th + word_of_nat k \<and> x + k < 2 ^ 31)
         \<and> (\<exists>dn. so_tx_nbq s = dn @ so_tx_nbq (tcp_ack th s) \<and> (\<forall>nb \<in> set dn. \<not> SeqIsAfter (seg_end nb) (th_ack th))))"
proof -
  have out: "tx_size (so_tx_nbq s) + length data + 1 < 2 ^ 31 \<longrightarrow> tx_ok (fst (NutTcpOutput data s))"
    using tx_adds_ok [OF assms output_adds] by (simp add: add.assoc)
  show ?thesis
  proof (cases rule: tcp_ack_tx_cases [of th s])
    case same
    then show ?thesis using out assms tx_ok_view [OF same] by (simp add: tx_view_def)
  next
    case dup
    then show ?thesis using out by simp
  next
    case (new s1)
    have s1: "so_tx_una s1 = so_tx_una s" "so_tx_nxt s1 = so_tx_nxt s" "so_tx_nbq s1 = so_tx_nbq s" using new(1) by (simp_all add: tx_view_def)
    have "tx_ok s1" using assms tx_ok_view [OF new(1)] by simp
    then have n: "tx_ok (tcp_ack th s) \<and> so_tx_una (tcp_ack th s) = th_ack th \<and> (\<exists>dn. so_tx_nbq s = dn @ so_tx_nbq (tcp_ack th s)
      \<and> (\<forall>nb \<in> set dn. \<not> SeqIsAfter (seg_end nb) (th_ack th)))"
      using ack_new_ok [of s1 th] new s1 by simp
    obtain x k where x: "th_ack th = so_tx_una s + word_of_nat x" "k + x \<le> tx_size (so_tx_nbq s)"
      "chained (so_tx_una s - word_of_nat k) (so_tx_nbq s) (so_tx_nxt s)" using tx_window [OF assms new(3,4)] by blast
    let ?r = "tx_size (so_tx_nbq s) - (k + x)"
    have "so_tx_nxt s = th_ack th + word_of_nat ?r" using chained_size [OF x(3)] x(1,2) by (simp add: of_nat_diff)
    moreover have "x + ?r < 2 ^ 31" using assms x(2) by (auto simp: tx_ok_def)
    ultimately show ?thesis using out n x(1) by blast
  qed
qed

text \<open>A connecting socket whose SYN is acknowledged.\<close>

theorem tcp_unacked_kept_witness:
  "tx_ok (tcp_state TCPS_SYN_SENT tcp_start) \<and>
     (tx_ok (fst (NutTcpOutput [1, 2, 3] (tcp_state TCPS_SYN_SENT tcp_start))))"
proof -
  let ?s = "tcp_state TCPS_SYN_SENT tcp_start"
  have q: "map seg_len (so_tx_nbq ?s) = [1] \<and> so_tx_una ?s = 0 \<and> so_tx_nxt ?s = 1 \<and> map th_seq (so_tx_nbq ?s) = [0]" by code_simp
  then obtain nb where "so_tx_nbq ?s = [nb]" "seg_len nb = 1" "th_seq nb = 0" by auto
  then have "tx_ok ?s" using q by (auto simp: tx_ok_def intro!: exI [of _ 0])
  moreover from tcp_unacked_kept [OF this, of "[1, 2, 3]"] have "tx_ok (fst (NutTcpOutput [1, 2, 3] ?s))" using q by simp
  ultimately show ?thesis by simp
qed

end
