(* ===== verification/Nut_Tcp_Write.thy ===== *)
theory Nut_Tcp_Write
  imports Nut_Tcp_Send
begin

text \<open>
  Writing to a connected TCP socket (\<^verbatim>\<open>net/tcpsock.c\<close>): \<^verbatim>\<open>NutTcpSend\<close>, which puts one segment on its way, and the
  buffered device interface on top of it. \<open>wait\<close> is what happens while the caller is blocked: whether the
  timeout elapses, and the socket afterwards. \<open>so_devobuf\<close> are the bytes of the output buffer in use. The action
  \<open>Accepted\<close> logs the data that a successful call has put on the retransmission queue; it is not part of the code.
\<close>

unbundle bit_operations_syntax

section \<open>Operations\<close>

type_synonym waiter = "tcp \<Rightarrow> bool \<times> tcp"

definition unacked :: "tcp \<Rightarrow> u16" where
  "unacked s = ucast (so_tx_nxt s - so_tx_una s)"

definition send_room :: "int \<Rightarrow> tcp \<Rightarrow> bool" where
  "send_room len s \<longleftrightarrow> drop_bit 2 (unacked s) < so_mss s \<and> len \<le> uint (so_tx_win s) - uint (unacked s)"

text \<open>The loop before sending; \<open>None\<close> in the result if the segment can be sent.\<close>

partial_function (option) send_wait :: "waiter \<Rightarrow> int \<Rightarrow> tcp \<Rightarrow> (int option \<times> tcp) option" where
  "send_wait wait len s =
     (if so_state s \<noteq> TCPS_ESTABLISHED then Some (Some (-1), s\<lparr>so_last_error := ENOTCONN\<rparr>)
      else if send_room len s then Some (None, s)
      else if fst (wait s) then Some (Some 0, snd (wait s))
      else send_wait wait len (snd (wait s)))"

text \<open>The payload that the retransmission queue of the second state has in addition.\<close>

definition queued :: "tcp \<Rightarrow> tcp \<Rightarrow> u8 list" where
  "queued s s' = concat (map nb_ap (drop (length (so_tx_nbq s)) (so_tx_nbq s')))"

definition NutTcpSend :: "waiter \<Rightarrow> u8 list \<Rightarrow> tcp \<Rightarrow> (int \<times> tcp) option" where
  "NutTcpSend wait data s =
     (if data = [] then Some (0, s)
      else let d = take (unat (so_mss s)) data in
        case send_wait wait (int (length d)) s of
          None \<Rightarrow> None
        | Some (Some rc, s1) \<Rightarrow> Some (rc, s1)
        | Some (None, s1) \<Rightarrow>
            (case NutTcpOutput d (set_flags SO_ACK s1) of
               (s2, rc) \<Rightarrow> Some (if rc \<noteq> 0 then (-1, s2) else (int (length d), act [Accepted (queued s1 s2)] s2))))"

partial_function (option) SendBuffer :: "waiter \<Rightarrow> u8 list \<Rightarrow> int \<Rightarrow> tcp \<Rightarrow> (int \<times> tcp) option" where
  "SendBuffer wait buf rc s =
     (if buf = [] then Some (rc, s)
      else case NutTcpSend wait buf s of
        None \<Rightarrow> None
      | Some (bite, s1) \<Rightarrow> if bite \<le> 0 then Some (-1, s1) else SendBuffer wait (drop (nat bite) buf) (rc + bite) s1)"

definition dev_free :: "tcp \<Rightarrow> tcp" where
  "dev_free s = s\<lparr>so_devobuf := [], so_devocnt := 0\<rparr>"

definition device_flush :: "waiter \<Rightarrow> tcp \<Rightarrow> (int \<times> tcp) option" where
  "device_flush wait s =
     (if so_devocnt s \<noteq> 0 then
        (case SendBuffer wait (so_devobuf s) 0 s of
           None \<Rightarrow> None
         | Some (rc, s1) \<Rightarrow> Some (if rc < 0 then -1 else 0, dev_free s1))
      else Some (0, s))"

text \<open>
  The whole blocks of new data are sent directly. The result is the number of bytes left, or an error;
  \<open>None\<close> includes the division by a buffer size of zero.
\<close>

definition send_blocks :: "waiter \<Rightarrow> u8 list \<Rightarrow> tcp \<Rightarrow> (nat option \<times> tcp) option" where
  "send_blocks wait buf s =
     (let bsz = unat (so_devobsz s) in
      if length buf \<ge> bsz then
        (if bsz = 0 then None
         else case SendBuffer wait (take (length buf - length buf mod bsz) buf) 0 s of
           None \<Rightarrow> None
         | Some (r, s1) \<Rightarrow> Some (if r < 0 then None else Some (length buf mod bsz), s1))
      else Some (Some (length buf), s))"

definition device_first :: "waiter \<Rightarrow> u8 list \<Rightarrow> tcp \<Rightarrow> (int \<times> tcp) option" where
  "device_first wait buf s =
     (case send_blocks wait buf s of
        None \<Rightarrow> None
      | Some (None, s1) \<Rightarrow> Some (-1, s1)
      | Some (Some rc, s1) \<Rightarrow>
          if rc \<noteq> 0 then
            (case ask s1 of (ok, s2) \<Rightarrow>
               Some (if ok then (int (length buf), s2\<lparr>so_devobuf := drop (length buf - rc) buf, so_devocnt := word_of_nat rc\<rparr>)
                     else (-1, s2)))
          else Some (int (length buf), s1))"

definition device_more :: "waiter \<Rightarrow> u8 list \<Rightarrow> tcp \<Rightarrow> (int \<times> tcp) option" where
  "device_more wait buf s =
     (let sz = unat (so_devobsz s) - unat (so_devocnt s);
          s1 = s\<lparr>so_devobuf := so_devobuf s @ take sz buf\<rparr>
      in if so_devocnt s > so_devobsz s then None
         else case SendBuffer wait (so_devobuf s1) 0 s1 of
           None \<Rightarrow> None
         | Some (r, s2) \<Rightarrow>
             if r < 0 then Some (-1, dev_free s2)
             else case send_blocks wait (drop sz buf) s2 of
               None \<Rightarrow> None
             | Some (None, s3) \<Rightarrow> Some (-1, dev_free s3)
             | Some (Some rc, s3) \<Rightarrow>
                 Some (int (length buf),
                   s3\<lparr>so_devobuf := (if rc \<noteq> 0 then drop (length buf - rc) buf else []), so_devocnt := word_of_nat rc\<rparr>))"

definition NutTcpDeviceWrite :: "waiter \<Rightarrow> u8 list \<Rightarrow> tcp \<Rightarrow> (int \<times> tcp) option" where
  "NutTcpDeviceWrite wait buf s =
     (if so_state s \<noteq> TCPS_ESTABLISHED then Some (-1, s\<lparr>so_last_error := ENOTCONN\<rparr>)
      else if buf = [] then device_flush wait s
      else if so_devocnt s = 0 then device_first wait buf s
      else if unat (so_devocnt s) + length buf < unat (so_devobsz s)
      then Some (int (length buf), s\<lparr>so_devobuf := so_devobuf s @ buf, so_devocnt := so_devocnt s + word_of_nat (length buf)\<rparr>)
      else device_more wait buf s)"

definition NutTcpCloseSocket :: "waiter \<Rightarrow> tcp \<Rightarrow> (int \<times> tcp) option" where
  "NutTcpCloseSocket wait s =
     (case NutTcpDeviceWrite wait [] s of
        None \<Rightarrow> None
      | Some (_, s1) \<Rightarrow> (case NutTcpStateCloseEvent s1 of (s2, rc) \<Rightarrow> Some (rc, s2)))"

text \<open>Socket options. The value is given as its bytes; \<open>[]\<close> is no value.\<close>

datatype tcp_sockopt = TCP_MAXSEG | SO_RCVBUF | SO_SNDTIMEO | SO_RCVTIMEO | SO_SNDBUF | Other_option

definition opt16 :: "u8 list \<Rightarrow> u16" where
  "opt16 v = ucast (le16 (v ! 0) (v ! 1))"

definition opt32 :: "u8 list \<Rightarrow> u32" where
  "opt32 v = le32 (v ! 0) (v ! 1) (v ! 2) (v ! 3)"

definition opt_error :: "tcp_error \<Rightarrow> tcp \<Rightarrow> (int \<times> tcp) option" where
  "opt_error e s = Some (-1, s\<lparr>so_last_error := e\<rparr>)"

fun NutTcpSetSockOpt :: "waiter \<Rightarrow> tcp_sockopt \<Rightarrow> u8 list \<Rightarrow> tcp \<Rightarrow> (int \<times> tcp) option" where
  "NutTcpSetSockOpt wait TCP_MAXSEG v s =
     (if length v \<noteq> 2 then opt_error EINVAL s
      else if so_state s \<noteq> TCPS_CLOSED then opt_error EISCONN s
      else Some (0, s\<lparr>so_mss := opt16 v\<rparr>))"
| "NutTcpSetSockOpt wait SO_RCVBUF v s =
     (if length v \<noteq> 2 then opt_error EINVAL s else Some (0, s\<lparr>so_rx_bsz := uint (opt16 v), so_rx_win := opt16 v\<rparr>))"
| "NutTcpSetSockOpt wait SO_SNDTIMEO v s = (if length v \<noteq> 4 then opt_error EINVAL s else Some (0, s\<lparr>so_write_to := opt32 v\<rparr>))"
| "NutTcpSetSockOpt wait SO_RCVTIMEO v s = (if length v \<noteq> 4 then opt_error EINVAL s else Some (0, s\<lparr>so_read_to := opt32 v\<rparr>))"
| "NutTcpSetSockOpt wait SO_SNDBUF v s =
     (if length v \<noteq> 2 then opt_error EINVAL s
      else map_option (\<lambda>(_, s1). (0, s1\<lparr>so_devobsz := opt16 v\<rparr>)) (NutTcpDeviceWrite wait [] s))"
| "NutTcpSetSockOpt wait Other_option v s = opt_error ENOPROTOOPT s"

definition put16 :: "u16 \<Rightarrow> u8 list" where
  "put16 w = [ucast w, ucast (drop_bit 8 w)]"

definition put32 :: "u32 \<Rightarrow> u8 list" where
  "put32 w = [ucast w, ucast (drop_bit 8 w), ucast (drop_bit 16 w), ucast (drop_bit 24 w)]"

definition get_option :: "u8 list \<Rightarrow> nat \<Rightarrow> tcp \<Rightarrow> u8 list option \<times> tcp" where
  "get_option v optlen s = (if optlen \<noteq> length v then (None, s\<lparr>so_last_error := EINVAL\<rparr>) else (Some v, s))"

fun NutTcpGetSockOpt :: "tcp_sockopt \<Rightarrow> nat \<Rightarrow> tcp \<Rightarrow> u8 list option \<times> tcp" where
  "NutTcpGetSockOpt TCP_MAXSEG optlen s = get_option (put16 (so_mss s)) optlen s"
| "NutTcpGetSockOpt SO_RCVBUF optlen s = get_option (put16 (word_of_int (so_rx_bsz s))) optlen s"
| "NutTcpGetSockOpt SO_SNDTIMEO optlen s = get_option (put32 (so_write_to s)) optlen s"
| "NutTcpGetSockOpt SO_RCVTIMEO optlen s = get_option (put32 (so_read_to s)) optlen s"
| "NutTcpGetSockOpt SO_SNDBUF optlen s = get_option (put16 (so_devobsz s)) optlen s"
| "NutTcpGetSockOpt Other_option optlen s = (None, s\<lparr>so_last_error := ENOPROTOOPT\<rparr>)"

datatype tcp_ioctl = IOCTL_GETFILESIZE | IOCTL_GETINBUFCOUNT | IOCTL_GETOUTBUFCOUNT | Other_ioctl

fun NutTcpDeviceIOCtl :: "tcp_ioctl \<Rightarrow> tcp \<Rightarrow> u32 option" where
  "NutTcpDeviceIOCtl IOCTL_GETFILESIZE s = Some (word_of_int (so_rx_cnt s - so_rd_cnt s))"
| "NutTcpDeviceIOCtl IOCTL_GETINBUFCOUNT s = Some (word_of_int (so_rx_cnt s - so_rd_cnt s))"
| "NutTcpDeviceIOCtl IOCTL_GETOUTBUFCOUNT s = Some (ucast (so_devocnt s))"
| "NutTcpDeviceIOCtl Other_ioctl s = None"

section \<open>What waiting and sending leave alone\<close>

fun accepted_by :: "tcp_action \<Rightarrow> u8 list" where
  "accepted_by (Accepted d) = d"
| "accepted_by _ = []"

definition accepted :: "tcp \<Rightarrow> u8 list" where
  "accepted s = concat (map accepted_by (actions s))"

definition dev_view :: "tcp \<Rightarrow> _" where
  "dev_view s = (so_devocnt s, so_devobuf s, so_devobsz s, so_mss s, accepted s)"

lemma dev_viewD:
  assumes "dev_view s' = dev_view s"
  shows "so_devocnt s' = so_devocnt s" "so_devobuf s' = so_devobuf s" "so_devobsz s' = so_devobsz s" "so_mss s' = so_mss s"
    "accepted s' = accepted s"
  using assms by (simp_all add: dev_view_def)

lemma dev_view_simps [simp]:
  "dev_view (snd (ask s)) = dev_view s" "dev_view (set_flags m s) = dev_view s"
  "dev_view (clear_flags m s) = dev_view s" "dev_view (s\<lparr>so_tx_nxt := v\<rparr>) = dev_view s" "dev_view (s\<lparr>so_last_error := e\<rparr>) = dev_view s"
  "dev_view (s\<lparr>so_retran_time := t\<rparr>) = dev_view s" "dev_view (s\<lparr>so_tx_nbq := q\<rparr>) = dev_view s" "dev_view (s\<lparr>so_rtt_seq := v\<rparr>) = dev_view s"
  "dev_view (act [TxSegment a nb] s) = dev_view s"
  by (simp_all add: dev_view_def accepted_def act_def ask_def set_flags_def clear_flags_def)

lemma ask_dev: "ask s = (b, s') \<Longrightarrow> dev_view s' = dev_view s"
  using dev_view_simps(1) [of s] by simp

lemma out_send_dev: "dev_view (fst (out_send nb s)) = dev_view s"
  by (auto simp: out_send_def split: prod.split dest: ask_dev)

lemma out_queue_dev: "dev_view (out_queue nb s) = dev_view s"
  by (simp add: out_queue_def Let_def)

lemma out_finish_dev: "dev_view (fst (out_finish n nb s)) = dev_view s"
  by (auto simp: out_finish_def out_send_dev out_queue_dev split: prod.split dest!: ask_dev)

lemma out_header_dev: "out_header n s = (fl, a, s') \<Longrightarrow> dev_view s' = dev_view s"
  by (auto simp: out_header_def split: if_splits)

lemma output_dev: "dev_view (fst (NutTcpOutput data s)) = dev_view s"
  by (auto simp: NutTcpOutput_def Let_def out_finish_dev split: prod.split dest!: ask_dev out_header_dev)

text \<open>
  Without a pending SYN, what \<^verbatim>\<open>NutTcpOutput\<close> is given is appended to the retransmission queue.
\<close>

definition syn_free :: "tcp \<Rightarrow> bool" where
  "syn_free s \<longleftrightarrow> so_tx_flags s AND SO_SYN = 0"

lemma and_less_zero: "(f :: u8) AND m = 0 \<Longrightarrow> (f AND k) AND m = 0"
  by (metis and.assoc and.commute bit.conj_zero_right)

lemma syn_free_simps [simp]:
  "syn_free (snd (ask s)) = syn_free s" "syn_free (s\<lparr>so_tx_nxt := v\<rparr>) = syn_free s" "syn_free (s\<lparr>so_last_error := e\<rparr>) = syn_free s"
  "syn_free (s\<lparr>so_retran_time := t\<rparr>) = syn_free s" "syn_free (s\<lparr>so_tx_nbq := q\<rparr>) = syn_free s"
  "syn_free (s\<lparr>so_rtt_seq := v\<rparr>) = syn_free s" "syn_free (act xs s) = syn_free s" "syn_free (s\<lparr>asked := k\<rparr>) = syn_free s" "syn_free (set_flags SO_ACK s) = syn_free s"
  by (simp_all add: syn_free_def act_def ask_def set_flags_def bit.conj_disj_distrib2 SO_ACK_def SO_SYN_def)

lemma syn_free_clear [simp]: "syn_free s \<Longrightarrow> syn_free (clear_flags m s)"
  by (simp add: syn_free_def clear_flags_def and_less_zero)

lemma ask_syn: "ask s = (b, s') \<Longrightarrow> syn_free s' = syn_free s \<and> so_tx_nbq s' = so_tx_nbq s"
  by (auto simp: ask_def syn_free_def)

lemma out_send_syn: "syn_free (fst (out_send nb s)) = syn_free s \<and> so_tx_nbq (fst (out_send nb s)) = so_tx_nbq s"
  by (simp add: out_send_def ask_def) (simp add: act_def)

lemma out_queue_syn: "syn_free (out_queue nb s) = syn_free s \<and> so_tx_nbq (out_queue nb s) = so_tx_nbq s @ [nb]"
  by (simp add: out_queue_def Let_def)

lemma out_finish_syn:
  "syn_free (fst (out_finish n nb s)) = syn_free s \<and>
   so_tx_nbq (fst (out_finish n nb s)) = so_tx_nbq s @ (if n \<noteq> 0 \<or> th_flags nb AND (TH_FIN OR TH_SYN) \<noteq> 0 then [nb] else [])"
  by (simp add: out_finish_def ask_def out_send_syn out_queue_syn)

lemma out_header_syn: "out_header n s = (fl, a, s') \<Longrightarrow> (syn_free s \<longrightarrow> syn_free s') \<and> so_tx_nbq s' = so_tx_nbq s"
  by (auto simp: out_header_def clear_flags_def syn_free_def and_less_zero split: if_splits)

lemma output_syn: "syn_free s \<Longrightarrow> syn_free (fst (NutTcpOutput data s))"
  by (auto simp: NutTcpOutput_def Let_def out_finish_syn split: prod.split dest!: ask_syn out_header_syn)

lemma finish_queued:
  "out_finish (length data) nb t = (s', rc) \<Longrightarrow> so_tx_nbq t = so_tx_nbq s \<Longrightarrow> nb_ap nb = data \<Longrightarrow> queued s s' = data"
  using out_finish_syn [of "length data" nb t] by (auto simp: queued_def split: if_splits)

lemma finish_queued_none:
  "out_finish 0 nb t = (s', rc) \<Longrightarrow> so_tx_nbq t = so_tx_nbq s \<Longrightarrow> nb_ap nb = [] \<Longrightarrow> queued s s' = []"
  using finish_queued [of "[]"] by simp

lemma out_segment_ap [simp]: "nb_ap (out_segment fl sq a opt d s) = d"
  by (simp add: out_segment_def)

lemma output_queued:
  assumes "syn_free s" "NutTcpOutput data s = (s', 0)"
  shows "queued s s' = data"
proof -
  obtain ok s0 where a: "ask s = (ok, s0)" by fastforce
  obtain fl ack s2 where h: "out_header (length data) (clear_flags SO_FORCE s0) = (fl, ack, s2)" by (metis prod_cases3)
  obtain ok3 s3 where a3: "ask s2 = (ok3, s3)" by fastforce
  have q: "syn_free s2" "so_tx_nbq s2 = so_tx_nbq s" "so_tx_nbq s3 = so_tx_nbq s"
    using ask_syn [OF a] out_header_syn [OF h] ask_syn [OF a3] assms(1) by (auto simp: clear_flags_def syn_free_def and_less_zero)
  have no_syn: "so_tx_flags s2 AND SO_SYN = 0" using q(1) by (simp add: syn_free_def)
  have nbq: "so_tx_nbq (s3\<lparr>so_tx_nxt := v\<rparr>) = so_tx_nbq s" "so_tx_nbq ((clear_flags SO_FIN s2)\<lparr>so_tx_nxt := v\<rparr>) = so_tx_nbq s" for v
    using q by (simp_all add: clear_flags_def)
  have same: "queued s s = []" by (simp add: queued_def)
  show ?thesis
    using assms(2) no_syn same q(2) nbq
    by (auto simp: NutTcpOutput_def Let_def a h a3 split: if_splits elim!: finish_queued finish_queued_none)
qed

text \<open>
  While the caller is blocked, nobody else writes to the socket, the segment size stays and no SYN becomes pending, and it is not blocked for ever:
  after a number of wake-ups there is room for a segment, the connection is gone or the timeout has elapsed.
\<close>

primrec wait_over :: "waiter \<Rightarrow> nat \<Rightarrow> tcp \<Rightarrow> bool" where
  "wait_over wait 0 s \<longleftrightarrow> fst (wait s) \<or> so_state s \<noteq> TCPS_ESTABLISHED \<or> send_room (uint (so_mss s)) s"
| "wait_over wait (Suc n) s \<longleftrightarrow> wait_over wait n (snd (wait s))"

definition wait_ok :: "waiter \<Rightarrow> bool" where
  "wait_ok wait \<longleftrightarrow> (\<forall>s. dev_view (snd (wait s)) = dev_view s \<and> (syn_free s \<longrightarrow> syn_free (snd (wait s))) \<and>
     (\<exists>n. wait_over wait n s))"

lemma send_room_mono: "send_room (uint (so_mss s)) s \<Longrightarrow> len \<le> uint (so_mss s) \<Longrightarrow> send_room len s"
  by (simp add: send_room_def)

definition waited :: "tcp \<Rightarrow> tcp \<Rightarrow> bool" where
  "waited s s' \<longleftrightarrow> dev_view s' = dev_view s \<and> (syn_free s \<longrightarrow> syn_free s')"

lemma waited_trans: "waited s t \<Longrightarrow> waited t u \<Longrightarrow> waited s u"
  by (simp add: waited_def)

lemma send_wait_over:
  assumes "\<And>s. waited s (snd (wait s))" "wait_over wait n s" "len \<le> uint (so_mss s)"
  shows "\<exists>r s'. send_wait wait len s = Some (r, s') \<and> waited s s' \<and> (\<forall>n. r = Some n \<longrightarrow> n \<le> 0)"
  using assms(2,3)
proof (induction n arbitrary: s)
  case 0
  then show ?case using assms(1) send_room_mono [of s len] by (auto simp: send_wait.simps [of wait len s] waited_def)
next
  case (Suc n)
  have w: "waited s (snd (wait s))" by (rule assms(1))
  have "dev_view (snd (wait s)) = dev_view s" using w by (simp add: waited_def)
  then have "so_mss (snd (wait s)) = so_mss s" by (rule dev_viewD(4))
  with Suc.IH [of "snd (wait s)"] Suc.prems have ih: "\<exists>r s'. send_wait wait len (snd (wait s)) = Some (r, s') \<and> waited (snd (wait s)) s' \<and> (\<forall>n. r = Some n \<longrightarrow> n \<le> 0)"
    by simp
  have self: "waited s s" "waited s (s\<lparr>so_last_error := ENOTCONN\<rparr>)" by (simp_all add: waited_def)
  show ?case
    by (subst send_wait.simps) (use ih w self waited_trans [OF w] in \<open>simp; blast\<close>)
qed

lemma send_wait_ok:
  assumes "wait_ok wait" "len \<le> uint (so_mss s)"
  shows "\<exists>r s'. send_wait wait len s = Some (r, s') \<and> waited s s' \<and> (\<forall>n. r = Some n \<longrightarrow> n \<le> 0)"
proof -
  from assms(1) obtain n where "wait_over wait n s" and "\<And>s. waited s (snd (wait s))" by (auto simp: wait_ok_def waited_def)
  then show ?thesis using send_wait_over assms(2) by blast
qed

lemma accepted_act [simp]: "accepted (act [Accepted d] s) = accepted s @ d"
  by (simp add: accepted_def act_def)

text \<open>What a call keeps: the output buffer, its size, the segment size and that no SYN is pending.\<close>

definition keeps :: "tcp \<Rightarrow> tcp \<Rightarrow> bool" where
  "keeps s s' \<longleftrightarrow> so_devocnt s' = so_devocnt s \<and> so_devobuf s' = so_devobuf s \<and> so_devobsz s' = so_devobsz s \<and> so_mss s' = so_mss s
     \<and> (syn_free s \<longrightarrow> syn_free s')"

lemma keeps_trans: "keeps s t \<Longrightarrow> keeps t u \<Longrightarrow> keeps s u"
  by (simp add: keeps_def)

lemma send_ok:
  assumes "wait_ok wait" "syn_free s"
  shows "\<exists>n s'. NutTcpSend wait data s = Some (n, s') \<and> keeps s s' \<and> n \<le> int (length data) \<and> accepted s' = accepted s @ take (nat n) data"
proof (cases "data = []")
  case True
  then show ?thesis by (auto simp: NutTcpSend_def keeps_def)
next
  case False
  let ?d = "take (unat (so_mss s)) data"
  have "int (length ?d) \<le> uint (so_mss s)" unfolding length_take uint_nat of_nat_le_iff by (rule min.cobounded2)
  from send_wait_ok [OF assms(1) this] obtain r s1 where
    r: "send_wait wait (int (length ?d)) s = Some (r, s1)" "dev_view s1 = dev_view s" "syn_free s1" "\<forall>n. r = Some n \<longrightarrow> n \<le> 0"
    using assms(2) unfolding waited_def by blast
  obtain s2 rc where o: "NutTcpOutput ?d (set_flags SO_ACK s1) = (s2, rc)" by fastforce
  have "dev_view s2 = dev_view s" using output_dev [of ?d "set_flags SO_ACK s1"] o r(2) by simp
  note v = dev_viewD [OF this] dev_viewD [OF r(2)]
  have syn: "syn_free s2" using output_syn [of "set_flags SO_ACK s1" ?d] r(3) o by simp
  have q: "rc = 0 \<Longrightarrow> queued s1 s2 = ?d" using output_queued [of "set_flags SO_ACK s1" ?d s2] r(3) o by (simp add: queued_def) (simp add: set_flags_def)
  have a: "keeps s s1" "keeps s s2" "keeps s (act [Accepted ?d] s2)" using v syn r(3) by (simp_all add: keeps_def) (simp_all add: act_def)
  show ?thesis
  proof (cases r)
    case None
    moreover have "take (length ?d) data = ?d" by (simp add: min_def)
    ultimately show ?thesis using False r(1) o a v q by (auto simp: NutTcpSend_def Let_def)
  next
    case (Some n)
    then show ?thesis using False r a v by (auto simp: NutTcpSend_def Let_def)
  qed
qed

lemma send_buffer_ok:
  assumes "wait_ok wait" "0 \<le> rc" "syn_free s"
  shows "\<exists>r s'. SendBuffer wait buf rc s = Some (r, s') \<and> keeps s s' \<and> (r = -1 \<or> 0 \<le> r \<and> accepted s' = accepted s @ buf)"
  using assms(2,3)
proof (induction "length buf" arbitrary: buf rc s rule: less_induct)
  case less
  show ?case
  proof (cases "buf = []")
    case True
    then show ?thesis using less.prems by (auto simp: SendBuffer.simps keeps_def)
  next
    case False
    obtain n s1 where n: "NutTcpSend wait buf s = Some (n, s1)" "keeps s s1" "n \<le> int (length buf)" "accepted s1 = accepted s @ take (nat n) buf"
      using send_ok [OF assms(1) less.prems(2)] by blast
    have syn: "syn_free s1" using n(2) less.prems(2) by (simp add: keeps_def)
    show ?thesis
    proof (cases "n \<le> 0")
      case True
      then show ?thesis using n False by (auto simp: SendBuffer.simps [of wait buf])
    next
      case pos: False
      have "length (drop (nat n) buf) < length buf" using pos False by (cases buf) auto
      from less.hyps [OF this _ syn, of "rc + n"] obtain r s' where
        "SendBuffer wait (drop (nat n) buf) (rc + n) s1 = Some (r, s')" "keeps s1 s'"
        "r = -1 \<or> 0 \<le> r \<and> accepted s' = accepted s1 @ drop (nat n) buf" using less.prems pos by auto
      then show ?thesis using n pos False keeps_trans [OF n(2)] by (auto simp: SendBuffer.simps [of wait buf])
    qed
  qed
qed

section \<open>The output buffer\<close>

definition dev_ok :: "tcp \<Rightarrow> bool" where
  "dev_ok s \<longleftrightarrow> length (so_devobuf s) = unat (so_devocnt s) \<and> so_devocnt s < so_devobsz s \<and> syn_free s"

lemma send_blocks_ok:
  assumes "wait_ok wait" "so_devobsz s \<noteq> 0" "syn_free s"
  shows "\<exists>r s'. send_blocks wait buf s = Some (r, s') \<and> keeps s s' \<and>
    (\<forall>k. r = Some k \<longrightarrow> k < unat (so_devobsz s) \<and> k \<le> length buf \<and> accepted s' = accepted s @ take (length buf - k) buf)"
proof -
  let ?b = "unat (so_devobsz s)"
  have b: "0 < ?b" using assms(2) by (simp add: unat_gt_0)
  obtain r s' where r: "SendBuffer wait (take (length buf - length buf mod ?b) buf) 0 s = Some (r, s')" "keeps s s'"
    "r = -1 \<or> 0 \<le> r \<and> accepted s' = accepted s @ take (length buf - length buf mod ?b) buf"
    using send_buffer_ok [OF assms(1) _ assms(3), of 0] by (metis order_refl)
  show ?thesis using r b by (auto simp: send_blocks_def Let_def keeps_def)
qed

text \<open>
  What a write of \<open>buf\<close> has done: the buffer is intact, and after success the data taken by the connection and
  the data in the buffer together have grown by \<open>buf\<close>.
\<close>

definition wrote :: "tcp \<Rightarrow> u8 list \<Rightarrow> int \<Rightarrow> tcp \<Rightarrow> bool" where
  "wrote s buf r s' \<longleftrightarrow> dev_ok s' \<and> so_devobsz s' = so_devobsz s \<and>
     (r = -1 \<or> r = int (length buf) \<and> accepted s' @ so_devobuf s' = accepted s @ so_devobuf s @ buf)"

lemma dev_free_simps [simp]:
  "so_devobuf (dev_free s) = []" "so_devocnt (dev_free s) = 0" "so_devobsz (dev_free s) = so_devobsz s" "accepted (dev_free s) = accepted s"
  by (simp_all add: dev_free_def accepted_def)

lemma dev_ok_pos: "dev_ok s \<Longrightarrow> so_devobsz s \<noteq> 0 \<and> syn_free s"
  by (auto simp: dev_ok_def)

lemma dev_ok_free: "so_devobsz s \<noteq> 0 \<Longrightarrow> syn_free s \<Longrightarrow> dev_ok (dev_free s)"
  by (simp add: dev_ok_def word_gt_0 syn_free_def) (simp add: dev_free_def)

lemma dev_ok_empty: "dev_ok s \<Longrightarrow> so_devocnt s = 0 \<Longrightarrow> so_devobuf s = []"
  by (simp add: dev_ok_def)

lemma unat_of_small: "k < unat (w :: u16) \<Longrightarrow> unat (word_of_nat k :: u16) = k"
proof -
  assume "k < unat w"
  also have "unat w < 2 ^ 16" using unsigned_less [of w] by simp
  finally show ?thesis by (simp add: unsigned_of_nat take_bit_nat_eq_self_iff)
qed

lemma flush_ok:
  assumes "wait_ok wait" "dev_ok s"
  shows "\<exists>r s'. device_flush wait s = Some (r, s') \<and> wrote s [] r s' \<and> so_devobuf s' = []"
proof (cases "so_devocnt s = 0")
  case True
  then show ?thesis using assms(2) dev_ok_empty by (auto simp: device_flush_def wrote_def)
next
  case False
  obtain r s' where "SendBuffer wait (so_devobuf s) 0 s = Some (r, s')" "keeps s s'" "r = -1 \<or> 0 \<le> r \<and> accepted s' = accepted s @ so_devobuf s"
    using send_buffer_ok [OF assms(1), of 0 s] dev_ok_pos [OF assms(2)] by blast
  then show ?thesis using False dev_ok_free [of s'] dev_ok_pos [OF assms(2)] by (auto simp: device_flush_def wrote_def keeps_def)
qed

lemma first_ok:
  assumes "wait_ok wait" "dev_ok s" "so_devocnt s = 0"
  shows "\<exists>r s'. device_first wait buf s = Some (r, s') \<and> wrote s buf r s'"
proof -
  obtain r s1 where r: "send_blocks wait buf s = Some (r, s1)" "keeps s s1"
    "\<forall>k. r = Some k \<longrightarrow> k < unat (so_devobsz s) \<and> k \<le> length buf \<and> accepted s1 = accepted s @ take (length buf - k) buf"
    using send_blocks_ok [OF assms(1), of s] dev_ok_pos [OF assms(2)] by blast
  obtain ok s2 where a: "ask s1 = (ok, s2)" by fastforce
  note v = dev_viewD [OF ask_dev [OF a]]
  have syn: "syn_free s1" "syn_free s2" using r(2) dev_ok_pos [OF assms(2)] ask_syn [OF a] by (simp_all add: keeps_def)
  have e: "so_devobuf s = []" by (rule dev_ok_empty [OF assms(2,3)])
  show ?thesis
  proof (cases r)
    case None
    then show ?thesis using r(1,2) assms(2) by (auto simp: device_first_def wrote_def keeps_def dev_ok_def)
  next
    case (Some k)
    then have k: "k < unat (so_devobsz s)" "k \<le> length buf" "accepted s1 = accepted s @ take (length buf - k) buf" using r(3) by auto
    then show ?thesis using r(1,2) Some assms(2,3) a v e syn unat_of_small [OF k(1)]
      by (auto simp: device_first_def wrote_def keeps_def dev_ok_def accepted_def word_less_nat_alt syn_free_def)
  qed
qed

lemma take_drop_parts: "i + k \<le> length xs \<Longrightarrow> take i xs @ take (length xs - i - k) (drop i xs) @ drop (length xs - k) xs = xs"
  by (metis add.commute append_assoc append_take_drop_id diff_diff_left le_add_diff_inverse le_diff_conv2 add_leD1 take_add Nat.add_diff_assoc2 Nat.diff_add_assoc add_diff_cancel_left')

lemma more_ok:
  assumes "wait_ok wait" "dev_ok s" "unat (so_devobsz s) \<le> unat (so_devocnt s) + length buf"
  shows "\<exists>r s'. device_more wait buf s = Some (r, s') \<and> wrote s buf r s'"
proof -
  let ?sz = "unat (so_devobsz s) - unat (so_devocnt s)"
  let ?s1 = "s\<lparr>so_devobuf := so_devobuf s @ take ?sz buf\<rparr>"
  have g: "\<not> so_devocnt s > so_devobsz s" "so_devobsz s \<noteq> 0" "?sz \<le> length buf" "syn_free ?s1"
    using assms(2,3) dev_ok_pos by (auto simp: dev_ok_def syn_free_def)
  obtain r s2 where r: "SendBuffer wait (so_devobuf ?s1) 0 ?s1 = Some (r, s2)" "keeps ?s1 s2"
    "r = -1 \<or> 0 \<le> r \<and> accepted s2 = accepted ?s1 @ so_devobuf ?s1"
    using send_buffer_ok [OF assms(1) _ g(4), of 0] by (metis order_refl)
  have s2: "so_devobsz s2 = so_devobsz s" "syn_free s2" using r(2) g(4) by (simp_all add: keeps_def)
  have acc: "accepted ?s1 = accepted s" by (simp add: accepted_def)
  obtain q s3 where q: "send_blocks wait (drop ?sz buf) s2 = Some (q, s3)" "keeps s2 s3"
    "\<forall>k. q = Some k \<longrightarrow> k < unat (so_devobsz s) \<and> k \<le> length (drop ?sz buf) \<and>
       accepted s3 = accepted s2 @ take (length (drop ?sz buf) - k) (drop ?sz buf)"
    using send_blocks_ok [OF assms(1), of s2] g(2) s2 by metis
  have s3: "so_devobsz s3 = so_devobsz s" "syn_free s3" using q(2) s2 by (simp_all add: keeps_def)
  consider "r < 0" | "0 \<le> r" "q = None" | k where "0 \<le> r" "q = Some k" by fastforce
  then show ?thesis
  proof cases
    case 1
    then show ?thesis using r(1) g s2 dev_ok_free [of s2] by (auto simp: device_more_def Let_def wrote_def)
  next
    case 2
    then show ?thesis using r(1) q(1) g s3 dev_ok_free [of s3] by (auto simp: device_more_def Let_def wrote_def)
  next
    case 3
    let ?s' = "s3\<lparr>so_devobuf := (if k \<noteq> 0 then drop (length buf - k) buf else []), so_devocnt := word_of_nat k\<rparr>"
    have k: "k < unat (so_devobsz s)" "?sz + k \<le> length buf"
      "accepted s3 = accepted s2 @ take (length buf - ?sz - k) (drop ?sz buf)" using q(3) 3(2) g(3) by auto
    have res: "device_more wait buf s = Some (int (length buf), ?s')" using 3 r(1) q(1) g(1) by (simp add: device_more_def Let_def)
    have buf: "so_devobuf ?s' = drop (length buf - k) buf" "accepted ?s' = accepted s3" by (simp_all add: accepted_def)
    have "dev_ok ?s'" using k(1,2) s3 unat_of_small [OF k(1)] by (simp add: dev_ok_def word_less_nat_alt syn_free_def)
    moreover have "accepted ?s' @ so_devobuf ?s' = accepted s @ so_devobuf s @ buf"
      unfolding buf k(3) using r(3) 3(1) acc take_drop_parts [OF k(2)] by simp
    ultimately show ?thesis using res s3 by (auto simp: wrote_def)
  qed
qed

lemma write_ok:
  assumes "wait_ok wait" "dev_ok s"
  shows "\<exists>r s'. NutTcpDeviceWrite wait buf s = Some (r, s') \<and> wrote s buf r s' \<and> (buf = [] \<and> 0 \<le> r \<longrightarrow> so_devobuf s' = [])"
proof -
  consider "so_state s \<noteq> TCPS_ESTABLISHED" | "so_state s = TCPS_ESTABLISHED" "buf = []"
    | "so_state s = TCPS_ESTABLISHED" "buf \<noteq> []" "so_devocnt s = 0"
    | "so_state s = TCPS_ESTABLISHED" "buf \<noteq> []" "so_devocnt s \<noteq> 0" "unat (so_devocnt s) + length buf < unat (so_devobsz s)"
    | "so_state s = TCPS_ESTABLISHED" "buf \<noteq> []" "so_devocnt s \<noteq> 0" "unat (so_devobsz s) \<le> unat (so_devocnt s) + length buf" by linarith
  then show ?thesis
  proof cases
    case 1
    then show ?thesis using assms(2) by (simp add: NutTcpDeviceWrite_def wrote_def dev_ok_def accepted_def)
  next
    case 2
    then show ?thesis using flush_ok [OF assms] by (auto simp: NutTcpDeviceWrite_def)
  next
    case 3
    then show ?thesis using first_ok [OF assms] by (auto simp: NutTcpDeviceWrite_def)
  next
    case 4
    then have "unat (so_devocnt s + word_of_nat (length buf)) = unat (so_devocnt s) + length buf"
      using unat_of_small [OF 4(4)] by simp
    then show ?thesis using 4 assms(2) by (auto simp: NutTcpDeviceWrite_def wrote_def dev_ok_def word_less_nat_alt accepted_def syn_free_def)
  next
    case 5
    then show ?thesis using more_ok [OF assms] by (auto simp: NutTcpDeviceWrite_def)
  qed
qed

section \<open>Property\<close>

text \<open>An application that writes one buffer after the other until an error.\<close>

fun write_all :: "waiter \<Rightarrow> u8 list list \<Rightarrow> tcp \<Rightarrow> (bool \<times> tcp) option" where
  "write_all wait [] s = Some (True, s)"
| "write_all wait (b # bs) s =
     (case NutTcpDeviceWrite wait b s of
        None \<Rightarrow> None
      | Some (r, s1) \<Rightarrow> if r < 0 then Some (False, s1) else write_all wait bs s1)"

lemma write_all_ok:
  assumes "wait_ok wait" "dev_ok s"
  shows "\<exists>ok s'. write_all wait bs s = Some (ok, s') \<and> dev_ok s'
    \<and> (ok \<longrightarrow> accepted s' @ so_devobuf s' = accepted s @ so_devobuf s @ concat bs \<and> (bs \<noteq> [] \<and> last bs = [] \<longrightarrow> so_devobuf s' = []))"
  using assms(2)
proof (induction bs arbitrary: s)
  case Nil
  then show ?case by (auto intro: exI [of _ True])
next
  case (Cons b bs)
  obtain r s1 where w: "NutTcpDeviceWrite wait b s = Some (r, s1)" "wrote s b r s1" "b = [] \<and> 0 \<le> r \<longrightarrow> so_devobuf s1 = []"
    using write_ok [OF assms(1) Cons.prems] by blast
  then have "dev_ok s1" by (simp add: wrote_def)
  from Cons.IH [OF this] obtain ok s' where ih: "write_all wait bs s1 = Some (ok, s')" "dev_ok s'"
    "ok \<longrightarrow> accepted s' @ so_devobuf s' = accepted s1 @ so_devobuf s1 @ concat bs"
    "ok \<longrightarrow> bs \<noteq> [] \<and> last bs = [] \<longrightarrow> so_devobuf s' = []" by blast
  show ?case
  proof (cases "r < 0")
    case True
    then have "write_all wait (b # bs) s = Some (False, s1)" using w(1) by simp
    then show ?thesis using \<open>dev_ok s1\<close> by blast
  next
    case False
    then have eq: "write_all wait (b # bs) s = Some (ok, s')" using w(1) ih(1) by simp
    have buf: "accepted s1 @ so_devobuf s1 = accepted s @ so_devobuf s @ b" using False w(2) by (auto simp: wrote_def)
    have "ok \<longrightarrow> accepted s' @ so_devobuf s' = accepted s @ so_devobuf s @ concat (b # bs)"
      using ih(3) buf by (metis append_assoc concat.simps(2))
    moreover have "ok \<longrightarrow> last (b # bs) = [] \<longrightarrow> so_devobuf s' = []"
      using ih(1,4) w(3) False by (cases bs) auto
    ultimately show ?thesis using eq ih(2) by blast
  qed
qed

text \<open>
  C22: However an application writes its data, the buffered writes come to an end, leave the output buffer within its size,
  and as long as none has failed, the bytes put on the retransmission queue followed by those in the buffer are the
  bytes written, in order, none lost and none twice; a final flush leaves nothing behind in the buffer. While
  a writer is blocked, nobody else may write, and it is woken up until there is room, the timeout elapses or the connection ends.
\<close>

theorem tcp_write_in_order:
  assumes "wait_ok wait" "dev_ok s"
  shows "\<exists>ok s'. write_all wait bs s = Some (ok, s') \<and> dev_ok s'
    \<and> (ok \<longrightarrow> accepted s' @ so_devobuf s' = accepted s @ so_devobuf s @ concat bs)
    \<and> (ok \<and> bs \<noteq> [] \<and> last bs = [] \<longrightarrow> accepted s' = accepted s @ so_devobuf s @ concat bs)"
  using write_all_ok [OF assms, of bs] by auto

declare send_wait.simps [code] SendBuffer.simps [code]

text \<open>Two writes and a flush, with a segment size of 4 and a buffer of 8 bytes.\<close>

definition write_start :: "tcp" where
  "write_start = tcp_start\<lparr>so_state := TCPS_ESTABLISHED, so_mss := 4, so_devobsz := 8, so_tx_win := 1000\<rparr>"

lemma write_start_ok: "dev_ok write_start"
  by code_simp

theorem tcp_write_in_order_witness:
  "\<exists>s'. write_all (\<lambda>s. (True, s)) [[1, 2, 3], [4, 5, 6, 7, 8, 9, 10], []] write_start = Some (True, s')
     \<and> accepted s' = [1, 2, 3, 4, 5, 6, 7, 8, 9, 10]"
proof -
  let ?w = "\<lambda>s :: tcp. (True, s)" and ?bs = "[[1, 2, 3], [4, 5, 6, 7, 8, 9, 10], []] :: u8 list list"
  have over: "wait_over ?w 0 s" for s by simp
  have w: "wait_ok ?w" unfolding wait_ok_def using over by (metis snd_conv)
  have ok: "map_option fst (write_all ?w ?bs write_start) = Some True" by code_simp
  have e: "accepted write_start = []" "so_devobuf write_start = []" by code_simp+
  show ?thesis using tcp_write_in_order [OF w write_start_ok, of ?bs] ok e by auto
qed

text \<open>
  A send buffer size of zero is accepted by \<^verbatim>\<open>NutTcpSetSockOpt\<close>; the next write divides by it.
\<close>

theorem sndbuf_zero_divides:
  "case NutTcpSetSockOpt (\<lambda>s. (True, s)) SO_SNDBUF [0, 0] write_start of
     None \<Rightarrow> False | Some (rc, s) \<Rightarrow> rc = 0 \<and> NutTcpDeviceWrite (\<lambda>s. (True, s)) [1] s = None"
  by code_simp

text \<open>An option that has been set is read back as it was given.\<close>

lemma byte_bit_high: "8 \<le> n \<Longrightarrow> \<not> bit (a :: u8) n"
  using bit_imp_le_length [of a n] by auto

lemma put16_opt16 [simp]: "put16 (opt16 [a, b]) = [a, b]"
  by (simp add: put16_def opt16_def le16_def) (auto intro!: bit_word_eqI simp: bit_simps byte_bit_high)

lemma put32_opt32 [simp]: "put32 (opt32 [a, b, c, d]) = [a, b, c, d]"
  by (simp add: put32_def opt32_def le32_def le16_def) (auto intro!: bit_word_eqI simp: bit_simps byte_bit_high)

lemma list_of_two: "length v = 2 \<Longrightarrow> \<exists>a b. v = [a, b]"
  by (auto simp: numeral_2_eq_2 length_Suc_conv)

lemma list_of_four: "length v = 4 \<Longrightarrow> \<exists>a b c d. v = [a, b, c, d]"
  by (auto simp: numeral_eq_Suc length_Suc_conv)

lemma sockopt_roundtrip:
  assumes "NutTcpSetSockOpt wait opt v s = Some (0, s')"
  shows "NutTcpGetSockOpt opt (length v) s' = (Some v, s')"
  using assms
  by (cases opt) (auto simp: opt_error_def get_option_def split: if_splits dest!: list_of_two list_of_four)

end
