(* ===== verification/Nut_Tcp_Port.thy ===== *)
theory Nut_Tcp_Port
  imports Nut_Tcp_Sys
begin

text \<open>
  Lemmas on the TCP system: a segment reaches one socket only, and the search for a local port ends.
\<close>

unbundle bit_operations_syntax

section \<open>A segment reaches one socket\<close>

lemma first_index_Some:
  "first_index P xs = Some i \<Longrightarrow> i < length xs \<and> P (xs ! i) \<and> (\<forall>j < i. \<not> P (xs ! j))"
proof (induction xs arbitrary: i)
  case (Cons x xs)
  show ?case
  proof (cases "P x")
    case False
    then obtain k where "first_index P xs = Some k" "i = Suc k" using Cons.prems by auto
    then show ?thesis using Cons.IH False by (auto simp: less_Suc_eq_0_disj)
  qed (use Cons.prems in auto)
qed simp

lemma first_index_None: "first_index P xs = None \<longleftrightarrow> (\<forall>x \<in> set xs. \<not> P x)"
  by (induction xs) auto

lemma find_socket_spec:
  "NutTcpFindSocket lport rport raddr sl = Some i \<Longrightarrow> i < length sl \<and> so_local_port (sl ! i) = lport
     \<and> (connected_to lport rport raddr (sl ! i) \<or> listening_on lport (sl ! i) \<and> (\<forall>sp \<in> set sl. \<not> connected_to lport rport raddr sp))"
  by (auto simp: NutTcpFindSocket_def listening_on_def connected_to_def first_index_None split: option.splits dest!: first_index_Some)

lemma with_socket_other: "j \<noteq> i \<Longrightarrow> tcpSocketList (with_socket i f S) ! j = tcpSocketList S ! j"
  by (simp add: with_socket_def Let_def)

lemma with_env_list [simp]: "tcpSocketList (with_env f S) = tcpSocketList S"
  by (simp add: with_env_def)

lemma backlog_add_list: "NutTcpBacklogAdd nb S = (S1, rc) \<Longrightarrow> tcpSocketList S1 = tcpSocketList S"
  by (auto simp: NutTcpBacklogAdd_def Let_def split: if_splits sum.splits option.splits)

lemma segment_one_socket:
  assumes "sm_segment nb S = Some S'" and "tcpSocketList S' ! j \<noteq> tcpSocketList S ! j"
  shows "NutTcpFindSocket (th_dport nb) (th_sport nb) (ip_src nb) (tcpSocketList S) = Some j"
  using assms
  by (auto simp: sm_segment_def socket_segment_def with_socket_other split: option.splits prod.splits dest: backlog_add_list)
    (metis with_socket_other)

section \<open>The search for a port\<close>

definition port_low :: "u16 \<Rightarrow> nat" where
  "port_low p = unat p mod 2 ^ 14"

fun port_seq :: "(nat \<Rightarrow> u16) \<Rightarrow> nat \<Rightarrow> u16 \<Rightarrow> nat \<Rightarrow> u16" where
  "port_seq clk k p 0 = next_port (clk k) p"
| "port_seq clk k p (Suc n) = port_seq clk (k + 1) (next_port (clk k) p) n"

lemma port_seq_Suc: "port_seq clk k p (Suc n) = next_port (clk (k + Suc n)) (port_seq clk k p n)"
  by (induction n arbitrary: k p) simp_all

definition port_step :: "u16 \<Rightarrow> nat" where
  "port_step ticks = unat ((ticks AND 0x000F) OR 1)"

lemma port_step_bounds: "1 \<le> port_step t" "port_step t \<le> 15"
proof -
  have "(t AND 0x000F) OR 1 \<noteq> 0" using or_eq_0_iff [of "t AND 0xF" 1] by auto
  then show "1 \<le> port_step t" by (simp add: port_step_def Suc_le_eq unat_gt_0)
  have "(t AND 0xF) OR 1 = ((t OR 1) AND 0xF)" by (simp add: bit.conj_disj_distrib2)
  also have "\<dots> = take_bit 4 (t OR 1)" by (simp add: take_bit_eq_mask mask_eq_exp_minus_1)
  finally have "port_step t = unat (take_bit 4 (t OR 1))" by (simp only: port_step_def)
  also have "\<dots> = take_bit 4 (unat (t OR 1))" by (rule unsigned_take_bit_eq)
  finally have "port_step t = take_bit 4 (unat (t OR 1))" .
  then show "port_step t \<le> 15" using take_bit_nat_less_exp [of 4 "unat (t OR 1)"] by simp
qed

lemma top_bits: "unat (p OR 0xC000 :: u16) = 49152 + port_low p"
proof -
  let ?m = "mask 14 :: u16"
  have m: "(0xC000 :: u16) = NOT ?m" "unat (NOT ?m) = 49152" by (simp_all add: mask_eq_exp_minus_1)
  have "p OR NOT ?m = (p AND ?m) OR NOT ?m" by (simp add: bit.disj_conj_distrib2)
  also have "\<dots> = (p AND ?m) + NOT ?m" by (rule disjunctive_add_eq_or [symmetric]) (simp add: and.assoc)
  finally have e: "p OR 0xC000 = (p AND ?m) + NOT ?m" by (simp only: m(1))
  have "unat (p AND ?m) = port_low p"
    using unsigned_take_bit_eq [of 14 p, where ?'a = nat] unfolding port_low_def take_bit_eq_mask [symmetric] take_bit_eq_mod [of 14 "unat p"] .
  moreover have "port_low p < 2 ^ 14" by (simp add: port_low_def)
  ultimately show ?thesis unfolding e unat_word_ariths(1) m(2) by simp
qed

lemma next_port_top: "unat (next_port t p) \<ge> 49152"
  by (simp add: next_port_def top_bits)

lemma next_port_low:
  assumes "unat p \<ge> 49152"
  shows "port_low (next_port t p) = (port_low p + port_step t) mod 2 ^ 14"
proof -
  have "p \<noteq> 0" using assms by auto
  then have "unat (next_port t p) = 49152 + unat (p + ((t AND 0x000F) OR 1)) mod 2 ^ 14"
    by (simp add: next_port_def top_bits port_low_def del: and_numerals or_numerals)
  moreover have "unat (p + ((t AND 0x000F) OR 1)) mod 2 ^ 14 = (unat p + port_step t) mod 2 ^ 14"
    by (simp add: unat_word_ariths(1) port_step_def mod_mod_cancel)
  ultimately have "port_low (next_port t p) = (49152 + (unat p + port_step t) mod 2 ^ 14) mod 2 ^ 14" by (simp add: port_low_def)
  also have "\<dots> = (unat p + port_step t) mod 2 ^ 14"
    using mod_mult_self1 [of "unat p + port_step t" 3 "2 ^ 14"] by (simp add: mod_simps add.commute)
  finally show ?thesis by (simp add: port_low_def mod_simps)
qed

definition port_adv :: "(nat \<Rightarrow> u16) \<Rightarrow> nat \<Rightarrow> nat \<Rightarrow> nat" where
  "port_adv clk k n = (\<Sum>i < n. port_step (clk (k + Suc i)))"

lemma port_adv_mono:
  "i < j \<Longrightarrow> port_adv clk k i < port_adv clk k j \<and> port_adv clk k j \<le> port_adv clk k i + 15 * (j - i)"
proof (induction j)
  case (Suc j)
  have s: "port_adv clk k (Suc j) = port_adv clk k j + port_step (clk (k + Suc j))" by (simp add: port_adv_def)
  show ?case
  proof (cases "i = j")
    case True
    then show ?thesis using s port_step_bounds [of "clk (k + Suc j)"] by simp
  next
    case False
    then show ?thesis using Suc s port_step_bounds [of "clk (k + Suc j)"] by auto
  qed
qed simp

lemma port_seq_low:
  "49152 \<le> unat (port_seq clk k p n) \<and> port_low (port_seq clk k p n) = (port_low (port_seq clk k p 0) + port_adv clk k n) mod 2 ^ 14"
proof (induction n)
  case 0
  then show ?case by (simp add: next_port_top port_adv_def port_low_def)
next
  case (Suc n)
  then show ?case
    unfolding port_seq_Suc by (simp add: next_port_top next_port_low port_adv_def mod_simps add.assoc)
qed

lemma port_seq_inj: "inj_on (port_seq clk k p) {..1092}"
proof (rule linorder_inj_onI)
  fix i j :: nat
  assume ij: "i < j" "i \<in> {..1092}" "j \<in> {..1092}"
  let ?a = "port_low (port_seq clk k p 0)"
  have m: "port_adv clk k i < port_adv clk k j" "port_adv clk k j \<le> port_adv clk k i + 16380"
    using port_adv_mono [OF ij(1), of clk k] ij(3) by auto
  show "port_seq clk k p i \<noteq> port_seq clk k p j"
  proof
    assume "port_seq clk k p i = port_seq clk k p j"
    then have "(?a + port_adv clk k i) mod 2 ^ 14 = (?a + port_adv clk k j) mod 2 ^ 14" using port_seq_low by metis
    then have "(2::nat) ^ 14 dvd port_adv clk k j - port_adv clk k i" using m mod_eq_dvd_iff_nat [of "?a + port_adv clk k i" "?a + port_adv clk k j" "2 ^ 14"] by simp
    then show False using m dvd_imp_le [of "2 ^ 14" "port_adv clk k j - port_adv clk k i"] by simp
  qed
qed auto

lemma port_seq_free:
  assumes "length used \<le> 1092"
  shows "\<exists>n \<le> 1092. port_seq clk k p n \<notin> set used"
proof (rule ccontr)
  assume "\<not> ?thesis"
  then have "port_seq clk k p ` {..1092} \<subseteq> set used" by auto
  then have "card (port_seq clk k p ` {..1092}) \<le> card (set used)" by (intro card_mono) auto
  also have "\<dots> \<le> 1092" using card_length [of used] assms by simp
  finally show False by (simp add: card_image [OF port_seq_inj])
qed

lemma find_port_ends:
  "port_seq clk k p n \<notin> set used \<Longrightarrow> \<exists>q. find_port clk k used p = Some q \<and> q \<notin> set used \<and> 49152 \<le> unat q"
proof (induction n arbitrary: k p)
  case 0
  then show ?case by (auto simp: find_port.simps [of clk k] Let_def next_port_top)
next
  case (Suc n)
  show ?case
  proof (cases "next_port (clk k) p \<in> set used")
    case True
    then show ?thesis using Suc by (auto simp: find_port.simps [of clk k] Let_def)
  next
    case False
    then show ?thesis by (auto simp: find_port.simps [of clk k] Let_def next_port_top)
  qed
qed

section \<open>Properties\<close>

text \<open>C23: the search for an unused local port ends as long as there are at most 1092 sockets, whatever the
  clock shows while it runs, and the port it finds is used by no socket and is a dynamic port.\<close>

theorem connect_port_found:
  assumes "length (tcpSocketList S) \<le> 1092"
  shows "\<exists>q. find_port clk 0 (map so_local_port (tcpSocketList S)) (last_local_port S) = Some q
    \<and> (\<forall>sp \<in> set (tcpSocketList S). so_local_port sp \<noteq> q) \<and> 49152 \<le> unat q"
proof -
  let ?used = "map so_local_port (tcpSocketList S)"
  obtain n where "port_seq clk 0 (last_local_port S) n \<notin> set ?used" using port_seq_free [of ?used clk 0] assms by auto
  from find_port_ends [OF this] show ?thesis by auto
qed

text \<open>A system with two sockets, one of which listens on the web port; it has no early segments and no requests.\<close>

definition tcp_sys_start :: tcp_sys where
  "tcp_sys_start =
     \<lparr>tcpSocketList = [NutTcpCreateSocket 0, (NutTcpCreateSocket 0)\<lparr>so_state := TCPS_LISTEN, so_local_port := 80\<rparr>],
      tcp_env = TCPSOCKET.more tcp_start, tcp_backlog = replicate 8 None, tcp_in_nbq = [], tcp_in_cnt = 0,
      tcpThread = True, last_local_port = 0xFFFF\<rparr>"

theorem connect_port_found_witness:
  "\<exists>q. find_port (\<lambda>_. 7) 0 (map so_local_port (tcpSocketList tcp_sys_start)) (last_local_port tcp_sys_start) = Some q
    \<and> q \<noteq> 0 \<and> q \<noteq> 80 \<and> 49152 \<le> unat q"
proof -
  have "length (tcpSocketList tcp_sys_start) \<le> 1092" by (simp add: tcp_sys_start_def)
  from connect_port_found [OF this, of "\<lambda>_. 7"] show ?thesis by (auto simp: tcp_sys_start_def NutTcpCreateSocket_def)
qed

text \<open>
  Accepting takes a request that waits in the backlog and returns success at once: the socket has only
  answered the SYN, and sending on it is refused until the peer acknowledges.
\<close>

definition backlog_syn :: NETBUF where
  "backlog_syn =
     \<lparr>ip_src = 9, ip_dst = 2, th_sport = 1234, th_dport = 80, th_seq = 5, th_ack = 0, th_flags = TH_SYN, th_win = 1000,
      th_opt = [], nb_ap = [], nb_dl_sz = 14\<rparr>"

lemma accept_backlog_not_established:
  "map_option (\<lambda>(r, S). (r, so_state (tcpSocketList S ! 0)))
     (NutTcpAccept 0 80 (fst (NutTcpBacklogAdd backlog_syn tcp_sys_start)))
   = Some (OpenDone 0, TCPS_SYN_RECEIVED)"
  by code_simp

end
