(* ===== verification/Nut_Route.thy ===== *)
theory Nut_Route
  imports Nut_Bytes
begin

text \<open>
  The IP routing table (\<^verbatim>\<open>net/route.c\<close>): a list of entries ordered by descending mask, in which a lookup
  takes the first entry that matches. A device is its address, 0 is no device; addresses and masks are
  in network byte order, as numbers of the target.
\<close>

unbundle bit_operations_syntax

section \<open>Operations\<close>

record RTENTRY =
  rt_ip :: u32
  rt_mask :: u32
  rt_gateway :: u32
  rt_dev :: addr

fun route_insert :: "RTENTRY \<Rightarrow> RTENTRY list \<Rightarrow> RTENTRY list" where
  "route_insert rte [] = [rte]"
| "route_insert rte (rtp # rl) = (if rt_mask rtp > rt_mask rte then rtp # route_insert rte rl else rte # rtp # rl)"

definition NutIpRouteAdd :: "bool \<Rightarrow> u32 \<Rightarrow> u32 \<Rightarrow> u32 \<Rightarrow> addr \<Rightarrow> RTENTRY list \<Rightarrow> RTENTRY list \<times> int" where
  "NutIpRouteAdd mem ip msk gate dev rteList =
     (if mem then (route_insert \<lparr>rt_ip = ip AND msk, rt_mask = msk, rt_gateway = gate, rt_dev = dev\<rparr> rteList, 0)
      else (rteList, -1))"

fun NutIpRouteDelAll :: "addr \<Rightarrow> RTENTRY list \<Rightarrow> RTENTRY list" where
  "NutIpRouteDelAll dev [] = []"
| "NutIpRouteDelAll dev (rte # rl) =
     (if rt_dev rte = dev \<or> dev = 0 then NutIpRouteDelAll dev rl else rte # NutIpRouteDelAll dev rl)"

fun NutIpRouteDel :: "u32 \<Rightarrow> u32 \<Rightarrow> u32 \<Rightarrow> addr \<Rightarrow> RTENTRY list \<Rightarrow> RTENTRY list \<times> int" where
  "NutIpRouteDel ip msk gate dev [] = ([], -1)"
| "NutIpRouteDel ip msk gate dev (rte # rl) =
     (case NutIpRouteDel ip msk gate dev rl of (rl', rc) \<Rightarrow>
        if rt_ip rte = ip \<and> rt_mask rte = msk \<and> rt_gateway rte = gate \<and> rt_dev rte = dev then (rl', 0) else (rte # rl', rc))"

definition NutIpRouteList :: "bool \<Rightarrow> RTENTRY list \<Rightarrow> RTENTRY list option \<times> nat" where
  "NutIpRouteList mem rteList = (if mem then (Some rteList, length rteList) else (None, 0))"

definition route_matches :: "u32 \<Rightarrow> RTENTRY \<Rightarrow> bool" where
  "route_matches ip rte \<longleftrightarrow> ip AND rt_mask rte = rt_ip rte"

text \<open>The gateway is passed along as the variable \<^verbatim>\<open>gate\<close> points to.\<close>

function NutIpRouteRecQuery :: "u32 \<Rightarrow> u32 \<Rightarrow> nat \<Rightarrow> RTENTRY list \<Rightarrow> RTENTRY option \<times> u32" where
  "NutIpRouteRecQuery ip gate level rteList =
     (if level < 4 then
        (case List.find (route_matches ip) rteList of
           None \<Rightarrow> (None, gate)
         | Some rte \<Rightarrow>
             let gate' = (if rt_gateway rte \<noteq> 0 then rt_gateway rte else gate)
             in if rt_dev rte = 0 then NutIpRouteRecQuery (rt_gateway rte) gate' (level + 1) rteList else (Some rte, gate'))
      else (None, gate))"
  by pat_completeness auto

termination NutIpRouteRecQuery
  by (relation "measure (\<lambda>(ip, gate, level, rl). 4 - level)") auto

declare NutIpRouteRecQuery.simps [simp del]

definition IP_IS_MULTICAST :: "u32 \<Rightarrow> bool" where
  "IP_IS_MULTICAST host \<longleftrightarrow> host AND 0xF0000000 = 0xE0000000"

text \<open>The result is the device, or 0, and the gateway. \<open>ntohl\<close> is the byte order conversion of the target.\<close>

definition NutIpRouteQuery :: "(u32 \<Rightarrow> u32) \<Rightarrow> u32 \<Rightarrow> RTENTRY list \<Rightarrow> addr \<times> u32" where
  "NutIpRouteQuery ntohl ip rteList =
     (case (if ip = 0xFFFFFFFF \<or> IP_IS_MULTICAST (ntohl ip)
            then (case rteList of [] \<Rightarrow> None | rte # _ \<Rightarrow> Some rte, 0) else NutIpRouteRecQuery ip 0 0 rteList) of
        (None, gate) \<Rightarrow> (0, gate)
      | (Some rte, gate) \<Rightarrow> (rt_dev rte, gate))"

section \<open>Routing tables\<close>

text \<open>
  What the IP layer relies on: an added route is found for the addresses it matches, unless there is one
  with a greater mask; every other lookup is as before; deleting takes the routes of a device away.
\<close>

locale route_table =
  fixes add :: "RTENTRY \<Rightarrow> 't \<Rightarrow> 't" and lookup :: "u32 \<Rightarrow> 't \<Rightarrow> RTENTRY option" and inv :: "'t \<Rightarrow> bool" and empty_table :: 't
  assumes inv_empty: "inv empty_table" and lookup_empty: "lookup ip empty_table = None"
    and inv_add: "inv t \<Longrightarrow> inv (add r t)"
    and lookup_add: "inv t \<Longrightarrow> lookup ip (add r t) =
      (if route_matches ip r \<and> (\<forall>r'. lookup ip t = Some r' \<longrightarrow> rt_mask r' \<le> rt_mask r) then Some r else lookup ip t)"
begin

text \<open>A table built by adding routes finds, of all that match, a route with the greatest mask, and of those the last added.\<close>

abbreviation build :: "RTENTRY list \<Rightarrow> 't" where
  "build rs \<equiv> foldr add rs empty_table"

lemma build_inv: "inv (build rs)"
  by (induction rs) (simp_all add: inv_empty inv_add)

lemma lookup_build_None: "lookup ip (build rs) = None \<longleftrightarrow> (\<forall>r \<in> set rs. \<not> route_matches ip r)"
  by (induction rs) (auto simp: lookup_empty lookup_add build_inv)

lemma lookup_build_max:
  "lookup ip (build rs) = Some r \<Longrightarrow> z \<in> set rs \<Longrightarrow> route_matches ip z \<Longrightarrow> rt_mask z \<le> rt_mask r"
proof (induction rs arbitrary: r)
  case (Cons a rs)
  show ?case
  proof (cases "route_matches ip a \<and> (\<forall>r'. lookup ip (build rs) = Some r' \<longrightarrow> rt_mask r' \<le> rt_mask a)")
    case True
    then have r: "r = a" using Cons.prems by (simp add: lookup_add build_inv)
    show ?thesis
    proof (cases "z \<in> set rs")
      case z: True
      then obtain r' where r': "lookup ip (build rs) = Some r'" using lookup_build_None [of ip rs] Cons.prems(3) by fastforce
      then have "rt_mask z \<le> rt_mask r'" using Cons.IH z Cons.prems(3) by blast
      then show ?thesis using True r' r by force
    qed (use Cons.prems r in auto)
  next
    case False
    then have l: "lookup ip (build rs) = Some r" using Cons.prems(1) by (auto simp: lookup_add build_inv split: if_splits)
    then show ?thesis using Cons False by force
  qed
qed simp

lemma lookup_build_newest:
  "lookup ip (build rs) = Some r \<Longrightarrow>
     \<exists>ys zs. rs = ys @ r # zs \<and> route_matches ip r \<and> (\<forall>y \<in> set ys. route_matches ip y \<longrightarrow> rt_mask y < rt_mask r)"
proof (induction rs)
  case Nil
  then show ?case by (simp add: lookup_empty)
next
  case (Cons a rs)
  show ?case
  proof (cases "route_matches ip a \<and> (\<forall>r'. lookup ip (build rs) = Some r' \<longrightarrow> rt_mask r' \<le> rt_mask a)")
    case True
    then have "r = a" using Cons.prems by (simp add: lookup_add build_inv)
    then show ?thesis using True by (intro exI [of _ "[]"] exI [of _ rs]) auto
  next
    case False
    then have l: "lookup ip (build rs) = Some r" using Cons.prems by (auto simp: lookup_add build_inv split: if_splits)
    from Cons.IH [OF l] obtain ys zs where "rs = ys @ r # zs" "route_matches ip r" "\<forall>y \<in> set ys. route_matches ip y \<longrightarrow> rt_mask y < rt_mask r" by blast
    then show ?thesis using False l by (intro exI [of _ "a # ys"] exI [of _ zs]) auto
  qed
qed

end

definition route_sorted :: "RTENTRY list \<Rightarrow> bool" where
  "route_sorted rl \<longleftrightarrow> sorted_wrt (\<lambda>a b. rt_mask b \<le> rt_mask a) rl"

lemma route_insert_set: "set (route_insert r rl) = insert r (set rl)"
  by (induction rl) auto

lemma route_insert_sorted: "route_sorted rl \<Longrightarrow> route_sorted (route_insert r rl)"
  by (induction rl) (auto simp: route_sorted_def route_insert_set)

lemma find_max: "route_sorted rl \<Longrightarrow> List.find P rl = Some r \<Longrightarrow> x \<in> set rl \<Longrightarrow> P x \<Longrightarrow> rt_mask x \<le> rt_mask r"
  by (induction rl) (auto simp: route_sorted_def split: if_splits)

lemma find_insert:
  "route_sorted rl \<Longrightarrow> List.find P (route_insert r rl) =
     (if P r \<and> (\<forall>r'. List.find P rl = Some r' \<longrightarrow> rt_mask r' \<le> rt_mask r) then Some r else List.find P rl)"
proof (induction rl)
  case (Cons a rl)
  have s: "route_sorted rl" "\<forall>x \<in> set rl. rt_mask x \<le> rt_mask a" using Cons.prems by (auto simp: route_sorted_def)
  have f: "rt_mask r' \<le> rt_mask a" if "List.find P rl = Some r'" for r'
    using that s(2) by (auto simp: find_Some_iff)
  show ?case using Cons.IH [OF s(1)] f by (auto intro: order_trans)
qed auto

interpretation nut_routes: route_table route_insert "\<lambda>ip rl. List.find (route_matches ip) rl" route_sorted "[]"
  by unfold_locales (auto simp: route_insert_sorted find_insert, auto simp: route_sorted_def)

section \<open>Property\<close>

text \<open>The routes that were added, the newest first, and the table that results.\<close>

definition route_build :: "RTENTRY list \<Rightarrow> RTENTRY list" where
  "route_build rs = foldr (\<lambda>r t. fst (NutIpRouteAdd True (rt_ip r) (rt_mask r) (rt_gateway r) (rt_dev r) t)) rs []"

definition in_network :: "u32 \<Rightarrow> RTENTRY \<Rightarrow> bool" where
  "in_network ip r \<longleftrightarrow> ip AND rt_mask r = rt_ip r AND rt_mask r"

definition net_entry :: "RTENTRY \<Rightarrow> RTENTRY" where
  "net_entry r = \<lparr>rt_ip = rt_ip r AND rt_mask r, rt_mask = rt_mask r, rt_gateway = rt_gateway r, rt_dev = rt_dev r\<rparr>"

lemma net_entry_simps [simp]:
  "rt_mask (net_entry r) = rt_mask r" "rt_gateway (net_entry r) = rt_gateway r" "rt_dev (net_entry r) = rt_dev r"
  "route_matches ip (net_entry r) = in_network ip r"
  by (simp_all add: net_entry_def route_matches_def in_network_def)

lemma build_entries: "route_build rs = foldr route_insert (map net_entry rs) []"
  by (induction rs) (simp_all add: route_build_def NutIpRouteAdd_def net_entry_def)

lemma nested_mask:
  assumes "a AND b \<in> {a, b}" "a \<le> (b :: u32)"
  shows "a AND b = a"
proof (cases "a AND b = a")
  case False
  then have "a AND b = b" using assms(1) by simp
  then have "b \<le> a" by (metis word_and_le2)
  then show ?thesis using assms(2) \<open>a AND b = b\<close> by simp
qed

text \<open>C24: with masks that are nested, as contiguous net masks are, a lookup in a table built by adding routes
  finds, of all networks the address belongs to, one with the longest mask, and of those with this mask
  the one added last. The result is the device and the gateway of this route, or what its gateway is
  routed to if it names no device; if the address belongs to no network, it is no device and no gateway.\<close>

theorem route_longest_prefix:
  assumes "\<forall>a \<in> set rs. \<forall>b \<in> set rs. rt_mask a AND rt_mask b \<in> {rt_mask a, rt_mask b}"
    and "ip \<noteq> 0xFFFFFFFF" and "\<not> IP_IS_MULTICAST (ntohl ip)"
  shows "(\<forall>r \<in> set rs. \<not> in_network ip r) \<and> NutIpRouteQuery ntohl ip (route_build rs) = (0, 0) \<or>
    (\<exists>ys r zs. rs = ys @ r # zs \<and> in_network ip r
       \<and> (\<forall>x \<in> set rs. in_network ip x \<longrightarrow> rt_mask x AND rt_mask r = rt_mask x)
       \<and> (\<forall>y \<in> set ys. in_network ip y \<longrightarrow> rt_mask y \<noteq> rt_mask r)
       \<and> NutIpRouteQuery ntohl ip (route_build rs) =
           (if rt_dev r \<noteq> 0 then (rt_dev r, rt_gateway r)
            else case NutIpRouteRecQuery (rt_gateway r) (rt_gateway r) 1 (route_build rs) of
              (e, g) \<Rightarrow> (case e of None \<Rightarrow> 0 | Some e \<Rightarrow> rt_dev e, g)))"
proof (cases "List.find (route_matches ip) (route_build rs)")
  case None
  then have "\<forall>r \<in> set rs. \<not> in_network ip r" using nut_routes.lookup_build_None [of ip "map net_entry rs"] by (simp add: build_entries)
  then show ?thesis using None assms(2,3) by (simp add: NutIpRouteQuery_def NutIpRouteRecQuery.simps)
next
  case (Some e)
  note l = Some [unfolded build_entries]
  obtain ys r zs where r: "rs = ys @ r # zs" "e = net_entry r" "in_network ip r" "\<forall>y \<in> set ys. in_network ip y \<longrightarrow> rt_mask y < rt_mask r"
    using nut_routes.lookup_build_newest [OF l] by (auto simp: map_eq_append_conv)
  have "rt_mask x AND rt_mask r = rt_mask x" if "x \<in> set rs" "in_network ip x" for x
    using nut_routes.lookup_build_max [OF l, of "net_entry x"] that assms(1) r(1,2) by (intro nested_mask) auto
  moreover have "NutIpRouteQuery ntohl ip (route_build rs) =
           (if rt_dev r \<noteq> 0 then (rt_dev r, rt_gateway r)
            else case NutIpRouteRecQuery (rt_gateway r) (rt_gateway r) 1 (route_build rs) of
              (e, g) \<Rightarrow> (case e of None \<Rightarrow> 0 | Some e \<Rightarrow> rt_dev e, g))"
    using Some r(2) assms(2,3)
    by (auto simp: NutIpRouteQuery_def NutIpRouteRecQuery.simps [of ip 0 0] Let_def split: option.split prod.split)
  ultimately show ?thesis using r by (intro disjI2 exI [of _ ys] exI [of _ r] exI [of _ zs]) auto
qed

text \<open>A host route, a network and a default route through a gateway.\<close>

definition route_example :: "RTENTRY list" where
  "route_example =
     [\<lparr>rt_ip = 0, rt_mask = 0, rt_gateway = 0xC0A80001, rt_dev = 7\<rparr>, \<lparr>rt_ip = 0xC0A80017, rt_mask = 0xFFFFFF00, rt_gateway = 0, rt_dev = 5\<rparr>,
      \<lparr>rt_ip = 0xC0A80009, rt_mask = 0xFFFFFFFF, rt_gateway = 0, rt_dev = 6\<rparr>]"

theorem route_longest_prefix_witness:
  "NutIpRouteQuery id 0xC0A80020 (route_build route_example) = (5, 0) \<and>
   (\<exists>ys r zs. route_example = ys @ r # zs \<and> in_network 0xC0A80020 r)"
proof -
  have "\<forall>a \<in> set route_example. \<forall>b \<in> set route_example. rt_mask a AND rt_mask b \<in> {rt_mask a, rt_mask b}"
    by (simp add: route_example_def)
  moreover have q: "NutIpRouteQuery id 0xC0A80020 (route_build route_example) = (5, 0)" by code_simp
  moreover have "\<not> IP_IS_MULTICAST (id 0xC0A80020)" by code_simp
  ultimately show ?thesis using route_longest_prefix [of route_example "0xC0A80020" id] by auto
qed

end
