(* ===== verification/Nut_Arp.thy ===== *)
theory Nut_Arp
  imports Nut_Bytes
begin

text \<open>
  ARP: the cache of hardware addresses (\<^verbatim>\<open>net/arpcache.c\<close>), its packets (\<^verbatim>\<open>net/arpout.c\<close>) and what is done with received ones
  (\<^verbatim>\<open>net/arpin.c\<close>). A device is a number; \<open>dev_list\<close> are the devices in the order of their registration. The fields of a packet
  are numbers of the host. \<open>arp_answers\<close> tells whether an allocation and the output routine of the driver succeed. Where a
  thread can be suspended, \<open>others\<close> is what happens to the state until it runs again. Events are logged: waking up the
  threads that wait for an entry, sending, waiting and releasing a buffer.
\<close>

unbundle bit_operations_syntax

section \<open>State\<close>

definition ATF_REM :: u8 where "ATF_REM = 0x01"
definition ATF_COM :: u8 where "ATF_COM = 0x02"
definition ATF_PERM :: u8 where "ATF_PERM = 0x04"
definition MAX_ARPAGE :: u8 where "MAX_ARPAGE = 9"
definition MIN_ARPWAIT :: u32 where "MIN_ARPWAIT = 500"
definition ARPOP_REQUEST :: u16 where "ARPOP_REQUEST = 1"
definition ARPOP_REPLY :: u16 where "ARPOP_REPLY = 2"

lemmas atf_defs = ATF_REM_def ATF_COM_def ATF_PERM_def

record ARPENTRY =
  ae_ip :: u32
  ae_ha :: "u8 list"
  ae_flags :: u8
  ae_outdated :: u8

record ETHERARP =
  ar_hrd :: u16
  ar_pro :: u16
  ar_hln :: u8
  ar_pln :: u8
  ar_op :: u16
  arp_sha :: "u8 list"
  arp_spa :: u32
  arp_tha :: "u8 list"
  arp_tpa :: u32

text \<open>\<open>if_ether\<close> tells that the device is a network device whose interface is an Ethernet interface.\<close>

record IFNET =
  if_ether :: bool
  if_mac :: "u8 list"
  if_local_ip :: u32
  arpTable :: "ARPENTRY list"

datatype arp_action = ArpWake u32 | ArpSent nat ETHERARP | ArpWait u32 u32 | ArpFree

record arp =
  ifnet :: "nat \<Rightarrow> IFNET"
  dev_list :: "nat list"
  last_update :: u32
  seconds :: u32
  arp_answers :: "nat \<Rightarrow> bool"
  arp_asked :: nat
  arp_log :: "arp_action list"

definition arp_ask :: "arp \<Rightarrow> bool \<times> arp" where
  "arp_ask s = (arp_answers s (arp_asked s), s\<lparr>arp_asked := arp_asked s + 1\<rparr>)"

definition note_arp :: "arp_action list \<Rightarrow> arp \<Rightarrow> arp" where
  "note_arp as s = s\<lparr>arp_log := arp_log s @ as\<rparr>"

definition set_table :: "nat \<Rightarrow> ARPENTRY list \<Rightarrow> arp \<Rightarrow> arp" where
  "set_table dev t s = s\<lparr>ifnet := (ifnet s)(dev := (ifnet s dev)\<lparr>arpTable := t\<rparr>)\<rparr>"

section \<open>The cache\<close>

definition marked :: "ARPENTRY \<Rightarrow> bool" where
  "marked ae \<longleftrightarrow> ae_flags ae AND ATF_REM \<noteq> 0"

definition ArpCacheFlush :: "nat \<Rightarrow> arp \<Rightarrow> arp" where
  "ArpCacheFlush dev s =
     (let t = arpTable (ifnet s dev) in
      note_arp (map (\<lambda>ae. ArpWake (ae_ip ae)) (filter marked t)) (set_table dev (filter (\<lambda>ae. \<not> marked ae) t) s))"

definition age_entry :: "ARPENTRY \<Rightarrow> ARPENTRY" where
  "age_entry ae =
     (if ae_flags ae AND ATF_PERM = 0
      then let ae1 = ae\<lparr>ae_outdated := ae_outdated ae + 1\<rparr> in
        if ae_outdated ae \<ge> MAX_ARPAGE then ae1\<lparr>ae_flags := ae_flags ae OR ATF_REM\<rparr> else ae1
      else ae)"

definition age_device :: "nat \<Rightarrow> arp \<Rightarrow> arp" where
  "age_device dev s =
     (if if_ether (ifnet s dev) then
        let t = map age_entry (arpTable (ifnet s dev)); s1 = set_table dev t s in
        if foldr (\<lambda>ae rmf. rmf OR ae_flags ae) t 0 AND ATF_REM \<noteq> 0 then ArpCacheFlush dev s1 else s1
      else s)"

definition ArpCacheAging :: "arp \<Rightarrow> arp" where
  "ArpCacheAging s =
     (if seconds s - last_update s \<ge> 60 then fold age_device (dev_list s) (s\<lparr>last_update := seconds s\<rparr>) else s)"

fun ArpCacheLookup :: "ARPENTRY list \<Rightarrow> u32 \<Rightarrow> ARPENTRY option" where
  "ArpCacheLookup [] ip = None"
| "ArpCacheLookup (entry # es) ip = (if ae_ip entry = ip then Some entry else ArpCacheLookup es ip)"

definition new_entry :: "u32 \<Rightarrow> u8 list option \<Rightarrow> ARPENTRY" where
  "new_entry ip ha =
     \<lparr>ae_ip = ip, ae_ha = (case ha of None \<Rightarrow> replicate 6 0 | Some h \<Rightarrow> h), ae_flags = (if ha = None then 0 else ATF_COM), ae_outdated = 0\<rparr>"

definition ArpCacheNew :: "nat \<Rightarrow> u32 \<Rightarrow> u8 list option \<Rightarrow> arp \<Rightarrow> bool \<times> arp" where
  "ArpCacheNew dev ip ha s =
     (case arp_ask (ArpCacheAging s) of (mem, s1) \<Rightarrow>
        (mem, if mem then set_table dev (new_entry ip ha # arpTable (ifnet s1 dev)) s1 else s1))"

text \<open>Changing the entry of an address in the table.\<close>

fun upd_entry :: "u32 \<Rightarrow> (ARPENTRY \<Rightarrow> ARPENTRY) \<Rightarrow> ARPENTRY list \<Rightarrow> ARPENTRY list" where
  "upd_entry ip f [] = []"
| "upd_entry ip f (ae # es) = (if ae_ip ae = ip then f ae # es else ae # upd_entry ip f es)"

definition complete_entry :: "u8 list \<Rightarrow> ARPENTRY \<Rightarrow> ARPENTRY" where
  "complete_entry ha ae =
     (if ae_flags ae AND ATF_PERM = 0 then ae\<lparr>ae_outdated := 0, ae_ha := ha, ae_flags := ae_flags ae OR ATF_COM\<rparr> else ae)"

definition NutArpCacheUpdate :: "nat \<Rightarrow> u32 \<Rightarrow> u8 list \<Rightarrow> arp \<Rightarrow> arp" where
  "NutArpCacheUpdate dev ip ha s =
     (let t = arpTable (ifnet s dev) in
      case ArpCacheLookup t ip of
        Some _ \<Rightarrow> note_arp [ArpWake ip] (set_table dev (upd_entry ip (complete_entry ha) t) s)
      | None \<Rightarrow> snd (ArpCacheNew dev ip (Some ha) s))"

section \<open>Packets\<close>

definition arp_packet :: "u16 \<Rightarrow> u32 \<Rightarrow> u8 list option \<Rightarrow> ETHERARP" where
  "arp_packet ty ip mac =
     \<lparr>ar_hrd = 1, ar_pro = 0x0800, ar_hln = 6, ar_pln = 4, ar_op = ty, arp_sha = [], arp_spa = 0,
      arp_tha = (case mac of Some m \<Rightarrow> m | None \<Rightarrow> replicate 6 0xFF), arp_tpa = ip\<rparr>"

definition NutArpAllocNetBuf :: "u16 \<Rightarrow> u32 \<Rightarrow> u8 list option \<Rightarrow> arp \<Rightarrow> ETHERARP option \<times> arp" where
  "NutArpAllocNetBuf ty ip mac s =
     (case arp_ask s of (mem, s1) \<Rightarrow> (if mem then Some (arp_packet ty ip mac) else None, s1))"

text \<open>The driver releases the buffer if it fails.\<close>

definition NutArpOutput :: "nat \<Rightarrow> ETHERARP \<Rightarrow> arp \<Rightarrow> int \<times> arp" where
  "NutArpOutput dev nb s =
     (let ea = nb\<lparr>arp_sha := if_mac (ifnet s dev), arp_spa := if_local_ip (ifnet s dev)\<rparr> in
      case arp_ask s of (ok, s1) \<Rightarrow> if ok then (0, note_arp [ArpSent dev ea] s1) else (-1, note_arp [ArpFree] s1))"

definition arp_accepts :: "nat \<Rightarrow> nat \<Rightarrow> ETHERARP \<Rightarrow> arp \<Rightarrow> bool" where
  "arp_accepts dev sz ea s \<longleftrightarrow> \<not> sz < 28 \<and> \<not> (ar_hrd ea \<noteq> 1 \<or> ar_pro ea \<noteq> 0x0800 \<or> ar_hln ea \<noteq> 6 \<or> ar_pln ea \<noteq> 4)
     \<and> arp_tpa ea = if_local_ip (ifnet s dev)"

definition NutArpInput :: "(arp \<Rightarrow> arp) \<Rightarrow> nat \<Rightarrow> nat \<Rightarrow> ETHERARP \<Rightarrow> arp \<Rightarrow> arp" where
  "NutArpInput others dev sz ea s =
     (if \<not> arp_accepts dev sz ea s then note_arp [ArpFree] s
      else let s1 = others (NutArpCacheUpdate dev (arp_spa ea) (arp_sha ea) s) in
        note_arp [ArpFree]
          (if ar_op ea = ARPOP_REQUEST then
             (case NutArpAllocNetBuf ARPOP_REPLY (arp_spa ea) (Some (arp_sha ea)) s1 of
                (None, s2) \<Rightarrow> s2
              | (Some nbr, s2) \<Rightarrow> (case NutArpOutput dev nbr s2 of (rc, s3) \<Rightarrow> if rc = 0 then note_arp [ArpFree] s3 else s3))
           else s1))"

section \<open>Queries\<close>

definition mark_entry :: "ARPENTRY \<Rightarrow> ARPENTRY" where
  "mark_entry ae = ae\<lparr>ae_flags := ae_flags ae OR ATF_REM\<rparr>"

definition remove_entry :: "nat \<Rightarrow> u32 \<Rightarrow> arp \<Rightarrow> arp" where
  "remove_entry dev ip s = ArpCacheFlush dev (set_table dev (upd_entry ip mark_entry (arpTable (ifnet s dev))) s)"

text \<open>
  The loop of a query. \<open>nb\<close> is the request of the thread that has created the entry. The result is the address, and the buffer
  that is still held.
\<close>

fun query_loop :: "(arp \<Rightarrow> arp) \<Rightarrow> nat \<Rightarrow> nat \<Rightarrow> u32 \<Rightarrow> ETHERARP option \<Rightarrow> u32 \<Rightarrow> arp \<Rightarrow> u8 list option \<times> ETHERARP option \<times> arp" where
  "query_loop others retries dev ip nb tmo s =
     (case ArpCacheLookup (arpTable (ifnet s dev)) ip of
        None \<Rightarrow> (None, nb, s)
      | Some entry \<Rightarrow>
          if ae_flags entry AND ATF_COM \<noteq> 0 then (Some (ae_ha entry), nb, s)
          else case retries of
            0 \<Rightarrow> (None, nb, s)
          | Suc n \<Rightarrow>
              (let (rc, s1) = (case nb of None \<Rightarrow> (0, s) | Some ea \<Rightarrow> (case NutArpOutput dev ea s of (rc, s1) \<Rightarrow> (rc, others s1))) in
               if rc \<noteq> 0 then
                 (None, None,
                  case ArpCacheLookup (arpTable (ifnet s1 dev)) ip of
                    Some e \<Rightarrow> if ae_flags e AND ATF_COM = 0 then remove_entry dev ip s1 else s1
                  | None \<Rightarrow> s1)
               else query_loop others n dev ip nb (tmo + tmo) (others (note_arp [ArpWait ip tmo] s1))))"

definition query_end :: "nat \<Rightarrow> u32 \<Rightarrow> u8 list option \<times> ETHERARP option \<times> arp \<Rightarrow> u8 list option \<times> arp" where
  "query_end dev ip r =
     (case r of (mac, nb, s) \<Rightarrow>
        (mac, if nb \<noteq> None
              then let s1 = note_arp [ArpFree] s in
                if mac = None \<and> ArpCacheLookup (arpTable (ifnet s1 dev)) ip \<noteq> None then remove_entry dev ip s1 else s1
              else s))"

text \<open>\<open>requests\<close> is the constant \<^verbatim>\<open>MAX_ARPREQUESTS\<close> of the configuration, by default 1.\<close>

definition NutArpCacheQuery :: "(arp \<Rightarrow> arp) \<Rightarrow> nat \<Rightarrow> nat \<Rightarrow> u32 \<Rightarrow> arp \<Rightarrow> u8 list option \<times> arp" where
  "NutArpCacheQuery others requests dev ip s =
     (let s1 = ArpCacheAging s in
      case ArpCacheLookup (arpTable (ifnet s1 dev)) ip of
        Some _ \<Rightarrow> query_end dev ip (query_loop others requests dev ip None MIN_ARPWAIT s1)
      | None \<Rightarrow>
          (case ArpCacheNew dev ip None s1 of
             (False, s2) \<Rightarrow> (None, s2)
           | (True, s2) \<Rightarrow>
               (case NutArpAllocNetBuf ARPOP_REQUEST ip None s2 of
                  (None, s3) \<Rightarrow> (None, remove_entry dev ip s3)
                | (Some nb, s3) \<Rightarrow> query_end dev ip (query_loop others requests dev ip (Some nb) MIN_ARPWAIT s3))))"

declare query_loop.simps [simp del]

section \<open>Reading an updated state\<close>

definition tbl :: "arp \<Rightarrow> nat \<Rightarrow> ARPENTRY list" where
  "tbl s dev = arpTable (ifnet s dev)"

lemma arp_simps [simp]:
  "tbl (set_table dev t s) d = (if d = dev then t else tbl s d)" "tbl (note_arp as s) d = tbl s d" "tbl (snd (arp_ask s)) d = tbl s d"
  "tbl (s\<lparr>last_update := u\<rparr>) d = tbl s d" "tbl (s\<lparr>arp_asked := n\<rparr>) d = tbl s d"
  "arp_log (set_table dev t s) = arp_log s" "arp_log (note_arp as s) = arp_log s @ as" "arp_log (snd (arp_ask s)) = arp_log s"
  "dev_list (set_table dev t s) = dev_list s" "dev_list (note_arp as s) = dev_list s"
  "arp_answers (set_table dev t s) = arp_answers s" "arp_answers (note_arp as s) = arp_answers s"
  by (simp_all add: tbl_def set_table_def note_arp_def arp_ask_def)

lemma flush_tbl [simp]: "tbl (ArpCacheFlush dev s) d = (if d = dev then filter (\<lambda>ae. \<not> marked ae) (tbl s dev) else tbl s d)"
  by (simp add: ArpCacheFlush_def Let_def tbl_def [symmetric])

section \<open>Flags\<close>

lemma or_and_zero: "((a :: u8) OR b) AND m = 0 \<longleftrightarrow> a AND m = 0 \<and> b AND m = 0"
  by (simp add: bit.conj_disj_distrib2 or_eq_0_iff)

lemma marks_zero: "foldr (\<lambda>ae rmf. rmf OR ae_flags ae) t 0 AND ATF_REM = 0 \<longleftrightarrow> (\<forall>ae \<in> set t. \<not> marked ae)"
  by (induction t) (auto simp: or_and_zero marked_def)

lemma mark_entry_simps [simp]: "marked (mark_entry ae)" "ae_ip (mark_entry ae) = ae_ip ae" "ae_ha (mark_entry ae) = ae_ha ae"
  by (simp_all add: mark_entry_def marked_def or_and_zero) (simp add: ATF_REM_def)

lemma complete_entry_simps [simp]: "ae_ip (complete_entry ha ae) = ae_ip ae" "marked (complete_entry ha ae) = marked ae"
  "length (ae_ha ae) = n \<Longrightarrow> length ha = n \<Longrightarrow> length (ae_ha (complete_entry ha ae)) = n"
  by (simp_all add: complete_entry_def marked_def or_and_zero) (simp add: ATF_COM_def ATF_REM_def)

lemma age_entry_ip [simp]: "ae_ip (age_entry ae) = ae_ip ae" "ae_ha (age_entry ae) = ae_ha ae"
  by (simp_all add: age_entry_def Let_def)

lemma age_device_tbl:
  "tbl (age_device dev s) d = (if d = dev \<and> if_ether (ifnet s dev) then filter (\<lambda>ae. \<not> marked ae) (map age_entry (tbl s dev)) else tbl s d)"
proof -
  have "filter (\<lambda>ae. \<not> marked ae) t = t" if "\<forall>ae \<in> set t. \<not> marked ae" for t using that by (simp add: filter_True)
  then show ?thesis using marks_zero [of "map age_entry (tbl s dev)"] by (auto simp: age_device_def Let_def tbl_def [symmetric])
qed

section \<open>The table\<close>

lemma lookup_set: "ArpCacheLookup t ip = Some ae \<Longrightarrow> ae \<in> set t \<and> ae_ip ae = ip"
  by (induction t) (auto split: if_splits)

lemma lookup_None: "ArpCacheLookup t ip = None \<longleftrightarrow> ip \<notin> ae_ip ` set t"
  by (induction t) auto

lemma lookup_upd: "(\<And>ae. ae_ip (f ae) = ae_ip ae) \<Longrightarrow>
    ArpCacheLookup (upd_entry ip f t) ip' = (if ip' = ip then map_option f (ArpCacheLookup t ip) else ArpCacheLookup t ip')"
  by (induction t) auto

lemma lookup_filter: "distinct (map ae_ip t) \<Longrightarrow>
    ArpCacheLookup (filter P t) ip = (case ArpCacheLookup t ip of None \<Rightarrow> None | Some ae \<Rightarrow> if P ae then Some ae else None)"
proof (induction t)
  case (Cons a t)
  then have "ArpCacheLookup t (ae_ip a) = None" by (auto simp: lookup_None)
  with Cons show ?case by (cases "ae_ip a = ip") auto
qed simp

lemma lookup_map: "(\<And>ae. ae_ip (f ae) = ae_ip ae) \<Longrightarrow> ArpCacheLookup (map f t) ip = map_option f (ArpCacheLookup t ip)"
  by (induction t) auto

lemma upd_ips: "(\<And>ae. ae_ip (f ae) = ae_ip ae) \<Longrightarrow> map ae_ip (upd_entry ip f t) = map ae_ip t"
  by (induction t) auto

lemma upd_set: "ae \<in> set (upd_entry ip f t) \<Longrightarrow> ae \<in> set t \<or> (\<exists>e \<in> set t. ae = f e)"
  by (induction t) (auto split: if_splits)

text \<open>The invariant: one entry for an address, none marked for removal, hardware addresses of six bytes.\<close>

definition table_ok :: "ARPENTRY list \<Rightarrow> bool" where
  "table_ok t \<longleftrightarrow> distinct (map ae_ip t) \<and> (\<forall>ae \<in> set t. \<not> marked ae \<and> length (ae_ha ae) = 6)"

definition arp_ok :: "arp \<Rightarrow> bool" where
  "arp_ok s \<longleftrightarrow> (\<forall>dev. table_ok (tbl s dev))"

lemma arp_ok_cong: "(\<And>d. tbl s' d = tbl s d) \<Longrightarrow> arp_ok s' = arp_ok s"
  by (simp add: arp_ok_def)

lemma arp_okD: "arp_ok s \<Longrightarrow> table_ok (tbl s dev)"
  by (simp add: arp_ok_def)

lemma arp_ok_simps [simp]: "arp_ok (note_arp as s) = arp_ok s" "arp_ok (snd (arp_ask s)) = arp_ok s" "arp_ok (s\<lparr>last_update := u\<rparr>) = arp_ok s"
  by (rule arp_ok_cong; simp)+

lemma arp_ok_set_table: "arp_ok s \<Longrightarrow> table_ok t \<Longrightarrow> arp_ok (set_table dev t s)"
  by (simp add: arp_ok_def)

lemma flush_table_ok: "distinct (map ae_ip t) \<Longrightarrow> \<forall>ae \<in> set t. length (ae_ha ae) = 6 \<Longrightarrow> table_ok (filter (\<lambda>ae. \<not> marked ae) t)"
  by (simp add: table_ok_def distinct_map_filter)

lemma age_ok:
  assumes "arp_ok s"
  shows "arp_ok (age_device dev s)"
proof -
  have "table_ok (filter (\<lambda>ae. \<not> marked ae) (map age_entry (tbl s dev)))"
    using arp_okD [OF assms, of dev] by (intro flush_table_ok) (auto simp: table_ok_def comp_def)
  then show ?thesis using assms by (simp add: arp_ok_def age_device_tbl)
qed

lemma fold_age_ok: "arp_ok s \<Longrightarrow> arp_ok (fold age_device ds s)"
  by (induction ds arbitrary: s) (auto intro: age_ok)

lemma ArpCacheAging_ok: "arp_ok s \<Longrightarrow> arp_ok (ArpCacheAging s)"
  by (simp add: ArpCacheAging_def fold_age_ok)

lemma remove_tbl: "tbl (remove_entry dev ip s) d = (if d = dev then filter (\<lambda>ae. \<not> marked ae) (upd_entry ip mark_entry (tbl s dev)) else tbl s d)"
  by (simp add: remove_entry_def tbl_def [symmetric])

lemma remove_ok:
  assumes "arp_ok s"
  shows "arp_ok (remove_entry dev ip s)"
proof -
  have "table_ok (filter (\<lambda>ae. \<not> marked ae) (upd_entry ip mark_entry (tbl s dev)))"
    using arp_okD [OF assms, of dev] by (intro flush_table_ok) (auto simp: table_ok_def upd_ips dest!: upd_set)
  then show ?thesis using assms by (simp add: arp_ok_def remove_tbl)
qed

lemma remove_lookup:
  assumes "arp_ok s"
  shows "ArpCacheLookup (tbl (remove_entry dev ip s) dev) ip = None"
  using arp_okD [OF assms, of dev] by (auto simp: remove_tbl table_ok_def lookup_filter upd_ips lookup_upd split: option.split)

lemma new_ok:
  assumes "arp_ok s" "ip \<notin> ae_ip ` set (tbl s dev)" "\<forall>h. ha = Some h \<longrightarrow> length h = 6"
  shows "arp_ok (set_table dev (new_entry ip ha # tbl s dev) s)"
  using assms arp_okD [OF assms(1), of dev]
  by (intro arp_ok_set_table) (auto simp: table_ok_def new_entry_def marked_def atf_defs split: option.split)

lemma age_ips: "ae_ip ` set (tbl (age_device d s) dev) \<subseteq> ae_ip ` set (tbl s dev)"
  by (auto simp: age_device_tbl)

lemma fold_age_ips: "ae_ip ` set (tbl (fold age_device ds s) dev) \<subseteq> ae_ip ` set (tbl s dev)"
  by (induction ds arbitrary: s) (use age_ips in fastforce)+

lemma aging_ips: "ae_ip ` set (tbl (ArpCacheAging s) dev) \<subseteq> ae_ip ` set (tbl s dev)"
  using fold_age_ips [of "dev_list s" "s\<lparr>last_update := seconds s\<rparr>" dev] by (simp add: ArpCacheAging_def)

lemma ArpCacheNew_tbl:
  "tbl (snd (ArpCacheNew dev ip ha s)) = (\<lambda>d. if d = dev \<and> fst (ArpCacheNew dev ip ha s) then new_entry ip ha # tbl (ArpCacheAging s) dev else tbl (ArpCacheAging s) d)"
  by (auto simp: ArpCacheNew_def arp_ask_def tbl_def [symmetric])

lemma ArpCacheNew_ok:
  assumes "arp_ok s" "ArpCacheLookup (tbl s dev) ip = None" "\<forall>h. ha = Some h \<longrightarrow> length h = 6"
  shows "arp_ok (snd (ArpCacheNew dev ip ha s))"
proof -
  have a: "arp_ok (ArpCacheAging s)" by (rule ArpCacheAging_ok [OF assms(1)])
  have "ip \<notin> ae_ip ` set (tbl (ArpCacheAging s) dev)" using assms(2) aging_ips [of s dev] by (auto simp: lookup_None)
  from arp_okD [OF new_ok [OF a this assms(3)], of dev] a show ?thesis by (simp add: arp_ok_def ArpCacheNew_tbl)
qed

lemma update_ok:
  assumes "arp_ok s" "length ha = 6"
  shows "arp_ok (NutArpCacheUpdate dev ip ha s)"
proof (cases "ArpCacheLookup (tbl s dev) ip")
  case None
  then show ?thesis using ArpCacheNew_ok [OF assms(1) None, of "Some ha"] assms(2) by (simp add: NutArpCacheUpdate_def tbl_def)
next
  case (Some e)
  have "table_ok (upd_entry ip (complete_entry ha) (tbl s dev))"
    using arp_okD [OF assms(1), of dev] assms(2) by (auto simp: table_ok_def upd_ips dest!: upd_set)
  then show ?thesis using Some assms(1) by (simp add: NutArpCacheUpdate_def Let_def tbl_def [symmetric] arp_ok_set_table)
qed

section \<open>What a query does\<close>

text \<open>
  The requests that are sent and the timeouts of the waits, in the log of the querying thread. Other threads keep the cache in order; their
  events are not in this log.
\<close>

fun sends :: "arp_action list \<Rightarrow> nat" where
  "sends [] = 0"
| "sends (ArpSent d ea # as) = Suc (sends as)"
| "sends (_ # as) = sends as"

fun waits :: "arp_action list \<Rightarrow> u32 list" where
  "waits [] = []"
| "waits (ArpWait ip tmo # as) = tmo # waits as"
| "waits (_ # as) = waits as"

primrec doubled :: "nat \<Rightarrow> u32 \<Rightarrow> u32 list" where
  "doubled 0 tmo = []"
| "doubled (Suc n) tmo = tmo # doubled n (tmo + tmo)"

definition others_ok :: "(arp \<Rightarrow> arp) \<Rightarrow> bool" where
  "others_ok others \<longleftrightarrow> (\<forall>s. arp_ok s \<longrightarrow> arp_ok (others s) \<and> arp_log (others s) = arp_log s)"

lemma sends_append [simp]: "sends (as @ bs) = sends as + sends bs"
  by (induction as rule: sends.induct) auto

lemma waits_append [simp]: "waits (as @ bs) = waits as @ waits bs"
  by (induction as rule: waits.induct) auto

lemma sends_wakes [simp]: "sends (map (\<lambda>ae. ArpWake (f ae)) t) = 0"
  by (induction t) auto

lemma waits_wakes [simp]: "waits (map (\<lambda>ae. ArpWake (f ae)) t) = []"
  by (induction t) auto

definition log_by :: "arp \<Rightarrow> arp \<Rightarrow> nat \<Rightarrow> u32 list \<Rightarrow> bool" where
  "log_by s s' n ws \<longleftrightarrow> (\<exists>as. arp_log s' = arp_log s @ as \<and> sends as = n \<and> waits as = ws)"

lemma log_by_refl: "arp_log s' = arp_log s \<Longrightarrow> log_by s s' 0 []"
  by (simp add: log_by_def)

lemma log_by_trans: "log_by s t n ws \<Longrightarrow> log_by t u m vs \<Longrightarrow> log_by s u (n + m) (ws @ vs)"
  by (auto simp: log_by_def)

lemma log_by_note: "log_by s (note_arp as s) (sends as) (waits as)"
  by (simp add: log_by_def)

lemma flush_log: "log_by s (ArpCacheFlush dev s) 0 []"
  by (simp add: log_by_def ArpCacheFlush_def Let_def)

lemma remove_log: "log_by s (remove_entry dev ip s) 0 []"
  using flush_log [of "set_table dev (upd_entry ip mark_entry (arpTable (ifnet s dev))) s" dev] by (simp add: remove_entry_def log_by_def)

lemma age_log: "log_by s (age_device dev s) 0 []"
  using flush_log [of "set_table dev (map age_entry (arpTable (ifnet s dev))) s" dev] by (auto simp: age_device_def Let_def log_by_def)

lemma fold_age_log: "log_by s (fold age_device ds s) 0 []"
proof (induction ds arbitrary: s)
  case (Cons d ds)
  show ?case using log_by_trans [OF age_log [of s d] Cons [of "age_device d s"]] by simp
qed (simp add: log_by_refl)

lemma aging_log: "log_by s (ArpCacheAging s) 0 []"
  using fold_age_log [of "s\<lparr>last_update := seconds s\<rparr>" "dev_list s"] by (auto simp: ArpCacheAging_def log_by_def)

lemma output_spec:
  "arp_ok (snd (NutArpOutput dev nb s)) = arp_ok s" "fst (NutArpOutput dev nb s) = 0 \<or> fst (NutArpOutput dev nb s) = -1"
  "log_by s (snd (NutArpOutput dev nb s)) (if fst (NutArpOutput dev nb s) = 0 then 1 else 0) []"
  using arp_ok_simps(2) [of s] by (auto simp: NutArpOutput_def Let_def arp_ask_def log_by_def)

text \<open>What a query leaves: an answer from the cache, or no incomplete entry of its own.\<close>

definition answered :: "nat \<Rightarrow> u32 \<Rightarrow> u8 list \<Rightarrow> arp \<Rightarrow> bool" where
  "answered dev ip m s \<longleftrightarrow> (\<exists>e. ArpCacheLookup (tbl s dev) ip = Some e \<and> ae_flags e AND ATF_COM \<noteq> 0 \<and> ae_ha e = m)"

definition no_incomplete :: "nat \<Rightarrow> u32 \<Rightarrow> arp \<Rightarrow> bool" where
  "no_incomplete dev ip s \<longleftrightarrow> (\<forall>e. ArpCacheLookup (tbl s dev) ip = Some e \<longrightarrow> ae_flags e AND ATF_COM \<noteq> 0)"

lemma loop_step:
  assumes "others_ok others" "arp_ok s"
  shows "case (case nb of None \<Rightarrow> (0, s) | Some ea \<Rightarrow> (case NutArpOutput dev ea s of (rc, s1) \<Rightarrow> (rc, others s1))) of
    (rc :: int, s1) \<Rightarrow> arp_ok s1 \<and> (nb = None \<longrightarrow> rc = 0) \<and> (\<exists>k \<le> 1. log_by s s1 k []) \<and> (rc \<noteq> 0 \<longrightarrow> log_by s s1 0 [])"
proof (cases nb)
  case None
  then show ?thesis using assms(2) log_by_refl [of s s] by auto
next
  case (Some ea)
  obtain rc s1 where o: "NutArpOutput dev ea s = (rc, s1)" by fastforce
  with output_spec [where dev = dev and nb = ea and s = s] assms have "arp_ok s1" "\<exists>k \<le> 1. log_by s s1 k []" "rc \<noteq> 0 \<longrightarrow> log_by s s1 0 []" by (auto split: if_splits)
  moreover from this(1) assms(1) have "arp_ok (others s1)" "arp_log (others s1) = arp_log s1" by (auto simp: others_ok_def)
  ultimately show ?thesis using Some o by (simp add: log_by_def)
qed

lemma query_loop_spec:
  assumes O: "others_ok others" and "arp_ok s" "query_loop others n dev ip nb tmo s = (mac, nb', s')"
  shows "arp_ok s' \<and> (\<forall>m. mac = Some m \<longrightarrow> answered dev ip m s') \<and> (nb' = nb \<or> nb' = None \<and> mac = None \<and> no_incomplete dev ip s')
    \<and> (nb = None \<longrightarrow> nb' = None) \<and> (\<exists>k m. k \<le> n \<and> m \<le> n \<and> log_by s s' k (doubled m tmo))"
  using assms(2,3)
proof (induction n arbitrary: nb tmo s)
  case 0
  then show ?case using log_by_refl [of s s]
    by (subst (asm) query_loop.simps) (auto simp: answered_def tbl_def split: option.splits if_splits intro!: exI [of _ 0])
next
  case (Suc n)
  show ?case
  proof (cases "\<exists>e. ArpCacheLookup (tbl s dev) ip = Some e \<and> ae_flags e AND ATF_COM = 0")
    case False
    then show ?thesis using Suc.prems log_by_refl [of s s]
      by (subst (asm) query_loop.simps) (auto simp: answered_def tbl_def split: option.splits if_splits intro!: exI [of _ 0])
  next
    case True
    obtain rc s1 where st: "(case nb of None \<Rightarrow> (0, s) | Some ea \<Rightarrow> (case NutArpOutput dev ea s of (rc, s1) \<Rightarrow> (rc, others s1))) = (rc :: int, s1)"
      by fastforce
    from loop_step [OF O Suc.prems(1), of nb dev, unfolded st prod.case] obtain k where
      s1: "arp_ok s1" "nb = None \<longrightarrow> rc = 0" "k \<le> 1" "log_by s s1 k []" "rc \<noteq> 0 \<longrightarrow> log_by s s1 0 []" by blast
    let ?s2 = "others (note_arp [ArpWait ip tmo] s1)"
    have unf: "(mac, nb', s') = (if rc \<noteq> 0 then (None, None, case ArpCacheLookup (tbl s1 dev) ip of
          Some e \<Rightarrow> if ae_flags e AND ATF_COM = 0 then remove_entry dev ip s1 else s1 | None \<Rightarrow> s1)
        else query_loop others n dev ip nb (tmo + tmo) ?s2)"
      using Suc.prems(2) True st by (subst (asm) query_loop.simps) (auto simp: tbl_def)
    show ?thesis
    proof (cases "rc = 0")
      case rc: True
      have s2: "arp_ok ?s2" "arp_log ?s2 = arp_log (note_arp [ArpWait ip tmo] s1)" using O s1(1) by (auto simp: others_ok_def)
      have l2: "log_by s ?s2 k [tmo]" using s1(4) s2(2) by (auto simp: log_by_def)
      from Suc.IH [OF s2(1)] unf rc obtain k' m where ih: "arp_ok s'" "\<forall>m. mac = Some m \<longrightarrow> answered dev ip m s'"
        "nb' = nb \<or> nb' = None \<and> mac = None \<and> no_incomplete dev ip s'" "nb = None \<longrightarrow> nb' = None"
        "k' \<le> n" "m \<le> n" "log_by ?s2 s' k' (doubled m (tmo + tmo))" by metis
      have "log_by s s' (k + k') (doubled (Suc m) tmo)" using log_by_trans [OF l2 ih(7)] by simp
      then show ?thesis using ih s1(3) by (intro conjI exI [of _ "k + k'"] exI [of _ "Suc m"]) auto
    next
      case rc: False
      have e: "mac = None" "nb' = None" using unf rc by auto
      have s': "s' = s1 \<and> no_incomplete dev ip s1 \<or> s' = remove_entry dev ip s1"
        using unf rc by (auto simp: no_incomplete_def split: option.splits if_splits)
      have "arp_ok s'" "no_incomplete dev ip s'"
        using s' s1(1) remove_ok [OF s1(1), of dev ip] remove_lookup [OF s1(1), of dev ip] by (auto simp: no_incomplete_def)
      moreover have "log_by s s' 0 []" using s' s1(5) rc log_by_trans [OF _ remove_log, of s s1 0 "[]" dev ip] by auto
      ultimately show ?thesis using e by (auto intro!: exI [of _ 0])
    qed
  qed
qed

lemma query_end_spec:
  assumes "arp_ok s" "query_end dev ip (mac, nb, s) = (mac', s')"
  shows "mac' = mac \<and> arp_ok s' \<and> log_by s s' 0 [] \<and> (mac \<noteq> None \<longrightarrow> tbl s' = tbl s)
    \<and> (mac = None \<and> (nb \<noteq> None \<or> no_incomplete dev ip s) \<longrightarrow> no_incomplete dev ip s')"
proof -
  let ?s = "note_arp [ArpFree] s"
  have ok: "arp_ok ?s" using assms(1) by simp
  have l: "log_by s ?s 0 []" "log_by s (remove_entry dev ip ?s) 0 []" "log_by s s 0 []"
    using log_by_note [of s "[ArpFree]"] log_by_trans [OF _ remove_log, of s ?s 0 "[]" dev ip] log_by_refl [of s s] by simp_all
  show ?thesis
    using assms l remove_ok [OF ok, of dev ip] remove_lookup [OF ok, of dev ip] ok
    by (auto simp: query_end_def Let_def no_incomplete_def tbl_def [symmetric] split: if_splits)
qed

lemma query_run:
  assumes "others_ok others" "arp_ok s" "query_end dev ip (query_loop others n dev ip nb tmo s) = (mac, s')"
  shows "arp_ok s' \<and> (\<forall>m. mac = Some m \<longrightarrow> answered dev ip m s' \<and> length m = 6) \<and> (mac = None \<and> nb \<noteq> None \<longrightarrow> no_incomplete dev ip s')
    \<and> (\<exists>k m. k \<le> n \<and> m \<le> n \<and> log_by s s' k (doubled m tmo))"
proof -
  obtain mac1 nb1 s3 where q: "query_loop others n dev ip nb tmo s = (mac1, nb1, s3)" by (metis prod_cases3)
  from query_loop_spec [OF assms(1,2) q] obtain k m where
    l: "arp_ok s3" "\<forall>m. mac1 = Some m \<longrightarrow> answered dev ip m s3" "nb1 = nb \<or> nb1 = None \<and> mac1 = None \<and> no_incomplete dev ip s3"
      "k \<le> n" "m \<le> n" "log_by s s3 k (doubled m tmo)" by blast
  note e = query_end_spec [OF l(1) assms(3) [unfolded q]]
  have "log_by s s' k (doubled m tmo)" using log_by_trans [OF l(6)] e by fastforce
  moreover have "answered dev ip m s'" if "mac = Some m" for m using l(2) e that by (auto simp: answered_def)
  moreover have "length m = 6" if "answered dev ip m s'" for m
    using that arp_okD [of s' dev] e by (auto simp: answered_def table_ok_def dest!: lookup_set)
  ultimately show ?thesis using e l(3-5) by blast
qed

text \<open>
  C25: A query of the ARP cache, whatever other threads do with the cache meanwhile, ends with at most \<open>requests\<close> requests sent and at most as
  many waits, whose timeouts start at the minimum and double each time. A hardware address that it returns is the one of a completed entry for the
  address in the cache. If it fails, the thread that has created the entry leaves no incomplete entry behind. There
  is at most one entry for an address at all times, and none is left marked for removal.
\<close>

theorem arp_query_correct:
  assumes "others_ok others" "arp_ok s" "NutArpCacheQuery others requests dev ip s = (mac, s')"
  shows "arp_ok s' \<and> (\<forall>m. mac = Some m \<longrightarrow> answered dev ip m s' \<and> length m = 6)
    \<and> (mac = None \<and> ArpCacheLookup (tbl (ArpCacheAging s) dev) ip = None \<longrightarrow> no_incomplete dev ip s')
    \<and> (\<exists>k m. k \<le> requests \<and> m \<le> requests \<and> log_by s s' k (doubled m MIN_ARPWAIT))"
proof -
  let ?s1 = "ArpCacheAging s"
  have ok1: "arp_ok ?s1" by (rule ArpCacheAging_ok [OF assms(2)])
  have loop: ?thesis if "arp_ok s2" "log_by s s2 0 []" "query_end dev ip (query_loop others requests dev ip nb MIN_ARPWAIT s2) = (mac, s')"
    "nb = None \<longrightarrow> ArpCacheLookup (tbl ?s1 dev) ip \<noteq> None" for s2 nb
    using query_run [OF assms(1) that(1,3)] log_by_trans [OF that(2)] that(4) by fastforce
  show ?thesis
  proof (cases "ArpCacheLookup (tbl ?s1 dev) ip")
    case (Some e)
    then show ?thesis using loop [OF ok1 aging_log, of None] assms(3) by (simp add: NutArpCacheQuery_def Let_def tbl_def)
  next
    case None
    obtain mem s2 where n: "ArpCacheNew dev ip None ?s1 = (mem, s2)" by fastforce
    have ok2: "arp_ok s2" using ArpCacheNew_ok [OF ok1 None, of None] n by simp
    have "log_by ?s1 s2 0 []" using aging_log [of ?s1] n by (auto simp: ArpCacheNew_def arp_ask_def log_by_def)
    then have l2: "log_by s s2 0 []" using log_by_trans [OF aging_log] by fastforce
    obtain nb s3 where a: "NutArpAllocNetBuf ARPOP_REQUEST ip None s2 = (nb, s3)" by fastforce
    have s3: "arp_ok s3" "log_by s s3 0 []" "tbl s3 = tbl s2" using a ok2 l2 arp_ok_simps(2) [of s2] by (auto simp: NutArpAllocNetBuf_def arp_ask_def log_by_def)
    show ?thesis
    proof (cases mem)
      case False
      have "ArpCacheLookup (tbl s2 dev) ip = None" using None False n ArpCacheNew_tbl [of dev ip None ?s1] aging_ips [of ?s1 dev] by (auto simp: lookup_None)
      then show ?thesis using assms(3) False None n ok2 l2
        by (auto simp: NutArpCacheQuery_def Let_def tbl_def no_incomplete_def intro!: exI [of _ 0])
    next
      case True
      show ?thesis
      proof (cases nb)
        case (Some ea)
        then show ?thesis using loop [OF s3(1,2), of "Some ea"] assms(3) None True n a by (simp add: NutArpCacheQuery_def Let_def tbl_def)
      next
        case nb: None
        then have r: "mac = None" "s' = remove_entry dev ip s3" using assms(3) None True n a by (simp_all add: NutArpCacheQuery_def Let_def tbl_def)
        moreover have "log_by s s' 0 []" unfolding r(2) using log_by_trans [OF s3(2) remove_log, of dev ip] by simp
        ultimately show ?thesis using remove_ok [OF s3(1), of dev ip] remove_lookup [OF s3(1), of dev ip] by (auto simp: no_incomplete_def intro!: exI [of _ 0])
      qed
    qed
  qed
qed

section \<open>Two stations\<close>

text \<open>What the operations keep of a station: its addresses and what the environment answers.\<close>

definition station :: "arp \<Rightarrow> arp \<Rightarrow> bool" where
  "station s' s \<longleftrightarrow> (\<forall>d. if_mac (ifnet s' d) = if_mac (ifnet s d) \<and> if_local_ip (ifnet s' d) = if_local_ip (ifnet s d)) \<and> arp_answers s' = arp_answers s"

lemma station_trans: "station t u \<Longrightarrow> station s t \<Longrightarrow> station s u"
  by (simp add: station_def)

lemma station_simps [simp]:
  "station s s" "station (set_table dev t s) u = station s u" "station (note_arp as s) u = station s u" "station (snd (arp_ask s)) u = station s u"
  "station (s\<lparr>last_update := v\<rparr>) u = station s u" "station (s\<lparr>arp_asked := n\<rparr>) u = station s u"
  by (auto simp: station_def set_table_def note_arp_def arp_ask_def)

lemma station_flush [simp]: "station (ArpCacheFlush dev s) u = station s u"
  by (simp add: ArpCacheFlush_def Let_def)

lemma station_age: "station (age_device dev s) s"
  by (simp add: age_device_def Let_def)

lemma station_fold: "station (fold age_device ds s) s"
proof (induction ds arbitrary: s)
  case (Cons d ds)
  then show ?case using station_trans [OF station_age] by fastforce
qed simp

lemma station_aging: "station (ArpCacheAging s) s"
  using station_trans [OF _ station_fold, of "s\<lparr>last_update := seconds s\<rparr>" s] by (simp add: ArpCacheAging_def)

lemma station_new: "station (snd (ArpCacheNew dev ip ha s)) s"
  by (simp add: ArpCacheNew_def arp_ask_def station_aging)

lemma station_update: "station (NutArpCacheUpdate dev ip ha s) s"
  by (simp add: NutArpCacheUpdate_def Let_def station_new split: option.split)

definition not_permanent :: "nat \<Rightarrow> u32 \<Rightarrow> arp \<Rightarrow> bool" where
  "not_permanent dev ip s \<longleftrightarrow> (\<forall>e. ArpCacheLookup (tbl s dev) ip = Some e \<longrightarrow> ae_flags e AND ATF_PERM = 0)"

text \<open>An update is found afterwards, if there is memory and the entry is not permanent.\<close>

lemma update_answered:
  assumes "not_permanent dev ip s" "\<And>n. arp_answers s n"
  shows "answered dev ip ha (NutArpCacheUpdate dev ip ha s) \<and> not_permanent dev ip (NutArpCacheUpdate dev ip ha s)"
proof (cases "ArpCacheLookup (tbl s dev) ip")
  case None
  have "fst (ArpCacheNew dev ip (Some ha) s)" using station_aging [of s] assms(2) by (simp add: ArpCacheNew_def arp_ask_def station_def)
  then show ?thesis using None
    by (simp add: answered_def not_permanent_def NutArpCacheUpdate_def tbl_def [symmetric] ArpCacheNew_tbl new_entry_def atf_defs)
next
  case (Some e)
  then have "ae_flags e AND ATF_PERM = 0" using assms(1) by (simp add: not_permanent_def)
  then show ?thesis using Some
    by (simp add: answered_def not_permanent_def NutArpCacheUpdate_def Let_def tbl_def [symmetric] lookup_upd complete_entry_def or_and_zero)
      (simp add: atf_defs)
qed

fun last_sent :: "arp_action list \<Rightarrow> ETHERARP option" where
  "last_sent [] = None"
| "last_sent (ArpSent d ea # as) = (case last_sent as of None \<Rightarrow> Some ea | Some e \<Rightarrow> Some e)"
| "last_sent (_ # as) = last_sent as"

lemma last_sent_append: "last_sent (as @ bs) = (case last_sent bs of None \<Rightarrow> last_sent as | Some e \<Rightarrow> Some e)"
  by (induction as rule: last_sent.induct) (auto split: option.splits)

text \<open>
  A network that delivers the packet that station \<open>a\<close> has sent last to station \<open>b\<close>, and the answer of \<open>b\<close> to \<open>a\<close>.
\<close>

definition reply_of :: "nat \<Rightarrow> ETHERARP \<Rightarrow> arp \<Rightarrow> ETHERARP option" where
  "reply_of dev ea b = last_sent (drop (length (arp_log b)) (arp_log (NutArpInput id dev 28 ea b)))"

definition network :: "nat \<Rightarrow> arp \<Rightarrow> nat \<Rightarrow> arp \<Rightarrow> arp" where
  "network devb b dev a =
     (case last_sent (arp_log a) of
        None \<Rightarrow> a
      | Some ea \<Rightarrow> (case reply_of devb ea b of None \<Rightarrow> a | Some r \<Rightarrow> NutArpInput id dev 28 r a))"

definition filled :: "nat \<Rightarrow> arp \<Rightarrow> ETHERARP \<Rightarrow> ETHERARP" where
  "filled dev s ea = ea\<lparr>arp_sha := if_mac (ifnet s dev), arp_spa := if_local_ip (ifnet s dev)\<rparr>"

lemma last_sent_none: "sends as = 0 \<Longrightarrow> last_sent as = None"
  by (induction as rule: last_sent.induct) auto

lemma update_log: "log_by s (NutArpCacheUpdate dev ip ha s) 0 []"
  using aging_log [of s] by (auto simp: NutArpCacheUpdate_def Let_def ArpCacheNew_def arp_ask_def log_by_def split: option.split)

lemma log_by_last: "log_by s s' 0 ws \<Longrightarrow> last_sent (arp_log s') = last_sent (arp_log s)"
  by (auto simp: log_by_def last_sent_append last_sent_none)

text \<open>A request for the address of a station is answered, and its sender is learned.\<close>

lemma request_answered:
  assumes "arp_accepts dev 28 ea b" "ar_op ea = ARPOP_REQUEST" "\<And>n. arp_answers b n" "not_permanent dev (arp_spa ea) b"
  shows "reply_of dev ea b = Some (filled dev b (arp_packet ARPOP_REPLY (arp_spa ea) (Some (arp_sha ea))))"
    "answered dev (arp_spa ea) (arp_sha ea) (NutArpInput id dev 28 ea b)"
proof -
  let ?u = "NutArpCacheUpdate dev (arp_spa ea) (arp_sha ea) b"
  have st: "station ?u b" by (rule station_update)
  then have mem: "\<And>n. arp_answers ?u n" using assms(3) by (simp add: station_def)
  let ?r = "filled dev b (arp_packet ARPOP_REPLY (arp_spa ea) (Some (arp_sha ea)))"
  have i: "NutArpInput id dev 28 ea b = note_arp [ArpSent dev ?r, ArpFree, ArpFree] (?u\<lparr>arp_asked := arp_asked ?u + 2\<rparr>)"
    using assms(1,2) mem st by (simp add: NutArpInput_def Let_def NutArpAllocNetBuf_def NutArpOutput_def arp_ask_def filled_def note_arp_def station_def)
  obtain as where "arp_log ?u = arp_log b @ as" "sends as = 0" using update_log [of b dev] by (auto simp: log_by_def)
  then show "reply_of dev ea b = Some ?r" unfolding reply_of_def i by (simp add: last_sent_append)
  show "answered dev (arp_spa ea) (arp_sha ea) (NutArpInput id dev 28 ea b)"
    using update_answered [OF assms(4,3)] unfolding i by (simp add: answered_def)
qed

lemma reply_learned:
  assumes "arp_accepts dev 28 ea a" "ar_op ea \<noteq> ARPOP_REQUEST" "\<And>n. arp_answers a n" "not_permanent dev (arp_spa ea) a"
  defines "a' \<equiv> NutArpInput id dev 28 ea a"
  shows "answered dev (arp_spa ea) (arp_sha ea) a'" "not_permanent dev (arp_spa ea) a'" "station a' a" "log_by a a' 0 []"
proof -
  let ?u = "NutArpCacheUpdate dev (arp_spa ea) (arp_sha ea) a"
  have i: "a' = note_arp [ArpFree] ?u" using assms(1,2) by (simp add: a'_def NutArpInput_def)
  show "answered dev (arp_spa ea) (arp_sha ea) a'" "not_permanent dev (arp_spa ea) a'"
    using update_answered [OF assms(4,3), of "arp_sha ea"] unfolding i by (simp_all add: answered_def not_permanent_def)
  show "station a' a" unfolding i by (simp add: station_update)
  show "log_by a a' 0 []" unfolding i using log_by_trans [OF update_log [of a dev "arp_spa ea" "arp_sha ea"] log_by_note [of _ "[ArpFree]"]] by simp
qed

definition peers :: "nat \<Rightarrow> arp \<Rightarrow> nat \<Rightarrow> u32 \<Rightarrow> arp \<Rightarrow> bool" where
  "peers devb b dev ip a \<longleftrightarrow> (\<forall>n. arp_answers a n) \<and> (\<forall>n. arp_answers b n) \<and> if_local_ip (ifnet b devb) = ip
     \<and> not_permanent devb (if_local_ip (ifnet a dev)) b"

lemma network_delivers:
  assumes p: "peers devb b dev ip a" and l: "last_sent (arp_log a) = Some (filled dev a (arp_packet ARPOP_REQUEST ip None))"
    and np: "not_permanent dev ip a"
  defines "a' \<equiv> network devb b dev a"
  shows "answered dev ip (if_mac (ifnet b devb)) a'" "not_permanent dev ip a'" "station a' a" "log_by a a' 0 []"
    "answered devb (if_local_ip (ifnet a dev)) (if_mac (ifnet a dev)) (NutArpInput id devb 28 (filled dev a (arp_packet ARPOP_REQUEST ip None)) b)"
proof -
  let ?q = "filled dev a (arp_packet ARPOP_REQUEST ip None)"
  let ?r = "filled devb b (arp_packet ARPOP_REPLY (arp_spa ?q) (Some (arp_sha ?q)))"
  have acc: "arp_accepts devb 28 ?q b" using p by (simp add: arp_accepts_def filled_def arp_packet_def peers_def)
  have op: "ar_op ?q = ARPOP_REQUEST" by (simp add: filled_def arp_packet_def)
  have mem: "\<And>n. arp_answers b n" and npb: "not_permanent devb (arp_spa ?q) b" using p by (simp_all add: peers_def filled_def)
  note q = request_answered [OF acc op mem npb]
  have a': "a' = NutArpInput id dev 28 ?r a" unfolding a'_def network_def l by (simp add: q(1))
  have acc': "arp_accepts dev 28 ?r a" by (simp add: arp_accepts_def filled_def arp_packet_def)
  have op': "ar_op ?r \<noteq> ARPOP_REQUEST" by (simp add: filled_def arp_packet_def ARPOP_REPLY_def ARPOP_REQUEST_def)
  have mem': "\<And>n. arp_answers a n" and np': "not_permanent dev (arp_spa ?r) a" using p np by (simp_all add: peers_def filled_def)
  note r = reply_learned [OF acc' op' mem' np', folded a']
  show "answered dev ip (if_mac (ifnet b devb)) a'" "not_permanent dev ip a'" "station a' a" "log_by a a' 0 []"
    using r p by (simp_all add: filled_def peers_def)
  show "answered devb (if_local_ip (ifnet a dev)) (if_mac (ifnet a dev)) (NutArpInput id devb 28 ?q b)" using q(2) by (simp add: filled_def)
qed

lemma peers_station: "peers devb b dev ip a \<Longrightarrow> station a' a \<Longrightarrow> peers devb b dev ip a'"
  by (simp add: peers_def station_def)

lemma filled_station: "station a' a \<Longrightarrow> filled dev a' ea = filled dev a ea"
  by (simp add: filled_def station_def)

lemma answered_loop: "answered dev ip m s \<Longrightarrow> query_loop others n dev ip nb tmo s = (Some m, nb, s)"
  by (subst query_loop.simps) (auto simp: answered_def tbl_def)

text \<open>
  The loop of a query over a network with the other station: the request is answered, and the loop finds the answer in its second round.
\<close>

lemma loop_resolves:
  assumes p: "peers devb b dev ip a" and e: "ArpCacheLookup (tbl a dev) ip = Some e" "ae_flags e = 0"
  shows "\<exists>a'. query_loop (network devb b dev) (Suc n) dev ip (Some (arp_packet ARPOP_REQUEST ip None)) tmo a
      = (Some (if_mac (ifnet b devb)), Some (arp_packet ARPOP_REQUEST ip None), a')"
proof -
  let ?nb = "arp_packet ARPOP_REQUEST ip None"
  define s1 where "s1 = note_arp [ArpSent dev (filled dev a ?nb)] (a\<lparr>arp_asked := arp_asked a + 1\<rparr>)"
  have o: "NutArpOutput dev ?nb a = (0, s1)" using p by (simp add: NutArpOutput_def arp_ask_def s1_def filled_def peers_def)
  have st1: "station s1 a" by (simp add: s1_def)
  have l1: "last_sent (arp_log s1) = Some (filled dev s1 ?nb)" unfolding filled_station [OF st1] by (simp add: s1_def last_sent_append)
  have np1: "not_permanent dev ip s1" using e by (simp add: not_permanent_def s1_def)
  note n1 = network_delivers [OF peers_station [OF p st1] l1 np1]
  define s2 where "s2 = note_arp [ArpWait ip tmo] (network devb b dev s1)"
  have st2: "station s2 s1" using n1(3) by (simp add: s2_def)
  have "log_by s1 s2 0 [tmo]" using log_by_trans [OF n1(4) log_by_note [of _ "[ArpWait ip tmo]"]] by (simp add: s2_def)
  then have l2: "last_sent (arp_log s2) = Some (filled dev s2 ?nb)" using log_by_last l1 filled_station [OF st2] by simp
  have np2: "not_permanent dev ip s2" using n1(2) by (simp add: not_permanent_def s2_def)
  note n2 = network_delivers [OF peers_station [OF peers_station [OF p st1] st2] l2 np2]
  show ?thesis
    using e o answered_loop [OF n2(1), of "network devb b dev" n "Some ?nb" "tmo + tmo"]
    by (subst query_loop.simps) (simp add: tbl_def s2_def)
qed

text \<open>
  C26: ARP resolves addresses. If a station looks up an address that is not in its cache, another station with this address is connected, memory
  suffices and both drivers send, then the query returns the hardware address of the other station, for any
  number of requests from one on, and the other station has learned the addresses of the one that asked.
\<close>

theorem arp_resolves:
  assumes "peers devb b dev ip a" "ArpCacheLookup (tbl (ArpCacheAging a) dev) ip = None"
  shows "(\<exists>a'. NutArpCacheQuery (network devb b dev) (Suc n) dev ip a = (Some (if_mac (ifnet b devb)), a'))
    \<and> answered devb (if_local_ip (ifnet a dev)) (if_mac (ifnet a dev)) (NutArpInput id devb 28 (filled dev a (arp_packet ARPOP_REQUEST ip None)) b)"
proof -
  let ?s1 = "ArpCacheAging a" and ?nb = "arp_packet ARPOP_REQUEST ip None"
  obtain mem s2 where n: "ArpCacheNew dev ip None ?s1 = (mem, s2)" by fastforce
  have st: "station ?s1 a" "station (ArpCacheAging ?s1) a" "station s2 a"
    using station_aging station_trans station_new [of dev ip None ?s1] n by (metis, metis, metis snd_conv)
  then have mem using n assms(1) by (auto simp: ArpCacheNew_def arp_ask_def station_def peers_def)
  define s3 where "s3 = s2\<lparr>arp_asked := arp_asked s2 + 1\<rparr>"
  have al: "NutArpAllocNetBuf ARPOP_REQUEST ip None s2 = (Some ?nb, s3)"
    using st(3) assms(1) by (simp add: NutArpAllocNetBuf_def arp_ask_def s3_def station_def peers_def)
  have e: "ArpCacheLookup (tbl s3 dev) ip = Some (new_entry ip None)" "ae_flags (new_entry ip None) = 0"
    using ArpCacheNew_tbl [of dev ip None ?s1] n \<open>mem\<close> by (simp_all add: s3_def new_entry_def)
  have p3: "peers devb b dev ip s3" by (rule peers_station [OF assms(1)]) (simp add: s3_def st)
  obtain a' where q: "query_loop (network devb b dev) (Suc n) dev ip (Some ?nb) MIN_ARPWAIT s3 = (Some (if_mac (ifnet b devb)), Some ?nb, a')"
    using loop_resolves [OF p3 e] by blast
  have "\<exists>a'. NutArpCacheQuery (network devb b dev) (Suc n) dev ip a = (Some (if_mac (ifnet b devb)), a')"
    using assms(2) n \<open>mem\<close> al q by (simp add: NutArpCacheQuery_def Let_def tbl_def query_end_def)
  moreover have "arp_accepts devb 28 (filled dev a ?nb) b" using assms(1) by (simp add: arp_accepts_def filled_def arp_packet_def peers_def)
  from request_answered(2) [OF this] assms(1)
  have "answered devb (if_local_ip (ifnet a dev)) (if_mac (ifnet a dev)) (NutArpInput id devb 28 (filled dev a ?nb) b)"
    by (simp add: filled_def arp_packet_def peers_def)
  ultimately show ?thesis by blast
qed

section \<open>Examples\<close>

definition demo_station :: "u8 \<Rightarrow> u32 \<Rightarrow> arp" where
  "demo_station m ip = \<lparr>ifnet = \<lambda>_. \<lparr>if_ether = True, if_mac = [0, 6, 0x98, 0, 0, m], if_local_ip = ip, arpTable = []\<rparr>, dev_list = [0],
     last_update = 0, seconds = 70, arp_answers = \<lambda>_. True, arp_asked = 0, arp_log = []\<rparr>"

lemma demo_table: "tbl (ArpCacheAging (demo_station m ip)) 0 = []"
  by (simp add: tbl_def demo_station_def ArpCacheAging_def age_device_def set_table_def ATF_REM_def)

theorem arp_resolves_witness:
  "\<exists>a'. NutArpCacheQuery (network 0 (demo_station 2 0x0200A8C0) 0) 1 0 0x0200A8C0 (demo_station 1 0x0100A8C0) = (Some [0, 6, 0x98, 0, 0, 2], a')"
proof -
  have p: "peers 0 (demo_station 2 0x0200A8C0) 0 0x0200A8C0 (demo_station 1 0x0100A8C0)"
    by (simp add: peers_def demo_station_def not_permanent_def tbl_def)
  have e: "ArpCacheLookup (tbl (ArpCacheAging (demo_station 1 0x0100A8C0)) 0) 0x0200A8C0 = None" by (simp add: demo_table)
  show ?thesis using arp_resolves [OF p e, of 0] by (simp add: demo_station_def)
qed

text \<open>Nobody answers: one request and one wait of half a second, and the entry is gone.\<close>

theorem arp_query_correct_witness:
  "no_incomplete 0 7 (snd (NutArpCacheQuery id 1 0 7 (demo_station 1 5))) \<and> fst (NutArpCacheQuery id 1 0 7 (demo_station 1 5)) = None"
proof -
  have o: "others_ok id" by (simp add: others_ok_def)
  have ok: "arp_ok (demo_station 1 5)" by (simp add: arp_ok_def table_ok_def tbl_def demo_station_def)
  have "fst (NutArpCacheQuery id 1 0 7 (demo_station 1 5)) = None" by code_simp
  then show ?thesis using arp_query_correct [OF o ok, of 1 0 7] demo_table by (metis ArpCacheLookup.simps(1) prod.collapse)
qed

end
