(* ===== verification/Nut_Xtea.thy ===== *)
theory Nut_Xtea
  imports Nut_Bytes
begin

text \<open>
  The XTEA cipher (\<^verbatim>\<open>gorp/crypt/xtea.c\<close>) on blocks of two words and on strings, for a little endian target.
  A read beyond the end of the source and a loop that does not end are \<open>None\<close>.
\<close>

unbundle bit_operations_syntax

section \<open>Blocks\<close>

definition XTDELTA :: u32 where "XTDELTA = 0x9e3779b9"
definition XTSUM :: u32 where "XTSUM = 0xC6EF3720"
definition ROUNDS :: nat where "ROUNDS = 32"

type_synonym XTeaKeyBlock = "u32 \<times> u32 \<times> u32 \<times> u32"

fun key_word :: "XTeaKeyBlock \<Rightarrow> u32 \<Rightarrow> u32" where
  "key_word (k0, k1, k2, k3) i = (if i = 0 then k0 else if i = 1 then k1 else if i = 2 then k2 else k3)"

definition xtea_mix :: "u32 \<Rightarrow> u32" where
  "xtea_mix z = (push_bit 4 z XOR drop_bit 5 z) + z"

fun crypt_loop :: "nat \<Rightarrow> XTeaKeyBlock \<Rightarrow> u32 \<times> u32 \<times> u32 \<Rightarrow> u32 \<times> u32 \<times> u32" where
  "crypt_loop 0 k (y, z, acc) = (y, z, acc)"
| "crypt_loop (Suc n) k (y, z, acc) =
     (let y' = y + (xtea_mix z XOR (acc + key_word k (acc AND 3)));
          acc' = acc + XTDELTA;
          z' = z + (xtea_mix y' XOR (acc' + key_word k (drop_bit 11 acc' AND 3)))
      in crypt_loop n k (y', z', acc'))"

definition XTeaCrypt :: "XTeaKeyBlock \<Rightarrow> u32 \<times> u32 \<Rightarrow> u32 \<times> u32" where
  "XTeaCrypt k v = (case v of (v0, v1) \<Rightarrow> case crypt_loop ROUNDS k (v0, v1, 0) of (y, z, acc) \<Rightarrow> (y, z))"

fun decrypt_loop :: "nat \<Rightarrow> XTeaKeyBlock \<Rightarrow> u32 \<times> u32 \<times> u32 \<Rightarrow> u32 \<times> u32 \<times> u32" where
  "decrypt_loop 0 k (y, z, acc) = (y, z, acc)"
| "decrypt_loop (Suc n) k (y, z, acc) =
     (let z' = z - (xtea_mix y XOR (acc + key_word k (drop_bit 11 acc AND 3)));
          acc' = acc - XTDELTA;
          y' = y - (xtea_mix z' XOR (acc' + key_word k (acc' AND 3)))
      in decrypt_loop n k (y', z', acc'))"

definition XTeaDecrypt :: "XTeaKeyBlock \<Rightarrow> u32 \<times> u32 \<Rightarrow> u32 \<times> u32" where
  "XTeaDecrypt k v = (case v of (v0, v1) \<Rightarrow> case decrypt_loop 32 k (v0, v1, XTSUM) of (y, z, acc) \<Rightarrow> (y, z))"

section \<open>Strings\<close>

text \<open>The key is the passphrase up to its end mark, at most 16 bytes of it, filled up with zeros.\<close>

definition xtea_key :: "u8 list \<Rightarrow> XTeaKeyBlock" where
  "xtea_key pass =
     (let b = take 16 (takeWhile (\<lambda>c. c \<noteq> 0) pass);
          k = b @ replicate (16 - length b) 0
      in (le32 (k ! 0) (k ! 1) (k ! 2) (k ! 3), le32 (k ! 4) (k ! 5) (k ! 6) (k ! 7),
          le32 (k ! 8) (k ! 9) (k ! 10) (k ! 11), le32 (k ! 12) (k ! 13) (k ! 14) (k ! 15)))"

fun read_block :: "u8 list \<Rightarrow> (u32 \<times> u32) option" where
  "read_block (a # b # c # d # e # f # g # h # r) = Some (le32 a b c d, le32 e f g h)"
| "read_block _ = None"

definition write_block :: "u32 \<times> u32 \<Rightarrow> u8 list" where
  "write_block w = le_bytes32 (fst w) @ le_bytes32 (snd w)"

partial_function (option) block_loop :: "(u32 \<times> u32 \<Rightarrow> u32 \<times> u32) \<Rightarrow> u16 \<Rightarrow> u8 list \<Rightarrow> u16 \<Rightarrow> u8 list \<Rightarrow> u8 list option" where
  "block_loop f i src len dst =
     (if i < len then
        (case read_block src of
           None \<Rightarrow> None
         | Some v \<Rightarrow> block_loop f (i + 8) (drop 8 src) len (dst @ write_block (f v)))
      else Some dst)"

declare block_loop.simps [code]

definition XTeaCryptStr :: "u8 list \<Rightarrow> u16 \<Rightarrow> u8 list \<Rightarrow> u8 list option" where
  "XTeaCryptStr src len pass = block_loop (XTeaCrypt (xtea_key pass)) 0 src len []"

definition XTeaDecryptStr :: "u8 list \<Rightarrow> u16 \<Rightarrow> u8 list \<Rightarrow> u8 list option" where
  "XTeaDecryptStr src len pass = block_loop (XTeaDecrypt (xtea_key pass)) 0 src len []"

section \<open>Decryption undoes encryption\<close>

definition crypt_step :: "XTeaKeyBlock \<Rightarrow> u32 \<times> u32 \<times> u32 \<Rightarrow> u32 \<times> u32 \<times> u32" where
  "crypt_step k = crypt_loop 1 k"

definition decrypt_step :: "XTeaKeyBlock \<Rightarrow> u32 \<times> u32 \<times> u32 \<Rightarrow> u32 \<times> u32 \<times> u32" where
  "decrypt_step k = decrypt_loop 1 k"

lemma step_inverse: "decrypt_step k (crypt_step k x) = x"
  by (cases x) (simp add: crypt_step_def decrypt_step_def Let_def)

lemma crypt_funpow: "crypt_loop n k x = (crypt_step k ^^ n) x"
  by (induction n arbitrary: x) (auto simp: crypt_step_def Let_def funpow_swap1 simp del: funpow.simps(2) simp: funpow_Suc_right)

lemma decrypt_funpow: "decrypt_loop n k x = (decrypt_step k ^^ n) x"
  by (induction n arbitrary: x) (auto simp: decrypt_step_def Let_def simp del: funpow.simps(2) simp: funpow_Suc_right)

lemma loops_inverse: "decrypt_loop n k (crypt_loop n k x) = x"
  unfolding crypt_funpow decrypt_funpow
proof (induction n)
  case (Suc n)
  have "(decrypt_step k ^^ Suc n) ((crypt_step k ^^ Suc n) x) = (decrypt_step k ^^ n) (decrypt_step k (crypt_step k ((crypt_step k ^^ n) x)))"
    by (subst funpow_Suc_right) simp
  then show ?case using Suc by (simp add: step_inverse)
qed simp

lemma crypt_loop_sum: "snd (snd (crypt_loop n k (y, z, acc))) = acc + word_of_nat n * XTDELTA"
  by (induction n arbitrary: y z acc) (simp_all add: Let_def distrib_right add.assoc)

lemma block_inverse: "XTeaDecrypt k (XTeaCrypt k v) = v"
proof (cases v)
  case (Pair v0 v1)
  obtain y z acc where c: "crypt_loop ROUNDS k (v0, v1, 0) = (y, z, acc)" by (metis prod_cases3)
  have "acc = XTSUM" using crypt_loop_sum [of ROUNDS k v0 v1 0] c by (simp add: ROUNDS_def XTDELTA_def XTSUM_def)
  then have "decrypt_loop 32 k (y, z, XTSUM) = (v0, v1, 0)" using loops_inverse [of ROUNDS k "(v0, v1, 0)"] c by (simp add: ROUNDS_def)
  then show ?thesis using c Pair by (simp add: XTeaCrypt_def XTeaDecrypt_def)
qed

section \<open>Blocks of a string\<close>

lemma le32_split:
  "ucast (le32 a b c d) = a" "ucast (drop_bit 8 (le32 a b c d)) = b" "ucast (drop_bit 16 (le32 a b c d)) = c"
  "ucast (drop_bit 24 (le32 a b c d)) = d"
  by (rule bit_word_eqI; auto simp: le32_def le16_def bit_simps dest: bit_imp_le_length)+

lemma le_bytes32_le32: "le_bytes32 (le32 a b c d) = [a, b, c, d]"
  by (simp add: le_bytes32_def le32_split)

lemma read_write_block: "read_block (write_block w @ r) = Some w"
  by (cases w) (simp add: write_block_def le_bytes32_def le32_bytes)

lemma write_block_length [simp]: "length (write_block w) = 8"
  by (simp add: write_block_def le_bytes32_def)

lemma read_block_Some: "8 \<le> length src \<Longrightarrow> \<exists>v. read_block src = Some v \<and> write_block v = take 8 src"
  by (auto simp: write_block_def le_bytes32_le32 Suc_le_length_iff numeral_eq_Suc)

text \<open>The blocks a string of \<open>8 * m\<close> bytes consists of.\<close>

fun blocks :: "nat \<Rightarrow> u8 list \<Rightarrow> (u32 \<times> u32) list" where
  "blocks 0 src = []"
| "blocks (Suc m) src = (case read_block src of None \<Rightarrow> [] | Some v \<Rightarrow> v # blocks m (drop 8 src))"

definition unblocks :: "(u32 \<times> u32) list \<Rightarrow> u8 list" where
  "unblocks vs = concat (map write_block vs)"

lemma unblocks_blocks: "length src = 8 * m \<Longrightarrow> unblocks (blocks m src) = src"
proof (induction m arbitrary: src)
  case (Suc m)
  then obtain v where "read_block src = Some v" "write_block v = take 8 src" using read_block_Some [of src] by auto
  then show ?case using Suc.IH [of "drop 8 src"] Suc.prems by (simp add: unblocks_def)
qed (simp add: unblocks_def)

lemma blocks_unblocks: "blocks (length vs) (unblocks vs) = vs"
  by (induction vs) (simp_all add: unblocks_def read_write_block)

lemma blocks_length: "length src = 8 * m \<Longrightarrow> length (blocks m src) = m"
proof (induction m arbitrary: src)
  case (Suc m)
  then obtain v where "read_block src = Some v" using read_block_Some [of src] by auto
  then show ?case using Suc.IH [of "drop 8 src"] Suc.prems by simp
qed simp

lemma block_loop_blocks:
  assumes "unat len = unat i + 8 * m" "unat len \<le> 65528" "length src = 8 * m"
  shows "block_loop f i src len dst = Some (dst @ unblocks (map f (blocks m src)))"
  using assms
proof (induction m arbitrary: i src dst)
  case 0
  then have "\<not> i < len" by (simp add: word_less_nat_alt)
  then show ?case by (simp add: block_loop.simps unblocks_def)
next
  case (Suc m)
  have i: "i < len" using Suc.prems(1) by (simp add: word_less_nat_alt)
  have "unat (i + 8) = unat i + 8" using Suc.prems by (simp add: unat_word_ariths(1))
  moreover obtain v where v: "read_block src = Some v" using Suc.prems(3) read_block_Some [of src] by auto
  ultimately have "block_loop f (i + 8) (drop 8 src) len (dst @ write_block (f v))
      = Some ((dst @ write_block (f v)) @ unblocks (map f (blocks m (drop 8 src))))"
    using Suc.prems by (intro Suc.IH) auto
  then show ?case using i v by (simp add: block_loop.simps [of f i] unblocks_def)
qed

section \<open>Properties\<close>

text \<open>C39: encrypting a string whose length is a multiple of 8 and at most 65528 ends without leaving the
  buffers and gives a string of the same length; decrypting it with the same passphrase gives back
  the string.\<close>

theorem xtea_roundtrip:
  assumes "length src = unat len" and "8 dvd unat len" and "unat len \<le> 65528"
  shows "\<exists>c. XTeaCryptStr src len pass = Some c \<and> length c = length src \<and> XTeaDecryptStr c len pass = Some src"
proof -
  obtain m where m: "unat len = 8 * m" using assms(2) by (auto simp: dvd_def)
  let ?k = "xtea_key pass"
  let ?c = "unblocks (map (XTeaCrypt ?k) (blocks m src))"
  have b: "length (blocks m src) = m" using blocks_length [of src m] assms(1) m by simp
  have len_c: "length ?c = length src" using b assms(1) m by (simp add: unblocks_def length_concat comp_def sum_list_triv)
  have "XTeaCryptStr src len pass = Some ?c"
    using block_loop_blocks [of len 0 m src] assms m by (simp add: XTeaCryptStr_def)
  moreover have "blocks m ?c = map (XTeaCrypt ?k) (blocks m src)"
    using blocks_unblocks [of "map (XTeaCrypt ?k) (blocks m src)"] b by simp
  then have "XTeaDecryptStr ?c len pass = Some (unblocks (blocks m src))"
    using block_loop_blocks [of len 0 m ?c] assms m len_c by (simp add: XTeaDecryptStr_def comp_def block_inverse)
  ultimately show ?thesis using unblocks_blocks [of src m] assms(1) m len_c by simp
qed

theorem xtea_roundtrip_witness:
  "\<exists>c. XTeaCryptStr [1, 2, 3, 4, 5, 6, 7, 8] 8 [0x6B, 0x65, 0x79, 0] = Some c \<and> length c = 8
     \<and> XTeaDecryptStr c 8 [0x6B, 0x65, 0x79, 0] = Some [1, 2, 3, 4, 5, 6, 7, 8]"
proof -
  let ?src = "[1, 2, 3, 4, 5, 6, 7, 8] :: u8 list"
  have "length ?src = unat (8 :: u16)" "8 dvd unat (8 :: u16)" "unat (8 :: u16) \<le> 65528" "length ?src = 8" by simp_all
  then show ?thesis using xtea_roundtrip [of ?src 8 "[0x6B, 0x65, 0x79, 0]"] by metis
qed

text \<open>A string longer than 65528 bytes is never done: the 16-bit counter wraps around before it reaches the length.\<close>

lemma block_loop_endless:
  assumes "unat len > 65528" "8 dvd unat i"
  shows "block_loop f i src len dst = None"
  using assms(2)
proof (induction "length src" arbitrary: i src dst rule: less_induct)
  case less
  have "unat i \<le> 65528" using less.prems unsigned_less [of i, where ?'a = nat] by (auto simp: dvd_def)
  then have i: "i < len" using assms(1) by (simp add: word_less_nat_alt)
  have d: "8 dvd unat (i + 8)"
    using less.prems by (simp add: unat_word_ariths(1) dvd_mod_iff [of 8 65536] dvd_add)
  show ?case
  proof (cases "read_block src")
    case None
    then show ?thesis using i by (simp add: block_loop.simps [of f i])
  next
    case (Some v)
    then have "src \<noteq> []" by auto
    then have "block_loop f (i + 8) (drop 8 src) len (dst @ write_block (f v)) = None" using d by (intro less.hyps) auto
    then show ?thesis using i Some by (simp add: block_loop.simps [of f i])
  qed
qed

lemma xtea_long_never_ends: "unat len > 65528 \<Longrightarrow> XTeaCryptStr src len pass = None \<and> XTeaDecryptStr src len pass = None"
  by (simp add: XTeaCryptStr_def XTeaDecryptStr_def block_loop_endless)

end
