(* ===== verification/Nut_Time.thy ===== *)
theory Nut_Time
  imports Nut_Bytes "HOL-Library.Monad_Syntax" "HOL-Library.Signed_Division"
begin

text \<open>
  Calendar time (\<^verbatim>\<open>crt/gmtime.c\<close>, \<^verbatim>\<open>crt/mktime.c\<close>), for targets with a 32-bit \<^verbatim>\<open>long\<close>. The constants are
  unsigned, so that \<^verbatim>\<open>gmtime_r\<close> computes with the time as an unsigned number, and no subtraction in it wraps;
  \<^verbatim>\<open>_make_time_t\<close> computes with signed numbers and checks every step for overflow. The field \<^verbatim>\<open>tm_nsec\<close>, which
  \<^verbatim>\<open>gmtime_r\<close> does not touch and \<^verbatim>\<open>_make_time_t\<close> only carries over, and the conversion to local time are not modelled.
\<close>

section \<open>Breaking down a time\<close>

record tm =
  tm_sec :: int
  tm_min :: int
  tm_hour :: int
  tm_mday :: int
  tm_mon :: int
  tm_year :: int
  tm_wday :: int
  tm_yday :: int
  tm_isdst :: int

definition DAY_SEC :: nat where "DAY_SEC = 24 * 60 * 60"
definition YEAR_SEC :: nat where "YEAR_SEC = 365 * DAY_SEC"
definition FOUR_YEAR_SEC :: nat where "FOUR_YEAR_SEC = 1461 * DAY_SEC"
definition BASE_DOW :: nat where "BASE_DOW = 4"

definition lpdays :: "int list" where
  "lpdays = [-1, 30, 59, 90, 120, 151, 181, 212, 243, 273, 304, 334, 365]"

definition days :: "int list" where
  "days = [-1, 30, 58, 89, 119, 150, 180, 211, 242, 272, 303, 333, 364]"

text \<open>The year within an interval of four, the seconds left in it and whether it is a leap year.\<close>

definition gm_year :: "nat \<Rightarrow> nat \<times> nat \<times> bool" where
  "gm_year ctimer =
     (if ctimer \<ge> YEAR_SEC then
        (let c1 = ctimer - YEAR_SEC in
         if c1 \<ge> YEAR_SEC then
           (let c2 = c1 - YEAR_SEC in
            if c2 \<ge> YEAR_SEC + DAY_SEC then (3, c2 - (YEAR_SEC + DAY_SEC), False) else (2, c2, True))
         else (1, c1, False))
      else (0, ctimer, False))"

text \<open>The search in the table of month ends; \<open>None\<close> if it is left.\<close>

fun month_scan :: "nat \<Rightarrow> int list \<Rightarrow> int \<Rightarrow> nat option" where
  "month_scan i [] yday = None"
| "month_scan i (d # ds) yday = (if d < yday then month_scan (i + 1) ds yday else Some i)"

definition gmtime_r :: "u32 \<Rightarrow> tm option" where
  "gmtime_r timer =
     (let q = unat timer div FOUR_YEAR_SEC;
          (j, c, leap) = gm_year (unat timer - q * FOUR_YEAR_SEC);
          yday = c div DAY_SEC;
          c1 = c - yday * DAY_SEC;
          mdays = (if leap then lpdays else days);
          hour = c1 div 3600;
          c2 = c1 - hour * 3600;
          mn = c2 div 60
      in case month_scan 1 (drop 1 mdays) (int yday) of
           None \<Rightarrow> None
         | Some k \<Rightarrow>
             Some \<lparr>tm_sec = int c2 - int mn * 60, tm_min = int mn, tm_hour = int hour,
                   tm_mday = int yday - mdays ! (k - 1), tm_mon = int k - 1, tm_year = int (q * 4 + 70 + j),
                   tm_wday = int ((unat timer div DAY_SEC + BASE_DOW) mod 7), tm_yday = int yday, tm_isdst = 0\<rparr>)"

section \<open>Putting a time together\<close>

definition s32 :: "int \<Rightarrow> int" where
  "s32 x = (x + 2 ^ 31) mod 2 ^ 32 - 2 ^ 31"

definition ChkAdd :: "int \<Rightarrow> int \<Rightarrow> int \<Rightarrow> bool" where
  "ChkAdd dest a b \<longleftrightarrow> a \<ge> 0 \<and> b \<ge> 0 \<and> dest < 0 \<or> a < 0 \<and> b < 0 \<and> dest \<ge> 0"

definition ChkMul :: "int \<Rightarrow> int \<Rightarrow> int \<Rightarrow> bool" where
  "ChkMul dest a b \<longleftrightarrow> a \<noteq> 0 \<and> dest sdiv a \<noteq> b"

definition mk_add :: "int \<Rightarrow> int \<Rightarrow> int option" where
  "mk_add a b = (let d = s32 (a + b) in if ChkAdd d a b then None else Some d)"

definition mk_mul :: "int \<Rightarrow> int \<Rightarrow> int option" where
  "mk_mul a b = (let d = s32 (a * b) in if ChkMul d a b then None else Some d)"

definition year_ok :: "int \<Rightarrow> bool" where
  "year_ok y \<longleftrightarrow> \<not> (y < 70 - 1 \<or> y > 138 + 1)"

text \<open>Months beyond a year are carried over, with division that truncates.\<close>

definition mk_month :: "int \<Rightarrow> int \<Rightarrow> int \<times> int" where
  "mk_month y mon =
     (if mon < 0 \<or> mon > 11 then
        (let y1 = y + mon sdiv 12; m1 = mon smod 12 in if m1 < 0 then (y1 - 1, m1 + 12) else (y1, m1))
      else (y, mon))"

definition mkgmtime :: "tm \<Rightarrow> (int \<times> tm) option" where
  "mkgmtime tb =
     (if \<not> year_ok (tm_year tb) then None
      else case mk_month (tm_year tb) (tm_mon tb) of (y, mon) \<Rightarrow>
        if \<not> year_ok y then None
        else do {
          let d = days ! nat mon + (if y mod 4 = 0 \<and> mon > 1 then 1 else 0);
          let e = (y - 70) * 365 + (y - 1) div 4 - 17 + d;
          dy \<leftarrow> mk_add e (tm_mday tb);
          h \<leftarrow> mk_mul dy 24;
          h \<leftarrow> mk_add h (tm_hour tb);
          m \<leftarrow> mk_mul h 60;
          m \<leftarrow> mk_add m (tm_min tb);
          s \<leftarrow> mk_mul m 60;
          s \<leftarrow> mk_add s (tm_sec tb);
          tbtemp \<leftarrow> gmtime_r (word_of_int s);
          Some (s, tbtemp)
        })"

section \<open>Lemmas\<close>

lemma gm_year_cases:
  assumes "r < FOUR_YEAR_SEC" "gm_year r = (j, c, leap)"
  shows "j \<le> 3 \<and> leap = (j = 2) \<and> r = j * YEAR_SEC + (if j = 3 then DAY_SEC else 0) + c
    \<and> c < YEAR_SEC + (if leap then DAY_SEC else 0)"
  using assms by (auto simp: gm_year_def Let_def FOUR_YEAR_SEC_def YEAR_SEC_def DAY_SEC_def split: if_splits)

text \<open>The table of month ends and the number of days of a month.\<close>

definition month_len :: "bool \<Rightarrow> nat \<Rightarrow> int" where
  "month_len leap m = (if leap then lpdays ! (m + 1) - lpdays ! m else days ! (m + 1) - days ! m)"

lemma month_scan_year:
  assumes "0 \<le> yday" "yday < (if leap then 366 else 365)"
  shows "\<exists>k. month_scan 1 (drop 1 (if leap then lpdays else days)) yday = Some k \<and> 1 \<le> k \<and> k \<le> 12
    \<and> (if leap then lpdays else days) ! (k - 1) < yday \<and> yday \<le> (if leap then lpdays else days) ! k"
  using assms by (cases leap) (auto simp: lpdays_def days_def)

lemma lpdays_days: "m \<le> 12 \<Longrightarrow> lpdays ! m = days ! m + (if m > 1 then 1 else 0)"
  by (auto simp: lpdays_def days_def le_Suc_eq numeral_eq_Suc)

text \<open>What the parts of a broken down time are made of.\<close>

lemma gmtime_parts:
  fixes timer :: u32
  obtains q j c leap k where
    "unat timer = q * FOUR_YEAR_SEC + (j * YEAR_SEC + (if j = 3 then DAY_SEC else 0) + c)" "j \<le> 3" "leap = (j = 2)"
    "c < YEAR_SEC + (if leap then DAY_SEC else 0)" "1 \<le> k" "k \<le> 12"
    "(if leap then lpdays else days) ! (k - 1) < int (c div DAY_SEC)" "int (c div DAY_SEC) \<le> (if leap then lpdays else days) ! k"
    "gmtime_r timer = Some \<lparr>tm_sec = int (c mod DAY_SEC mod 3600 mod 60), tm_min = int (c mod DAY_SEC mod 3600 div 60),
       tm_hour = int (c mod DAY_SEC div 3600), tm_mday = int (c div DAY_SEC) - (if leap then lpdays else days) ! (k - 1),
       tm_mon = int k - 1, tm_year = int (q * 4 + 70 + j), tm_wday = int ((unat timer div DAY_SEC + BASE_DOW) mod 7),
       tm_yday = int (c div DAY_SEC), tm_isdst = 0\<rparr>"
proof -
  let ?q = "unat timer div FOUR_YEAR_SEC"
  have r: "unat timer - ?q * FOUR_YEAR_SEC = unat timer mod FOUR_YEAR_SEC" by (simp add: minus_div_mult_eq_mod)
  obtain j c leap where g: "gm_year (unat timer mod FOUR_YEAR_SEC) = (j, c, leap)" by (metis prod_cases3)
  have "unat timer mod FOUR_YEAR_SEC < FOUR_YEAR_SEC" by (simp add: FOUR_YEAR_SEC_def DAY_SEC_def)
  note y = gm_year_cases [OF this g]
  have "int (c div DAY_SEC) < (if leap then 366 else 365)"
    using y by (auto simp: YEAR_SEC_def DAY_SEC_def less_mult_imp_div_less split: if_splits)
  from month_scan_year [OF _ this] obtain k where
    k: "month_scan 1 (drop 1 (if leap then lpdays else days)) (int (c div DAY_SEC)) = Some k" "1 \<le> k" "k \<le> 12"
      "(if leap then lpdays else days) ! (k - 1) < int (c div DAY_SEC)" "int (c div DAY_SEC) \<le> (if leap then lpdays else days) ! k"
    by auto
  have m: "c - c div DAY_SEC * DAY_SEC = c mod DAY_SEC" "n - n div 3600 * 3600 = n mod 3600" for n :: nat by (simp_all add: minus_div_mult_eq_mod)
  have s: "int n - int (n div 60) * 60 = int (n mod 60)" for n by (simp add: minus_div_mult_eq_mod of_nat_div of_nat_mod)
  have e: "gmtime_r timer = Some \<lparr>tm_sec = int (c mod DAY_SEC mod 3600 mod 60), tm_min = int (c mod DAY_SEC mod 3600 div 60),
       tm_hour = int (c mod DAY_SEC div 3600), tm_mday = int (c div DAY_SEC) - (if leap then lpdays else days) ! (k - 1),
       tm_mon = int k - 1, tm_year = int (?q * 4 + 70 + j), tm_wday = int ((unat timer div DAY_SEC + BASE_DOW) mod 7),
       tm_yday = int (c div DAY_SEC), tm_isdst = 0\<rparr>"
    unfolding gmtime_r_def r g Let_def prod.case m s k(1) option.case by simp
  have t: "unat timer = ?q * FOUR_YEAR_SEC + (j * YEAR_SEC + (if j = 3 then DAY_SEC else 0) + c)" using y by (metis div_mult_mod_eq)
  show thesis using that [OF t _ _ _ k(2-5) e] y by blast
qed

lemma s32_exact: "- 2147483648 \<le> x \<Longrightarrow> x < 2147483648 \<Longrightarrow> s32 x = x"
  by (simp add: s32_def)

lemma mk_add_exact: "- 2147483648 \<le> a + b \<Longrightarrow> a + b < 2147483648 \<Longrightarrow> mk_add a b = Some (a + b)"
  by (simp only: mk_add_def s32_exact Let_def) (auto simp: ChkAdd_def)

lemma mk_mul_exact: "0 \<le> a \<Longrightarrow> a * b < 2147483648 \<Longrightarrow> 0 \<le> b \<Longrightarrow> mk_mul a b = Some (a * b)"
proof -
  assume a: "0 \<le> a" "a * b < 2147483648" "0 \<le> b"
  have "s32 (a * b) = a * b" using a by (intro s32_exact) (auto intro: order_trans [of _ 0])
  moreover have "\<not> ChkMul (a * b) a b" using a(1,3)
    by (cases "b = 0") (auto simp: ChkMul_def signed_divide_int_def abs_mult sgn_mult)
  ultimately show ?thesis by (simp add: mk_mul_def Let_def)
qed

text \<open>The seconds of a number of days, hours, minutes and seconds that is not negative.\<close>

lemma mk_seconds:
  assumes "0 \<le> dy" "0 \<le> h" "0 \<le> m" "0 \<le> s" "((dy * 24 + h) * 60 + m) * 60 + s < 2147483648" "gmtime_r (word_of_int (((dy * 24 + h) * 60 + m) * 60 + s)) = Some tb"
  shows "do { h' \<leftarrow> mk_mul dy 24; h' \<leftarrow> mk_add h' h; m' \<leftarrow> mk_mul h' 60; m' \<leftarrow> mk_add m' m; s' \<leftarrow> mk_mul m' 60; s' \<leftarrow> mk_add s' s;
          tbtemp \<leftarrow> gmtime_r (word_of_int s'); Some (s', tbtemp) } = Some (((dy * 24 + h) * 60 + m) * 60 + s, tb)"
proof -
  let ?h = "dy * 24 + h" let ?m = "?h * 60 + m"
  have b: "0 \<le> ?h" "0 \<le> ?m" using assms(1-3) by simp_all
  have "mk_mul dy 24 = Some (dy * 24)" "mk_mul ?h 60 = Some (?h * 60)" "mk_mul ?m 60 = Some (?m * 60)"
    by (rule mk_mul_exact; use assms(1-5) b in \<open>simp add: algebra_simps\<close>)+
  moreover have "mk_add (dy * 24) h = Some ?h" "mk_add (?h * 60) m = Some ?m" "mk_add (?m * 60) s = Some (?m * 60 + s)"
    by (rule mk_add_exact; use assms(1-5) b in \<open>simp add: algebra_simps\<close>)+
  ultimately show ?thesis using assms(6) by simp
qed

section \<open>Property\<close>

definition tm_ok :: "tm \<Rightarrow> bool" where
  "tm_ok tb \<longleftrightarrow>
     0 \<le> tm_sec tb \<and> tm_sec tb < 60 \<and> 0 \<le> tm_min tb \<and> tm_min tb < 60 \<and> 0 \<le> tm_hour tb \<and> tm_hour tb < 24
     \<and> 70 \<le> tm_year tb \<and> 0 \<le> tm_mon tb \<and> tm_mon tb < 12
     \<and> 1 \<le> tm_mday tb \<and> tm_mday tb \<le> month_len (tm_year tb mod 4 = 0) (nat (tm_mon tb))
     \<and> 0 \<le> tm_wday tb \<and> tm_wday tb < 7 \<and> 0 \<le> tm_yday tb \<and> tm_yday tb < (if tm_year tb mod 4 = 0 then 366 else 365)"

lemma sum_day: "(n mod DAY_SEC) = (n mod DAY_SEC div 3600) * 3600 + (n mod DAY_SEC mod 3600 div 60) * 60 + n mod DAY_SEC mod 3600 mod 60"
  by (metis div_mult_mod_eq mult.commute add.assoc)

lemma days_elapsed:
  "j \<le> 3 \<Longrightarrow> (int (q * 4 + 70 + j) - 70) * 365 + (int (q * 4 + 70 + j) - 1) div 4 - 17 = int (1461 * q + 365 * j + (if j = 3 then 1 else 0))"
  by (auto simp: le_Suc_eq numeral_eq_Suc)

lemma gmtime_back:
  assumes c: "n = q * FOUR_YEAR_SEC + (j * YEAR_SEC + (if j = 3 then DAY_SEC else 0) + c)" "j \<le> 3" "n < 2147483648"
    and k: "1 \<le> k" "k \<le> 12"
    and tb: "gmtime_r (word_of_nat n) = Some tb" "tm_sec tb = int (c mod DAY_SEC mod 3600 mod 60)"
      "tm_min tb = int (c mod DAY_SEC mod 3600 div 60)" "tm_hour tb = int (c mod DAY_SEC div 3600)"
      "tm_mday tb = int (c div DAY_SEC) - (if j = 2 then lpdays else days) ! (k - 1)" "tm_mon tb = int k - 1"
      "tm_year tb = int (q * 4 + 70 + j)"
  shows "mkgmtime tb = Some (int n, tb)"
proof -
  let ?dy = "1461 * q + 365 * j + (if j = 3 then 1 else 0) + c div DAY_SEC"
  let ?y = "int (q * 4 + 70 + j)"
  have n: "n = ?dy * DAY_SEC + c mod DAY_SEC" using c(1) div_mult_mod_eq [of c DAY_SEC]
    by (simp add: FOUR_YEAR_SEC_def YEAR_SEC_def algebra_simps split: if_splits)
  have seconds: "int n = ((int D * 24 + int h) * 60 + int m) * 60 + int s" if "n = D * DAY_SEC + (h * 3600 + m * 60 + s)" for D h m s
    using that by (simp add: DAY_SEC_def)
  have e: "int n = ((int ?dy * 24 + tm_hour tb) * 60 + tm_min tb) * 60 + tm_sec tb"
    unfolding tb(2-4) by (rule seconds) (use n sum_day [of c] in argo)
  have "(4 * q + j) * 31536000 \<le> n" using c(1) by (simp add: FOUR_YEAR_SEC_def YEAR_SEC_def DAY_SEC_def)
  then have "4 * q + j \<le> 68" using c(3) by simp
  then have yr: "year_ok ?y" by (simp add: year_ok_def)
  have mo: "mk_month ?y (int k - 1) = (?y, int k - 1)" using k by (simp add: mk_month_def)
  have leap: "(?y mod 4 = 0) = (j = 2)" using c(2) by presburger
  have d: "days ! nat (int k - 1) + (if ?y mod 4 = 0 \<and> int k - 1 > 1 then 1 else 0) = (if j = 2 then lpdays else days) ! (k - 1)"
    unfolding leap using k lpdays_days [of "k - 1"] by (auto simp: nat_diff_distrib)
  let ?x = "(?y - 70) * 365 + (?y - 1) div 4 - 17 + (if j = 2 then lpdays else days) ! (k - 1)"
  have x: "?x + tm_mday tb = int ?dy" using days_elapsed [OF c(2), of q] unfolding tb(5) by simp
  have "?dy \<le> n" using n by (simp add: DAY_SEC_def)
  then have "int ?dy < 2147483648" using c(3) by linarith
  then have a: "mk_add ?x (tm_mday tb) = Some (int ?dy)" using mk_add_exact [of ?x "tm_mday tb"] unfolding x by simp
  have g: "gmtime_r (word_of_int (((int ?dy * 24 + tm_hour tb) * 60 + tm_min tb) * 60 + tm_sec tb)) = Some tb"
    using tb(1) unfolding e [symmetric] by simp
  have b: "0 \<le> tm_hour tb" "0 \<le> tm_min tb" "0 \<le> tm_sec tb" "((int ?dy * 24 + tm_hour tb) * 60 + tm_min tb) * 60 + tm_sec tb < 2147483648"
    using tb(2-4) c(3) unfolding e [symmetric] by simp_all
  show ?thesis
    unfolding mkgmtime_def tb(6,7) mo prod.case d Let_def a
    using yr mk_seconds [OF _ b g] unfolding e by simp
qed

text \<open>C40: every time is broken down into a date and a time of day whose fields are in their ranges: the day is
  one of the month, in a leap year too, and the search in the table of months does not leave it. For
  times up to the year 2038 \<^verbatim>\<open>_mkgmtime\<close> gives back the time, and the broken down time unchanged.\<close>

theorem gmtime_wellformed:
  "\<exists>tb. gmtime_r timer = Some tb \<and> tm_ok tb \<and> (unat timer < 2147483648 \<longrightarrow> mkgmtime tb = Some (int (unat timer), tb))"
proof -
  obtain q j c leap k where p:
    "unat timer = q * FOUR_YEAR_SEC + (j * YEAR_SEC + (if j = 3 then DAY_SEC else 0) + c)" "j \<le> 3" "leap = (j = 2)"
    "c < YEAR_SEC + (if leap then DAY_SEC else 0)" "1 \<le> k" "k \<le> 12"
    "(if leap then lpdays else days) ! (k - 1) < int (c div DAY_SEC)" "int (c div DAY_SEC) \<le> (if leap then lpdays else days) ! k"
    and g: "gmtime_r timer = Some \<lparr>tm_sec = int (c mod DAY_SEC mod 3600 mod 60), tm_min = int (c mod DAY_SEC mod 3600 div 60),
       tm_hour = int (c mod DAY_SEC div 3600), tm_mday = int (c div DAY_SEC) - (if leap then lpdays else days) ! (k - 1),
       tm_mon = int k - 1, tm_year = int (q * 4 + 70 + j), tm_wday = int ((unat timer div DAY_SEC + BASE_DOW) mod 7),
       tm_yday = int (c div DAY_SEC), tm_isdst = 0\<rparr>" (is "_ = Some ?tb")
    by (rule gmtime_parts [of timer])
  have leap: "(int (q * 4 + 70 + j) mod 4 = 0) = leap" using p(2,3) by presburger
  have "c div DAY_SEC < (if leap then 366 else 365)"
    using p(4) by (auto simp: YEAR_SEC_def DAY_SEC_def less_mult_imp_div_less split: if_splits)
  moreover have "c mod DAY_SEC div 3600 < 24" by (simp add: DAY_SEC_def less_mult_imp_div_less)
  moreover have "c mod DAY_SEC mod 3600 div 60 < 60" by (simp add: less_mult_imp_div_less)
  moreover have "int (c div DAY_SEC) - (if leap then lpdays else days) ! (k - 1) \<le> month_len leap (nat (int k - 1))"
    using p(5,8) by (cases leap) (simp_all add: month_len_def nat_diff_distrib)
  ultimately have "tm_ok ?tb" using p(5-7) unfolding tm_ok_def tm.simps leap by auto
  moreover have "mkgmtime ?tb = Some (int (unat timer), ?tb)" if "unat timer < 2147483648"
    by (rule gmtime_back [OF p(1,2) that p(5,6)]) (use g p(3) in simp_all)
  ultimately show ?thesis using g by blast
qed

theorem gmtime_wellformed_witness:
  "mkgmtime (the (gmtime_r 951782399)) = Some (951782399, the (gmtime_r 951782399)) \<and> tm_mon (the (gmtime_r 951782399)) = 1
     \<and> tm_mday (the (gmtime_r 951782399)) = 28"
proof -
  have "unat (951782399 :: u32) < 2147483648" "int (unat (951782399 :: u32)) = 951782399" by simp_all
  then have "\<exists>tb. gmtime_r 951782399 = Some tb \<and> mkgmtime tb = Some (951782399, tb)"
    using gmtime_wellformed [of 951782399] by metis
  moreover have "tm_mon (the (gmtime_r 951782399)) = 1 \<and> tm_mday (the (gmtime_r 951782399)) = 28"
    by (simp add: gmtime_r_def gm_year_def FOUR_YEAR_SEC_def YEAR_SEC_def DAY_SEC_def lpdays_def days_def)
  ultimately show ?thesis by (metis option.sel)
qed

text \<open>The last day of 1969 gives a negative time and not the error value.\<close>

lemma mkgmtime_before_epoch:
  "map_option fst (mkgmtime \<lparr>tm_sec = 0, tm_min = 0, tm_hour = 0, tm_mday = 31, tm_mon = 11, tm_year = 69, tm_wday = 0,
     tm_yday = 0, tm_isdst = 0\<rparr>) = Some (-86400)"
proof -
  have "\<exists>tb. gmtime_r (word_of_int (-86400)) = Some tb" using gmtime_parts [of "word_of_int (-86400)"] by metis
  then show ?thesis
    by (auto simp: mkgmtime_def year_ok_def mk_month_def days_def mk_add_def mk_mul_def s32_def ChkAdd_def ChkMul_def
        signed_divide_int_def)
qed

end
