(* ===== verification/Nut_Asn1.thy ===== *)
theory Nut_Asn1
  imports Nut_Bytes
begin

text \<open>
  The ASN.1 codec of the SNMP agent, \<^verbatim>\<open>pro/asn1.c\<close>, for the 32-bit targets (\<^verbatim>\<open>sizeof(long)\<close> is 4, \<^verbatim>\<open>size_t\<close> a 32-bit word).
  A parser gets the memory that can be read from its data pointer on, as a list of bytes, and the number of bytes
  the caller says are valid; it returns the value, the memory behind the object and the new number of valid bytes.
  \<open>Null\<close> is the null pointer returned on errors, \<open>Overrun\<close> a read or a write outside of the memory. A builder
  returns the bytes it has stored and the number of bytes left in the buffer, or \<open>None\<close> for the null pointer.
\<close>

unbundle bit_operations_syntax

section \<open>Reading memory\<close>

datatype 'a asn = Overrun | Null | Obj 'a

fun asn_bind :: "'a asn \<Rightarrow> ('a \<Rightarrow> 'b asn) \<Rightarrow> 'b asn" where
  "asn_bind Overrun f = Overrun"
| "asn_bind Null f = Null"
| "asn_bind (Obj x) f = f x"

fun next_byte :: "u8 list \<Rightarrow> (u8 \<times> u8 list) asn" where
  "next_byte [] = Overrun"
| "next_byte (b # m) = Obj (b, m)"

text \<open>The difference of the pointers to two places in the memory, the second behind the first.\<close>

definition ptr_diff :: "u8 list \<Rightarrow> u8 list \<Rightarrow> u32" where
  "ptr_diff data bufp = word_of_nat (length data - length bufp)"

section \<open>Lengths and headers\<close>

fun len_loop :: "nat \<Rightarrow> u8 list \<Rightarrow> u32 \<Rightarrow> (u32 \<times> u8 list) asn" where
  "len_loop 0 m l = Obj (l, m)"
| "len_loop (Suc n) m l = asn_bind (next_byte m) (\<lambda>(b, m'). len_loop n m' (push_bit 8 l OR ucast b))"

definition AsnLenParse :: "u8 list \<Rightarrow> (u32 \<times> u8 list) asn" where
  "AsnLenParse data = asn_bind (next_byte data) (\<lambda>(lengthbyte, m).
     if lengthbyte AND 0x80 \<noteq> 0 then
       (let n = lengthbyte AND NOT 0x80 in if n = 0 \<or> n > 4 then Null else len_loop (unat n) m 0)
     else Obj (ucast lengthbyte, m))"

type_synonym built = "(u8 list \<times> u32) option"

definition AsnLenBuild :: "u32 \<Rightarrow> u32 \<Rightarrow> built" where
  "AsnLenBuild dl len =
     (if len < 0x80 then (if dl < 1 then None else Some ([ucast len], dl - 1))
      else if len \<le> 0xFF then (if dl < 2 then None else Some ([0x81, ucast len], dl - 2))
      else if dl < 3 then None
      else Some ([0x82, ucast (drop_bit 8 len AND 0xFF), ucast (len AND 0xFF)], dl - 3))"

definition AsnHeaderParse :: "u8 list \<Rightarrow> u32 \<Rightarrow> (u8 \<times> u8 list \<times> u32) asn" where
  "AsnHeaderParse data dl =
     (if dl = 0 then Null
      else asn_bind (next_byte data) (\<lambda>(t, m).
        if t AND 0x1F = 0x1F then Null
        else asn_bind (AsnLenParse m) (\<lambda>(l, bufp).
          if ptr_diff data bufp + l > dl then Null else Obj (t, bufp, l))))"

definition AsnHeaderBuild :: "u32 \<Rightarrow> u8 \<Rightarrow> u32 \<Rightarrow> built" where
  "AsnHeaderBuild dl t len =
     (if dl < 1 then None else map_option (\<lambda>(bs, dl'). (t # bs, dl')) (AsnLenBuild (dl - 1) len))"

definition AsnSequenceParse :: "u8 list \<Rightarrow> u32 \<Rightarrow> u8 \<Rightarrow> (u8 list \<times> u32) asn" where
  "AsnSequenceParse data dl ty =
     asn_bind (AsnHeaderParse data dl) (\<lambda>(t, bufp, l). if t \<noteq> ty then Null else Obj (bufp, l))"

definition AsnSequenceBuild :: "u32 \<Rightarrow> u8 \<Rightarrow> u32 \<Rightarrow> built" where
  "AsnSequenceBuild dl t len =
     (if dl < 4 then None else Some ([t, 0x82, ucast (drop_bit 8 len AND 0xFF), ucast len], dl - 4))"

section \<open>Integers\<close>

text \<open>
  The common start of the parsers of primitive types: the type and the length. The loop that retrieves a
  value and the test of its sign are the same for signed and unsigned numbers.
\<close>

definition type_length :: "u8 list \<Rightarrow> (u8 \<times> u32 \<times> u8 list) asn" where
  "type_length data = asn_bind (next_byte data) (\<lambda>(t, m). asn_bind (AsnLenParse m) (\<lambda>(l, bufp). Obj (t, l, bufp)))"

fun int_loop :: "nat \<Rightarrow> u8 list \<Rightarrow> u32 \<Rightarrow> (u32 \<times> u8 list) asn" where
  "int_loop 0 m v = Obj (v, m)"
| "int_loop (Suc n) m v = asn_bind (next_byte m) (\<lambda>(b, m'). int_loop n m' (push_bit 8 v OR ucast b))"

definition int_value :: "u32 \<Rightarrow> u8 list \<Rightarrow> (u32 \<times> u8 list) asn" where
  "int_value l bufp = asn_bind (next_byte bufp) (\<lambda>(b, _). int_loop (unat l) bufp (if b AND 0x80 \<noteq> 0 then -1 else 0))"

definition AsnIntegerParse :: "u8 list \<Rightarrow> u32 \<Rightarrow> ((u8 \<times> u32) \<times> u8 list \<times> u32) asn" where
  "AsnIntegerParse data dl = asn_bind (type_length data) (\<lambda>(t, l, bufp).
     if l > 4 \<or> l + ptr_diff data bufp > dl then Null
     else asn_bind (int_value l bufp) (\<lambda>(v, m). Obj ((t, v), m, dl - (l + ptr_diff data bufp))))"

definition AsnUnsignedParse :: "u8 list \<Rightarrow> u32 \<Rightarrow> ((u8 \<times> u32) \<times> u8 list \<times> u32) asn" where
  "AsnUnsignedParse data dl = asn_bind (type_length data) (\<lambda>(t, l, bufp).
     if l > 5 then Null
     else asn_bind (if l = 5 then next_byte bufp else Obj (0, bufp)) (\<lambda>(b, _).
       if b \<noteq> 0 then Null
       else if l + ptr_diff data bufp > dl then Null
       else asn_bind (int_value l bufp) (\<lambda>(v, m). Obj ((t, v), m, dl - (l + ptr_diff data bufp)))))"

text \<open>The loops that find the number of significant bytes and store them, most significant byte first.\<close>

fun trim_loop :: "nat \<Rightarrow> u32 \<Rightarrow> nat \<times> u32" where
  "trim_loop (Suc (Suc n)) v =
     (if v AND 0xFF800000 = 0 \<or> v AND 0xFF800000 = 0xFF800000 then trim_loop (Suc n) (push_bit 8 v) else (Suc (Suc n), v))"
| "trim_loop n v = (n, v)"

fun store_loop :: "nat \<Rightarrow> u32 \<Rightarrow> u8 list" where
  "store_loop 0 v = []"
| "store_loop (Suc n) v = ucast (drop_bit 24 (v AND 0xFF000000)) # store_loop n (push_bit 8 v)"

text \<open>The end that all builders of numbers share: the header, and the bytes if there is space for them.\<close>

definition put_value :: "u32 \<Rightarrow> u8 \<Rightarrow> nat \<Rightarrow> u8 list \<Rightarrow> built" where
  "put_value dl t sz bs =
     (case AsnHeaderBuild dl t (word_of_nat sz) of
        None \<Rightarrow> None
      | Some (hdr, dl1) \<Rightarrow> if dl1 < word_of_nat sz then None else Some (hdr @ bs, dl1 - word_of_nat sz))"

definition AsnIntegerBuild :: "u32 \<Rightarrow> u8 \<Rightarrow> u32 \<Rightarrow> built" where
  "AsnIntegerBuild dl t val = (case trim_loop 4 val of (sz, v) \<Rightarrow> put_value dl t sz (store_loop sz v))"

definition AsnUnsignedBuild :: "u32 \<Rightarrow> u8 \<Rightarrow> u32 \<Rightarrow> built" where
  "AsnUnsignedBuild dl t val =
     (if val AND 0x80000000 \<noteq> 0 then put_value dl t 5 (0 # store_loop 4 val)
      else case trim_loop 4 val of (sz, v) \<Rightarrow> put_value dl t sz (store_loop sz v))"

section \<open>64-bit integers\<close>

record UNSIGNED64 =
  high :: u32
  low :: u32

fun u64_loop :: "nat \<Rightarrow> u8 list \<Rightarrow> u32 \<Rightarrow> u32 \<Rightarrow> (UNSIGNED64 \<times> u8 list) asn" where
  "u64_loop 0 m hi lo = Obj (\<lparr>high = hi, low = lo\<rparr>, m)"
| "u64_loop (Suc n) m hi lo = asn_bind (next_byte m) (\<lambda>(b, m').
     u64_loop n m' (push_bit 8 hi OR drop_bit 24 (lo AND 0xFF000000)) (push_bit 8 lo OR ucast b))"

definition AsnUnsigned64Parse :: "u8 list \<Rightarrow> u32 \<Rightarrow> ((u8 \<times> UNSIGNED64) \<times> u8 list \<times> u32) asn" where
  "AsnUnsigned64Parse data dl = asn_bind (type_length data) (\<lambda>(t, l, bufp).
     if l + ptr_diff data bufp > dl then Null
     else if l > 9 then Null
     else asn_bind (if l = 9 then next_byte bufp else Obj (0, bufp)) (\<lambda>(b, _).
       if b \<noteq> 0 then Null
       else asn_bind (next_byte bufp) (\<lambda>(b, _).
         asn_bind (if b AND 0x80 \<noteq> 0 then u64_loop (unat l) bufp (-1) (-1) else u64_loop (unat l) bufp 0 0) (\<lambda>(v, m).
           Obj ((t, v), m, dl - (l + ptr_diff data bufp))))))"

text \<open>One byte further: the top byte of the low half moves into the high half.\<close>

definition shift64 :: "u32 \<Rightarrow> u32 \<Rightarrow> u32" where
  "shift64 hi lo = push_bit 8 hi OR drop_bit 24 (lo AND 0xFF000000)"

fun trim64_loop :: "nat \<Rightarrow> u32 \<Rightarrow> u32 \<Rightarrow> nat \<times> u32 \<times> u32" where
  "trim64_loop (Suc (Suc n)) hi lo =
     (if hi AND 0xFF800000 = 0 \<or> hi AND 0xFF800000 = 0xFF800000 then trim64_loop (Suc n) (shift64 hi lo) (push_bit 8 lo)
      else (Suc (Suc n), hi, lo))"
| "trim64_loop n hi lo = (n, hi, lo)"

fun store64_loop :: "nat \<Rightarrow> u32 \<Rightarrow> u32 \<Rightarrow> u8 list" where
  "store64_loop 0 hi lo = []"
| "store64_loop (Suc n) hi lo = ucast (drop_bit 24 (hi AND 0xFF000000)) # store64_loop n (shift64 hi lo) (push_bit 8 lo)"

definition AsnUnsigned64Build :: "u32 \<Rightarrow> u8 \<Rightarrow> UNSIGNED64 \<Rightarrow> built" where
  "AsnUnsigned64Build dl t cp =
     (let msb = ((ucast (drop_bit 24 (high cp AND 0xFF000000)) :: u8) AND 0x80 \<noteq> 0) in
      case trim64_loop (if msb then 9 else 8) (high cp) (low cp) of (sz, hi, lo) \<Rightarrow>
        put_value dl t sz (if msb then 0 # store64_loop (sz - 1) hi lo else store64_loop sz hi lo))"

section \<open>Strings and null\<close>

definition AsnOctetStringParse :: "u8 list \<Rightarrow> u32 \<Rightarrow> u32 \<Rightarrow> ((u8 \<times> u8 list \<times> u32) \<times> u8 list \<times> u32) asn" where
  "AsnOctetStringParse data dl strlength = asn_bind (type_length data) (\<lambda>(t, l, bufp).
     if l > strlength \<or> l + ptr_diff data bufp > dl then Null
     else if length bufp < unat l then Overrun
     else Obj ((t, take (unat l) bufp, if l \<noteq> 0 then l else strlength), drop (unat l) bufp, dl - (l + ptr_diff data bufp)))"

text \<open>The string is given by its contents; \<open>None\<close> stands for the null pointer.\<close>

definition AsnOctetStringBuild :: "u32 \<Rightarrow> u8 \<Rightarrow> u8 list option \<Rightarrow> u32 \<Rightarrow> built" where
  "AsnOctetStringBuild dl t str strlength =
     (case AsnHeaderBuild dl t strlength of
        None \<Rightarrow> None
      | Some (hdr, dl1) \<Rightarrow>
          if strlength \<noteq> 0 then
            if dl1 < strlength then None
            else Some (hdr @ (case str of Some s \<Rightarrow> take (unat strlength) s | None \<Rightarrow> replicate (unat strlength) 0), dl1 - strlength)
          else Some (hdr, dl1))"

definition AsnNullParse :: "u8 list \<Rightarrow> u32 \<Rightarrow> (u8 \<times> u8 list \<times> u32) asn" where
  "AsnNullParse data dl = asn_bind (type_length data) (\<lambda>(t, l, bufp).
     if l \<noteq> 0 then Null else Obj (t, bufp, dl - ptr_diff data bufp))"

definition AsnNullBuild :: "u32 \<Rightarrow> u8 \<Rightarrow> built" where
  "AsnNullBuild dl t = AsnHeaderBuild dl t 0"

definition AsnBitStringParse :: "u8 list \<Rightarrow> u32 \<Rightarrow> u32 \<Rightarrow> ((u8 \<times> u8 list) \<times> u8 list \<times> u32) asn" where
  "AsnBitStringParse data dl strlength = asn_bind (type_length data) (\<lambda>(t, l, bufp).
     if l + ptr_diff data bufp > dl then Null
     else if l < 1 \<or> l > strlength then Null
     else asn_bind (next_byte bufp) (\<lambda>(b, _).
       if b > 7 then Null
       else if length bufp < unat l then Overrun
       else Obj ((t, take (unat l) bufp), drop (unat l) bufp, dl - (l + ptr_diff data bufp))))"

definition AsnBitStringBuild :: "u32 \<Rightarrow> u8 \<Rightarrow> u8 list \<Rightarrow> u32 \<Rightarrow> built" where
  "AsnBitStringBuild dl t str strlength =
     (case AsnHeaderBuild dl t strlength of
        None \<Rightarrow> None
      | Some (hdr, dl1) \<Rightarrow>
          if strlength \<noteq> 0 then
            if strlength > dl1 then None else Some (hdr @ take (unat strlength) str, dl1 - strlength)
          else Some (hdr, dl1))"

section \<open>Object identifiers\<close>

definition MAX_OID_LEN :: nat where
  "MAX_OID_LEN = 32"

text \<open>One sub identifier: seven bits of each byte, up to the first byte without the high bit.\<close>

fun subid_loop :: "u8 list \<Rightarrow> u32 \<Rightarrow> int \<Rightarrow> (u32 \<times> int \<times> u8 list) asn" where
  "subid_loop [] sub len = Overrun"
| "subid_loop (b # m) sub len =
     (let sub' = push_bit 7 sub + ucast (b AND NOT 0x80) in
      if b AND 0x80 \<noteq> 0 then subid_loop m sub' (len - 1) else Obj (sub', len - 1, m))"

lemma subid_loop_shorter: "subid_loop m sub len = Obj (s, l, m') \<Longrightarrow> length m' < length m"
  by (induction m sub len rule: subid_loop.induct) (auto simp: Let_def split: if_splits)

text \<open>
  The loop over the sub identifiers. \<open>oidp\<close> is the index of the next entry of the caller's array \<open>objid\<close>,
  \<open>room\<close> the counter of the entries that may still be stored.
\<close>

function oid_loop :: "u8 list \<Rightarrow> int \<Rightarrow> u32 \<Rightarrow> nat \<Rightarrow> u32 list \<Rightarrow> (u8 list \<times> nat \<times> u32 list) asn" where
  "oid_loop m len room oidp objid =
     (if len > 0 \<and> room > 0 then
        (case subid_loop m 0 len of
           Overrun \<Rightarrow> Overrun
         | Null \<Rightarrow> Null
         | Obj (sub, len', m') \<Rightarrow>
             if oidp < length objid then oid_loop m' len' (room - 1) (oidp + 1) (objid[oidp := sub]) else Overrun)
      else Obj (m, oidp, objid))"
  by pat_completeness auto
termination
  by (relation "measure (\<lambda>(m, _). length m)") (auto dest: subid_loop_shorter)

text \<open>The first entry is split into the first two sub identifiers.\<close>

definition oid_split :: "u32 \<Rightarrow> u32 \<times> u32" where
  "oid_split sub =
     (if sub = 0x2B then (1, 3)
      else let y = ucast (ucast (sub mod 40) :: u8) in (ucast (ucast ((sub - y) div 40) :: u8), y))"

definition AsnOidParse :: "u8 list \<Rightarrow> u32 \<Rightarrow> u32 list \<Rightarrow> u32 \<Rightarrow> ((u8 \<times> u32 list \<times> nat) \<times> u8 list \<times> u32) asn" where
  "AsnOidParse data dl objid objidlength = asn_bind (type_length data) (\<lambda>(t, l, bufp).
     if l + ptr_diff data bufp > dl then Null
     else if l = 0 \<and> length objid < 2 then Overrun
     else asn_bind (oid_loop bufp (sint l) (objidlength - 1) 1 (if l = 0 then objid[0 := 0, 1 := 0] else objid)) (\<lambda>(m, oidp, oid).
       if length oid < 2 then Overrun
       else case oid_split (oid ! 1) of (x, y) \<Rightarrow>
         Obj ((t, oid[0 := x, 1 := y], oidp), m, dl - (l + ptr_diff data bufp))))"

text \<open>The values that are encoded: the first two sub identifiers make up the first of them.\<close>

fun oid_values :: "u32 list \<Rightarrow> u32 list option" where
  "oid_values [] = Some [0]"
| "oid_values [x] = (if x > 2 then None else Some [x * 40])"
| "oid_values (x # y # os) =
     (if x > 2 then None
      else if y > 40 \<and> x < 2 then None
      else if length (x # y # os) > MAX_OID_LEN then None
      else Some ((x * 40 + y) # os))"

definition subid_size :: "u32 \<Rightarrow> nat" where
  "subid_size v = (if v < 0x80 then 1 else if v < 0x4000 then 2 else if v < 0x200000 then 3 else if v < 0x10000000 then 4 else 5)"

definition subid_bytes :: "u32 \<Rightarrow> u8 list" where
  "subid_bytes v =
     (let b0 = ucast (v AND 0x7F);
          b1 = ucast ((drop_bit 7 v AND 0x7F) OR 0x80);
          b2 = ucast ((drop_bit 14 v AND 0x7F) OR 0x80);
          b3 = ucast ((drop_bit 21 v AND 0x7F) OR 0x80)
      in if subid_size v = 1 then [ucast v]
         else if subid_size v = 2 then [ucast (drop_bit 7 v OR 0x80), b0]
         else if subid_size v = 3 then [ucast (drop_bit 14 v OR 0x80), b1, b0]
         else if subid_size v = 4 then [ucast (drop_bit 21 v OR 0x80), b2, b1, b0]
         else [ucast (drop_bit 28 v OR 0x80), b3, b2, b1, b0])"

text \<open>\<open>mem\<close> tells whether the memory for the table of sizes can be allocated.\<close>

definition AsnOidBuild :: "bool \<Rightarrow> u32 \<Rightarrow> u8 \<Rightarrow> u32 list \<Rightarrow> built" where
  "AsnOidBuild mem dl t objid =
     (case oid_values objid of
        None \<Rightarrow> None
      | Some vs \<Rightarrow>
          if \<not> mem then None
          else let asnlength = word_of_nat (sum_list (map subid_size vs)) in
            case AsnHeaderBuild dl t asnlength of
              None \<Rightarrow> None
            | Some (hdr, dl1) \<Rightarrow>
                if asnlength > dl1 then None else Some (hdr @ concat (map subid_bytes vs), dl1 - asnlength))"

end
