(* ===== verification/Nut_Asn1_Int.thy ===== *)
theory Nut_Asn1_Int
  imports Nut_Asn1
begin

text \<open>
  The integers of the ASN.1 codec: what the builders store is read back by the parsers. The lemmas on
  the loops are about words of any length; the pair of halves of a 64-bit number is one word of 64 bits.
\<close>

unbundle bit_operations_syntax

section \<open>Bytes of a word\<close>

text \<open>The lowest \<open>n\<close> bytes of a word, most significant byte first.\<close>

fun low_bytes :: "nat \<Rightarrow> 'a::len word \<Rightarrow> u8 list" where
  "low_bytes 0 w = []"
| "low_bytes (Suc n) w = ucast (drop_bit (8 * n) w) # low_bytes n w"

definition append_byte :: "'a::len word \<Rightarrow> u8 \<Rightarrow> 'a word" where
  "append_byte a b = push_bit 8 a OR ucast b"

text \<open>All bits from the top bit of byte \<open>n\<close> on are the same.\<close>

definition sign_ext :: "nat \<Rightarrow> 'a::len word \<Rightarrow> bool" where
  "sign_ext n w \<longleftrightarrow> (\<forall>j. 8 * n - 1 \<le> j \<and> j < LENGTH('a) \<longrightarrow> bit w j = bit w (8 * n - 1))"

lemma sign_extD: "sign_ext n (w :: 'a::len word) \<Longrightarrow> 8 * n - 1 \<le> j \<Longrightarrow> j < LENGTH('a) \<Longrightarrow> bit w j = bit w (8 * n - 1)"
  unfolding sign_ext_def by blast

lemma sign_ext_full:
  assumes "8 * n = LENGTH('a)"
  shows "sign_ext n (w :: 'a::len word)"
  unfolding sign_ext_def
proof (intro allI impI)
  fix j
  assume "8 * n - 1 \<le> j \<and> j < LENGTH('a)"
  then have "j = 8 * n - 1" using assms by linarith
  then show "bit w j = bit w (8 * n - 1)" by simp
qed

lemma length_low_bytes [simp]: "length (low_bytes n w) = n"
  by (induction n) auto

lemma foldl_low_bytes: "foldl append_byte s (low_bytes n w) = push_bit (8 * n) s OR take_bit (8 * n) (w :: 'a::len word)"
proof (induction n arbitrary: s)
  case 0
  then show ?case by simp
next
  case (Suc n)
  have "push_bit (8 * n) (append_byte s (ucast (drop_bit (8 * n) w))) OR take_bit (8 * n) w = push_bit (8 * Suc n) s OR take_bit (8 * Suc n) w"
    by (rule bit_eqI) (auto simp: append_byte_def bit_simps add.commute dest: bit_imp_le_length)
  then show ?case using Suc by simp
qed

lemma sign_ext_bytes:
  assumes "sign_ext n (w :: 'a::len word)" "0 < n" "8 * n \<le> LENGTH('a)"
  shows "foldl append_byte (if bit w (8 * n - 1) then -1 else 0) (low_bytes n w) = w"
proof (rule bit_eqI)
  let ?s = "if bit w (8 * n - 1) then -1 else 0 :: 'a word"
  fix j
  assume "possible_bit TYPE('a word) j"
  then have j: "j < LENGTH('a)" by simp
  have s: "bit ?s i = bit w (8 * n - 1)" if "i < LENGTH('a)" for i using that by simp
  have ext: "bit w j = bit w (8 * n - 1)" if "8 * n \<le> j"
    by (rule sign_extD [OF assms(1)]) (use that j in auto)
  have "bit (push_bit (8 * n) ?s OR take_bit (8 * n) w) j = bit w j"
  proof (cases "j < 8 * n")
    case True
    then show ?thesis using j by (simp add: bit_or_iff bit_push_bit_iff bit_take_bit_iff)
  next
    case False
    then show ?thesis using j ext s [of "j - 8 * n"] by (simp only: bit_or_iff bit_push_bit_iff bit_take_bit_iff) simp
  qed
  then show "bit (foldl append_byte ?s (low_bytes n w)) j = bit w j" by (simp only: foldl_low_bytes)
qed

lemma all_bytes: "8 * n = LENGTH('a) \<Longrightarrow> foldl append_byte 0 (low_bytes n w) = (w :: 'a::len word)"
  unfolding foldl_low_bytes by (simp add: take_bit_word_eq_self)

lemma unat_u32: "n < 4294967296 \<Longrightarrow> unat (word_of_nat n :: u32) = n"
  by (simp add: unsigned_of_nat take_bit_nat_eq_self_iff)

lemma bit_small: "unat (w :: 'a::len word) < 2 ^ n \<Longrightarrow> n \<le> j \<Longrightarrow> \<not> bit w j"
proof -
  assume "unat w < 2 ^ n" "n \<le> j"
  then have "take_bit n (unat w) = unat w" by (simp add: take_bit_nat_eq_self_iff)
  then have "\<not> bit (unat w) j" using \<open>n \<le> j\<close> by (metis bit_take_bit_iff not_le)
  then show ?thesis by (simp add: bit_unsigned_iff)
qed

lemma bit7: "((b :: u8) AND 0x80 \<noteq> 0) = bit b 7"
  using and_exp_eq_0_iff_not_bit [of b 7] by simp

lemma low_bytes_sign:
  assumes "0 < n" "8 * n \<le> LENGTH('a)"
  shows "\<exists>b bs. low_bytes n w = b # bs \<and> (b AND 0x80 \<noteq> 0) = bit (w :: 'a::len word) (8 * n - 1)"
proof -
  obtain k where k: "n = Suc k" using assms(1) by (cases n) auto
  have "8 * n - 1 = 8 * k + 7" using k by simp
  then show ?thesis unfolding k bit7 by (simp add: bit_simps add.commute)
qed

section \<open>The loops of the builders\<close>

fun trim :: "nat \<Rightarrow> 'a::len word \<Rightarrow> nat \<times> 'a word" where
  "trim (Suc (Suc n)) v =
     (if \<forall>j. LENGTH('a) - 9 \<le> j \<and> j < LENGTH('a) \<longrightarrow> bit v j = bit v (LENGTH('a) - 1) then trim (Suc n) (push_bit 8 v) else (Suc (Suc n), v))"
| "trim n v = (n, v)"

fun top_bytes :: "nat \<Rightarrow> 'a::len word \<Rightarrow> u8 list" where
  "top_bytes 0 v = []"
| "top_bytes (Suc n) v = ucast (drop_bit (LENGTH('a) - 8) v) # top_bytes n (push_bit 8 v)"

lemma top_bytes_low:
  "8 * n \<le> LENGTH('a) \<Longrightarrow> top_bytes n (push_bit (LENGTH('a) - 8 * n) (w :: 'a::len word)) = low_bytes n w"
proof (induction n)
  case 0
  then show ?case by simp
next
  case (Suc n)
  have "push_bit 8 (push_bit (LENGTH('a) - 8 * Suc n) w) = push_bit (LENGTH('a) - 8 * n) w" using Suc.prems by (simp add: push_bit_push_bit)
  moreover have "(ucast (drop_bit (LENGTH('a) - 8) (push_bit (LENGTH('a) - 8 * Suc n) w)) :: u8) = ucast (drop_bit (8 * n) w)"
  proof (rule bit_eqI)
    fix j
    assume "possible_bit TYPE(u8) j"
    then have "j < 8" by simp
    then have "LENGTH('a) - 8 + j - (LENGTH('a) - 8 * Suc n) = 8 * n + j" "LENGTH('a) - 8 * Suc n \<le> LENGTH('a) - 8 + j" "LENGTH('a) - 8 + j < LENGTH('a)" "8 * n + j < LENGTH('a)"
      using Suc.prems by auto
    then show "bit (ucast (drop_bit (LENGTH('a) - 8) (push_bit (LENGTH('a) - 8 * Suc n) w)) :: u8) j = bit (ucast (drop_bit (8 * n) w) :: u8) j"
      using \<open>j < 8\<close> by (simp add: bit_simps)
  qed
  ultimately show ?case using Suc by simp
qed

lemma trim_low:
  assumes "0 < k" "8 * k \<le> LENGTH('a)" "sign_ext k (w :: 'a::len word)"
  shows "\<exists>n. trim k (push_bit (LENGTH('a) - 8 * k) w) = (n, push_bit (LENGTH('a) - 8 * n) w) \<and> 0 < n \<and> n \<le> k \<and> sign_ext n w"
  using assms
proof (induction k)
  case (Suc k)
  show ?case
  proof (cases k)
    case 0
    then show ?thesis using Suc.prems by simp
  next
    case (Suc i)
    let ?v = "push_bit (LENGTH('a) - 8 * Suc k) w"
    show ?thesis
    proof (cases "\<forall>j. LENGTH('a) - 9 \<le> j \<and> j < LENGTH('a) \<longrightarrow> bit ?v j = bit ?v (LENGTH('a) - 1)")
      case True
      have top: "bit w j = bit w (8 * Suc k - 1)" if "8 * k - 1 \<le> j" "j < 8 * Suc k" for j
      proof -
        let ?j = "LENGTH('a) - 8 * Suc k + j"
        have "LENGTH('a) - 9 \<le> ?j" "?j < LENGTH('a)" using that Suc.prems(2) by auto
        then have "bit ?v ?j = bit ?v (LENGTH('a) - 1)" using True by blast
        moreover have "LENGTH('a) - 8 * Suc k \<le> ?j" "?j - (LENGTH('a) - 8 * Suc k) = j" "LENGTH('a) - 8 * Suc k \<le> LENGTH('a) - 1"
          "LENGTH('a) - 1 - (LENGTH('a) - 8 * Suc k) = 8 * Suc k - 1" using Suc.prems(2) by auto
        ultimately show ?thesis using \<open>?j < LENGTH('a)\<close> by (simp only: bit_push_bit_iff) simp
      qed
      have "sign_ext k w" unfolding sign_ext_def
      proof (intro allI impI)
        fix j assume j: "8 * k - 1 \<le> j \<and> j < LENGTH('a)"
        have "bit w j = bit w (8 * Suc k - 1)"
        proof (cases "j < 8 * Suc k")
          case True
          then show ?thesis using top j by blast
        next
          case False
          then show ?thesis using j by (intro sign_extD [OF Suc.prems(3)]) auto
        qed
        moreover have "bit w (8 * k - 1) = bit w (8 * Suc k - 1)" using top [of "8 * k - 1"] by simp
        ultimately show "bit w j = bit w (8 * k - 1)" by simp
      qed
      moreover have "push_bit 8 ?v = push_bit (LENGTH('a) - 8 * k) w" using Suc.prems(2) by (simp add: push_bit_push_bit)
      moreover have "trim (Suc k) ?v = trim k (push_bit 8 ?v)" using True unfolding Suc trim.simps by (rule if_P)
      moreover have "0 < k" "8 * k \<le> LENGTH('a)" using Suc Suc.prems(2) by auto
      ultimately show ?thesis using Suc.IH le_SucI by metis
    next
      case False
      then have "trim (Suc k) ?v = (Suc k, ?v)" unfolding Suc trim.simps by (rule if_not_P)
      then show ?thesis using Suc.prems by blast
    qed
  qed
qed simp

section \<open>The 32-bit loops are instances\<close>

lemma bit_top9: "bit (0xFF800000 :: u32) j \<longleftrightarrow> 23 \<le> j \<and> j < 32"
proof -
  have m: "(0xFF800000 :: u32) = push_bit 23 (mask 9)" by code_simp
  show ?thesis unfolding m by (auto simp only: bit_push_bit_iff bit_mask_iff possible_bit_word) simp_all
qed

lemma top9_iff:
  "((v :: u32) AND 0xFF800000 = 0 \<or> v AND 0xFF800000 = 0xFF800000) \<longleftrightarrow> (\<forall>j. 23 \<le> j \<and> j < 32 \<longrightarrow> bit v j = bit v 31)"
  (is "?zero \<or> ?ones \<longleftrightarrow> ?same")
proof
  assume "?zero \<or> ?ones"
  then show ?same
  proof
    assume ?zero
    then have "\<not> (bit v j \<and> bit (0xFF800000 :: u32) j)" for j by (metis bit_0_eq bit_and_iff bot_apply bot_bool_def)
    then have n: "\<not> bit v j" if "23 \<le> j" "j < 32" for j using that unfolding bit_top9 by blast
    show ?same using n n [of 31] by auto
  next
    assume ?ones
    then have "bit (0xFF800000 :: u32) j \<longrightarrow> bit v j" for j by (metis bit_and_iff)
    then have n: "bit v j" if "23 \<le> j" "j < 32" for j using that unfolding bit_top9 by blast
    show ?same using n n [of 31] by auto
  qed
next
  assume s: ?same
  show "?zero \<or> ?ones"
  proof (cases "bit v 31")
    case True
    have ?ones using s True by (intro bit_eqI) (auto simp only: bit_and_iff bit_top9)
    then show ?thesis ..
  next
    case False
    have ?zero using s False by (intro bit_eqI) (auto simp only: bit_and_iff bit_top9 bit_0_eq bot_apply bot_bool_def)
    then show ?thesis ..
  qed
qed

lemma trim_loop_trim: "trim_loop n v = trim n v"
proof (induction n v rule: trim_loop.induct)
  case (1 n v)
  have c: "(\<forall>j. LENGTH(32) - 9 \<le> j \<and> j < LENGTH(32) \<longrightarrow> bit v j = bit v (LENGTH(32) - 1)) \<longleftrightarrow> v AND 0xFF800000 = 0 \<or> v AND 0xFF800000 = 0xFF800000"
    unfolding top9_iff by simp
  show ?case unfolding trim_loop.simps trim.simps c using 1 by simp
qed simp_all

lemma top_byte: "drop_bit 24 ((v :: u32) AND 0xFF000000) = drop_bit 24 v"
proof -
  have m: "(0xFF000000 :: u32) = push_bit 24 (mask 8)" by code_simp
  show ?thesis by (rule bit_eqI) (auto simp: m bit_simps dest: bit_imp_le_length)
qed

lemma store_loop_top: "store_loop n v = top_bytes n v"
proof (induction n arbitrary: v)
  case (Suc n)
  have "LENGTH(32) - 8 = 24" by simp
  then show ?case unfolding store_loop.simps top_bytes.simps top_byte by (simp only: Suc)
qed simp

lemma trim_store:
  obtains n where "trim_loop 4 v = (n, push_bit (32 - 8 * n) v)" "store_loop n (push_bit (32 - 8 * n) v) = low_bytes n v"
    "0 < n" "n \<le> 4" "sign_ext n (v :: u32)"
proof -
  have "sign_ext 4 v" by (rule sign_ext_full) simp
  then obtain n where n: "trim 4 v = (n, push_bit (32 - 8 * n) v)" "0 < n" "n \<le> 4" "sign_ext n v" using trim_low [of 4 v] by auto
  then have "store_loop n (push_bit (32 - 8 * n) v) = low_bytes n v" using top_bytes_low [of n v] by (simp add: store_loop_top)
  then show thesis using that n by (simp add: trim_loop_trim)
qed

lemma int_loop_foldl: "int_loop (length bs) (bs @ m) v = Obj (foldl append_byte v bs, m)"
  by (induction bs arbitrary: v) (simp_all add: append_byte_def)

lemma int_value_bytes:
  "0 < length bs \<Longrightarrow> length bs \<le> 5 \<Longrightarrow>
     int_value (word_of_nat (length bs)) (bs @ m) = Obj (foldl append_byte (if hd bs AND 0x80 \<noteq> 0 then -1 else 0) bs, m)"
proof -
  assume "0 < length bs" "length bs \<le> 5"
  moreover have "unat (word_of_nat (length bs) :: u32) = length bs" using \<open>length bs \<le> 5\<close> by (simp add: unat_of_nat)
  ultimately show ?thesis using int_loop_foldl [of bs m] by (cases bs) (auto simp: int_value_def)
qed

section \<open>The pair of halves as one word\<close>

definition join64 :: "u32 \<Rightarrow> u32 \<Rightarrow> 64 word" where
  "join64 hi lo = push_bit 32 (ucast hi) OR ucast lo"

lemma bit_join64: "bit (join64 hi lo) j \<longleftrightarrow> (if j < 32 then bit lo j else bit hi (j - 32))"
  by (auto simp: join64_def bit_simps dest: bit_imp_le_length)

lemma join64_inj: "join64 hi lo = join64 hi' lo' \<Longrightarrow> hi = hi' \<and> lo = lo'"
proof -
  assume "join64 hi lo = join64 hi' lo'"
  then have b: "bit (join64 hi lo) j = bit (join64 hi' lo') j" for j by simp
  have "bit lo j = bit lo' j" if "j < 32" for j using b [of j] that by (simp add: bit_join64)
  moreover have "bit hi j = bit hi' j" for j using b [of "j + 32"] by (simp add: bit_join64)
  ultimately show ?thesis by (auto intro!: bit_eqI)
qed

lemma shift_join: "join64 (shift64 hi lo) (push_bit 8 lo) = push_bit 8 (join64 hi lo)"
  unfolding shift64_def top_byte
  by (rule bit_eqI) (auto simp: bit_join64 bit_simps dest: bit_imp_le_length)

lemma shift_join_byte: "join64 (shift64 hi lo) (push_bit 8 lo OR ucast b) = append_byte (join64 hi lo) b"
  unfolding shift64_def top_byte append_byte_def
  by (rule bit_eqI) (auto simp: bit_join64 bit_simps dest: bit_imp_le_length)

lemma trim64_join: "trim64_loop n hi lo = (k, hi', lo') \<Longrightarrow> trim n (join64 hi lo) = (k, join64 hi' lo')"
proof (induction n hi lo rule: trim64_loop.induct)
  case (1 n hi lo)
  have "(\<forall>j. 55 \<le> j \<and> j < 64 \<longrightarrow> bit (join64 hi lo) j = bit (join64 hi lo) 63) \<longleftrightarrow> (\<forall>j. 23 \<le> j \<and> j < 32 \<longrightarrow> bit hi j = bit hi 31)"
  proof (rule iffI; intro allI impI)
    fix j :: nat
    assume a: "\<forall>j. 55 \<le> j \<and> j < 64 \<longrightarrow> bit (join64 hi lo) j = bit (join64 hi lo) 63" and "23 \<le> j \<and> j < 32"
    then have "bit (join64 hi lo) (j + 32) = bit (join64 hi lo) 63" by (intro spec [OF a, THEN mp]) auto
    then show "bit hi j = bit hi 31" by (simp add: bit_join64)
  next
    fix j :: nat
    assume a: "\<forall>j. 23 \<le> j \<and> j < 32 \<longrightarrow> bit hi j = bit hi 31" and j: "55 \<le> j \<and> j < 64"
    have "23 \<le> j - 32 \<and> j - 32 < 32" using j by auto
    then have "bit hi (j - 32) = bit hi 31" using a by blast
    then show "bit (join64 hi lo) j = bit (join64 hi lo) 63" using j by (simp only: bit_join64) simp
  qed
  then have c: "(\<forall>j. LENGTH(64) - 9 \<le> j \<and> j < LENGTH(64) \<longrightarrow> bit (join64 hi lo) j = bit (join64 hi lo) (LENGTH(64) - 1)) \<longleftrightarrow>
      hi AND 0xFF800000 = 0 \<or> hi AND 0xFF800000 = 0xFF800000"
    unfolding top9_iff by simp
  show ?case unfolding trim.simps c using 1 by (auto simp: shift_join split: if_splits)
qed auto

lemma store64_join: "store64_loop n hi lo = top_bytes n (join64 hi lo)"
proof (induction n arbitrary: hi lo)
  case (Suc n)
  have "(ucast (drop_bit 24 hi) :: u8) = ucast (drop_bit (LENGTH(64) - 8) (join64 hi lo))"
    by (rule bit_eqI) (simp add: bit_simps bit_join64)
  then show ?case unfolding store64_loop.simps top_bytes.simps top_byte by (simp only: Suc shift_join)
qed simp

lemma u64_loop_join:
  "\<exists>v. u64_loop (length bs) (bs @ m) hi lo = Obj (v, m) \<and> join64 (high v) (low v) = foldl append_byte (join64 hi lo) bs"
proof (induction bs arbitrary: hi lo)
  case (Cons b bs)
  have "u64_loop (length (b # bs)) ((b # bs) @ m) hi lo = u64_loop (length bs) (bs @ m) (shift64 hi lo) (push_bit 8 lo OR ucast b)"
    unfolding shift64_def by (simp only: list.size append_Cons add_Suc_right add_0_right u64_loop.simps next_byte.simps asn_bind.simps prod.case One_nat_def)
  then show ?case using Cons [of "shift64 hi lo" "push_bit 8 lo OR ucast b"] shift_join_byte [of hi lo b] by (simp only: foldl_Cons)
qed simp

lemma join64_minus: "join64 (-1) (-1) = -1"
  by code_simp

lemma join64_zero: "join64 0 0 = 0"
  by code_simp

section \<open>Headers\<close>

lemma AsnLenBuild_size: "AsnLenBuild dl len = Some (bs, dl') \<Longrightarrow> unat dl = unat dl' + length bs \<and> 1 \<le> length bs \<and> length bs \<le> 3"
  by (auto simp: AsnLenBuild_def unat_sub word_le_nat_alt word_less_nat_alt split: if_splits)

lemma less_bit7: "len < 0x80 \<Longrightarrow> (ucast (len :: u32) :: u8) AND 0x80 = 0"
proof -
  assume "len < 0x80"
  then have "\<not> bit len 7" by (intro bit_small [of _ 7]) (simp_all add: word_less_nat_alt)
  then show ?thesis using bit7 [of "ucast len"] by (simp add: bit_simps)
qed

lemma low_bytes2: "len \<le> 0xFFFF \<Longrightarrow> (push_bit 8 (ucast (ucast (drop_bit 8 len AND 0xFF) :: u8)) OR ucast (ucast (len AND 0xFF) :: u8) :: u32) = len"
proof -
  assume "len \<le> 0xFFFF"
  then have "unat len < 2 ^ 16" by (simp add: word_le_nat_alt)
  then have b: "\<not> bit len j" if "16 \<le> j" for j using that by (rule bit_small)
  have m: "(0xFF :: u32) = mask 8" by (simp add: mask_eq_decr_exp)
  have "n - 8 < 8" if "bit len n" for n using b [of n] that by (cases "16 \<le> n") auto
  then show ?thesis unfolding m by (intro bit_eqI) (auto simp: bit_simps)
qed

lemma AsnLenParse_cases:
  "b AND 0x80 = 0 \<Longrightarrow> AsnLenParse (b # m) = Obj (ucast b, m)"
  "AsnLenParse (0x81 # b # m) = Obj (ucast b, m)"
  "AsnLenParse (0x82 # b # c # m) = Obj (push_bit 8 (ucast b) OR ucast c, m)"
proof -
  have c: "(0x81 :: u8) AND NOT 0x80 = 1" "(0x82 :: u8) AND NOT 0x80 = 2" "((0x81 :: u8) AND 0x80 \<noteq> 0) = True" "((0x82 :: u8) AND 0x80 \<noteq> 0) = True" by code_simp+
  have n: "unat (1 :: u8) = Suc 0" "unat (2 :: u8) = Suc (Suc 0)" "((1 :: u8) = 0 \<or> (1 :: u8) > 4) = False" "((2 :: u8) = 0 \<or> (2 :: u8) > 4) = False"
    by simp_all
  show "AsnLenParse (0x81 # b # m) = Obj (ucast b, m)" "AsnLenParse (0x82 # b # c # m) = Obj (push_bit 8 (ucast b) OR ucast c, m)"
    unfolding AsnLenParse_def next_byte.simps asn_bind.simps prod.case c Let_def if_True n if_False len_loop.simps by simp_all
  show "b AND 0x80 = 0 \<Longrightarrow> AsnLenParse (b # m) = Obj (ucast b, m)" by (simp add: AsnLenParse_def)
qed

lemma len_parse_built:
  assumes "AsnLenBuild dl len = Some (bs, dl')" "len \<le> 0xFFFF"
  shows "AsnLenParse (bs @ m) = Obj (len, m)"
proof -
  have short: "(ucast (ucast len :: u8) :: u32) = len" if "len \<le> 0xFF"
  proof -
    have "unat len < 256" using that by (simp add: word_le_nat_alt)
    then show ?thesis unfolding word_unat_eq_iff byte_simps by simp
  qed
  consider "len < 0x80" "bs = [ucast len]" | "\<not> len < 0x80" "len \<le> 0xFF" "bs = [0x81, ucast len]"
    | "bs = [0x82, ucast (drop_bit 8 len AND 0xFF), ucast (len AND 0xFF)]"
    using assms(1) by (auto simp: AsnLenBuild_def split: if_splits)
  then show ?thesis
  proof cases
    case 1
    then have "len \<le> 0xFF" by (simp add: word_le_nat_alt word_less_nat_alt)
    then show ?thesis using 1 short AsnLenParse_cases(1) [OF less_bit7 [OF 1(1)], of m] by simp
  next
    case 2
    then show ?thesis using short AsnLenParse_cases(2) [of "ucast len" m] by simp
  next
    case 3
    then show ?thesis by (simp only: append_Cons append_Nil AsnLenParse_cases(3) low_bytes2 [OF assms(2)])
  qed
qed

lemma AsnHeaderBuild_ok:
  assumes "AsnHeaderBuild dl t len = Some (hdr, dl1)"
  shows "unat dl = unat dl1 + length hdr" "2 \<le> length hdr" "length hdr \<le> 4"
    "len \<le> 0xFFFF \<Longrightarrow> type_length (hdr @ m) = Obj (t, len, m)"
proof -
  from assms obtain bs where b: "\<not> dl < 1" "AsnLenBuild (dl - 1) len = Some (bs, dl1)" "hdr = t # bs"
    by (auto simp: AsnHeaderBuild_def split: if_splits)
  have "unat (dl - 1) = unat dl - 1" "unat dl \<ge> 1" using b(1) by (simp_all add: unat_sub word_le_nat_alt word_less_nat_alt)
  then show "unat dl = unat dl1 + length hdr" "2 \<le> length hdr" "length hdr \<le> 4" using AsnLenBuild_size [OF b(2)] b(3) by auto
  show "len \<le> 0xFFFF \<Longrightarrow> type_length (hdr @ m) = Obj (t, len, m)" using len_parse_built [OF b(2)] b(3) by (simp add: type_length_def)
qed

text \<open>What the parsers of primitive types check and compute behind the header.\<close>

lemma valid_bytes:
  assumes "length hdr + length bs \<le> unat (dl :: u32)"
  shows "\<not> word_of_nat (length bs) + ptr_diff (hdr @ bs @ m) (bs @ m) > dl"
    "dl - (word_of_nat (length bs) + ptr_diff (hdr @ bs @ m) (bs @ m)) = dl - word_of_nat (length hdr + length bs)"
proof -
  have e: "word_of_nat (length bs) + ptr_diff (hdr @ bs @ m) (bs @ m) = word_of_nat (length hdr + length bs)" by (simp add: ptr_diff_def)
  have "unat (word_of_nat (length hdr + length bs) :: u32) \<le> unat dl"
    using assms order_trans [OF take_bit_nat_less_eq_self [of 32 "length hdr + length bs"] assms] by (simp only: unsigned_of_nat) simp
  then show "\<not> word_of_nat (length bs) + ptr_diff (hdr @ bs @ m) (bs @ m) > dl" unfolding e by (simp add: word_less_nat_alt)
  show "dl - (word_of_nat (length bs) + ptr_diff (hdr @ bs @ m) (bs @ m)) = dl - word_of_nat (length hdr + length bs)" unfolding e ..
qed

lemma put_value_ok:
  assumes "put_value dl t n bs = Some (out, dl')" "length bs = n" "n \<le> 0xFFFF"
  obtains hdr where "out = hdr @ bs" "\<And>m. type_length (hdr @ m) = Obj (t, word_of_nat n, m)" "unat dl = unat dl' + length out" "hdr \<noteq> []"
proof -
  obtain hdr dl1 where h: "AsnHeaderBuild dl t (word_of_nat n) = Some (hdr, dl1)" "\<not> dl1 < word_of_nat n" "out = hdr @ bs" "dl' = dl1 - word_of_nat n"
    using assms(1) by (auto simp: put_value_def split: option.splits if_splits)
  have u: "unat (word_of_nat n :: u32) = n" using assms(3) by (simp add: unsigned_of_nat take_bit_nat_eq_self_iff)
  then have "word_of_nat n \<le> (0xFFFF :: u32)" using assms(3) by (simp add: word_le_nat_alt)
  moreover have "unat dl1 = unat dl' + n" using h(2,4) u by (simp add: unat_sub word_less_nat_alt word_le_nat_alt)
  moreover have "hdr \<noteq> []" using AsnHeaderBuild_ok(2) [OF h(1)] by auto
  ultimately show thesis using that AsnHeaderBuild_ok [OF h(1)] h(3) assms(2) by auto
qed

section \<open>Round trips\<close>

text \<open>
  The contract of a codec: a builder stores as many bytes as it takes from the buffer, and the parser reads
  from any memory that starts with these bytes the value back and stops behind them.
\<close>

locale asn_codec =
  fixes build :: "u32 \<Rightarrow> 'v \<Rightarrow> built"
    and parse :: "u8 list \<Rightarrow> u32 \<Rightarrow> ('v \<times> u8 list \<times> u32) asn"
    and ok :: "'v \<Rightarrow> bool"
  assumes build_size: "build dl v = Some (out, dl') \<Longrightarrow> unat dl = unat dl' + length out \<and> out \<noteq> []"
    and parse_built: "ok v \<Longrightarrow> build dl v = Some (out, dl') \<Longrightarrow> length out \<le> unat n \<Longrightarrow>
      parse (out @ m) n = Obj (v, m, n - word_of_nat (length out))"
begin

fun build_all :: "u32 \<Rightarrow> 'v list \<Rightarrow> built" where
  "build_all dl [] = Some ([], dl)"
| "build_all dl (v # vs) =
     (case build dl v of None \<Rightarrow> None | Some (out, dl1) \<Rightarrow> map_option (\<lambda>(out', dl'). (out @ out', dl')) (build_all dl1 vs))"

fun parse_all :: "nat \<Rightarrow> u8 list \<Rightarrow> u32 \<Rightarrow> ('v list \<times> u8 list \<times> u32) asn" where
  "parse_all 0 m n = Obj ([], m, n)"
| "parse_all (Suc k) m n = asn_bind (parse m n) (\<lambda>(v, m1, n1). asn_bind (parse_all k m1 n1) (\<lambda>(vs, m2, n2). Obj (v # vs, m2, n2)))"

lemma build_all_size: "build_all dl vs = Some (out, dl') \<Longrightarrow> unat dl = unat dl' + length out"
  by (induction vs arbitrary: dl out) (auto split: option.splits dest!: build_size)

lemma parse_all_built:
  "build_all dl vs = Some (out, dl') \<Longrightarrow> list_all ok vs \<Longrightarrow> length out \<le> unat n \<Longrightarrow>
     parse_all (length vs) (out @ m) n = Obj (vs, m, n - word_of_nat (length out))"
proof (induction vs arbitrary: dl out n)
  case Nil
  then show ?case by simp
next
  case (Cons v vs)
  then obtain o1 dl1 o2 where b: "build dl v = Some (o1, dl1)" "build_all dl1 vs = Some (o2, dl')" "out = o1 @ o2"
    by (auto split: option.splits)
  have l: "length o1 + length o2 \<le> unat n" using Cons.prems(3) b(3) by simp
  then have "unat (word_of_nat (length o1) :: u32) = length o1" using unat_bound(3) [of n] by (simp add: unsigned_of_nat take_bit_nat_eq_self_iff)
  then have "length o2 \<le> unat (n - word_of_nat (length o1))" using l by (simp add: unat_sub word_le_nat_alt)
  then have "parse_all (length vs) (o2 @ m) (n - word_of_nat (length o1)) = Obj (vs, m, n - word_of_nat (length o1) - word_of_nat (length o2))"
    using Cons.IH [OF b(2)] Cons.prems(2) by simp
  moreover have "parse (o1 @ o2 @ m) n = Obj (v, o2 @ m, n - word_of_nat (length o1))"
    using parse_built [OF _ b(1)] Cons.prems(2) l by simp
  ultimately show ?case using b(3) by (simp add: diff_diff_eq)
qed

end

lemma int_parsed:
  assumes "out = hdr @ bs" "\<And>m. type_length (hdr @ m) = Obj (t, word_of_nat (length bs), m)" "length out \<le> unat n"
    "0 < length bs" "length bs \<le> 5" "foldl append_byte (if hd bs AND 0x80 \<noteq> 0 then -1 else 0) bs = v"
  shows "length bs \<le> 4 \<Longrightarrow> AsnIntegerParse (out @ m) n = Obj ((t, v), m, n - word_of_nat (length out))"
    "length bs = 5 \<Longrightarrow> hd bs = 0 \<Longrightarrow> AsnUnsignedParse (out @ m) n = Obj ((t, v), m, n - word_of_nat (length out))"
    "length bs \<le> 4 \<Longrightarrow> AsnUnsignedParse (out @ m) n = Obj ((t, v), m, n - word_of_nat (length out))"
proof -
  have val: "int_value (word_of_nat (length bs)) (bs @ m) = Obj (v, m)" using int_value_bytes [OF assms(4,5)] assms(6) by simp
  have u: "unat (word_of_nat (length bs) :: u32) = length bs" using assms(5) by (simp add: unsigned_of_nat take_bit_nat_eq_self_iff)
  have big: "(word_of_nat (length bs) > (4 :: u32)) = (length bs > 4)" "(word_of_nat (length bs) > (5 :: u32)) = (length bs > 5)"
    "(word_of_nat (length bs) = (5 :: u32)) = (length bs = 5)" using u by (simp_all add: word_less_nat_alt word_unat_eq_iff)
  have "length hdr + length bs \<le> unat n" using assms(1,3) by simp
  note c = valid_bytes [OF this, of m]
  show "length bs \<le> 4 \<Longrightarrow> AsnIntegerParse (out @ m) n = Obj ((t, v), m, n - word_of_nat (length out))"
    using c big val by (simp add: AsnIntegerParse_def assms(1,2))
  show "length bs = 5 \<Longrightarrow> hd bs = 0 \<Longrightarrow> AsnUnsignedParse (out @ m) n = Obj ((t, v), m, n - word_of_nat (length out))"
    using c big val assms(4) by (cases bs) (simp_all add: AsnUnsignedParse_def assms(1,2))
  show "length bs \<le> 4 \<Longrightarrow> AsnUnsignedParse (out @ m) n = Obj ((t, v), m, n - word_of_nat (length out))"
    using c big val by (simp add: AsnUnsignedParse_def assms(1,2))
qed

lemma trimmed_codec:
  assumes "trim_loop 4 v = (k, w)" "put_value dl t k (store_loop k w) = Some (out, dl')"
  shows "unat dl = unat dl' + length out \<and> out \<noteq> []"
    "length out \<le> unat n \<Longrightarrow> AsnIntegerParse (out @ m) n = Obj ((t, v), m, n - word_of_nat (length out))"
    "length out \<le> unat n \<Longrightarrow> AsnUnsignedParse (out @ m) n = Obj ((t, v), m, n - word_of_nat (length out))"
proof -
  have k: "w = push_bit (32 - 8 * k) v" "store_loop k w = low_bytes k v" "0 < k" "k \<le> 4" "sign_ext k v"
    using assms(1) trim_store [of v] by auto
  from assms(2) obtain hdr where h: "out = hdr @ low_bytes k v" "\<And>m. type_length (hdr @ m) = Obj (t, word_of_nat k, m)"
    "unat dl = unat dl' + length out" "hdr \<noteq> []"
    using k(2,4) by (auto elim!: put_value_ok)
  show "unat dl = unat dl' + length out \<and> out \<noteq> []" using h(1,3,4) by simp
  obtain b bs where b: "low_bytes k v = b # bs" "(b AND 0x80 \<noteq> 0) = bit v (8 * k - 1)" using low_bytes_sign [of k v] k(3,4) by auto
  have "foldl append_byte (if hd (low_bytes k v) AND 0x80 \<noteq> 0 then -1 else 0) (low_bytes k v) = v"
    using sign_ext_bytes [OF k(5,3)] k(4) b by simp
  note p = int_parsed [of out hdr "low_bytes k v", unfolded length_low_bytes, OF h(1,2) _ k(3) _ this]
  show "length out \<le> unat n \<Longrightarrow> AsnIntegerParse (out @ m) n = Obj ((t, v), m, n - word_of_nat (length out))" using p(1) k(4) by simp
  show "length out \<le> unat n \<Longrightarrow> AsnUnsignedParse (out @ m) n = Obj ((t, v), m, n - word_of_nat (length out))" using p(3) k(4) by simp
qed

interpretation asn_integer: asn_codec "\<lambda>dl (t, v). AsnIntegerBuild dl t v" AsnIntegerParse "\<lambda>_. True"
proof (unfold_locales, goal_cases)
  case (1 dl tv out dl')
  then show ?case using trimmed_codec(1) by (auto simp: AsnIntegerBuild_def split: prod.splits)
next
  case (2 tv dl out dl' n m)
  then show ?case using trimmed_codec(2) by (auto simp: AsnIntegerBuild_def split: prod.splits)
qed

lemma msb_bytes: "store_loop 4 v = low_bytes 4 v" "foldl append_byte 0 (0 # low_bytes 4 v) = (v :: u32)"
  using top_bytes_low [of 4 v] all_bytes [of 4 v] by (simp_all only: store_loop_top foldl_Cons) (simp_all add: append_byte_def)

interpretation asn_unsigned: asn_codec "\<lambda>dl (t, v). AsnUnsignedBuild dl t v" AsnUnsignedParse "\<lambda>_. True"
proof (unfold_locales, goal_cases)
  case (1 dl tv out dl')
  then show ?case using trimmed_codec(1)
    by (auto simp: AsnUnsignedBuild_def msb_bytes split: prod.splits if_splits elim!: put_value_ok)
next
  case (2 tv dl out dl' n m)
  obtain t v where tv: "tv = (t, v)" by fastforce
  show ?case
  proof (cases "v AND 0x80000000 = 0")
    case True
    then show ?thesis using 2 tv trimmed_codec(3) by (auto simp: AsnUnsignedBuild_def split: prod.splits)
  next
    case False
    then have "put_value dl t 5 (0 # low_bytes 4 v) = Some (out, dl')" using 2(2) tv by (simp add: AsnUnsignedBuild_def msb_bytes)
    then obtain hdr where "out = hdr @ 0 # low_bytes 4 v" "\<And>m. type_length (hdr @ m) = Obj (t, word_of_nat 5, m)" by (auto elim!: put_value_ok)
    then show ?thesis using int_parsed(2) [of out hdr "0 # low_bytes 4 v" t n v m] 2(3) msb_bytes(2) [of v] tv by simp
  qed
qed

section \<open>64-bit round trip\<close>

text \<open>
  A number whose nine highest bits are all set loses its leading bytes: they are dropped as if the
  number were negative, and the null byte in front of the rest then makes it a small positive number.
\<close>

definition u64_ok :: "UNSIGNED64 \<Rightarrow> bool" where
  "u64_ok v \<longleftrightarrow> high v AND 0xFF800000 \<noteq> 0xFF800000"

lemma u64_top: "((ucast (drop_bit 24 (hi AND 0xFF000000)) :: u8) AND 0x80 \<noteq> 0) = bit (join64 hi lo) 63"
  unfolding top_byte bit7 by (simp add: bit_simps bit_join64)

lemma u64_bytes:
  assumes "\<not> bit (join64 hi lo) 63 \<or> hi AND 0xFF800000 \<noteq> 0xFF800000"
  obtains (null) "bit (join64 hi lo) 63" "trim64_loop 9 hi lo = (9, hi, lo)" "store64_loop 8 hi lo = low_bytes 8 (join64 hi lo)"
  | (pos) k hi' lo' where "\<not> bit (join64 hi lo) 63" "trim64_loop 8 hi lo = (k, hi', lo')" "store64_loop k hi' lo' = low_bytes k (join64 hi lo)"
    "0 < k" "k \<le> 8" "sign_ext k (join64 hi lo)"
proof (cases "bit (join64 hi lo) 63")
  case True
  then have b: "bit hi 31" by (simp add: bit_join64)
  have "hi AND 0xFF800000 \<noteq> 0"
  proof
    assume "hi AND 0xFF800000 = 0"
    then have "\<not> (bit hi 31 \<and> bit (0xFF800000 :: u32) 31)" by (metis bit_0_eq bit_and_iff bot_apply bot_bool_def)
    then show False using b unfolding bit_top9 by simp
  qed
  then have "trim64_loop (Suc (Suc 7)) hi lo = (9, hi, lo)" using assms True unfolding trim64_loop.simps by simp
  moreover have "store64_loop 8 hi lo = low_bytes 8 (join64 hi lo)" using top_bytes_low [of 8 "join64 hi lo"] by (simp add: store64_join)
  ultimately show thesis using null True by simp
next
  case False
  obtain k hi' lo' where t: "trim64_loop 8 hi lo = (k, hi', lo')" by (metis prod_cases3)
  have "sign_ext 8 (join64 hi lo)" by (rule sign_ext_full) simp
  from trim_low [OF _ _ this] obtain n where n: "trim 8 (join64 hi lo) = (n, push_bit (64 - 8 * n) (join64 hi lo))" "0 < n" "n \<le> 8" "sign_ext n (join64 hi lo)" by auto
  with trim64_join [OF t] have "n = k" "join64 hi' lo' = push_bit (64 - 8 * k) (join64 hi lo)" by auto
  moreover have "store64_loop k hi' lo' = low_bytes k (join64 hi lo)" using top_bytes_low [of k "join64 hi lo"] n calculation by (simp add: store64_join)
  ultimately show thesis using pos False t n by simp
qed

lemma trim64_size: "trim64_loop n hi lo = (k, hi', lo') \<Longrightarrow> 0 < n \<Longrightarrow> 0 < k \<and> k \<le> n"
  by (induction n hi lo rule: trim64_loop.induct) (auto split: if_splits)

lemma length_store64 [simp]: "length (store64_loop n hi lo) = n"
  by (induction n arbitrary: hi lo) auto

lemma u64_parsed:
  assumes "out = hdr @ bs" "\<And>m. type_length (hdr @ m) = Obj (t, word_of_nat (length bs), m)" "length out \<le> unat n"
    "0 < length bs" "length bs \<le> 9" "length bs = 9 \<Longrightarrow> hd bs = 0"
    "foldl append_byte (if hd bs AND 0x80 \<noteq> 0 then -1 else 0) bs = join64 (high v) (low v)"
  shows "AsnUnsigned64Parse (out @ m) n = Obj ((t, v), m, n - word_of_nat (length out))"
proof -
  have u: "unat (word_of_nat (length bs) :: u32) = length bs" using assms(5) by (simp add: unsigned_of_nat take_bit_nat_eq_self_iff)
  have big: "\<not> word_of_nat (length bs) > (9 :: u32)" "(word_of_nat (length bs) = (9 :: u32)) = (length bs = 9)"
    using u assms(5) by (simp_all add: word_less_nat_alt word_unat_eq_iff)
  have "length hdr + length bs \<le> unat n" using assms(1,3) by simp
  note c = valid_bytes [OF this, of m]
  let ?s = "if hd bs AND 0x80 \<noteq> 0 then -1 else 0 :: u32"
  obtain v' where v': "u64_loop (length bs) (bs @ m) ?s ?s = Obj (v', m)" "join64 (high v') (low v') = foldl append_byte (join64 ?s ?s) bs"
    using u64_loop_join by blast
  have "join64 ?s ?s = (if hd bs AND 0x80 \<noteq> 0 then -1 else 0)" by (simp add: join64_minus join64_zero)
  with v'(2) assms(7) have "join64 (high v') (low v') = join64 (high v) (low v)" by simp
  then have "v' = v" using join64_inj by (metis UNSIGNED64.equality old.unit.exhaust)
  obtain b bs' where b: "bs = b # bs'" using assms(4) by (cases bs) auto
  have val: "(if b AND 0x80 \<noteq> 0 then u64_loop (length bs) (bs @ m) (-1) (-1) else u64_loop (length bs) (bs @ m) 0 0) = Obj (v, m)"
    using v'(1) unfolding b list.sel \<open>v' = v\<close> by (cases "b AND 0x80 = 0") (simp_all only: simp_thms if_True if_False)
  have first: "next_byte (bs @ m) = Obj (b, bs' @ m)" using b by simp
  have zero: "asn_bind (if word_of_nat (length bs) = (9 :: u32) then next_byte (bs @ m) else Obj (0, bs @ m)) f = f (0, if length bs = 9 then bs' @ m else bs @ m)" for f :: "u8 \<times> u8 list \<Rightarrow> 'x asn"
    using big(2) assms(6) b first by simp
  show ?thesis unfolding AsnUnsigned64Parse_def assms(1) append_assoc assms(2) asn_bind.simps prod.case zero
    using c big(1) first val u by (cases "b AND 0x80 = 0") (simp_all add: assms(1) add.commute)
qed

interpretation asn_u64: asn_codec "\<lambda>dl (t, v). AsnUnsigned64Build dl t v" AsnUnsigned64Parse "\<lambda>(t, v). u64_ok v"
proof (unfold_locales, goal_cases)
  case (1 dl tv out dl')
  obtain t v where tv: "tv = (t, v)" by fastforce
  obtain bs sz where "put_value dl t sz bs = Some (out, dl')" "length bs = sz" "sz \<le> 9"
    using 1 trim64_size [of 9 "high v" "low v"] trim64_size [of 8 "high v" "low v"]
    by (auto simp: tv AsnUnsigned64Build_def Let_def split: prod.splits if_splits)
  then show ?case by (auto elim!: put_value_ok)
next
  case (2 tv dl out dl' n m)
  obtain t v where tv: "tv = (t, v)" by fastforce
  have v: "high v AND 0xFF800000 \<noteq> 0xFF800000" using 2(1) tv by (simp add: u64_ok_def)
  have "\<not> bit (join64 (high v) (low v)) 63 \<or> high v AND 0xFF800000 \<noteq> 0xFF800000" using v by simp
  then show ?case
  proof (cases rule: u64_bytes)
    case null
    have "put_value dl t 9 (0 # low_bytes 8 (join64 (high v) (low v))) = Some (out, dl')"
      using 2(2) tv null u64_top [of "high v" "low v"] by (simp add: AsnUnsigned64Build_def Let_def)
    then obtain hdr where h: "out = hdr @ 0 # low_bytes 8 (join64 (high v) (low v))" "\<And>m. type_length (hdr @ m) = Obj (t, word_of_nat 9, m)"
      by (auto elim!: put_value_ok)
    show ?thesis using u64_parsed [OF h(1), of t n v m] h(2) 2(3) tv all_bytes [of 8 "join64 (high v) (low v)"] by (simp add: append_byte_def)
  next
    case (pos k hi' lo')
    have "put_value dl t k (low_bytes k (join64 (high v) (low v))) = Some (out, dl')"
      using 2(2) tv pos u64_top [of "high v" "low v"] by (simp add: AsnUnsigned64Build_def Let_def)
    then obtain hdr where h: "out = hdr @ low_bytes k (join64 (high v) (low v))" "\<And>m. type_length (hdr @ m) = Obj (t, word_of_nat k, m)"
      using pos(5) by (auto elim!: put_value_ok)
    obtain b bs where b: "low_bytes k (join64 (high v) (low v)) = b # bs" "(b AND 0x80 \<noteq> 0) = bit (join64 (high v) (low v)) (8 * k - 1)"
      using low_bytes_sign [of k "join64 (high v) (low v)"] pos(4,5) by auto
    have k: "k = Suc (length bs)" using b(1) length_low_bytes [of k "join64 (high v) (low v)"] by simp
    show ?thesis using u64_parsed [OF h(1), of t n v m] h(2) 2(3) tv sign_ext_bytes [OF pos(6,4)] pos(5) b k by simp
  qed
qed

end
