(* ===== verification/Nut_Asn1_Oid.thy ===== *)
theory Nut_Asn1_Oid
  imports Nut_Asn1_Int
begin

text \<open>
  Object identifiers and octet strings of the ASN.1 codec: what the builders store is read back by the parsers.
\<close>

unbundle bit_operations_syntax

section \<open>Sub identifiers\<close>

lemma seven_bits: "x < 0x80 \<Longrightarrow> j \<ge> 7 \<Longrightarrow> \<not> bit (x :: u32) j"
  by (rule bit_small [of _ 7]) (simp_all add: word_less_nat_alt)

lemma bit_0x80: "bit (0x80 :: 'a::len word) j \<longleftrightarrow> j = 7 \<and> 7 < LENGTH('a)"
  using bit_exp_iff [of 7 j, where 'a = "'a word"] by auto

lemma more_byte:
  assumes "x < 0x80"
  shows "(ucast (x OR 0x80) :: u8) AND 0x80 \<noteq> 0" "ucast ((ucast (x OR 0x80) :: u8) AND NOT 0x80) = (x :: u32)"
proof -
  have "bit (ucast (x OR 0x80) :: u8) 7" by (simp add: bit_simps bit_0x80)
  then show "(ucast (x OR 0x80) :: u8) AND 0x80 \<noteq> 0" unfolding bit7 .
  show "ucast ((ucast (x OR 0x80) :: u8) AND NOT 0x80) = x"
  proof (rule bit_eqI)
    fix j
    assume "possible_bit TYPE(u32) j"
    then show "bit (ucast ((ucast (x OR 0x80) :: u8) AND NOT 0x80) :: u32) j = bit x j"
      using seven_bits [OF assms, of j] by (cases "j < 7") (simp_all only: bit_simps bit_0x80, auto)
  qed
qed

lemma last_byte:
  assumes "x < 0x80"
  shows "(ucast (x :: u32) :: u8) AND 0x80 = 0" "ucast ((ucast x :: u8) AND NOT 0x80) = x"
proof -
  show "(ucast x :: u8) AND 0x80 = 0" by (rule less_bit7 [OF assms])
  show "ucast ((ucast x :: u8) AND NOT 0x80) = x"
  proof (rule bit_eqI)
    fix j
    assume "possible_bit TYPE(u32) j"
    then show "bit (ucast ((ucast x :: u8) AND NOT 0x80) :: u32) j = bit x j"
      using seven_bits [OF assms, of j] by (cases "j < 7") (simp_all only: bit_simps bit_0x80, auto)
  qed
qed

lemma subid_more: "x < 0x80 \<Longrightarrow> subid_loop (ucast (x OR 0x80) # m) sub len = subid_loop m (push_bit 7 sub + x) (len - 1)"
  using more_byte [of x] by (simp add: Let_def)

lemma subid_last: "x < 0x80 \<Longrightarrow> subid_loop (ucast x # m) sub len = Obj (push_bit 7 sub + x, len - 1, m)"
  using last_byte [of x] by (simp add: Let_def)

declare subid_loop.simps [simp del]

lemma low7_less: "(w :: u32) AND 0x7F < 0x80"
proof -
  have "(0x7F :: u32) = mask 7" by code_simp
  then have "w AND 0x7F = take_bit 7 w" by (simp add: take_bit_eq_mask)
  moreover have "unat (take_bit 7 w) < 128" using take_bit_nat_less_exp [of 7 "unat w"] by (simp add: unsigned_take_bit_eq)
  ultimately show ?thesis by (simp add: word_less_nat_alt)
qed

lemma join7: "push_bit 7 (drop_bit (n + 7) v) + (drop_bit n v AND 0x7F) = drop_bit n (v :: u32)"
proof -
  have "(0x7F :: u32) = mask 7" by code_simp
  then have "drop_bit n v AND 0x7F = take_bit 7 (drop_bit n v)" by (simp add: take_bit_eq_mask)
  then show ?thesis using bits_ident [of 7 "drop_bit n v"] by (simp add: drop_bit_drop_bit add.commute)
qed

lemma drop_less: "unat v < 2 ^ (n + 7) \<Longrightarrow> drop_bit n (v :: u32) < 0x80"
  using less_mult_imp_div_less [of "unat v" 128 "2 ^ n"] by (simp add: word_less_nat_alt unat_drop power_add mult.commute)

lemmas subid_steps = subid_more subid_more [OF low7_less] subid_last [OF low7_less]
  join7 [of 7, simplified] join7 [of 14, simplified] join7 [of 21, simplified]

lemma subid_roundtrip: "subid_loop (subid_bytes v @ m) 0 len = Obj (v, len - int (subid_size v), m)"
proof -
  have j0: "push_bit 7 (drop_bit 7 v) + (v AND 0x7F) = v" using join7 [of 0 v] by simp
  consider "subid_size v = 1" "v < 0x80" | "subid_size v = 2" "v < 0x4000" | "subid_size v = 3" "v < 0x200000"
    | "subid_size v = 4" "v < 0x10000000" | "subid_size v = 5"
    unfolding subid_size_def by metis
  then show ?thesis
  proof cases
    case 1
    then show ?thesis using subid_last [of v m 0 len] by (simp add: subid_bytes_def)
  next
    case 2
    then have "drop_bit 7 v < 0x80" using drop_less [of v 7] by (simp add: word_less_nat_alt)
    then show ?thesis using 2 by (simp add: subid_bytes_def Let_def subid_steps j0)
  next
    case 3
    then have "drop_bit 14 v < 0x80" using drop_less [of v 14] by (simp add: word_less_nat_alt)
    then show ?thesis using 3 by (simp add: subid_bytes_def Let_def subid_steps j0)
  next
    case 4
    then have "drop_bit 21 v < 0x80" using drop_less [of v 21] by (simp add: word_less_nat_alt)
    then show ?thesis using 4 by (simp add: subid_bytes_def Let_def subid_steps j0)
  next
    case 5
    have "drop_bit 28 v < 0x80" using drop_less [of v 28] unat_bound(3) [of v] by simp
    then show ?thesis using 5 by (simp add: subid_bytes_def Let_def subid_steps j0)
  qed
qed

lemma length_subid_bytes: "length (subid_bytes v) = subid_size v"
  by (simp add: subid_bytes_def subid_size_def Let_def)

lemma subid_size_bounds: "1 \<le> subid_size v" "subid_size v \<le> 5"
  by (simp_all add: subid_size_def)

section \<open>Object identifiers\<close>

lemma oid_loop_built:
  "length vs \<le> unat room \<Longrightarrow> oidp + length vs \<le> length objid \<Longrightarrow>
     oid_loop (concat (map subid_bytes vs) @ m) (int (sum_list (map subid_size vs))) room oidp objid
     = Obj (m, oidp + length vs, take oidp objid @ vs @ drop (oidp + length vs) objid)"
proof (induction vs arbitrary: room oidp objid)
  case Nil
  then show ?case by (simp add: oid_loop.simps)
next
  case (Cons v vs)
  let ?rest = "int (sum_list (map subid_size vs))"
  have pos: "int (sum_list (map subid_size (v # vs))) > 0 \<and> room > 0"
    using subid_size_bounds(1) [of v] Cons.prems(1) by (auto simp: word_less_nat_alt)
  have sub: "subid_loop (concat (map subid_bytes (v # vs)) @ m) 0 (int (sum_list (map subid_size (v # vs)))) = Obj (v, ?rest, concat (map subid_bytes vs) @ m)"
    using subid_roundtrip [of v "concat (map subid_bytes vs) @ m" "int (sum_list (map subid_size (v # vs)))"] by simp
  have room: "length vs \<le> unat (room - 1)" using Cons.prems(1) pos by (simp add: unat_sub word_less_nat_alt word_le_nat_alt)
  have "oid_loop (concat (map subid_bytes (v # vs)) @ m) (int (sum_list (map subid_size (v # vs)))) room oidp objid
      = oid_loop (concat (map subid_bytes vs) @ m) ?rest (room - 1) (oidp + 1) (objid[oidp := v])"
    using pos sub Cons.prems(2) by (subst oid_loop.simps) simp
  then show ?case using Cons.IH [OF room, of "oidp + 1" "objid[oidp := v]"] Cons.prems(2)
    by (simp add: take_Suc_conv_app_nth take_update_cancel drop_update_cancel)
qed

text \<open>The object identifiers that survive the coding of their first two sub identifiers in one number.\<close>

fun oid_ok :: "u32 list \<Rightarrow> bool" where
  "oid_ok (x # y # os) \<longleftrightarrow> x \<le> 2 \<and> y < 40 \<and> length os + 2 \<le> MAX_OID_LEN"
| "oid_ok _ \<longleftrightarrow> False"

lemma oid_split_ok:
  assumes "x \<le> 2" "y < 40"
  shows "oid_split (x * 40 + y) = (x, y)"
proof -
  have x: "unat x \<le> 2" and y: "unat y < 40" using assms by (simp_all add: word_le_nat_alt word_less_nat_alt)
  have s: "unat (x * 40 + y) = unat x * 40 + unat y" using x y by (simp add: unat_word_ariths)
  have m: "(x * 40 + y) mod 40 = y" using x y s by (simp add: word_unat_eq_iff unat_mod_distrib)
  have u: "ucast (ucast y :: u8) = y" "ucast (ucast x :: u8) = x" using x y by (simp_all add: word_unat_eq_iff byte_simps)
  have d: "x * 40 div 40 = x" using x by (simp add: word_unat_eq_iff unat_div_distrib unat_word_ariths)
  have "x = 1 \<and> y = 3" if "x * 40 + y = 0x2B"
  proof -
    have "unat x * 40 + unat y = 43" using that s by simp
    then have "unat x = 1 \<and> unat y = 3" using x y by presburger
    then show ?thesis by (simp add: word_unat_eq_iff)
  qed
  then show ?thesis by (auto simp: oid_split_def m u d Let_def)
qed

lemma oid_values_size:
  assumes "oid_values oid = Some vs"
  shows "sum_list (map subid_size vs) \<le> 160" "length (concat (map subid_bytes vs)) = sum_list (map subid_size vs)"
proof -
  have "length vs \<le> 31" using assms by (cases oid rule: oid_values.cases) (auto simp: MAX_OID_LEN_def split: if_splits)
  moreover have "sum_list (map subid_size vs) \<le> 5 * length vs" for vs
  proof (induction vs)
    case (Cons v vs)
    then show ?case using subid_size_bounds(2) [of v] by simp
  qed simp
  ultimately have "sum_list (map subid_size vs) \<le> 5 * 31" by (meson le_trans mult_le_mono2)
  then show "sum_list (map subid_size vs) \<le> 160" by simp
  show "length (concat (map subid_bytes vs)) = sum_list (map subid_size vs)"
    by (induction vs) (simp_all add: length_subid_bytes)
qed

text \<open>The bytes of an object identifier are a value like the numbers.\<close>

lemma oid_put_value:
  "AsnOidBuild mem dl t oid =
     (case oid_values oid of
        None \<Rightarrow> None
      | Some vs \<Rightarrow> if mem then put_value dl t (sum_list (map subid_size vs)) (concat (map subid_bytes vs)) else None)"
  by (auto simp: AsnOidBuild_def put_value_def Let_def not_less split: option.split)

lemma oid_built:
  assumes "AsnOidBuild mem dl t oid = Some (out, dl')"
  obtains vs hdr where "oid_values oid = Some vs" "out = hdr @ concat (map subid_bytes vs)" "hdr \<noteq> []"
    "\<And>m. type_length (hdr @ m) = Obj (t, word_of_nat (sum_list (map subid_size vs)), m)" "unat dl = unat dl' + length out"
proof -
  from assms obtain vs where v: "oid_values oid = Some vs" "put_value dl t (sum_list (map subid_size vs)) (concat (map subid_bytes vs)) = Some (out, dl')"
    by (auto simp: oid_put_value split: option.splits if_splits)
  have "sum_list (map subid_size vs) \<le> 0xFFFF" using oid_values_size(1) [OF v(1)] by simp
  from put_value_ok [OF v(2) oid_values_size(2) [OF v(1)] this] show thesis using that [OF v(1)] by blast
qed

lemma oid_codec:
  assumes "AsnOidBuild mem dl t oid = Some (out, dl')" "oid_ok oid" "length out \<le> unat n" "MAX_OID_LEN \<le> length objid"
  shows "\<exists>oid'. AsnOidParse (out @ m) n objid (word_of_nat MAX_OID_LEN) = Obj ((t, oid', length oid), m, n - word_of_nat (length out)) \<and>
    take (length oid) oid' = oid"
proof -
  obtain vs hdr where v: "oid_values oid = Some vs" "out = hdr @ concat (map subid_bytes vs)"
    "\<And>m. type_length (hdr @ m) = Obj (t, word_of_nat (sum_list (map subid_size vs)), m)"
    using oid_built [OF assms(1)] by metis
  let ?k = "sum_list (map subid_size vs)" and ?bs = "concat (map subid_bytes vs)"
  note k = oid_values_size [OF v(1)]
  from assms(2) v(1) obtain x y os where o: "oid = x # y # os" "x \<le> 2" "y < 40" "length os + 2 \<le> MAX_OID_LEN" "vs = (x * 40 + y) # os"
    by (cases oid rule: oid_ok.cases) (auto split: if_splits)
  have "length hdr + length ?bs \<le> unat n" using assms(3) v(2) by simp
  note c = valid_bytes [OF this, of m, unfolded k(2)]
  have u: "unat (word_of_nat ?k :: u32) = ?k" using k(1) by (simp add: unsigned_of_nat take_bit_nat_eq_self_iff)
  then have s: "sint (word_of_nat ?k :: u32) = int ?k" using k(1) by (simp add: signed_of_nat signed_take_bit_int_eq_self_iff)
  have nz: "(word_of_nat ?k :: u32) \<noteq> 0" using u subid_size_bounds(1) [of "x * 40 + y"] by (auto simp: o(5) word_unat_eq_iff)
  have room: "length vs \<le> unat (word_of_nat MAX_OID_LEN - 1 :: u32)" using o(4,5) by (simp add: MAX_OID_LEN_def)
  have fit: "1 + length vs \<le> length objid" using o(4,5) assms(4) by simp
  let ?o = "take 1 objid @ vs @ drop (1 + length vs) objid"
  have loop: "oid_loop (?bs @ m) (int ?k) (word_of_nat MAX_OID_LEN - 1) 1 objid = Obj (m, 1 + length vs, ?o)" by (rule oid_loop_built [OF room fit])
  have o1: "?o ! 1 = x * 40 + y" "\<not> length ?o < 2" "1 + length vs = length oid" using fit o by (auto simp: nth_append)
  have "AsnOidParse (out @ m) n objid (word_of_nat MAX_OID_LEN) = Obj ((t, ?o[0 := x, 1 := y], length oid), m, n - word_of_nat (length out))"
    using c s nz loop o1 oid_split_ok [OF o(2,3)] by (simp add: AsnOidParse_def v(2,3) k(2))
  moreover have "take (length oid) (?o[0 := x, 1 := y]) = oid" using fit o by (cases objid) auto
  ultimately show ?thesis by blast
qed

section \<open>Values that do not survive\<close>

text \<open>
  The largest 64-bit counter is sent as 255. The object identifiers 2.100 and 1.40 are read back as 4.20 and 2.0. A
  length field close to the limit of 32 bits passes the check against the size of the message, because the sum wraps around. An
  empty string leaves the length variable of the caller at the size of the buffer.
\<close>

theorem u64_ones_lost:
  "AsnUnsigned64Build 100 0x46 \<lparr>high = -1, low = -1\<rparr> = Some ([0x46, 2, 0, 0xFF], 96)"
  "AsnUnsigned64Parse [0x46, 2, 0, 0xFF] 4 = Obj ((0x46, \<lparr>high = 0, low = 255\<rparr>), [], 0)"
  by code_simp+

theorem oid_changed:
  "AsnOidBuild True 100 0x06 [2, 100] = Some ([0x06, 2, 0x81, 0x34], 96)"
  "AsnOidParse [0x06, 2, 0x81, 0x34] 4 [0, 0, 0] 3 = Obj ((0x06, [4, 20, 0], 2), [], 0)"
  "AsnOidBuild True 100 0x06 [1, 40] = Some ([0x06, 1, 0x50], 97)"
  "AsnOidParse [0x06, 1, 0x50] 3 [0, 0, 0] 3 = Obj ((0x06, [2, 0, 0], 2), [], 0)"
  by code_simp+

theorem length_check_wraps: "AsnHeaderParse [0x04, 0x84, 0xFF, 0xFF, 0xFF, 0xFC, 1, 2] 8 = Obj (0x04, [1, 2], 0xFFFFFFFC)"
  by code_simp

theorem empty_string_length: "AsnOctetStringParse [0x04, 0] 2 32 = Obj ((0x04, [], 32), [], 0)"
  by code_simp

end
