(* ===== verification/Nut_Snmp.thy ===== *)
theory Nut_Snmp
  imports Nut_Asn1_Oid
begin

text \<open>
  The SNMP agent: variables (\<^verbatim>\<open>pro/snmp.c\<close>), comparisons of object identifiers and
  statistics (\<^verbatim>\<open>pro/snmp_api.c\<close>), views and communities (\<^verbatim>\<open>pro/snmp_config.c\<close>) and the table of MIB variables
  (\<^verbatim>\<open>pro/snmp_mib.c\<close>). The memory behind a value pointer is a list of bytes of a little endian machine;
  \<open>None\<close> is the null pointer. The access functions of the MIB variables are supplied by the application.
  Neither the length of the names that the application registers nor the memory for views and communities is checked by the code;
  the model covers names of at most \<open>MAX_OID_LEN\<close> sub identifiers and allocations that succeed there.
\<close>

unbundle bit_operations_syntax

section \<open>Statistics\<close>

type_synonym statistics = "nat \<Rightarrow> u32"

definition SNMP_STAT_MAX :: int where
  "SNMP_STAT_MAX = 28"

definition SnmpStatsInc :: "int \<Rightarrow> statistics \<Rightarrow> statistics" where
  "SnmpStatsInc which st = (if 0 \<le> which \<and> which < SNMP_STAT_MAX then st(nat which := st (nat which) + 1) else st)"

definition SnmpStatsGet :: "int \<Rightarrow> statistics \<Rightarrow> u32" where
  "SnmpStatsGet which st = (if 0 \<le> which \<and> which < SNMP_STAT_MAX then st (nat which) else 0)"

definition SnmpStatsSet :: "int \<Rightarrow> u32 \<Rightarrow> statistics \<Rightarrow> statistics" where
  "SnmpStatsSet which v st = (if 0 \<le> which \<and> which < SNMP_STAT_MAX then st(nat which := v) else st)"

section \<open>Comparing object identifiers\<close>

fun SnmpOidLenCmp :: "u32 list \<Rightarrow> u32 list \<Rightarrow> nat \<Rightarrow> int" where
  "SnmpOidLenCmp (a # as) (b # bs) (Suc n) = (if a < b then -1 else if a > b then 1 else SnmpOidLenCmp as bs n)"
| "SnmpOidLenCmp _ _ _ = 0"

definition SnmpOidCmp :: "u32 list \<Rightarrow> u32 list \<Rightarrow> int" where
  "SnmpOidCmp as bs =
     (let rc = SnmpOidLenCmp as bs (if length as < length bs then length as else length bs) in
      if rc = 0 then if length as < length bs then -1 else if length as > length bs then 1 else rc else rc)"

definition SnmpOidTreeCmp :: "u32 list \<Rightarrow> u32 list \<Rightarrow> int" where
  "SnmpOidTreeCmp obj tree =
     (let rc = SnmpOidLenCmp obj tree (if length obj < length tree then length obj else length tree) in
      if rc = 0 \<and> length obj < length tree then -1 else rc)"

definition SnmpOidCmpIdx :: "u32 list \<Rightarrow> u32 list \<Rightarrow> u32 \<Rightarrow> int" where
  "SnmpOidCmpIdx as bs idx =
     (let len = (if length as < length bs then length as else length bs);
          rc = SnmpOidLenCmp as bs len
      in if rc = 0 then
           if length as < length bs then -1
           else if length as > length bs then
             (if as ! len < idx then -1 else if as ! len > idx then 1 else if length as > length bs + 1 then 1 else rc)
           else rc
         else rc)"

text \<open>The bytes of an object identifier in memory; \<^verbatim>\<open>memcmp\<close> gets the number of sub identifiers as the number of bytes.\<close>

definition le_bytes :: "u32 \<Rightarrow> u8 list" where
  "le_bytes w = [ucast w, ucast (drop_bit 8 w), ucast (drop_bit 16 w), ucast (drop_bit 24 w)]"

definition SnmpOidEquals :: "u32 list \<Rightarrow> u32 list \<Rightarrow> int" where
  "SnmpOidEquals as bs =
     (if length as \<noteq> length bs \<or>
         take (length as) (concat (map le_bytes as)) \<noteq> take (length as) (concat (map le_bytes bs)) then -1 else 0)"

section \<open>Variables\<close>

definition SnmpVarParse :: "u8 list \<Rightarrow> u32 \<Rightarrow> u32 list \<Rightarrow> u32 \<Rightarrow>
    ((u32 list \<times> nat) \<times> u8 \<times> u8 list \<times> u32 \<times> u8 list \<times> u32) asn" where
  "SnmpVarParse data dlen name nlen =
     asn_bind (AsnSequenceParse data dlen 0x30) (\<lambda>(dp, len).
       asn_bind (AsnOidParse dp len name nlen) (\<lambda>((vtype, name', nlen'), dp1, len1).
         if vtype \<noteq> 0x06 then Null
         else asn_bind (AsnHeaderParse dp1 len1) (\<lambda>(t, dp2, vlen).
           if length dp2 < unat vlen then Overrun
           else Obj ((name', nlen'), t, dp1, vlen, drop (unat vlen) dp2, dlen - (ptr_diff data dp2 + vlen)))))"

text \<open>A word of the memory behind a pointer.\<close>

fun read_word :: "nat \<Rightarrow> u8 list option \<Rightarrow> u32 asn" where
  "read_word i (Some (a # b # c # d # m)) = (case i of 0 \<Rightarrow> Obj (le32 a b c d) | Suc j \<Rightarrow> read_word j (Some m))"
| "read_word i _ = Overrun"

fun read_words :: "nat \<Rightarrow> u8 list option \<Rightarrow> u32 list asn" where
  "read_words 0 p = Obj []"
| "read_words (Suc n) p = asn_bind (read_words n p) (\<lambda>ws. asn_bind (read_word n p) (\<lambda>w. Obj (ws @ [w])))"

fun of_built :: "built \<Rightarrow> (u8 list \<times> u32) asn" where
  "of_built None = Null"
| "of_built (Some x) = Obj x"

definition build_string :: "(u8 list option \<Rightarrow> built) \<Rightarrow> u8 list option \<Rightarrow> u32 \<Rightarrow> (u8 list \<times> u32) asn" where
  "build_string f value vlen =
     (case value of Some s \<Rightarrow> if length s < unat vlen then Overrun else of_built (f value) | None \<Rightarrow> of_built (f None))"

text \<open>The value of a variable; the second result tells that the type is not known.\<close>

definition var_value :: "bool \<Rightarrow> u32 \<Rightarrow> u8 \<Rightarrow> u8 list option \<Rightarrow> u32 \<Rightarrow> (u8 list \<times> u32) asn \<times> bool" where
  "var_value mem dlen t value vlen =
     (if t = 0x02 then (asn_bind (read_word 0 value) (\<lambda>v. of_built (AsnIntegerBuild dlen t v)), False)
      else if t = 0x42 \<or> t = 0x41 \<or> t = 0x43 \<or> t = 0x47 then (asn_bind (read_word 0 value) (\<lambda>v. of_built (AsnUnsignedBuild dlen t v)), False)
      else if t = 0x46 then
        (asn_bind (read_word 0 value) (\<lambda>h. asn_bind (read_word 1 value) (\<lambda>l. of_built (AsnUnsigned64Build dlen t \<lparr>high = h, low = l\<rparr>))), False)
      else if t = 0x04 \<or> t = 0x40 \<or> t = 0x44 \<or> t = 0x45 then (build_string (\<lambda>s. AsnOctetStringBuild dlen t s vlen) value vlen, False)
      else if t = 0x06 then (asn_bind (read_words (unat (vlen div 4)) value) (\<lambda>oid. of_built (AsnOidBuild mem dlen t oid)), False)
      else if t = 0x05 then (of_built (AsnNullBuild dlen t), False)
      else if t = 0x03 then
        (case value of
           Some s \<Rightarrow> if length s < unat vlen then Overrun else of_built (AsnBitStringBuild dlen t s vlen)
         | None \<Rightarrow> if vlen = 0 then of_built (AsnBitStringBuild dlen t [] vlen) else Overrun, False)
      else if t = 0x80 \<or> t = 0x81 \<or> t = 0x82 then (of_built (AsnNullBuild dlen t), False)
      else (Null, True))"

definition out_too_big :: "statistics \<Rightarrow> statistics" where
  "out_too_big st = SnmpStatsInc 18 st"

text \<open>\<open>old\<close> are the four bytes at the start of the output buffer, which the header replaces in the end.\<close>

definition SnmpVarBuild :: "bool \<Rightarrow> u8 list \<Rightarrow> u32 \<Rightarrow> u32 list \<Rightarrow> u8 \<Rightarrow> u8 list option \<Rightarrow> u32 \<Rightarrow> statistics \<Rightarrow>
    (u8 list \<times> u32) asn \<times> statistics" where
  "SnmpVarBuild mem old dlen name t value vlen st =
     (if dlen < 4 then (Null, out_too_big st)
      else case AsnOidBuild mem (dlen - 4) 0x06 name of
        None \<Rightarrow> (Null, out_too_big st)
      | Some (nm, dlen1) \<Rightarrow>
          (case var_value mem dlen1 t value vlen of
             (Obj (v, dlen2), _) \<Rightarrow>
               (let len = word_of_nat (length nm + length v) in
                (Obj ((case AsnSequenceBuild len 0x30 len of Some (hdr, _) \<Rightarrow> hdr | None \<Rightarrow> old) @ nm @ v, dlen2), st))
           | (Null, bad) \<Rightarrow> (Null, if bad then SnmpStatsInc 20 st else out_too_big st)
           | (Overrun, _) \<Rightarrow> (Overrun, st)))"

section \<open>Communities and views\<close>

record VIEW_LIST =
  view_index :: int
  view_type :: int
  view_subtree :: "u32 list"
  view_name :: "u8 list"

record COMMUNITY_LIST =
  comm_read_view :: int
  comm_write_view :: int
  comm_name :: "u8 list"

record snmp_config =
  views :: "VIEW_LIST list"
  nextview :: int
  communities :: "COMMUNITY_LIST list"

fun view_search :: "u8 list \<Rightarrow> VIEW_LIST list \<Rightarrow> VIEW_LIST option" where
  "view_search name [] = None"
| "view_search name (vp # vs) = (if name = view_name vp then Some vp else view_search name vs)"

definition SnmpViewCreate :: "u8 list \<Rightarrow> u32 list \<Rightarrow> int \<Rightarrow> snmp_config \<Rightarrow> int \<times> snmp_config" where
  "SnmpViewCreate name subtree ty c =
     (if length name > 15 then (-1, c)
      else let (i, next) = (case view_search name (views c) of Some vp \<Rightarrow> (view_index vp, nextview c) | None \<Rightarrow> (nextview c, nextview c + 1))
           in (i, c\<lparr>views := views c @ [\<lparr>view_index = i, view_type = ty, view_subtree = subtree, view_name = name\<rparr>], nextview := next\<rparr>))"

definition SnmpViewFind :: "u8 list \<Rightarrow> snmp_config \<Rightarrow> int" where
  "SnmpViewFind name c =
     (if name = [0x2D] then 0 else case view_search name (views c) of Some vp \<Rightarrow> view_index vp | None \<Rightarrow> -1)"

fun community_search :: "u8 list \<Rightarrow> COMMUNITY_LIST list \<Rightarrow> COMMUNITY_LIST option" where
  "community_search name [] = None"
| "community_search name (cp # cs) = (if comm_name cp = name then Some cp else community_search name cs)"

definition SnmpCommunityFind :: "u8 list \<Rightarrow> snmp_config \<Rightarrow> (int \<times> int) option" where
  "SnmpCommunityFind name c = map_option (\<lambda>cp. (comm_read_view cp, comm_write_view cp)) (community_search name (communities c))"

definition SnmpCommunityCreate :: "u8 list \<Rightarrow> int \<Rightarrow> int \<Rightarrow> snmp_config \<Rightarrow> int \<times> snmp_config" where
  "SnmpCommunityCreate name rv wv c =
     (if length name > 15 then (-1, c)
      else case community_search name (communities c) of
        Some _ \<Rightarrow> (0, c)
      | None \<Rightarrow> (0, c\<lparr>communities := communities c @ [\<lparr>comm_read_view = rv, comm_write_view = wv, comm_name = name\<rparr>]\<rparr>))"

section \<open>MIB variables\<close>

record SNMPVAR =
  var_magic :: u8
  var_type :: u8
  var_acl :: u16
  var_name :: "u32 list"

record SUBTREE =
  sub_vars :: "SNMPVAR list"
  sub_name :: "u32 list"

fun mib_insert :: "SUBTREE \<Rightarrow> SUBTREE list \<Rightarrow> SUBTREE list" where
  "mib_insert branch [] = [branch]"
| "mib_insert branch (tp # ts) =
     (if SnmpOidCmp (sub_name tp) (sub_name branch) > 0 then branch # tp # ts else tp # mib_insert branch ts)"

definition SnmpMibRegister :: "bool \<Rightarrow> u32 list \<Rightarrow> SNMPVAR list \<Rightarrow> SUBTREE list \<Rightarrow> int \<times> SUBTREE list" where
  "SnmpMibRegister mem basename vars tree =
     (if \<not> mem then (-1, tree) else (0, mib_insert \<lparr>sub_vars = vars, sub_name = basename\<rparr> tree))"

text \<open>
  An access function is called with the variable, the name asked for and whether the name must match exactly; it returns the
  value, or \<open>None\<close>, the full name of the variable, the length of the value and the write method. The name of
  the caller is replaced if there is a value only.
\<close>

record mib_access =
  acc_value :: "u8 list option"
  acc_name :: "u32 list"
  acc_len :: u32
  acc_wmethod :: "nat option"

type_synonym var_get = "SNMPVAR \<Rightarrow> u32 list \<Rightarrow> bool \<Rightarrow> mib_access"

text \<open>What \<^verbatim>\<open>SnmpMibFind\<close> passes back through its pointers.\<close>

record mib_result =
  mf_name :: "u32 list"
  mf_type :: u8
  mf_len :: u32
  mf_acl :: u16
  mf_wmethod :: "nat option"
  mf_no_obj :: bool

datatype mib_search = Found "u8 list" SNMPVAR mib_result | Stop mib_result | Next bool mib_result

definition mib_stop :: "SNMPVAR \<Rightarrow> bool \<Rightarrow> mib_result \<Rightarrow> mib_search" where
  "mib_stop vp found r = Stop (r\<lparr>mf_type := var_type vp, mf_acl := var_acl vp, mf_no_obj := \<not> found\<rparr>)"

fun find_vars :: "var_get \<Rightarrow> bool \<Rightarrow> u32 list \<Rightarrow> int \<Rightarrow> bool \<Rightarrow> SNMPVAR list \<Rightarrow> mib_result \<Rightarrow> mib_search" where
  "find_vars get exact suffix rc found [] r = Next found r"
| "find_vars get exact suffix rc found (vp # vs) r =
     (let rc1 = (if var_name vp \<noteq> [] \<and> (exact \<or> rc \<ge> 0) then SnmpOidTreeCmp suffix (var_name vp) else rc) in
      if exact \<and> rc1 = 0 \<or> \<not> exact \<and> rc1 \<le> 0 \<or> var_name vp = [] then
        (let a = get vp (mf_name r) exact;
             r1 = r\<lparr>mf_len := acc_len a, mf_wmethod := acc_wmethod a, mf_acl := var_acl vp\<rparr>;
             found1 = (found \<or> exact)
         in case acc_value a of
              Some v \<Rightarrow> Found v vp (r1\<lparr>mf_name := acc_name a\<rparr>)
            | None \<Rightarrow> if exact \<and> rc1 \<le> 0 then mib_stop vp found1 r1 else find_vars get exact suffix rc1 found1 vs r1)
      else if exact \<and> rc1 \<le> 0 then mib_stop vp found r
      else find_vars get exact suffix rc1 found vs r)"

fun find_trees :: "var_get \<Rightarrow> bool \<Rightarrow> bool \<Rightarrow> SUBTREE list \<Rightarrow> mib_result \<Rightarrow> u8 list option \<times> mib_result" where
  "find_trees get exact found [] r = (None, r\<lparr>mf_no_obj := \<not> found\<rparr>)"
| "find_trees get exact found (tp # ts) r =
     (let rc = SnmpOidTreeCmp (mf_name r) (sub_name tp) in
      if rc = 0 \<or> rc < 0 \<and> \<not> exact then
        (case find_vars get exact (drop (length (sub_name tp)) (mf_name r)) rc found (sub_vars tp) r of
           Found v vp r1 \<Rightarrow> (Some v, r1\<lparr>mf_type := var_type vp, mf_acl := var_acl vp\<rparr>)
         | Stop r1 \<Rightarrow> (None, r1)
         | Next found1 r1 \<Rightarrow> find_trees get exact found1 ts r1)
      else find_trees get exact found ts r)"

definition SnmpMibFind :: "bool \<Rightarrow> var_get \<Rightarrow> SUBTREE list \<Rightarrow> bool \<Rightarrow> mib_result \<Rightarrow> u8 list option \<times> mib_result" where
  "SnmpMibFind mem get tree exact r =
     (if \<not> exact \<and> \<not> mem then (None, r) else find_trees get exact False tree (r\<lparr>mf_wmethod := None\<rparr>))"

end
