(* ===== verification/Nut_Snmp_Mib.thy ===== *)
theory Nut_Snmp_Mib
  imports Nut_Snmp "HOL-Library.List_Lexorder" "HOL-Library.Sublist"
begin

text \<open>
  The table of MIB variables: the comparison functions are the lexicographic order and the prefix relation,
  the table stays sorted, and a lookup reaches the variable it is meant for.
\<close>

section \<open>Comparisons\<close>

lemma len_cmp: 
  "SnmpOidLenCmp as bs (min (length as) (length bs)) =
     (if prefix as bs \<or> prefix bs as then 0 else if as < bs then -1 else 1)"
proof (induction as arbitrary: bs)
  case (Cons a as)
  show ?case
  proof (cases bs)
    case (Cons b bs')
    then show ?thesis using Cons.IH [of bs'] by (auto simp: not_less_iff_gr_or_eq)
  qed simp
qed simp

lemma if_min: "(if (m :: nat) < n then m else n) = min m n"
  by simp

lemma prefix_less_eq: "prefix as bs \<Longrightarrow> as \<le> (bs :: u32 list)"
proof (induction as arbitrary: bs)
  case (Cons a as)
  then show ?case by (cases bs) auto
qed simp

lemma SnmpOidCmp_lex: "SnmpOidCmp as bs = (if as < bs then -1 else if as = bs then 0 else 1)"
proof -
  consider "as = bs" | "prefix as bs" "as \<noteq> bs" | "prefix bs as" "as \<noteq> bs" | "\<not> prefix as bs" "\<not> prefix bs as" by blast
  then show ?thesis
  proof cases
    case 1
    then show ?thesis unfolding SnmpOidCmp_def if_min len_cmp Let_def by simp
  next
    case 2
    then have "as < bs" "length as < length bs" using prefix_less_eq by (auto simp: order.strict_iff_order prefix_def)
    then show ?thesis using 2 unfolding SnmpOidCmp_def if_min len_cmp Let_def by simp
  next
    case 3
    then have "\<not> as < bs" "length bs < length as" using prefix_less_eq by (auto simp: not_less prefix_def)
    then show ?thesis using 3 unfolding SnmpOidCmp_def if_min len_cmp Let_def by simp
  next
    case 4
    then have "as \<noteq> bs" by auto
    then show ?thesis using 4 unfolding SnmpOidCmp_def if_min len_cmp Let_def by simp
  qed
qed

lemma SnmpOidTreeCmp_lex: "SnmpOidTreeCmp as bs = (if prefix bs as then 0 else if as < bs then -1 else 1)"
  unfolding SnmpOidTreeCmp_def if_min len_cmp Let_def
  using prefix_less_eq [of as bs] prefix_length_le [of as bs] prefix_length_le [of bs as]
  by (auto simp: prefix_def)

section \<open>The table\<close>

definition mib_sorted :: "SUBTREE list \<Rightarrow> bool" where
  "mib_sorted ts \<longleftrightarrow> sorted (map sub_name ts)"

lemma mib_insert_set: "set (mib_insert b ts) = insert b (set ts)"
  by (induction ts) auto

lemma mib_insert_sorted: "mib_sorted ts \<Longrightarrow> mib_sorted (mib_insert b ts)"
proof (induction ts)
  case (Cons tp ts)
  then show ?case by (auto simp: mib_sorted_def SnmpOidCmp_lex mib_insert_set not_less split: if_splits)
qed (simp add: mib_sorted_def)

text \<open>A table to which a list of branches has been added, in the order of the list.\<close>

definition mib_table :: "(u32 list \<times> SNMPVAR list) list \<Rightarrow> SUBTREE list" where
  "mib_table bs = foldl (\<lambda>ts (name, vars). snd (SnmpMibRegister True name vars ts)) [] bs"

lemma mib_table_aux:
  "mib_sorted ts \<Longrightarrow> mib_sorted (foldl (\<lambda>ts (name, vars). snd (SnmpMibRegister True name vars ts)) ts bs)
   \<and> set (foldl (\<lambda>ts (name, vars). snd (SnmpMibRegister True name vars ts)) ts bs)
     = set ts \<union> (\<lambda>(name, vars). \<lparr>sub_vars = vars, sub_name = name\<rparr>) ` set bs"
  by (induction bs arbitrary: ts) (auto simp: SnmpMibRegister_def mib_insert_set mib_insert_sorted)

lemma mib_table_props:
  "mib_sorted (mib_table bs)" "set (mib_table bs) = (\<lambda>(name, vars). \<lparr>sub_vars = vars, sub_name = name\<rparr>) ` set bs"
  using mib_table_aux [of "[]" bs] by (simp_all add: mib_table_def mib_sorted_def)

section \<open>Lookup\<close>

lemma find_vars_exact:
  assumes "\<forall>vp \<in> set us. var_name vp \<noteq> [] \<and> \<not> prefix (var_name vp) sfx \<and> var_name vp < sfx"
    "prefix (var_name v) sfx" "acc_value (get v (mf_name r) True) = Some val"
  shows "\<exists>r'. find_vars get True sfx rc found (us @ v # vs) r = Found val v r' \<and> mf_name r' = acc_name (get v (mf_name r) True)
    \<and> mf_len r' = acc_len (get v (mf_name r) True) \<and> mf_wmethod r' = acc_wmethod (get v (mf_name r) True)"
  using assms(1)
proof (induction us arbitrary: rc)
  case Nil
  then show ?case using assms(2,3) by (auto simp: SnmpOidTreeCmp_lex Let_def)
next
  case (Cons u us)
  then have "SnmpOidTreeCmp sfx (var_name u) = 1" "var_name u \<noteq> []" by (auto simp: SnmpOidTreeCmp_lex)
  then show ?case using Cons by (simp add: Let_def)
qed

lemma find_trees_skip:
  assumes "\<forall>tp \<in> set us. \<not> prefix (sub_name tp) (mf_name r)"
  shows "find_trees get True found (us @ ts) r = find_trees get True found ts r"
  using assms by (induction us) (auto simp: SnmpOidTreeCmp_lex Let_def)

text \<open>The variables of a branch in ascending order, none of them the start of a later one.\<close>

definition vars_ok :: "SNMPVAR list \<Rightarrow> bool" where
  "vars_ok vs \<longleftrightarrow> (\<forall>v \<in> set vs. var_name v \<noteq> []) \<and> sorted_wrt (\<lambda>u v. var_name u < var_name v \<and> \<not> prefix (var_name u) (var_name v)) vs"

definition branches_ok :: "(u32 list \<times> SNMPVAR list) list \<Rightarrow> bool" where
  "branches_ok bs \<longleftrightarrow> distinct bs \<and> (\<forall>b \<in> set bs. \<forall>c \<in> set bs. b \<noteq> c \<longrightarrow> \<not> prefix (fst b) (fst c)) \<and> (\<forall>b \<in> set bs. vars_ok (snd b))"

lemma less_extend: "as < bs \<Longrightarrow> \<not> prefix as bs \<Longrightarrow> as < bs @ (cs :: u32 list) \<and> \<not> prefix as (bs @ cs)"
proof (induction as arbitrary: bs)
  case (Cons a as)
  then show ?case by (cases bs) auto
qed simp

text \<open>
  C35: An SNMP agent finds its variables. However the branches of the MIB are registered, the table is sorted
  by their names in lexicographic order; and if no branch is part of another and the variables of each are in
  ascending order, a lookup with a name that continues the name of a variable calls the access function of this variable,
  and returns what it returns together with the type of the variable.
\<close>

theorem mib_finds_variable:
  assumes "branches_ok bs" "(base, us @ v # vs) \<in> set bs" "mf_name r = base @ var_name v @ inst"
    "acc_value (get v (mf_name r) True) = Some val"
  shows "sorted (map sub_name (mib_table bs)) \<and>
    (\<exists>r'. SnmpMibFind mem get (mib_table bs) True r = (Some val, r') \<and> mf_name r' = acc_name (get v (mf_name r) True)
       \<and> mf_len r' = acc_len (get v (mf_name r) True) \<and> mf_type r' = var_type v \<and> mf_acl r' = var_acl v)"
proof -
  let ?t = "\<lparr>sub_vars = us @ v # vs, sub_name = base\<rparr>" and ?r = "r\<lparr>mf_wmethod := None\<rparr>"
  have "?t \<in> set (mib_table bs)" using assms(2) by (force simp: mib_table_props)
  then obtain xs ys where x: "mib_table bs = xs @ ?t # ys" "?t \<notin> set xs" by (meson split_list_first)
  have "\<not> prefix (sub_name tp) (mf_name ?r)" if "tp \<in> set xs" for tp
  proof -
    have "tp \<in> set (mib_table bs)" "tp \<noteq> ?t" using that x by auto
    then obtain nm vr where n: "tp = \<lparr>sub_vars = vr, sub_name = nm\<rparr>" "(nm, vr) \<in> set bs" by (auto simp: mib_table_props)
    then have "(nm, vr) \<noteq> (base, us @ v # vs)" using \<open>tp \<noteq> ?t\<close> by auto
    then have "\<not> prefix nm base" "\<not> prefix base nm" using assms(1,2) n(2) unfolding branches_ok_def by force+
    then show ?thesis using n(1) assms(3) by (auto simp: prefix_append)
  qed
  then have skip: "find_trees get True False (mib_table bs) ?r = find_trees get True False (?t # ys) ?r"
    unfolding x(1) by (intro find_trees_skip) blast
  have ok: "vars_ok (us @ v # vs)" using assms(1,2) by (auto simp: branches_ok_def)
  have before: "\<forall>u \<in> set us. var_name u \<noteq> [] \<and> \<not> prefix (var_name u) (var_name v @ inst) \<and> var_name u < var_name v @ inst"
    using ok less_extend by (auto simp: vars_ok_def sorted_wrt_append)
  have tree: "SnmpOidTreeCmp (mf_name ?r) base = 0" using assms(3) by (simp add: SnmpOidTreeCmp_lex)
  obtain r' where "find_vars get True (var_name v @ inst) 0 False (us @ v # vs) ?r = Found val v r'" "mf_name r' = acc_name (get v (mf_name r) True)"
      "mf_len r' = acc_len (get v (mf_name r) True)"
    using find_vars_exact [OF before, of v get ?r val 0 False vs] assms(4) by auto
  then show ?thesis using skip tree assms(3) mib_table_props(1) [of bs] by (auto simp: SnmpMibFind_def mib_sorted_def Let_def)
qed

text \<open>Two branches, registered in descending order.\<close>

definition demo_var :: "u32 list \<Rightarrow> SNMPVAR" where
  "demo_var name = \<lparr>var_magic = 0, var_type = 2, var_acl = 0xAAAA, var_name = name\<rparr>"

definition demo_branches :: "(u32 list \<times> SNMPVAR list) list" where
  "demo_branches = [([1, 3, 6], [demo_var [1]]), ([1, 3, 5], [demo_var [2], demo_var [4, 1]])]"

definition demo_get_var :: var_get where
  "demo_get_var vp name exact = \<lparr>acc_value = Some [1, 0, 0, 0], acc_name = name, acc_len = 4, acc_wmethod = None\<rparr>"

theorem mib_finds_variable_witness:
  "sorted (map sub_name (mib_table demo_branches)) \<and>
   (\<exists>r'. SnmpMibFind True demo_get_var (mib_table demo_branches) True
        \<lparr>mf_name = [1, 3, 5, 4, 1, 0], mf_type = 0, mf_len = 0, mf_acl = 0, mf_wmethod = None, mf_no_obj = False\<rparr> = (Some [1, 0, 0, 0], r')
      \<and> mf_name r' = [1, 3, 5, 4, 1, 0] \<and> mf_len r' = 4 \<and> mf_type r' = 2)"
proof -
  let ?r = "\<lparr>mf_name = [1, 3, 5, 4, 1, 0], mf_type = 0, mf_len = 0, mf_acl = 0, mf_wmethod = None, mf_no_obj = False\<rparr>"
  have "branches_ok demo_branches" by (simp add: branches_ok_def demo_branches_def demo_var_def vars_ok_def)
  moreover have "([1, 3, 5], [demo_var [2]] @ demo_var [4, 1] # []) \<in> set demo_branches" by (simp add: demo_branches_def)
  moreover have "mf_name ?r = [1, 3, 5] @ var_name (demo_var [4, 1]) @ [0]" by (simp add: demo_var_def)
  moreover have "acc_value (demo_get_var (demo_var [4, 1]) (mf_name ?r) True) = Some [1, 0, 0, 0]" by (simp add: demo_get_var_def)
  ultimately show ?thesis using mib_finds_variable [of demo_branches "[1, 3, 5]" "[demo_var [2]]" "demo_var [4, 1]" "[]" ?r "[0]" demo_get_var "[1, 0, 0, 0]" True]
    by (auto simp: demo_get_var_def demo_var_def)
qed

text \<open>Object identifiers of five sub identifiers are equal if the first one and one byte of the second are.\<close>

theorem oid_equals_wrong: "SnmpOidEquals [1, 3, 6, 1, 4] [1, 3, 6, 1, 2] = 0"
  by code_simp

end
