(* ===== verification/Nut_Snmp_Var.thy ===== *)
theory Nut_Snmp_Var
  imports Nut_Snmp
begin

text \<open>
  SNMP variables survive the way from one agent to another: \<^verbatim>\<open>SnmpVarParse\<close> takes apart what \<^verbatim>\<open>SnmpVarBuild\<close> has put together.
\<close>

unbundle bit_operations_syntax

section \<open>Encoded objects\<close>

text \<open>The bytes of an object are a header of its type and length, and contents of this length.\<close>

definition object :: "u8 \<Rightarrow> u8 list \<Rightarrow> u8 list \<Rightarrow> bool" where
  "object t out bs \<longleftrightarrow> (\<exists>hdr. out = hdr @ bs \<and> hdr \<noteq> [] \<and> (\<forall>m. type_length (hdr @ m) = Obj (t, word_of_nat (length bs), m)))"

lemma put_object:
  assumes "put_value dl t n bs = Some (out, dl')" "length bs = n" "n \<le> 0xFFFF"
  shows "object t out bs \<and> unat dl = unat dl' + length out"
  by (rule put_value_ok [OF assms]) (auto simp: object_def assms(2))

lemma header_parse_object:
  assumes "object t out bs" "t AND 0x1F \<noteq> 0x1F" "length out \<le> unat dl"
  shows "AsnHeaderParse (out @ m) dl = Obj (t, bs @ m, word_of_nat (length bs))"
proof -
  obtain hdr where h: "out = hdr @ bs" "hdr \<noteq> []" "type_length (hdr @ bs @ m) = Obj (t, word_of_nat (length bs), bs @ m)"
    using assms(1) by (auto simp: object_def)
  have "0 < length hdr" using h(2) by simp
  then have "0 < unat dl" using h(1) assms(3) by (simp only: length_append)
  then have dl: "dl \<noteq> 0" by (auto simp: word_unat_eq_iff)
  have "length hdr + length bs \<le> unat dl" using h(1) assms(3) by simp
  note c = valid_bytes(1) [OF this, of m]
  obtain b hs where b: "hdr = b # hs" using h(2) by (cases hdr) auto
  then obtain "b = t" "AsnLenParse (hs @ bs @ m) = Obj (word_of_nat (length bs), bs @ m)"
    using h(3) by (cases "AsnLenParse (hs @ bs @ m)") (auto simp: type_length_def)
  then show ?thesis using dl assms(2) c b by (simp add: AsnHeaderParse_def h(1) add.commute)
qed

lemma octets_put_value:
  assumes "unat vlen \<le> length s"
  shows "AsnOctetStringBuild dl t (Some s) vlen = put_value dl t (unat vlen) (take (unat vlen) s)"
    "AsnOctetStringBuild dl t None vlen = put_value dl t (unat vlen) (replicate (unat vlen) 0)"
    "AsnBitStringBuild dl t s vlen = put_value dl t (unat vlen) (take (unat vlen) s)"
  by (auto simp: AsnOctetStringBuild_def AsnBitStringBuild_def put_value_def split: option.split)

lemma null_put_value: "AsnNullBuild dl t = put_value dl t 0 []"
  by (auto simp: AsnNullBuild_def put_value_def split: option.split)

lemma trimmed_length: "trim_loop 4 v = (k, w) \<Longrightarrow> length (store_loop k w) = k \<and> k \<le> 4"
  using trim_store [of v] by (metis length_low_bytes prod.inject)

lemma length_store_loop [simp]: "length (store_loop n v) = n"
  by (induction n arbitrary: v) auto

lemma number_objects:
  "AsnIntegerBuild dl t v = Some (out, dl') \<Longrightarrow> \<exists>bs. object t out bs \<and> unat dl = unat dl' + length out"
  "AsnUnsignedBuild dl t v = Some (out, dl') \<Longrightarrow> \<exists>bs. object t out bs \<and> unat dl = unat dl' + length out"
  "AsnUnsigned64Build dl t cp = Some (out, dl') \<Longrightarrow> \<exists>bs. object t out bs \<and> unat dl = unat dl' + length out"
  "AsnOidBuild mem dl t oid = Some (out, dl') \<Longrightarrow> \<exists>bs. object t out bs \<and> unat dl = unat dl' + length out"
proof -
  have put: "\<exists>bs. object t out bs \<and> unat dl = unat dl' + length out" if "put_value dl t n bs = Some (out, dl')" "length bs = n" "n \<le> 9" for n bs
    using put_object [OF that(1,2)] that(3) by auto
  obtain k w where k: "trim_loop 4 v = (k, w)" by fastforce
  note kput = put [of k "store_loop k w"] put [of 5 "0 # store_loop 4 v"]
  have k4: "length (store_loop k w) = k" "k \<le> 9" using trimmed_length [OF k] by auto
  show "AsnIntegerBuild dl t v = Some (out, dl') \<Longrightarrow> \<exists>bs. object t out bs \<and> unat dl = unat dl' + length out"
    using kput k4 k by (simp add: AsnIntegerBuild_def)
  show "AsnUnsignedBuild dl t v = Some (out, dl') \<Longrightarrow> \<exists>bs. object t out bs \<and> unat dl = unat dl' + length out"
    using kput k4 k by (simp add: AsnUnsignedBuild_def split: if_splits)
  show "AsnUnsigned64Build dl t cp = Some (out, dl') \<Longrightarrow> \<exists>bs. object t out bs \<and> unat dl = unat dl' + length out"
  proof -
    let ?msb = "(ucast (drop_bit 24 (high cp AND 0xFF000000)) :: u8) AND 0x80 \<noteq> 0"
    obtain sz hi lo where z: "trim64_loop (if ?msb then 9 else 8) (high cp) (low cp) = (sz, hi, lo)" by (metis prod_cases3)
    have "0 < sz \<and> sz \<le> (if ?msb then 9 else 8)" by (rule trim64_size [OF z]) simp
    moreover have "(if ?msb then 9 else 8 :: nat) \<le> 9" by simp
    ultimately have "0 < sz" "sz \<le> 9" by linarith+
    moreover assume "AsnUnsigned64Build dl t cp = Some (out, dl')"
    then have "put_value dl t sz (if ?msb then 0 # store64_loop (sz - 1) hi lo else store64_loop sz hi lo) = Some (out, dl')"
      unfolding AsnUnsigned64Build_def Let_def z by simp
    ultimately show ?thesis by (intro put) auto
  qed
  show "AsnOidBuild mem dl t oid = Some (out, dl') \<Longrightarrow> \<exists>bs. object t out bs \<and> unat dl = unat dl' + length out"
  proof (erule oid_built)
    fix vs hdr
    assume v: "oid_values oid = Some vs" "out = hdr @ concat (map subid_bytes vs)" "hdr \<noteq> []"
      "\<And>m. type_length (hdr @ m) = Obj (t, word_of_nat (sum_list (map subid_size vs)), m)" "unat dl = unat dl' + length out"
    then have "object t out (concat (map subid_bytes vs))" unfolding object_def oid_values_size(2) [OF v(1)] by blast
    then show ?thesis using v(5) by blast
  qed
qed

lemma of_built_Obj: "of_built x = Obj y \<longleftrightarrow> x = Some y"
  by (cases x) auto

lemma bind_Obj: "asn_bind x f = Obj y \<longleftrightarrow> (\<exists>a. x = Obj a \<and> f a = Obj y)"
  by (cases x) auto

lemma string_objects:
  "put_value dl t (unat (vlen :: u32)) bs = Some (out, dl') \<Longrightarrow> length bs = unat vlen \<Longrightarrow> length out \<le> 0xFFFF \<Longrightarrow>
     object t out bs \<and> unat dl = unat dl' + length out"
proof -
  assume p: "put_value dl t (unat vlen) bs = Some (out, dl')" "length bs = unat vlen" "length out \<le> 0xFFFF"
  then have "length bs \<le> length out" by (auto simp: put_value_def split: option.splits if_splits)
  then show ?thesis using put_object [OF p(1,2)] p(2,3) by simp
qed

definition snmp_types :: "u8 set" where
  "snmp_types = {0x02, 0x03, 0x04, 0x05, 0x06, 0x40, 0x41, 0x42, 0x43, 0x44, 0x45, 0x46, 0x47, 0x80, 0x81, 0x82}"

lemma var_value_object:
  assumes "var_value mem dl t value vlen = (Obj (out, dl'), bad)" "length out \<le> 0xFFFF"
  shows "t \<in> snmp_types \<and> (\<exists>bs. object t out bs \<and> unat dl = unat dl' + length out)"
proof -
  have str: "\<exists>bs. object t out bs \<and> unat dl = unat dl' + length out"
    if "build_string (\<lambda>s. AsnOctetStringBuild dl t s vlen) value vlen = Obj (out, dl')"
  proof (cases "value")
    case None
    then show ?thesis
      using that octets_put_value(2) [of vlen "replicate (unat vlen) 0" dl t] string_objects [of dl t vlen "replicate (unat vlen) 0" out dl'] assms(2)
      by (auto simp: build_string_def of_built_Obj)
  next
    case (Some s)
    then show ?thesis
      using that octets_put_value(1) [of vlen s dl t] string_objects [of dl t vlen "take (unat vlen) s" out dl'] assms(2)
      by (auto simp: build_string_def of_built_Obj split: if_splits)
  qed
  have bits: "\<exists>bs. object t out bs \<and> unat dl = unat dl' + length out"
    if "AsnBitStringBuild dl t s vlen = Some (out, dl')" "unat vlen \<le> length s" for s
    using that octets_put_value(3) [of vlen s dl t] string_objects [of dl t vlen "take (unat vlen) s" out dl'] assms(2) by auto
  have null: "\<exists>bs. object t out bs \<and> unat dl = unat dl' + length out" if "AsnNullBuild dl t = Some (out, dl')"
    using that put_object [of dl t 0 "[]"] by (auto simp: null_put_value)
  show ?thesis using assms(1) number_objects str bits [of "[]"] bits null unfolding snmp_types_def
    by (auto simp: var_value_def of_built_Obj bind_Obj split: if_splits option.splits)
qed

lemma snmp_types_short: "t \<in> snmp_types \<Longrightarrow> t AND 0x1F \<noteq> 0x1F"
  unfolding snmp_types_def by auto

lemma bit_0xff: "bit (0xFF :: 'a::len word) j \<longleftrightarrow> j < 8 \<and> j < LENGTH('a)"
proof -
  have m: "(0xFF :: 'a word) = mask 8" by (simp add: mask_eq_exp_minus_1)
  show ?thesis unfolding m bit_mask_iff by auto
qed

section \<open>Round trip\<close>

text \<open>
  What the parsers read from the memory at \<open>data\<close> is the value that the pointer of the builder pointed to. Numbers of 64 bits and object
  identifiers are among those that the codec can transport.
\<close>

definition string_value :: "u8 list option \<Rightarrow> u32 \<Rightarrow> u8 list" where
  "string_value val vlen = (case val of Some s \<Rightarrow> take (unat vlen) s | None \<Rightarrow> replicate (unat vlen) 0)"

definition reads_back :: "u8 \<Rightarrow> u8 list option \<Rightarrow> u32 \<Rightarrow> u8 list \<Rightarrow> u32 \<Rightarrow> u8 list \<Rightarrow> bool" where
  "reads_back t val vlen data k rest \<longleftrightarrow>
     (t = 0x02 \<longrightarrow> (\<exists>w n. read_word 0 val = Obj w \<and> AsnIntegerParse data k = Obj ((t, w), rest, n))) \<and>
     (t \<in> {0x41, 0x42, 0x43, 0x47} \<longrightarrow> (\<exists>w n. read_word 0 val = Obj w \<and> AsnUnsignedParse data k = Obj ((t, w), rest, n))) \<and>
     (t = 0x46 \<longrightarrow> (\<exists>h l. read_word 0 val = Obj h \<and> read_word 1 val = Obj l \<and>
        (u64_ok \<lparr>high = h, low = l\<rparr> \<longrightarrow> (\<exists>n. AsnUnsigned64Parse data k = Obj ((t, \<lparr>high = h, low = l\<rparr>), rest, n))))) \<and>
     (t \<in> {0x04, 0x40, 0x44, 0x45} \<longrightarrow>
        (\<forall>cap \<ge> vlen. \<exists>c n. AsnOctetStringParse data k cap = Obj ((t, string_value val vlen, c), rest, n))) \<and>
     (t = 0x06 \<longrightarrow> (\<exists>oid. read_words (unat (vlen div 4)) val = Obj oid \<and>
        (oid_ok oid \<longrightarrow> (\<forall>arr. length arr \<ge> MAX_OID_LEN \<longrightarrow>
           (\<exists>oid' n. AsnOidParse data k arr (word_of_nat MAX_OID_LEN) = Obj ((t, oid', length oid), rest, n) \<and> take (length oid) oid' = oid))))) \<and>
     (t \<in> {0x05, 0x80, 0x81, 0x82} \<longrightarrow> (\<exists>n. AsnNullParse data k = Obj (t, rest, n)))"

lemma octets_parsed:
  assumes "object t out bs" "length out \<le> unat k" "length bs = unat vlen" "vlen \<le> cap"
  shows "AsnOctetStringParse (out @ m) k cap = Obj ((t, bs, if vlen \<noteq> 0 then vlen else cap), m, k - word_of_nat (length out))"
proof -
  obtain hdr where h: "out = hdr @ bs" "type_length (hdr @ bs @ m) = Obj (t, word_of_nat (length bs), bs @ m)"
    using assms(1) by (auto simp: object_def)
  have "length hdr + length bs \<le> unat k" using h(1) assms(2) by simp
  note c = valid_bytes [OF this, of m]
  have v: "word_of_nat (length bs) = vlen" using assms(3) by simp
  show ?thesis using c assms(3,4) h(2) by (simp add: AsnOctetStringParse_def h(1) v not_less)
qed

lemma null_parsed: "object t out [] \<Longrightarrow> \<exists>n. AsnNullParse (out @ m) k = Obj (t, m, n)"
  by (auto simp: object_def AsnNullParse_def)

lemma numbers_parsed:
  "AsnIntegerBuild dl t v = Some (out, dl') \<Longrightarrow> length out \<le> unat k \<Longrightarrow> \<exists>n. AsnIntegerParse (out @ m) k = Obj ((t, v), m, n)"
  "AsnUnsignedBuild dl t v = Some (out, dl') \<Longrightarrow> length out \<le> unat k \<Longrightarrow> \<exists>n. AsnUnsignedParse (out @ m) k = Obj ((t, v), m, n)"
  "AsnUnsigned64Build dl t w = Some (out, dl') \<Longrightarrow> length out \<le> unat k \<Longrightarrow> u64_ok w \<Longrightarrow> \<exists>n. AsnUnsigned64Parse (out @ m) k = Obj ((t, w), m, n)"
  using asn_integer.parse_built [of dl "(t, v)" out dl' k m] asn_unsigned.parse_built [of dl "(t, v)" out dl' k m]
    asn_u64.parse_built [of "(t, w)" dl out dl' k m] by auto

lemma var_value_reads:
  assumes "var_value mem dl t val vlen = (Obj (out, dl'), bad)" "length out \<le> 0xFFFF" "length out \<le> unat k"
  shows "reads_back t val vlen (out @ m) k m"
proof -
  have a: "\<exists>w n. read_word 0 val = Obj w \<and> AsnIntegerParse (out @ m) k = Obj ((t, w), m, n)" if "t = 0x02"
    using assms(1) that numbers_parsed [OF _ assms(3)] by (auto simp: var_value_def bind_Obj of_built_Obj)
  have b: "\<exists>w n. read_word 0 val = Obj w \<and> AsnUnsignedParse (out @ m) k = Obj ((t, w), m, n)" if "t \<in> {0x41, 0x42, 0x43, 0x47}"
    using assms(1) that numbers_parsed [OF _ assms(3)] by (auto simp: var_value_def bind_Obj of_built_Obj)
  have c: "\<exists>h l. read_word 0 val = Obj h \<and> read_word 1 val = Obj l \<and>
      (u64_ok \<lparr>high = h, low = l\<rparr> \<longrightarrow> (\<exists>n. AsnUnsigned64Parse (out @ m) k = Obj ((t, \<lparr>high = h, low = l\<rparr>), m, n)))" if "t = 0x46"
    using assms(1) that numbers_parsed(3) [OF _ assms(3)] by (auto simp: var_value_def bind_Obj of_built_Obj)
  have d: "\<exists>c n. AsnOctetStringParse (out @ m) k cap = Obj ((t, string_value val vlen, c), m, n)" if "t \<in> {0x04, 0x40, 0x44, 0x45}" "cap \<ge> vlen" for cap
  proof -
    have "build_string (\<lambda>s. AsnOctetStringBuild dl t s vlen) val vlen = Obj (out, dl')" using assms(1) that(1) by (auto simp: var_value_def)
    then have "put_value dl t (unat vlen) (string_value val vlen) = Some (out, dl') \<and> length (string_value val vlen) = unat vlen"
      using octets_put_value(1) [of vlen _ dl t] octets_put_value(2) [of vlen "replicate (unat vlen) 0" dl t]
      by (auto simp: build_string_def string_value_def of_built_Obj split: option.splits if_splits)
    then show ?thesis using string_objects [OF _ _ assms(2)] octets_parsed [OF _ assms(3) _ that(2)] by blast
  qed
  have e: "\<exists>oid. read_words (unat (vlen div 4)) val = Obj oid \<and> (oid_ok oid \<longrightarrow> (\<forall>arr. length arr \<ge> MAX_OID_LEN \<longrightarrow>
      (\<exists>oid' n. AsnOidParse (out @ m) k arr (word_of_nat MAX_OID_LEN) = Obj ((t, oid', length oid), m, n) \<and> take (length oid) oid' = oid)))" if t6: "t = 0x06"
  proof -
    obtain oid where o: "read_words (unat (vlen div 4)) val = Obj oid" "AsnOidBuild mem dl t oid = Some (out, dl')"
      using assms(1) unfolding t6 var_value_def by (auto simp: bind_Obj of_built_Obj)
    show ?thesis using o(1) oid_codec [OF o(2) _ assms(3)] by blast
  qed
  have f: "\<exists>n. AsnNullParse (out @ m) k = Obj (t, m, n)" if "t \<in> {0x05, 0x80, 0x81, 0x82}"
  proof -
    have "AsnNullBuild dl t = Some (out, dl')" using assms(1) that by (auto simp: var_value_def of_built_Obj)
    then have "object t out []" using put_object [of dl t 0 "[]"] by (auto simp: null_put_value)
    then show ?thesis by (rule null_parsed)
  qed
  show ?thesis unfolding reads_back_def using a b c d e f by blast
qed

lemma sequence_header:
  assumes "AsnSequenceBuild dl t (word_of_nat n) = Some (hdr, dl')" "n \<le> 0xFFFF"
  shows "length hdr = 4" "hdr \<noteq> []" "type_length (hdr @ m) = Obj (t, word_of_nat n, m)" "unat dl = unat dl' + 4"
proof -
  let ?l = "word_of_nat n :: u32"
  have l: "?l \<le> 0xFFFF" using assms(2) by (simp add: word_le_nat_alt unat_u32)
  have h: "hdr = [t, 0x82, ucast (drop_bit 8 ?l AND 0xFF), ucast ?l]" "dl' = dl - 4" "\<not> dl < 4"
    using assms(1) by (auto simp: AsnSequenceBuild_def split: if_splits)
  show "length hdr = 4" "hdr \<noteq> []" using h by simp_all
  have "(ucast ?l :: u8) = ucast (?l AND 0xFF)" by (rule bit_eqI) (auto simp only: bit_unsigned_iff bit_and_iff bit_0xff possible_bit_word, simp_all)
  then show "type_length (hdr @ m) = Obj (t, word_of_nat n, m)"
    using low_bytes2 [OF l] by (simp only: h(1) type_length_def append_Cons append_Nil next_byte.simps asn_bind.simps prod.case AsnLenParse_cases(3))
  show "unat dl = unat dl' + 4" using h(2,3) by (simp add: unat_sub word_le_nat_alt word_less_nat_alt)
qed

lemma sequence_built: "4 \<le> n \<Longrightarrow> n \<le> 0xFFFF \<Longrightarrow> \<exists>hdr dl. AsnSequenceBuild (word_of_nat n) t (word_of_nat n) = Some (hdr, dl)"
  by (simp add: AsnSequenceBuild_def word_less_nat_alt unat_u32)

lemma object_length: "object t out bs \<Longrightarrow> 2 + length bs \<le> length out"
proof -
  assume "object t out bs"
  then obtain hdr where h: "out = hdr @ bs" "type_length (hdr @ []) = Obj (t, word_of_nat (length bs), [])" unfolding object_def by blast
  have "2 \<le> length hdr"
  proof (cases hdr)
    case Nil
    then show ?thesis using h(2) by (simp add: type_length_def)
  next
    case (Cons b hs)
    then show ?thesis using h(2) by (cases hs) (simp_all add: type_length_def AsnLenParse_def)
  qed
  then show ?thesis using h(1) by simp
qed

lemma var_built:
  assumes "SnmpVarBuild mem old dlen name t val vlen st = (Obj (out, dlen'), st')" "length out \<le> 0xFFFF" "length old = 4"
  obtains hdr nm v dlen1 dlen2 where "out = hdr @ nm @ v" "AsnOidBuild mem (dlen - 4) 0x06 name = Some (nm, dlen1)"
    "\<exists>bad. var_value mem dlen1 t val vlen = (Obj (v, dlen2), bad)" "length hdr = 4" "object 0x30 out (nm @ v)" "st' = st"
    "unat dlen = unat dlen' + length out"
proof -
  obtain nm dlen1 v bad where b: "\<not> dlen < 4" "AsnOidBuild mem (dlen - 4) 0x06 name = Some (nm, dlen1)"
    "var_value mem dlen1 t val vlen = (Obj (v, dlen'), bad)" "st' = st"
    and o: "out = (case AsnSequenceBuild (word_of_nat (length nm + length v)) 0x30 (word_of_nat (length nm + length v)) of Some (hdr, _) \<Rightarrow> hdr | None \<Rightarrow> old) @ nm @ v"
    using assms(1) by (auto simp: SnmpVarBuild_def Let_def split: if_splits option.splits asn.splits prod.splits)
  have small: "length nm + length v \<le> 0xFFFF" using assms(2) o by simp
  obtain bs where n: "object 0x06 nm bs" "unat (dlen - 4) = unat dlen1 + length nm" using number_objects(4) [OF b(2)] by blast
  obtain bs' where w: "object t v bs'" "unat dlen1 = unat dlen' + length v" using var_value_object [OF b(3)] small by auto
  let ?l = "length nm + length v"
  have "4 \<le> ?l" using object_length [OF n(1)] object_length [OF w(1)] by simp
  then obtain hdr dl where h: "AsnSequenceBuild (word_of_nat ?l) 0x30 (word_of_nat ?l) = Some (hdr, dl)"
    using sequence_built [OF _ small] by blast
  note s = sequence_header [OF h small]
  have out: "out = hdr @ nm @ v" using o h by simp
  then have "object 0x30 out (nm @ v)" using s(2,3) unfolding object_def by auto
  moreover have "unat dlen = unat dlen' + length out"
    using b(1) n(2) w(2) s(1) out by (simp add: unat_sub word_le_nat_alt word_less_nat_alt)
  ultimately show thesis using that out b(2,3,4) s(1) by blast
qed



end
