(* ===== verification/Nut_Snmp_Agent.thy ===== *)
theory Nut_Snmp_Agent
  imports Nut_Snmp_Var
begin

text \<open>
  The SNMP agent proper: \<^verbatim>\<open>pro/snmp_auth.c\<close> and the processing of a request in \<^verbatim>\<open>pro/snmp_agent.c\<close>. The variables of the application
  are a state of their own, which its access functions read and its write methods change; where the agent stores
  through the pointer that an access function returned, the application's memory changes, too. The message that is sent
  is the list of its bytes.
\<close>

unbundle bit_operations_syntax

section \<open>Message headers\<close>

record SNMP_SESSION =
  sess_version :: u32
  sess_id_len :: u32
  sess_id :: "u8 list"
  sess_read_view :: int
  sess_write_view :: int

text \<open>\<open>sidp\<close> is the buffer for the community. The result holds the version, the buffer and the length of the community.\<close>

definition SnmpAuthParse :: "u8 list \<Rightarrow> u32 \<Rightarrow> u8 list \<Rightarrow> u32 \<Rightarrow> ((u32 \<times> u8 list \<times> u32) \<times> u8 list \<times> u32) asn" where
  "SnmpAuthParse data len sidp slen =
     asn_bind (AsnSequenceParse data len 0x30) (\<lambda>(d1, len1).
       asn_bind (AsnIntegerParse d1 len1) (\<lambda>((_, version), d2, len2).
         asn_bind (AsnOctetStringParse d2 len2 slen) (\<lambda>((_, s, slen'), d3, len3).
           let sid = s @ drop (length s) sidp in
           if length sidp < length s then Overrun
           else if version = 0 then
             if unat slen' < length sid then Obj ((version, sid[unat slen' := 0], slen'), d3, len3) else Overrun
           else Obj ((version, sid, slen'), d3, len3))))"

definition SnmpAuthBuild :: "SNMP_SESSION \<Rightarrow> u32 \<Rightarrow> u32 \<Rightarrow> built" where
  "SnmpAuthBuild sess len messagelen =
     (case AsnSequenceBuild len 0x30 (messagelen + sess_id_len sess + 5) of
        None \<Rightarrow> None
      | Some (b1, len1) \<Rightarrow>
          (case AsnIntegerBuild len1 0x02 (sess_version sess) of
             None \<Rightarrow> None
           | Some (b2, len2) \<Rightarrow>
               map_option (\<lambda>(b3, len3). (b1 @ b2 @ b3, len3)) (AsnOctetStringBuild len2 0x04 (Some (sess_id sess)) (sess_id_len sess))))"

section \<open>The application\<close>

record 'a snmp_app =
  app_get :: "'a \<Rightarrow> var_get"
  app_wmethod :: "nat \<Rightarrow> int \<Rightarrow> u8 list \<Rightarrow> u8 \<Rightarrow> u32 \<Rightarrow> u32 list \<Rightarrow> 'a \<Rightarrow> int \<times> 'a"
  app_store :: "u32 list \<Rightarrow> u8 list \<Rightarrow> 'a \<Rightarrow> 'a"

record 'a agent =
  ag_stats :: statistics
  ag_config :: snmp_config
  ag_mib :: "SUBTREE list"
  ag_app :: 'a

definition ag_inc :: "int \<Rightarrow> 'a agent \<Rightarrow> 'a agent" where
  "ag_inc which ag = ag\<lparr>ag_stats := SnmpStatsInc which (ag_stats ag)\<rparr>"

text \<open>A store into a variable through the pointer to its memory.\<close>

fun words_of :: "u8 list \<Rightarrow> u32 list" where
  "words_of (a # b # c # d # m) = le32 a b c d # words_of m"
| "words_of _ = []"

definition SetVariable :: "u8 list \<Rightarrow> u8 \<Rightarrow> u8 list \<Rightarrow> u32 \<Rightarrow> u8 list asn" where
  "SetVariable var_val ty statP statLen =
     (if ty \<in> {0x02, 0x41, 0x42, 0x43} then
        (case AsnIntegerParse var_val 1000 of
           Obj ((_, v), _) \<Rightarrow> if length statP < 4 then Overrun else Obj (le_bytes v @ drop 4 statP)
         | Null \<Rightarrow> Obj statP
         | Overrun \<Rightarrow> Overrun)
      else if ty \<in> {0x04, 0x40, 0x44} then
        (case AsnOctetStringParse var_val 1000 statLen of
           Obj ((_, s, _), _) \<Rightarrow> if length statP < length s then Overrun else Obj (s @ drop (length s) statP)
         | Null \<Rightarrow> Obj statP
         | Overrun \<Rightarrow> Overrun)
      else if ty = 0x06 then
        (case AsnOidParse var_val 1000 (words_of statP) statLen of
           Obj ((_, oid, _), _) \<Rightarrow> Obj (concat (map le_bytes oid) @ drop (4 * length oid) statP)
         | Null \<Rightarrow> Obj statP
         | Overrun \<Rightarrow> Overrun)
      else Obj statP)"

section \<open>The list of variables\<close>

declare oid_loop.simps [simp del]

lemma len_loop_shorter: "len_loop n m l = Obj (l', m') \<Longrightarrow> length m' \<le> length m"
proof (induction n arbitrary: m l)
  case (Suc n)
  then show ?case by (cases m) fastforce+
qed simp

lemma AsnLenParse_shorter: "AsnLenParse m = Obj (l, m') \<Longrightarrow> length m' < length m"
  by (cases m) (auto simp: AsnLenParse_def Let_def split: if_splits dest: len_loop_shorter)

lemma AsnHeaderParse_shorter: "AsnHeaderParse m dl = Obj (t, m', l) \<Longrightarrow> length m' < length m"
  by (cases m) (auto simp: AsnHeaderParse_def bind_Obj split: if_splits dest!: AsnLenParse_shorter)

lemma oid_loop_shorter: "oid_loop m len room oidp objid = Obj (m', oidp', objid') \<Longrightarrow> length m' \<le> length m"
proof (induction m len room oidp objid rule: oid_loop.induct)
  case (1 m len room oidp objid)
  show ?case
  proof (cases "len > 0 \<and> room > 0")
    case False
    then show ?thesis using 1(2) by (auto simp: oid_loop.simps [of m] split: if_splits)
  next
    case True
    with 1(2) obtain sub len1 m1 where s: "subid_loop m 0 len = Obj (sub, len1, m1)"
      and o: "oidp < length objid" "oid_loop m1 len1 (room - 1) (oidp + 1) (objid[oidp := sub]) = Obj (m', oidp', objid')"
      by (auto simp: oid_loop.simps [of m] split: asn.splits if_splits)
    from 1(1) [OF True s refl refl o(1) o(2)] show ?thesis using subid_loop_shorter [OF s] by simp
  qed
qed

lemma AsnOidParse_shorter:
  assumes "AsnOidParse m dl arr n = Obj (v, m', l)"
  shows "length m' < length m"
proof -
  obtain t l1 bufp where b: "type_length m = Obj (t, l1, bufp)" using assms by (auto simp: AsnOidParse_def bind_Obj)
  then have "length bufp < length m" by (cases m) (auto simp: type_length_def bind_Obj dest: AsnLenParse_shorter)
  moreover have "length m' \<le> length bufp"
    using assms by (auto simp: AsnOidParse_def b bind_Obj case_prod_beta split: if_splits dest!: oid_loop_shorter)
  ultimately show ?thesis by simp
qed

lemma SnmpVarParse_shorter: "SnmpVarParse data dlen name nlen = Obj (nm, t, v, vl, data', dlen') \<Longrightarrow> length data' < length data"
  by (auto simp: SnmpVarParse_def AsnSequenceParse_def bind_Obj split: if_splits dest!: AsnHeaderParse_shorter AsnOidParse_shorter)

definition v1_error :: "SNMP_SESSION \<Rightarrow> int \<Rightarrow> int \<Rightarrow> int" where
  "v1_error sess e1 e2 = (if sess_version sess = 0 then e1 else e2)"

text \<open>The error codes of a write method for SNMPv1 (RFC 2089).\<close>

definition map_error :: "int \<Rightarrow> int" where
  "map_error err = (if err \<in> {10, 9, 7, 8, 12} then 3 else if err \<in> {6, 17, 11, 18, 16} then 2 else 5)"

text \<open>The checks and the store of a SET; \<open>Some\<close> is the error that ends the list.\<close>

definition set_var :: "'a snmp_app \<Rightarrow> SNMP_SESSION \<Rightarrow> int \<Rightarrow> u8 list \<Rightarrow> u8 \<Rightarrow> u32 \<Rightarrow> u8 list option \<Rightarrow> mib_result \<Rightarrow> 'a agent \<Rightarrow> (int option \<times> 'a agent) asn" where
  "set_var app sess action var_val ty vlen statP r ag =
     (if mf_acl r \<noteq> 0xAABA then Obj (Some (v1_error sess 2 17), ag)
      else case mf_wmethod r of
        None \<Rightarrow>
          (case statP of
             None \<Rightarrow> Obj (Some (v1_error sess 2 11), ag)
           | Some mem \<Rightarrow>
               if vlen > mf_len r \<or> ty \<noteq> mf_type r then Obj (Some (v1_error sess 3 7), ag)
               else if action = 2 then
                 asn_bind (SetVariable var_val ty mem (mf_len r)) (\<lambda>mem'.
                   Obj (None, ag\<lparr>ag_app := app_store app (mf_name r) mem' (ag_app ag)\<rparr>))
               else Obj (None, ag))
      | Some w \<Rightarrow>
          (case app_wmethod app w action var_val ty vlen (mf_name r) (ag_app ag) of
             (err, a) \<Rightarrow>
               if err \<noteq> 0 \<and> sess_version sess = 0 then Obj (Some (map_error err), ag\<lparr>ag_app := a\<rparr>) else Obj (None, ag\<lparr>ag_app := a\<rparr>)))"

text \<open>The value of a GET or GETNEXT, appended to the outgoing list.\<close>

definition get_var :: "bool \<Rightarrow> bool \<Rightarrow> u8 list option \<Rightarrow> mib_result \<Rightarrow> u32 \<Rightarrow> 'a agent \<Rightarrow> (u8 list \<times> u32) asn \<times> 'a agent" where
  "get_var mem exact statP r out_length ag =
     (let (ty, len) = (case statP of
            None \<Rightarrow> (if exact then if mf_no_obj r then 0x80 else 0x81 else 0x82, 0)
          | Some _ \<Rightarrow> (mf_type r, mf_len r));
          (b, st) = SnmpVarBuild mem [0, 0, 0, 0] out_length (mf_name r) ty statP len (ag_stats ag)
      in (b, ag\<lparr>ag_stats := st\<rparr>))"

text \<open>
  The loop over the variables of the request. Type, length and access rights of the variable found last
  stay in their variables. The result holds the error code, the error index and the bytes of the outgoing list.
\<close>

definition SNMP_MSG_GETNEXT :: u8 where "SNMP_MSG_GETNEXT = 0xA1"
definition SNMP_MSG_SET :: u8 where "SNMP_MSG_SET = 0xA3"

function var_loop :: "bool \<Rightarrow> 'a snmp_app \<Rightarrow> SNMP_SESSION \<Rightarrow> u8 \<Rightarrow> int \<Rightarrow> u8 list \<Rightarrow> u32 \<Rightarrow> u8 list \<Rightarrow> u32 \<Rightarrow> u32 \<Rightarrow> mib_result \<Rightarrow> 'a agent
    \<Rightarrow> ((int \<times> u32 \<times> u8 list) \<times> 'a agent) asn" where
  "var_loop mem app sess msgtype action data len out out_length index r ag =
     (if len = 0 then Obj ((0, index, out), ag)
      else case SnmpVarParse data len (replicate MAX_OID_LEN 0) (word_of_nat MAX_OID_LEN) of
        Overrun \<Rightarrow> Overrun
      | Null \<Rightarrow> Obj ((-1, index, out), ag)
      | Obj ((name, nlen), ty, var_val, vlen, data', len') \<Rightarrow>
          (case SnmpMibFind mem (app_get app (ag_app ag)) (ag_mib ag) (msgtype \<noteq> SNMP_MSG_GETNEXT) (r\<lparr>mf_name := take nlen name\<rparr>) of
             (statP, r1) \<Rightarrow>
               if msgtype = SNMP_MSG_SET then
                 (case set_var app sess action var_val ty vlen statP r1 ag of
                    Overrun \<Rightarrow> Overrun
                  | Null \<Rightarrow> Null
                  | Obj (Some err, ag1) \<Rightarrow> Obj ((err, index, out), ag1)
                  | Obj (None, ag1) \<Rightarrow> var_loop mem app sess msgtype action data' len' out out_length (index + 1) r1 ag1)
               else
                 (case get_var mem (msgtype \<noteq> SNMP_MSG_GETNEXT) statP r1 out_length ag of
                    (Overrun, _) \<Rightarrow> Overrun
                  | (Null, ag1) \<Rightarrow> Obj ((1, index, out), ag1)
                  | (Obj (b, out_length'), ag1) \<Rightarrow>
                      var_loop mem app sess msgtype action data' len' (out @ b) out_length' (index + 1) r1 ag1)))"
  by pat_completeness auto
termination
  by (relation "measure (\<lambda>(mem, app, sess, msgtype, action, data, _). length data)") (auto dest: SnmpVarParse_shorter)

declare var_loop.simps [simp del]

text \<open>\<open>r\<close> are the contents of the local variables when the function is called; \<open>errindex\<close> is the variable for the index.\<close>

definition SnmpVarListParse :: "bool \<Rightarrow> 'a snmp_app \<Rightarrow> SNMP_SESSION \<Rightarrow> mib_result \<Rightarrow> u8 list \<Rightarrow> u32 \<Rightarrow> u32 \<Rightarrow> u32 \<Rightarrow> u8 \<Rightarrow> int \<Rightarrow> 'a agent
    \<Rightarrow> ((int \<times> u32 \<times> u8 list) \<times> 'a agent) asn" where
  "SnmpVarListParse mem app sess r data len out_length errindex msgtype action ag =
     (case AsnSequenceParse data len 0x30 of
        Overrun \<Rightarrow> Overrun
      | Null \<Rightarrow> Obj ((-1, errindex, []), ag)
      | Obj (d1, len1) \<Rightarrow>
          (case AsnSequenceBuild out_length 0x30 0 of
             None \<Rightarrow> Obj ((-2, errindex, []), ag)
           | Some (hdr, out_length1) \<Rightarrow>
               (case var_loop mem app sess msgtype action d1 len1 [] out_length1 1 (r\<lparr>mf_no_obj := False\<rparr>) ag of
                  Obj ((err, index, out), ag1) \<Rightarrow>
                    if err \<noteq> 0 then Obj ((err, index, out), ag1)
                    else if msgtype \<noteq> SNMP_MSG_SET then
                      (case AsnSequenceBuild (word_of_nat (length out)) 0x30 (word_of_nat (length out)) of
                         None \<Rightarrow> Obj ((1, index, out), ag1)
                       | Some (hdr1, _) \<Rightarrow> Obj ((0, 0, hdr1 @ out), ag1))
                    else Obj ((0, 0, hdr @ out), ag1)
                | Null \<Rightarrow> Null
                | Overrun \<Rightarrow> Overrun)))"

section \<open>Requests\<close>

definition put_bytes :: "nat \<Rightarrow> u8 list \<Rightarrow> u8 list \<Rightarrow> u8 list" where
  "put_bytes i bs m = take i m @ bs @ drop (i + length bs) m"

text \<open>
  The answer that repeats the request, which has been copied to the start of \<open>m\<close>. Pointers into the copy are the memory behind
  them. The place of a stored object must end where the old one did.
\<close>

definition offset :: "u8 list \<Rightarrow> u8 list \<Rightarrow> nat" where
  "offset m p = length m - length p"

definition put_int :: "u8 list \<Rightarrow> u32 \<Rightarrow> u8 list \<Rightarrow> u8 list \<Rightarrow> u32 \<Rightarrow> u8 list \<Rightarrow> (u8 list \<times> u32) asn" where
  "put_int m0 dl p q v m =
     (case AsnIntegerBuild dl 0x02 v of
        None \<Rightarrow> Null
      | Some (bs, dl') \<Rightarrow> if offset m0 p + length bs \<noteq> offset m0 q then Null else Obj (put_bytes (offset m0 p) bs m, dl'))"

definition SnmpCreateIdentical :: "SNMP_SESSION \<Rightarrow> u8 list \<Rightarrow> u32 \<Rightarrow> u32 \<Rightarrow> u32 \<Rightarrow> u8 list asn" where
  "SnmpCreateIdentical sess m len errstat errindex =
     asn_bind (SnmpAuthParse m len (sess_id sess) (sess_id_len sess)) (\<lambda>((_, sid, slen), header, l1).
       if \<not> unat slen < length sid then Overrun
       else asn_bind (AsnHeaderParse header l1) (\<lambda>(_, reqid, l2).
         asn_bind (AsnIntegerParse reqid l2) (\<lambda>(_, es, l3).
           asn_bind (AsnIntegerParse es l3) (\<lambda>(_, ei, l4).
             asn_bind (AsnIntegerParse ei l4) (\<lambda>(_, vars, _).
               case AsnHeaderBuild l2 0xA2 l2 of
                 None \<Rightarrow> Null
               | Some (bs, _) \<Rightarrow>
                   asn_bind (put_int m len es ei errstat (put_bytes (offset m header) bs m)) (\<lambda>(m1, dl).
                     asn_bind (put_int m dl ei vars errindex m1) (\<lambda>(m2, _). Obj (take (unat len) m2))))))))"

text \<open>What both versions of the answer have in common with the request: the header up to the list of variables.\<close>

definition request_ints :: "u8 list \<Rightarrow> u32 \<Rightarrow> ((u32 \<times> u32 \<times> u32) \<times> u8 list \<times> u32) asn" where
  "request_ints data len =
     asn_bind (AsnIntegerParse data len) (\<lambda>((_, reqid), d1, l1).
       asn_bind (AsnIntegerParse d1 l1) (\<lambda>((_, errstat), d2, l2).
         asn_bind (AsnIntegerParse d2 l2) (\<lambda>((_, errindex), d3, l3). Obj ((reqid, errstat, errindex), d3, l3))))"

definition response_ints :: "u32 \<Rightarrow> u32 \<Rightarrow> built" where
  "response_ints out_len reqid =
     (case AsnIntegerBuild out_len 0x02 reqid of
        None \<Rightarrow> None
      | Some (b1, l1) \<Rightarrow>
          (case AsnIntegerBuild l1 0x02 0 of
             None \<Rightarrow> None
           | Some (b2, l2) \<Rightarrow> map_option (\<lambda>(b3, l3). (b1 @ b2 @ b3, l3)) (AsnIntegerBuild l2 0x02 0)))"

text \<open>
  The answer. A SET passes three or four times through the list of variables and repeats the request;
  for the other requests the headers are built again when the lengths are known. \<open>m\<close> is the copy of the request.
\<close>

definition identical :: "SNMP_SESSION \<Rightarrow> u8 list \<Rightarrow> u32 \<Rightarrow> int \<Rightarrow> u32 \<Rightarrow> 'a agent \<Rightarrow> (u8 list option \<times> 'a agent) asn" where
  "identical sess m in_len errstat errindex ag =
     (case SnmpCreateIdentical sess m in_len (word_of_int errstat) errindex of
        Overrun \<Rightarrow> Overrun
      | Null \<Rightarrow> Obj (None, ag)
      | Obj msg \<Rightarrow> Obj (Some msg, ag))"

definition set_answer :: "bool \<Rightarrow> 'a snmp_app \<Rightarrow> SNMP_SESSION \<Rightarrow> mib_result \<Rightarrow> u8 list \<Rightarrow> u32 \<Rightarrow> u32 \<Rightarrow> u32 \<Rightarrow> u8 list \<Rightarrow> u32 \<Rightarrow> 'a agent
    \<Rightarrow> (u8 list option \<times> 'a agent) asn" where
  "set_answer mem app sess r data len out_len errindex m in_len ag =
     (let pass = (\<lambda>action idx. SnmpVarListParse mem app sess r data len out_len idx SNMP_MSG_SET action) in
      asn_bind (pass 0 errindex ag) (\<lambda>((e1, i1, _), ag1).
        asn_bind (if e1 = 0 then pass 1 i1 ag1 else Obj ((e1, i1, []), ag1)) (\<lambda>((e2, i2, _), ag2).
          if e2 = 0 then
            asn_bind (pass 2 0 ag2) (\<lambda>((e3, _), ag3).
              asn_bind (pass (if e3 \<noteq> 0 then 4 else 3) 0 ag3) (\<lambda>(_, ag4). identical sess m in_len 0 0 ag4))
          else asn_bind (pass 4 0 ag2) (\<lambda>(_, ag3). identical sess m in_len e2 i2 ag3))))"

definition get_answer :: "bool \<Rightarrow> 'a snmp_app \<Rightarrow> SNMP_SESSION \<Rightarrow> mib_result \<Rightarrow> u8 \<Rightarrow> u8 list \<Rightarrow> u32 \<Rightarrow> u32 \<Rightarrow> u32 \<Rightarrow> u8 list \<Rightarrow> u32
    \<Rightarrow> u8 list \<Rightarrow> u8 list \<Rightarrow> 'a agent \<Rightarrow> (u8 list option \<times> 'a agent) asn" where
  "get_answer mem app sess r msgtype data len out_len errindex m in_len auth ints ag =
     asn_bind (SnmpVarListParse mem app sess r data len out_len errindex msgtype 0 ag) (\<lambda>((err, index, vars), ag1).
       if err \<noteq> 0 then identical sess m in_len err index ag1
       else let body = length ints + length vars in
         case AsnSequenceBuild (word_of_nat (4 + body)) 0xA2 (word_of_nat body) of
           None \<Rightarrow> Obj (None, ag1)
         | Some (hdr, _) \<Rightarrow>
             let msg = auth @ hdr @ ints @ vars in
             case SnmpAuthBuild sess (word_of_nat (length msg)) (word_of_nat (4 + body)) of
               None \<Rightarrow> Obj (Some msg, ag1)
             | Some (auth', _) \<Rightarrow> Obj (Some (put_bytes 0 auth' msg), ag1))"

text \<open>A C string in a buffer.\<close>

definition c_string :: "u8 list \<Rightarrow> u8 list" where
  "c_string m = takeWhile (\<lambda>b. b \<noteq> 0) m"

definition process_pdu :: "bool \<Rightarrow> 'a snmp_app \<Rightarrow> SNMP_SESSION \<Rightarrow> mib_result \<Rightarrow> u8 list \<Rightarrow> u32 \<Rightarrow> u32 \<Rightarrow> u8 list \<Rightarrow> u32 \<Rightarrow> 'a agent
    \<Rightarrow> (u8 list option \<times> 'a agent) asn" where
  "process_pdu mem app sess r data len out_len m in_len ag =
     (case AsnHeaderParse data len of
        Overrun \<Rightarrow> Overrun
      | Null \<Rightarrow> Obj (None, ag_inc 5 ag)
      | Obj (msgtype, d1, l1) \<Rightarrow>
          if msgtype \<notin> {0xA0, 0xA1, 0xA3} then Obj (None, ag)
          else (case request_ints d1 l1 of
             Overrun \<Rightarrow> Overrun
           | Null \<Rightarrow> Obj (None, ag_inc 5 ag)
           | Obj ((reqid, _, errindex), d2, l2) \<Rightarrow>
               (case SnmpAuthBuild sess out_len 0 of
                  None \<Rightarrow> Obj (None, ag)
                | Some (auth, o1) \<Rightarrow>
                    (case AsnSequenceBuild o1 0xA2 0 of
                       None \<Rightarrow> Obj (None, ag)
                     | Some (_, o2) \<Rightarrow>
                         (case response_ints o2 reqid of
                            None \<Rightarrow> Obj (None, ag)
                          | Some (ints, o3) \<Rightarrow>
                              if msgtype = 0xA3 then set_answer mem app sess r d2 l2 o3 errindex m in_len ag
                              else get_answer mem app sess r msgtype d2 l2 o3 errindex m in_len auth ints ag)))))"

text \<open>\<open>tail\<close> is what the output buffer holds behind the copy of the request.\<close>

definition SnmpAgentProcessRequest :: "bool \<Rightarrow> 'a snmp_app \<Rightarrow> mib_result \<Rightarrow> u8 list \<Rightarrow> SNMP_SESSION \<Rightarrow> u8 list \<Rightarrow> u32 \<Rightarrow> u32 \<Rightarrow> 'a agent
    \<Rightarrow> (u8 list option \<times> 'a agent) asn" where
  "SnmpAgentProcessRequest mem app r tail sess in_data in_len out_len ag0 =
     (let ag = ag_inc 0 ag0 in
      case SnmpAuthParse in_data in_len (sess_id sess) 32 of
        Overrun \<Rightarrow> Overrun
      | Null \<Rightarrow> Obj (None, ag_inc 5 ag)
      | Obj ((version, sid, slen), d1, l1) \<Rightarrow>
          if version = 0 \<or> version = 1 then
            (case SnmpCommunityFind (c_string sid) (ag_config ag) of
               None \<Rightarrow> Obj (None, ag_inc 3 ag)
             | Some (rv, wv) \<Rightarrow>
                 process_pdu mem app
                   (sess\<lparr>sess_version := version, sess_id := sid, sess_id_len := slen, sess_read_view := rv, sess_write_view := wv\<rparr>)
                   r d1 l1 out_len (take (unat in_len) in_data @ tail) in_len ag)
          else Obj (None, ag_inc 2 ag))"

section \<open>Writing variables\<close>

text \<open>
  The size of an object identifier variable is given in bytes and taken as a number of sub identifiers: a value of five
  bytes overwrites the memory behind a variable of 8 bytes. The errors of write methods are ignored for SNMPv2c.
\<close>

theorem set_oid_overruns: "SetVariable [0x06, 5, 0x2B, 6, 1, 4, 1] 0x06 (replicate 8 0) 8 = Overrun"
  by code_simp

theorem v2c_write_error_ignored:
  assumes "sess_version sess = 1" "mf_acl r = 0xAABA" "mf_wmethod r = Some w"
  shows "\<exists>a. set_var app sess action v ty vlen statP r ag = Obj (None, ag\<lparr>ag_app := a\<rparr>)"
  using assms by (auto simp: set_var_def split: prod.split)

end
