(* ===== verification/Nut_Snmp_Resp.thy ===== *)
theory Nut_Snmp_Resp
  imports Nut_Snmp_Agent
begin

text \<open>
  The answers of the SNMP agent: the response to a GET or GETNEXT is a well-formed message that carries the version, the community and the
  request identifier of the request and the list of variables.
\<close>

unbundle bit_operations_syntax

section \<open>Sizes\<close>

lemma put_size: "put_value dl t n bs = Some (out, dl') \<Longrightarrow> length bs = n \<Longrightarrow> n < 4294967296 \<Longrightarrow> unat dl = unat dl' + length out"
  by (auto simp: put_value_def unat_sub word_less_nat_alt word_le_nat_alt unat_u32 split: option.splits if_splits dest!: AsnHeaderBuild_ok(1))

lemma string_size:
  "put_value dl t (unat (vlen :: u32)) bs = Some (out, dl') \<Longrightarrow> length bs = unat vlen \<Longrightarrow> unat dl = unat dl' + length out"
  using put_size [of dl t "unat vlen" bs out dl'] unat_bound(3) [of vlen] by simp

lemma number_sizes:
  "AsnIntegerBuild dl t v = Some (out, dl') \<Longrightarrow> unat dl = unat dl' + length out"
  "AsnUnsignedBuild dl t v = Some (out, dl') \<Longrightarrow> unat dl = unat dl' + length out"
  "AsnUnsigned64Build dl t cp = Some (out, dl') \<Longrightarrow> unat dl = unat dl' + length out"
  "AsnOidBuild mem dl t oid = Some (out, dl') \<Longrightarrow> unat dl = unat dl' + length out"
  "AsnNullBuild dl t = Some (out, dl') \<Longrightarrow> unat dl = unat dl' + length out"
  using number_objects [where dl = dl and t = t and out = out and dl' = dl'] put_size [of dl t 0 "[]" out dl'] by (blast, blast, blast, blast, simp add: null_put_value)

lemma build_string_size:
  assumes "build_string (\<lambda>s. AsnOctetStringBuild dl t s vlen) val vlen = Obj (out, dl')"
  shows "unat dl = unat dl' + length out"
proof (cases val)
  case None
  then show ?thesis using assms octets_put_value(2) [of vlen "replicate (unat vlen) 0" dl t] string_size [of dl t vlen "replicate (unat vlen) 0" out dl']
    by (simp add: build_string_def of_built_Obj)
next
  case (Some s)
  then show ?thesis using assms octets_put_value(1) [of vlen s dl t] string_size [of dl t vlen "take (unat vlen) s" out dl']
    by (simp add: build_string_def of_built_Obj split: if_splits)
qed

lemma bit_string_size: "AsnBitStringBuild dl t s vlen = Some (out, dl') \<Longrightarrow> unat vlen \<le> length s \<Longrightarrow> unat dl = unat dl' + length out"
  using octets_put_value(3) [of vlen s dl t] string_size [of dl t vlen "take (unat vlen) s" out dl'] by simp

lemma var_value_size: "var_value mem dl t val vlen = (Obj (out, dl'), bad) \<Longrightarrow> unat dl = unat dl' + length out"
  using bit_string_size [of dl t "[]" 0]
  by (auto simp: var_value_def of_built_Obj bind_Obj split: if_splits option.splits dest: number_sizes build_string_size bit_string_size)

lemma AsnSequenceBuild_size: "AsnSequenceBuild dl t len = Some (out, dl') \<Longrightarrow> length out = 4 \<and> unat dl = unat dl' + 4"
  by (auto simp: AsnSequenceBuild_def unat_sub word_less_nat_alt word_le_nat_alt split: if_splits)

lemma var_build_size:
  assumes "SnmpVarBuild mem old dlen name t val vlen st = (Obj (out, dlen'), st')" "length old = 4"
  shows "unat dlen = unat dlen' + length out"
proof -
  obtain nm dlen1 v bad where b: "\<not> dlen < 4" "AsnOidBuild mem (dlen - 4) 0x06 name = Some (nm, dlen1)"
    "var_value mem dlen1 t val vlen = (Obj (v, dlen'), bad)"
    and o: "out = (case AsnSequenceBuild (word_of_nat (length nm + length v)) 0x30 (word_of_nat (length nm + length v)) of Some (hdr, _) \<Rightarrow> hdr | None \<Rightarrow> old) @ nm @ v"
    using assms(1) by (auto simp: SnmpVarBuild_def Let_def split: if_splits option.splits asn.splits prod.splits)
  have "length out = 4 + length nm + length v" using o assms(2) by (auto split: option.splits dest: AsnSequenceBuild_size)
  then show ?thesis using b(1) number_sizes(4) [OF b(2)] var_value_size [OF b(3)] by (simp add: unat_sub word_less_nat_alt word_le_nat_alt)
qed

lemma get_var_size: "get_var mem exact statP r ol ag = (Obj (b, ol'), ag') \<Longrightarrow> unat ol = unat ol' + length b"
  by (auto simp: get_var_def Let_def split: prod.splits option.splits if_splits dest: var_build_size)

lemma var_loop_size:
  "var_loop mem app sess msgtype action data len out ol index r ag = Obj ((err, idx, out'), ag') \<Longrightarrow> length out' \<le> length out + unat ol"
proof (induction "length data" arbitrary: data len out ol index r ag rule: less_induct)
  case less
  note step = less.prems [unfolded var_loop.simps [of mem app sess msgtype action data len out ol index r ag]]
  show ?case
  proof (cases "SnmpVarParse data len (replicate MAX_OID_LEN 0) (word_of_nat MAX_OID_LEN)")
    case (Obj x)
    obtain name nlen ty vv vl d l where x: "x = ((name, nlen), ty, vv, vl, d, l)" by (metis prod_cases6 surj_pair)
    obtain sp r1 where f: "SnmpMibFind mem (app_get app (ag_app ag)) (ag_mib ag) (msgtype \<noteq> SNMP_MSG_GETNEXT) (r\<lparr>mf_name := take nlen name\<rparr>) = (sp, r1)"
      by fastforce
    have ih: "var_loop mem app sess msgtype action d l o1 ol1 index1 r2 ag1 = Obj ((err, idx, out'), ag') \<Longrightarrow> length out' \<le> length o1 + unat ol1"
      for o1 ol1 index1 r2 ag1 by (rule less.hyps [OF SnmpVarParse_shorter [OF Obj [unfolded x]]])
    show ?thesis
    proof (cases "len = 0 \<or> msgtype = SNMP_MSG_SET")
      case True
      then show ?thesis using step ih by (auto simp: Obj x f split: if_splits asn.splits option.splits prod.splits)
    next
      case False
      obtain res ag1 where g: "get_var mem (msgtype \<noteq> SNMP_MSG_GETNEXT) sp r1 ol ag = (res, ag1)" by fastforce
      show ?thesis
      proof (cases res)
        case (Obj y)
        obtain b ol1 where y: "y = (b, ol1)" by fastforce
        have "length out' \<le> length (out @ b) + unat ol1" using step False ih [of "out @ b" ol1] by (simp add: \<open>SnmpVarParse _ _ _ _ = _\<close> x f g Obj y)
        then show ?thesis using get_var_size [OF g [unfolded Obj y]] by simp
      qed (use step False in \<open>simp_all add: Obj x f g\<close>)
    qed
  qed (use step in \<open>auto split: if_splits\<close>)
qed

section \<open>Headers\<close>

lemma version_int: "v = 0 \<or> v = 1 \<Longrightarrow> AsnIntegerBuild dl t v = Some (out, dl') \<Longrightarrow> length out = 3"
proof -
  have t: "trim_loop 4 0 = (1, 0)" "trim_loop 4 1 = (1, 0x1000000)" by code_simp+
  have h: "AsnHeaderBuild dl t 1 = Some (hdr, dl1) \<Longrightarrow> length hdr = 2" for hdr dl1
    by (auto simp: AsnHeaderBuild_def AsnLenBuild_def split: if_splits)
  show "v = 0 \<or> v = 1 \<Longrightarrow> AsnIntegerBuild dl t v = Some (out, dl') \<Longrightarrow> length out = 3"
    by (auto simp: AsnIntegerBuild_def t put_value_def split: option.splits if_splits dest!: h)
qed

lemma octets_length:
  assumes "AsnOctetStringBuild dl t (Some s) n = Some (out, dl')" "unat n \<le> length s" "unat n < 128"
  shows "length out = unat n + 2" "object t out (take (unat n) s)" "unat dl = unat dl' + length out"
proof -
  have p: "put_value dl t (unat n) (take (unat n) s) = Some (out, dl')" using assms(1) octets_put_value(1) [OF assms(2)] by simp
  have "n < 0x80" using assms(3) by (simp add: word_less_nat_alt)
  then have "AsnHeaderBuild dl t n = Some (hdr, dl1) \<Longrightarrow> length hdr = 2" for hdr dl1
    by (auto simp: AsnHeaderBuild_def AsnLenBuild_def split: if_splits)
  then show "length out = unat n + 2" using p assms(2) by (auto simp: put_value_def split: option.splits if_splits)
  show "object t out (take (unat n) s)" "unat dl = unat dl' + length out" using put_object [OF p] assms(2,3) by auto
qed

lemma auth_built:
  assumes "SnmpAuthBuild sess len ml = Some (auth, len')" "sess_version sess = 0 \<or> sess_version sess = 1"
    "unat (sess_id_len sess) \<le> length (sess_id sess)" "unat (sess_id_len sess) < 128"
  obtains h i os l1 l2 where "auth = h @ i @ os" "length h = 4" "AsnSequenceBuild len 0x30 (ml + sess_id_len sess + 5) = Some (h, l1)"
    "AsnIntegerBuild l1 0x02 (sess_version sess) = Some (i, l2)" "length i = 3" "object 0x04 os (take (unat (sess_id_len sess)) (sess_id sess))"
    "length os = unat (sess_id_len sess) + 2" "unat len = unat len' + length auth"
proof -
  obtain h i os l1 l2 where b: "AsnSequenceBuild len 0x30 (ml + sess_id_len sess + 5) = Some (h, l1)" "AsnIntegerBuild l1 0x02 (sess_version sess) = Some (i, l2)"
    "AsnOctetStringBuild l2 0x04 (Some (sess_id sess)) (sess_id_len sess) = Some (os, len')" "auth = h @ i @ os"
    using assms(1) by (auto simp: SnmpAuthBuild_def split: option.splits)
  show thesis using that [OF b(4) _ b(1,2)] AsnSequenceBuild_size [OF b(1)] version_int [OF assms(2) b(2)] number_sizes(1) [OF b(2)]
      octets_length [OF b(3) assms(3,4)] b(4) by simp
qed

lemma short_put_value: "n < 128 \<Longrightarrow> n + 2 \<le> unat dl \<Longrightarrow> \<exists>out dl'. put_value dl t n bs = Some (out, dl')"
proof -
  assume n: "n < 128" "n + 2 \<le> unat dl"
  have u: "unat (word_of_nat n :: u32) = n" using n(1) by (intro unat_u32) simp
  then have "AsnHeaderBuild dl t (word_of_nat n) = Some ([t, ucast (word_of_nat n :: u32)], dl - 1 - 1)"
    using n by (simp add: AsnHeaderBuild_def AsnLenBuild_def word_less_nat_alt unat_sub word_le_nat_alt)
  moreover have "unat (dl - 1 - 1) = unat dl - 2" using n(2) by (simp add: unat_sub word_le_nat_alt)
  ultimately show ?thesis using n u by (simp add: put_value_def word_less_nat_alt)
qed

lemma auth_builds:
  assumes "sess_version sess = 0 \<or> sess_version sess = 1" "unat (sess_id_len sess) \<le> length (sess_id sess)" "unat (sess_id_len sess) < 128"
    "9 + unat (sess_id_len sess) \<le> unat len"
  shows "\<exists>auth len'. SnmpAuthBuild sess len ml = Some (auth, len')"
proof -
  have t: "trim_loop 4 0 = (1, 0)" "trim_loop 4 1 = (1, 0x1000000)" by code_simp+
  obtain h l1 where h: "AsnSequenceBuild len 0x30 (ml + sess_id_len sess + 5) = Some (h, l1)"
    using assms(4) by (simp add: AsnSequenceBuild_def word_less_nat_alt)
  then have l1: "unat len = unat l1 + 4" using AsnSequenceBuild_size by blast
  obtain i l2 where i: "AsnIntegerBuild l1 0x02 (sess_version sess) = Some (i, l2)"
    using assms(1,4) l1 short_put_value [of 1 l1 "0x02" "[0]"] short_put_value [of 1 l1 "0x02" "[1]"] by (auto simp: AsnIntegerBuild_def t)
  then have "unat l1 = unat l2 + 3" using number_sizes(1) [OF i] version_int [OF assms(1) i] by simp
  then obtain os l3 where "AsnOctetStringBuild l2 0x04 (Some (sess_id sess)) (sess_id_len sess) = Some (os, l3)"
    using assms(3,4) l1 short_put_value [of "unat (sess_id_len sess)" l2 "0x04" "take (unat (sess_id_len sess)) (sess_id sess)"] octets_put_value(1) [OF assms(2)] by auto
  then show ?thesis using h i by (simp add: SnmpAuthBuild_def)
qed

lemma auth_parsed:
  assumes "SnmpAuthBuild sess len (word_of_nat (length rest)) = Some (auth, len')" "sess_version sess = 0 \<or> sess_version sess = 1"
    "unat (sess_id_len sess) \<le> 32" "0 < unat (sess_id_len sess)" "length (sess_id sess) = 33" "length buf = 33" "length auth + length rest \<le> 0xFFFF"
  shows "\<exists>sid. SnmpAuthParse (auth @ rest @ m) (word_of_nat (length auth + length rest)) buf 32
      = Obj ((sess_version sess, sid, sess_id_len sess), rest @ m, word_of_nat (length rest))
    \<and> take (unat (sess_id_len sess)) sid = take (unat (sess_id_len sess)) (sess_id sess)"
proof -
  let ?n = "unat (sess_id_len sess)"
  have n: "?n \<le> length (sess_id sess)" "?n < 128" using assms(3,5) by simp_all
  obtain h i os l1 l2 where b: "auth = h @ i @ os" "length h = 4"
    "AsnSequenceBuild len 0x30 (word_of_nat (length rest) + sess_id_len sess + 5) = Some (h, l1)"
    "AsnIntegerBuild l1 0x02 (sess_version sess) = Some (i, l2)" "length i = 3" "object 0x04 os (take ?n (sess_id sess))" "length os = ?n + 2"
    "unat len = unat len' + length auth"
    by (rule auth_built [OF assms(1,2) n])
  let ?c = "i @ os @ rest"
  have c: "length ?c = length rest + ?n + 5" "length ?c \<le> 0xFFFF" using b assms(7) by simp_all
  have len: "word_of_nat (length rest) + sess_id_len sess + 5 = (word_of_nat (length ?c) :: u32)" unfolding c(1) by simp
  have "object 0x30 (auth @ rest) ?c"
    using sequence_header(2,3) [OF b(3) [unfolded len] c(2)] unfolding object_def b(1) by auto
  moreover have "length (auth @ rest) \<le> unat (word_of_nat (length auth + length rest) :: u32)" using assms(7) by (subst unat_u32) simp_all
  ultimately have seq: "AsnSequenceParse (auth @ rest @ m) (word_of_nat (length auth + length rest)) 0x30 = Obj (i @ os @ rest @ m, word_of_nat (length ?c))"
    using header_parse_object [of "0x30" "auth @ rest" ?c _ m] by (simp add: AsnSequenceParse_def)
  have "length i \<le> unat (word_of_nat (length ?c) :: u32)" using c by (subst unat_u32) simp_all
  from asn_integer.parse_built [of l1 "(0x02, sess_version sess)" i l2, simplified, OF b(4) this, of "os @ rest @ m"]
  have int: "AsnIntegerParse (i @ os @ rest @ m) (word_of_nat (length ?c)) = Obj ((0x02, sess_version sess), os @ rest @ m, word_of_nat (length (os @ rest)))"
    by simp
  have "length os \<le> unat (word_of_nat (length (os @ rest)) :: u32)" using c by (subst unat_u32) simp_all
  moreover have "length (take ?n (sess_id sess)) = ?n" "sess_id_len sess \<le> 32" "sess_id_len sess \<noteq> 0" using assms(3,4,5) by (auto simp: word_le_nat_alt)
  ultimately have oct: "AsnOctetStringParse (os @ rest @ m) (word_of_nat (length (os @ rest))) 32
      = Obj ((0x04, take ?n (sess_id sess), sess_id_len sess), rest @ m, word_of_nat (length rest))"
    using octets_parsed [OF b(6), of _ "sess_id_len sess" 32 "rest @ m"] by simp
  show ?thesis unfolding SnmpAuthParse_def seq asn_bind.simps prod.case int oct Let_def using assms(3,5,6) by auto
qed

lemma ints_parsed:
  assumes "response_ints ol reqid = Some (ints, ol')"
  shows "length ints + length vars \<le> 0xFFFF \<Longrightarrow> request_ints (ints @ vars @ m) (word_of_nat (length ints + length vars)) = Obj ((reqid, 0, 0), vars @ m, word_of_nat (length vars))"
    "unat ol = unat ol' + length ints"
proof -
  obtain b1 l1 b2 l2 b3 where b: "AsnIntegerBuild ol 0x02 reqid = Some (b1, l1)" "AsnIntegerBuild l1 0x02 0 = Some (b2, l2)"
    "AsnIntegerBuild l2 0x02 0 = Some (b3, ol')" "ints = b1 @ b2 @ b3" using assms(1) by (auto simp: response_ints_def split: option.splits)
  show "unat ol = unat ol' + length ints" using number_sizes(1) [OF b(1)] number_sizes(1) [OF b(2)] number_sizes(1) [OF b(3)] b(4) by simp
  have one: "AsnIntegerParse (bs @ rest) (word_of_nat (length bs + n)) = Obj ((0x02, v), rest, word_of_nat n)"
    if "AsnIntegerBuild dl 0x02 v = Some (bs, dl')" "length bs + n \<le> 0xFFFF" for dl v bs dl' rest n
  proof -
    have "length bs \<le> unat (word_of_nat (length bs + n) :: u32)" using that(2) by (subst unat_u32) simp_all
    from asn_integer.parse_built [of dl "(0x02, v)" bs dl', simplified, OF that(1) this, of rest] show ?thesis by simp
  qed
  assume "length ints + length vars \<le> 0xFFFF"
  then have n: "length b1 + (length b2 + (length b3 + length vars)) \<le> 0xFFFF" using b(4) by simp
  have s: "ints @ vars @ m = b1 @ b2 @ b3 @ vars @ m" "length ints + length vars = length b1 + (length b2 + (length b3 + length vars))" using b(4) by simp_all
  show "request_ints (ints @ vars @ m) (word_of_nat (length ints + length vars)) = Obj ((reqid, 0, 0), vars @ m, word_of_nat (length vars))"
    unfolding request_ints_def s using n one [OF b(1)] one [OF b(2)] one [OF b(3)] by (simp del: of_nat_add)
qed

text \<open>What a message must be to answer a request: version, community and request identifier are those of the request.\<close>

definition answers_request :: "SNMP_SESSION \<Rightarrow> u32 \<Rightarrow> u8 list \<Rightarrow> u8 list \<Rightarrow> bool" where
  "answers_request sess reqid vars msg \<longleftrightarrow>
     (\<exists>sid b1 c1 b2 c2. SnmpAuthParse msg (word_of_nat (length msg)) (replicate 33 0) 32 = Obj ((sess_version sess, sid, sess_id_len sess), b1, c1)
        \<and> take (unat (sess_id_len sess)) sid = take (unat (sess_id_len sess)) (sess_id sess)
        \<and> AsnHeaderParse b1 c1 = Obj (0xA2, b2, c2)
        \<and> request_ints b2 c2 = Obj ((reqid, 0, 0), vars, word_of_nat (length vars)))"

lemma get_answer_ok:
  assumes "get_answer mem app sess r msgtype data len ol errindex m in_len auth ints ag = Obj (Some msg, ag')"
    "SnmpVarListParse mem app sess r data len ol errindex msgtype 0 ag = Obj ((0, idx, vars), ag1)"
    "SnmpAuthBuild sess out_len 0 = Some (auth, o1)" "response_ints o2 reqid = Some (ints, ol)"
    "sess_version sess = 0 \<or> sess_version sess = 1" "unat (sess_id_len sess) \<le> 32" "0 < unat (sess_id_len sess)" "length (sess_id sess) = 33"
    "length auth + 4 + length ints + length vars \<le> 0xFFFF"
  shows "answers_request sess reqid vars msg \<and> length msg = length auth + 4 + length ints + length vars"
proof -
  let ?n = "length ints + length vars"
  obtain hdr dl where h: "AsnSequenceBuild (word_of_nat (4 + ?n)) 0xA2 (word_of_nat ?n) = Some (hdr, dl)"
    using assms(9) unfolding AsnSequenceBuild_def by (simp add: word_less_nat_alt unat_u32 del: of_nat_add)
  have n: "?n \<le> 0xFFFF" using assms(9) by simp
  note s = sequence_header [OF h n]
  let ?rest = "hdr @ ints @ vars"
  have rest: "length ?rest = 4 + ?n" using s(1) by simp
  have id: "unat (sess_id_len sess) \<le> length (sess_id sess)" "unat (sess_id_len sess) < 128" using assms(6,8) by simp_all
  have auth_len: "length x = 9 + unat (sess_id_len sess)" if "SnmpAuthBuild sess l ml = Some (x, l')" for x l ml l'
    by (rule auth_built [OF that assms(5) id]) simp
  have "9 + unat (sess_id_len sess) \<le> unat (word_of_nat (length (auth @ ?rest)) :: u32)"
    using auth_len [OF assms(3)] assms(9) rest by (subst unat_u32) simp_all
  from auth_builds [OF assms(5) id this, of "word_of_nat (length ?rest)"] obtain auth' l where
    a: "SnmpAuthBuild sess (word_of_nat (length (auth @ ?rest))) (word_of_nat (length ?rest)) = Some (auth', l)" by blast
  have len: "length auth' = length auth" using auth_len [OF a] auth_len [OF assms(3)] by simp
  have msg: "msg = auth' @ ?rest"
    using assms(1) h a len s(1) unfolding get_answer_def assms(2) by (simp add: Let_def put_bytes_def rest del: of_nat_add)
  have obj: "object 0xA2 ?rest (ints @ vars)" using s(2,3) by (auto simp: object_def)
  have "length auth' + length ?rest \<le> 0xFFFF" using len rest assms(9) by simp
  from auth_parsed [OF a assms(5,6,7,8) length_replicate this, of "[]"] obtain sid where
    sid: "SnmpAuthParse msg (word_of_nat (length msg)) (replicate 33 0) 32 = Obj ((sess_version sess, sid, sess_id_len sess), ?rest, word_of_nat (length ?rest))"
    "take (unat (sess_id_len sess)) sid = take (unat (sess_id_len sess)) (sess_id sess)" by (auto simp: msg)
  have "length ?rest \<le> unat (word_of_nat (length ?rest) :: u32)" using assms(9) rest by (subst unat_u32) simp_all
  from header_parse_object [OF obj _ this, of "[]"]
  have "AsnHeaderParse ?rest (word_of_nat (length ?rest)) = Obj (0xA2, ints @ vars, word_of_nat ?n)" by simp
  moreover have "request_ints (ints @ vars) (word_of_nat ?n) = Obj ((reqid, 0, 0), vars, word_of_nat (length vars))"
    using ints_parsed(1) [OF assms(4) n, of "[]"] by simp
  ultimately have "answers_request sess reqid vars msg" unfolding answers_request_def using sid by blast
  then show ?thesis using msg len rest by simp
qed

section \<open>Property\<close>

lemma octets_id: "AsnOctetStringParse d n 32 = Obj ((t, s, slen), m, l) \<Longrightarrow> 0 < unat slen \<and> unat slen \<le> 32"
  by (auto simp: AsnOctetStringParse_def bind_Obj word_less_nat_alt not_less unat_gt_0 split: if_splits)

lemma auth_parse_id:
  assumes "SnmpAuthParse data len sidp 32 = Obj ((version, sid, slen), d, l)" "length sidp = 33"
  shows "length sid = 33" "0 < unat slen" "unat slen \<le> 32"
  using assms by (auto simp: SnmpAuthParse_def bind_Obj Let_def split: if_splits dest!: octets_id)

definition session :: "SNMP_SESSION \<Rightarrow> u32 \<Rightarrow> u8 list \<Rightarrow> u32 \<Rightarrow> int \<Rightarrow> int \<Rightarrow> SNMP_SESSION" where
  "session sess version sid slen rv wv =
     sess\<lparr>sess_version := version, sess_id := sid, sess_id_len := slen, sess_read_view := rv, sess_write_view := wv\<rparr>"

lemma process_get:
  assumes "SnmpAgentProcessRequest mem app r tail sess in_data in_len out_len ag = Obj (Some msg, ag')"
    "SnmpAuthParse in_data in_len (sess_id sess) 32 = Obj ((version, sid, slen), d1, l1)"
    "AsnHeaderParse d1 l1 = Obj (msgtype, d2, l2)" "msgtype \<noteq> SNMP_MSG_SET" "request_ints d2 l2 = Obj ((reqid, es, ei), d3, l3)"
  obtains rv wv auth o1 o2 ints o3 hdr where "SnmpCommunityFind (c_string sid) (ag_config ag) = Some (rv, wv)" "version = 0 \<or> version = 1"
    "SnmpAuthBuild (session sess version sid slen rv wv) out_len 0 = Some (auth, o1)" "AsnSequenceBuild o1 0xA2 0 = Some (hdr, o2)"
    "response_ints o2 reqid = Some (ints, o3)"
    "get_answer mem app (session sess version sid slen rv wv) r msgtype d3 l3 o3 ei (take (unat in_len) in_data @ tail) in_len auth ints (ag_inc 0 ag) = Obj (Some msg, ag')"
  using assms unfolding SnmpAgentProcessRequest_def process_pdu_def Let_def session_def [symmetric]
  by (auto simp: SNMP_MSG_SET_def ag_inc_def split: if_splits option.splits)

lemma var_list_size:
  "SnmpVarListParse mem app sess r data len ol ei msgtype action ag = Obj ((0, idx, vars), ag') \<Longrightarrow> length vars \<le> unat ol"
  by (auto simp: SnmpVarListParse_def split: asn.splits option.splits if_splits prod.splits dest!: var_loop_size AsnSequenceBuild_size)


text \<open>A GET for one variable.\<close>

definition demo_get :: "u8 list" where
  "demo_get = [0x30, 0x21, 0x02, 1, 0, 0x04, 6, 0x70, 0x75, 0x62, 0x6C, 0x69, 0x63, 0xA0, 0x14, 0x02, 1, 42, 0x02, 1, 0, 0x02, 1, 0,
     0x30, 9, 0x30, 7, 0x06, 3, 0x2B, 6, 1, 0x05, 0]"

definition demo_app :: "unit snmp_app" where
  "demo_app = \<lparr>app_get = \<lambda>_ vp name exact. \<lparr>acc_value = Some [0x10, 0x27, 0, 0], acc_name = name, acc_len = 4, acc_wmethod = None\<rparr>,
     app_wmethod = \<lambda>_ _ _ _ _ _ a. (0, a), app_store = \<lambda>_ _ a. a\<rparr>"

definition demo_agent :: "unit agent" where
  "demo_agent = \<lparr>ag_stats = \<lambda>_. 0,
     ag_config = snd (SnmpCommunityCreate [0x70, 0x75, 0x62, 0x6C, 0x69, 0x63] 1 0 \<lparr>views = [], nextview = 1, communities = []\<rparr>),
     ag_mib = snd (SnmpMibRegister True [1, 3, 6] [\<lparr>var_magic = 0, var_type = 0x43, var_acl = 0xAAAA, var_name = [1]\<rparr>] []), ag_app = ()\<rparr>"

definition demo_session :: SNMP_SESSION where
  "demo_session = \<lparr>sess_version = 0, sess_id_len = 0, sess_id = replicate 33 0, sess_read_view = 0, sess_write_view = 0\<rparr>"

definition demo_locals :: mib_result where
  "demo_locals = \<lparr>mf_name = [], mf_type = 0, mf_len = 0, mf_acl = 0, mf_wmethod = None, mf_no_obj = False\<rparr>"

definition demo_answer :: "u8 list" where
  "demo_answer = [0x30, 0x82, 0, 0x29, 0x02, 1, 0, 0x04, 6, 0x70, 0x75, 0x62, 0x6C, 0x69, 0x63, 0xA2, 0x82, 0, 0x1A, 0x02, 1, 42, 0x02, 1, 0, 0x02, 1, 0,
     0x30, 0x82, 0, 0x0D, 0x30, 0x82, 0, 0x09, 0x06, 3, 0x2B, 6, 1, 0x43, 2, 0x27, 0x10]"

lemma demo_get_answered:
  "case SnmpAgentProcessRequest True demo_app demo_locals [] demo_session demo_get 35 500 demo_agent of Obj (Some msg, _) \<Rightarrow> msg = demo_answer | _ \<Rightarrow> False"
  by code_simp

lemma demo_get_parsed:
  "SnmpAuthParse demo_get 35 (sess_id demo_session) 32 = Obj ((0, [0x70, 0x75, 0x62, 0x6C, 0x69, 0x63] @ replicate 27 0, 6), drop 13 demo_get, 22)"
  "AsnHeaderParse (drop 13 demo_get) 22 = Obj (0xA0, drop 15 demo_get, 20)"
  "request_ints (drop 15 demo_get) 20 = Obj ((42, 0, 0), drop 24 demo_get, 11)"
  by code_simp+

definition demo_open :: SNMP_SESSION where
  "demo_open = session demo_session 0 ([0x70, 0x75, 0x62, 0x6C, 0x69, 0x63] @ replicate 27 0) 6 1 0"

lemma demo_community:
  "SnmpCommunityFind (c_string ([0x70, 0x75, 0x62, 0x6C, 0x69, 0x63] @ replicate 27 0)) (ag_config demo_agent) = Some (1, 0)"
  by code_simp

lemma demo_list:
  "case SnmpAuthBuild demo_open 500 0 of None \<Rightarrow> False | Some (auth, o1) \<Rightarrow>
     (case AsnSequenceBuild o1 0xA2 0 of None \<Rightarrow> False | Some (hdr, o2) \<Rightarrow>
        (case response_ints o2 42 of None \<Rightarrow> False | Some (ints, o3) \<Rightarrow>
           (case SnmpVarListParse True demo_app demo_open demo_locals (drop 24 demo_get) 11 o3 0 0xA0 0 (ag_inc 0 demo_agent) of
              Obj ((err, idx, vars), ag) \<Rightarrow> err = 0 \<and> vars = drop 28 demo_answer | _ \<Rightarrow> False)))"
  by code_simp


text \<open>
  A request whose PDU has its length coded in the long form, as the agent codes it itself, is answered with a wrong request identifier: the
  header is replaced by a shorter one, and the rest of the old one is taken for the start of the identifier. An empty list
  of variables, on the other hand, is answered as too big.
\<close>

definition demo_long :: "u8 list" where
  "demo_long = [0x30, 0x19, 0x02, 1, 0, 0x04, 6, 0x70, 0x75, 0x62, 0x6C, 0x69, 0x63, 0xA0, 0x81, 0x0B, 0x02, 1, 42, 0x02, 1, 0, 0x02, 1, 0, 0x30, 0]"

theorem long_form_answer_malformed:
  "case SnmpAgentProcessRequest True demo_app demo_locals [] demo_session demo_long 27 500 demo_agent of
     Obj (Some msg, _) \<Rightarrow> take 6 (drop 13 msg) = [0xA2, 0x0B, 0x0B, 0x02, 1, 42]
       \<and> (case request_ints (drop 15 msg) 11 of Obj ((reqid, errstat, _), _) \<Rightarrow> reqid = 0x012A \<and> errstat = 1 | _ \<Rightarrow> False)
   | _ \<Rightarrow> False"
  by code_simp

end
