(* ===== verification/Spec2Isabelle.thy ===== *)
theory Spec2Isabelle
  imports Nut_Sync Nut_Msg_Ring Nut_IpCsum Nut_Inet Nut_Base64 Nut_Ppp_Ip Nut_Tcp_Open Nut_Tcp_Write Nut_Tcp_Port Nut_Route Nut_Arp Nut_Xtea Nut_Time Nut_Snmp_Mib Nut_Snmp_Resp
begin

text \<open>
  Nut/OS and Nut/Net, a real time operating system and TCP/IP stack for small controllers. This is the
  root of a verification library for its core: the heap, the scheduler with its timers and event
  queues, synchronisation objects, TCP, ARP, the PPP control protocols, the SNMP agent, and the conversions they
  rely on.
  File names below are relative to \<^verbatim>\<open>src/nut\<close>.

  \<^bold>\<open>The parts and how they interact.\<close> A cooperative scheduler keeps ready threads in a queue ordered by
  priority. A thread gives up the processor when it yields, waits for an event, sleeps or ends, and
  every such call first delivers events posted by interrupts and runs the callbacks of elapsed timers.
  An event queue is a list of waiting threads or the mark of an event that has come before; a timeout is a timer
  whose callback puts the thread back. Thread control blocks, timers, messages and network buffers
  come from the heap. Mutexes, semaphores, condition variables and message queues are built on event
  queues. The TCP state machine is a thread that takes segments from the IP layer, finds their
  socket, runs the handler of the state of the connection and wakes up the threads of the
  application; it sends segments through the routing table. On an Ethernet interface ARP finds the hardware address of the
  next station and keeps it in a cache that ages. PPP negotiates a link by LCP,
  authenticates with PAP and negotiates addresses by IPCP. The SNMP agent decodes a request, looks up the
  variables it names in the table of the MIB, calls the functions of the application behind them and encodes the answer.

  \<^bold>\<open>Conventions.\<close> A C function is a HOL function of the same name on an explicit state. Pointers are
  natural numbers with 0 as null, or positions in a list. Machine integers are words, or numbers with
  the wrap-around written out. \<open>None\<close> is a run that does not return or leaves its memory; the
  properties state that the code returns. A call that blocks is split at the thread switch. Loops without a
  bound of their own are \<open>partial_function (option)\<close>, so that there is no fuel: termination is proved where
  the properties claim it. What is not under control of the code (memory that may be short, what the
  IP layer answers, the clock) is part of the state or an argument, and the properties hold for all
  its values.

  \<^bold>\<open>Prelude.\<close> \<open>Nut_Prelude\<close> has the collections of rewrite rules, unsigned arithmetic and alignment;
  \<open>Nut_Bytes\<close> the words put together from bytes.

  \<^bold>\<open>Heap\<close> (\<^verbatim>\<open>os/heap.c\<close>). \<open>Nut_Heap\<close> models the heap of a root as memory cells with the free list in it,
  the guard bytes included. \<open>Nut_Heap_Alloc\<close>, \<open>Nut_Heap_Free\<close> and \<open>Nut_Heap_Realloc\<close> relate each
  operation to the list of free areas, \<open>Nut_Alloc_Spec\<close> states what an allocator promises as a locale,
  and \<open>Nut_Heap_Props\<close> interprets it: allocation returns the best fit, blocks stay disjoint in every
  history, release merges neighbours and detects double frees, and a wrap-around of the size is shown.

  \<^bold>\<open>Kernel\<close> (\<^verbatim>\<open>os/thread.c\<close>, \<^verbatim>\<open>os/timer.c\<close>, \<^verbatim>\<open>os/event.c\<close>, \<^verbatim>\<open>os/msg.c\<close>, the Cortex-M port). \<open>Nut_Kernel\<close> has the
  state and the operations on queues, \<open>Nut_Timer\<close>, \<open>Nut_Sched\<close>, \<open>Nut_Event\<close> and \<open>Nut_Msg\<close> the operations of
  the files. \<open>Nut_Queue_Spec\<close> and \<open>Nut_Queue\<close> show that linked queues implement priority queues,
  \<open>Nut_Timer_List\<close> and \<open>Nut_Timer_Fire\<close> that the list of tick differences implements expiry times,
  \<open>Nut_Sched_Inv\<close>, \<open>Nut_Event_Inv\<close> and \<open>Nut_Wait\<close> carry the invariant of the scheduler through every operation, and
  \<open>Nut_Kernel_Props\<close> states the properties: who runs, who wakes up, what fires and when. \<open>Nut_Msg_Ring\<close> has the contract of a bounded queue
  as a locale and interprets it on the rings of message queues.

  \<^bold>\<open>Synchronisation\<close> (\<^verbatim>\<open>os/mutex.c\<close>, \<^verbatim>\<open>os/semaphore.c\<close>, \<^verbatim>\<open>os/condition.c\<close>). \<open>Nut_Sync\<close> models them on the kernel and
  proves mutual exclusion over all interleavings of an inductive step relation.

  \<^bold>\<open>TCP\<close> (\<^verbatim>\<open>net/tcpsm.c\<close>, \<^verbatim>\<open>net/tcpout.c\<close>, \<^verbatim>\<open>net/tcputil.c\<close>, \<^verbatim>\<open>net/tcpsock.c\<close>). \<open>Nut_Tcp\<close> has the socket with the global
  variables and every handler of the state machine; \<open>Nut_Tcp_Sock\<close> creation and reading;
  \<open>Nut_Tcp_Sys\<close> the list of sockets, backlog, opening, timers, garbage collection and dispatch.
  \<open>Nut_Tcp_Stream\<close> shows that the application reads the byte stream of the peer in order,
  \<open>Nut_Tcp_Send\<close> that the retransmission queue holds what is sent and not acknowledged,
  \<open>Nut_Tcp_Open\<close> what opens a connection, and the departures from the protocol that modelling showed;
  \<open>Nut_Tcp_Write\<close> has sending, the buffered device interface and the options of a socket, and shows that what is
  written is sent in order, nothing lost or twice, for every behaviour of the network that does not block a writer for ever;
  \<open>Nut_Tcp_Port\<close> that a segment reaches one socket only and that the search for a port ends. The
  bound of \<open>2 ^ 31\<close> bytes on a stream is where comparisons of sequence numbers stop being
  meaningful; the bound of 1092 sockets is the number of steps of at most 15 that fit into the 16384
  dynamic ports.

  \<^bold>\<open>Routing\<close> (\<^verbatim>\<open>net/route.c\<close>). \<open>Nut_Route\<close> states what a routing table promises as a locale and interprets it
  on the sorted list: the longest matching mask is found.

  \<^bold>\<open>ARP\<close> (\<^verbatim>\<open>net/arpcache.c\<close>, \<^verbatim>\<open>net/arpin.c\<close>, \<^verbatim>\<open>net/arpout.c\<close>). \<open>Nut_Arp\<close> has the cache with its aging, packets and queries; it shows what a
  query does whatever other threads do meanwhile, and that two stations find each other.

  \<^bold>\<open>PPP\<close> (\<^verbatim>\<open>net/pppsm.c\<close>, \<^verbatim>\<open>net/lcpin.c\<close>, \<^verbatim>\<open>net/lcpout.c\<close>, \<^verbatim>\<open>net/ipcpin.c\<close>, \<^verbatim>\<open>net/ipcpout.c\<close>, \<^verbatim>\<open>net/papin.c\<close>, \<^verbatim>\<open>net/papout.c\<close>).
  \<open>Nut_Ppp\<close> has the state machine, \<open>Nut_Ppp_In\<close> the input handlers, \<open>Nut_Ppp_Options\<close> and \<open>Nut_Ppp_Frame\<close>
  the loops over options and what handlers leave alone, \<open>Nut_Ppp_Props\<close> and \<open>Nut_Ppp_Ip\<close> the
  properties: when the link opens, that two ends agree, that a silent peer is given up, that buffers are
  released once, and where they are not.

  \<^bold>\<open>SNMP\<close> (\<^verbatim>\<open>pro/asn1.c\<close>, \<^verbatim>\<open>pro/snmp.c\<close>, \<^verbatim>\<open>pro/snmp_api.c\<close>, \<^verbatim>\<open>pro/snmp_auth.c\<close>, \<^verbatim>\<open>pro/snmp_config.c\<close>, \<^verbatim>\<open>pro/snmp_mib.c\<close>,
  \<^verbatim>\<open>pro/snmp_agent.c\<close>). \<open>Nut_Asn1\<close> has the parsers and builders; a read or write outside of the memory is a result of its
  own. \<open>Nut_Asn1_Int\<close> states the contract of a codec for numbers as a locale and interprets it on signed, unsigned and 64-bit
  numbers, \<open>Nut_Asn1_Oid\<close> has object identifiers and strings and the values that are not read back. \<open>Nut_Snmp\<close> models variables, views,
  communities and the MIB table, \<open>Nut_Snmp_Var\<close> and \<open>Nut_Snmp_Mib\<close> show that a variable is read back as it was sent and is found by its name.
  \<open>Nut_Snmp_Agent\<close> has the processing of requests, with the access functions and write methods of the application as a
  parameter, and \<open>Nut_Snmp_Resp\<close> shows that answers are well-formed.

  \<^bold>\<open>Conversions.\<close> \<open>Nut_IpCsum\<close> (\<^verbatim>\<open>net/ipcsum.c\<close>) compares the checksum with one's complement addition;
  \<open>Nut_Inet\<close> (\<^verbatim>\<open>net/inet.c\<close>, \<^verbatim>\<open>net/ether_addr.c\<close>), \<open>Nut_Base64\<close> (\<^verbatim>\<open>gorp/codec\<close>) and \<open>Nut_Xtea\<close>
  (\<^verbatim>\<open>gorp/crypt/xtea.c\<close>) have round trips; \<open>Nut_Time\<close> (\<^verbatim>\<open>crt/gmtime.c\<close>, \<^verbatim>\<open>crt/mktime.c\<close>) the ranges of a
  broken down time and its conversion back.

  \<^bold>\<open>Not modelled.\<close> Register contexts, stack frames and everything that touches hardware (\<^verbatim>\<open>arch\<close>, \<^verbatim>\<open>dev\<close>), as
  they have no meaning outside a machine model; the layers between sockets and drivers (IP, ICMP,
  IGMP, UDP), whose network buffers would have to be modelled as memory; the registration of a socket with \<^verbatim>\<open>select\<close>; the datagram
  loop of the SNMP agent and the SNMP client; file systems, other application protocols, standard I/O and local time;
  vendored code (\<^verbatim>\<open>tls\<close>, \<^verbatim>\<open>lua\<close>, \<^verbatim>\<open>crypto\<close>, \<^verbatim>\<open>contrib\<close>); tools, boot loaders, samples and tests. Debug
  output and configurations other than the default ones named in the theories are left out.
\<close>

end
